(* ===== verification/Fq_Prelude.thy ===== *)
theory Fq_Prelude
  imports Complex_Main "HOL-Library.AList" "HOL-Library.List_Lexorder" "HOL-Library.Char_ord"
begin

text \<open>
  Shared ground of the funduq development: the values Python code of the repository passes
  around (JSON-like data, insertion-ordered dictionaries), the identifiers of the model, the
  result type of fallible operations, and the lemmas on them the components use.

  A Python \<^verbatim>\<open>str\<close> is its UTF-8 byte sequence (\<^typ>\<open>string\<close>); code-point order and
  byte order of UTF-8 agree, so \<^verbatim>\<open>sorted\<close> on strings is \<^term>\<open>sort\<close> on them. A
  \<^verbatim>\<open>dict\<close> is an association list in insertion order: an update keeps the place of a key
  that is present and appends one that is not, as CPython's dict does.
\<close>

section \<open>Dictionaries\<close>

type_synonym ('k, 'v) dict = "('k \<times> 'v) list"

named_theorems dict_simps \<open>reading a dictionary after it was written\<close>
named_theorems frame_simps \<open>fields an operation leaves as they were\<close>

text \<open>Python's \<^verbatim>\<open>d.get(k)\<close>, \<^verbatim>\<open>d[k] = v\<close> and \<^verbatim>\<open>d.pop(k, None)\<close>.\<close>

abbreviation dget :: "('k, 'v) dict \<Rightarrow> 'k \<Rightarrow> 'v option" where
  "dget d k \<equiv> map_of d k"

abbreviation dput :: "'k \<Rightarrow> 'v \<Rightarrow> ('k, 'v) dict \<Rightarrow> ('k, 'v) dict" where
  "dput \<equiv> AList.update"

abbreviation dpop :: "'k \<Rightarrow> ('k, 'v) dict \<Rightarrow> ('k, 'v) dict" where
  "dpop \<equiv> AList.delete"

abbreviation dkeys :: "('k, 'v) dict \<Rightarrow> 'k list" where
  "dkeys d \<equiv> map fst d"

abbreviation dvalues :: "('k, 'v) dict \<Rightarrow> 'v list" where
  "dvalues d \<equiv> map snd d"

lemma dget_dput [simp, dict_simps]: "dget (dput k v d) k' = (if k' = k then Some v else dget d k')"
  by (simp add: update_conv')

lemma dget_dpop [simp, dict_simps]: "dget (dpop k d) k' = (if k' = k then None else dget d k')"
  by (simp add: delete_conv')

lemma dget_None_keys: "dget d k = None \<longleftrightarrow> k \<notin> set (dkeys d)"
  by (simp add: map_of_eq_None_iff image_iff)

lemma set_keys_dput: "set (dkeys (dput k v d)) = insert k (set (dkeys d))"
  by (induction d) auto

lemma set_keys_dpop: "set (dkeys (dpop k d)) = set (dkeys d) - {k}"
  by (induction d) (auto simp: AList.delete_eq)

lemma dput_new: "dget d k = None \<Longrightarrow> dput k v d = d @ [(k, v)]"
  by (induction d) (auto split: if_splits)

lemma distinct_keys_dput: "distinct (dkeys d) \<Longrightarrow> distinct (dkeys (dput k v d))"
  by (rule distinct_update)

lemma distinct_keys_dpop: "distinct (dkeys d) \<Longrightarrow> distinct (dkeys (dpop k d))"
  by (rule distinct_delete)

lemma dget_Some_in: "dget d k = Some v \<Longrightarrow> (k, v) \<in> set d"
  by (rule map_of_SomeD)

text \<open>
  The dictionary interface the components program against: what a read gives after a write.
  The client lemmas are proved once from these laws.
\<close>

locale py_dict =
  fixes get :: "'d \<Rightarrow> 'k \<Rightarrow> 'v option"
    and put :: "'k \<Rightarrow> 'v \<Rightarrow> 'd \<Rightarrow> 'd"
    and pop :: "'k \<Rightarrow> 'd \<Rightarrow> 'd"
  assumes get_put: "get (put k v d) k' = (if k' = k then Some v else get d k')"
    and get_pop: "get (pop k d) k' = (if k' = k then None else get d k')"
begin

lemma put_put_get: "get (put k v (put k u d)) = get (put k v d)"
  by (rule ext) (simp add: get_put)

lemma pop_put_get: "get (pop k (put k v d)) = get (pop k d)"
  by (rule ext) (simp add: get_put get_pop)

lemma put_commute_get: "k \<noteq> k' \<Longrightarrow> get (put k v (put k' u d)) = get (put k' u (put k v d))"
  by (rule ext) (simp add: get_put)

lemma pop_all_get: "get (fold pop ks d) k = (if k \<in> set ks then None else get d k)"
  by (induction ks arbitrary: d) (simp_all add: get_pop)

lemma put_all_get:
  "get (fold (\<lambda>k. put k v) ks d) k = (if k \<in> set ks then Some v else get d k)"
  by (induction ks arbitrary: d) (simp_all add: get_put)

end

interpretation alist_dict: py_dict map_of AList.update AList.delete
  by unfold_locales simp_all

section \<open>JSON values\<close>

datatype json =
    JNull
  | JBool bool
  | JNum rat
  | JStr string
  | JArr "json list"
  | JObj "(string \<times> json) list"

text \<open>Python truthiness (\<^verbatim>\<open>bool(v)\<close>) of a JSON value.\<close>

fun truthy :: "json \<Rightarrow> bool" where
  "truthy JNull = False"
| "truthy (JBool b) = b"
| "truthy (JNum q) = (q \<noteq> 0)"
| "truthy (JStr s) = (s \<noteq> [])"
| "truthy (JArr xs) = (xs \<noteq> [])"
| "truthy (JObj d) = (d \<noteq> [])"

text \<open>\<^verbatim>\<open>v.get(k)\<close> on a value known to be a dict, and \<^term>\<open>JNull\<close> (Python's None) otherwise.\<close>

definition jget :: "string \<Rightarrow> json \<Rightarrow> json" where
  "jget k v = (case v of JObj d \<Rightarrow> (case dget d k of Some x \<Rightarrow> x | None \<Rightarrow> JNull) | _ \<Rightarrow> JNull)"

definition jis_dict :: "json \<Rightarrow> bool" where
  "jis_dict v = (case v of JObj _ \<Rightarrow> True | _ \<Rightarrow> False)"

definition jis_str :: "json \<Rightarrow> bool" where
  "jis_str v = (case v of JStr _ \<Rightarrow> True | _ \<Rightarrow> False)"

definition jdict :: "json \<Rightarrow> (string, json) dict" where
  "jdict v = (case v of JObj d \<Rightarrow> d | _ \<Rightarrow> [])"

definition jlist :: "json \<Rightarrow> json list" where
  "jlist v = (case v of JArr xs \<Rightarrow> xs | _ \<Rightarrow> [])"

definition jstr :: "json \<Rightarrow> string" where
  "jstr v = (case v of JStr s \<Rightarrow> s | _ \<Rightarrow> [])"

definition jstr_opt :: "json \<Rightarrow> string option" where
  "jstr_opt v = (case v of JStr s \<Rightarrow> Some s | _ \<Rightarrow> None)"

text \<open>Python's \<^verbatim>\<open>a or b\<close>.\<close>

definition jor :: "json \<Rightarrow> json \<Rightarrow> json" where
  "jor a b = (if truthy a then a else b)"

definition jopt_str :: "string option \<Rightarrow> json" where
  "jopt_str s = (case s of None \<Rightarrow> JNull | Some x \<Rightarrow> JStr x)"

lemma jget_JObj [simp]:
  "jget k (JObj d) = (case dget d k of Some x \<Rightarrow> x | None \<Rightarrow> JNull)"
  by (simp add: jget_def)

lemma jget_not_dict [simp]: "\<not> jis_dict v \<Longrightarrow> jget k v = JNull"
  by (cases v) (simp_all add: jget_def jis_dict_def)

lemma jis_dict_JObj [simp]: "jis_dict (JObj d)"
  by (simp add: jis_dict_def)

lemma jstr_opt_simps [simp]: "jstr_opt (JStr s) = Some s" "jstr_opt JNull = None"
  by (simp_all add: jstr_opt_def)

lemma jopt_str_inverse [simp]: "jstr_opt (jopt_str s) = s"
  by (cases s) (simp_all add: jopt_str_def)

text \<open>The Python exceptions the modelled code can meet on ill-shaped data.\<close>

datatype py_error = KeyError string | AttributeError | TypeError | ValueError | IndexError

text \<open>\<^verbatim>\<open>d[k]\<close> on a dict, \<^verbatim>\<open>v.get(k)\<close> on any value, and iterating over a value.\<close>

definition py_sub :: "string \<Rightarrow> (string, json) dict \<Rightarrow> py_error + json" where
  "py_sub k d = (case dget d k of None \<Rightarrow> Inl (KeyError k) | Some v \<Rightarrow> Inr v)"

definition py_get :: "string \<Rightarrow> json \<Rightarrow> py_error + json" where
  "py_get k v = (case v of JObj d \<Rightarrow> Inr (jget k v) | _ \<Rightarrow> Inl AttributeError)"

fun py_iter :: "json \<Rightarrow> py_error + json list" where
  "py_iter (JArr xs) = Inr xs"
| "py_iter (JObj d) = Inr (map (JStr \<circ> fst) d)"
| "py_iter (JStr s) = Inr (map (\<lambda>c. JStr [c]) s)"
| "py_iter _ = Inl TypeError"

text \<open>Values that can be members of a set or keys of a dict.\<close>

fun hashable :: "json \<Rightarrow> bool" where
  "hashable (JArr _) = False"
| "hashable (JObj _) = False"
| "hashable _ = True"

definition dget_j :: "string \<Rightarrow> (string, json) dict \<Rightarrow> json" where
  "dget_j k d = (case dget d k of None \<Rightarrow> JNull | Some v \<Rightarrow> v)"

text \<open>An AG-UI event (or message) as it is stored: a dict.\<close>

type_synonym event = "(string, json) dict"

definition event_type :: "event \<Rightarrow> json" where
  "event_type e = dget_j ''type'' e"

section \<open>Identifiers\<close>

type_synonym key = string
type_synonym run_id = string
type_synonym thread_id = string
type_synonym time = int

text \<open>\<^verbatim>\<open>models.AgentRef\<close>: a frozen pair, equal iff both halves are.\<close>

record agent_ref =
  ar_provider_key :: key
  ar_name :: string

text \<open>\<^verbatim>\<open>models.LlmRef\<close>.\<close>

record llm_ref =
  lr_provider_key :: key
  lr_name :: string

section \<open>Lists, options and results\<close>

text \<open>The result of an operation that may raise: \<^term>\<open>Inl\<close> the error, \<^term>\<open>Inr\<close> the value.\<close>

type_synonym ('e, 'a) res = "'e + 'a"

definition rbind :: "('e, 'a) res \<Rightarrow> ('a \<Rightarrow> ('e, 'b) res) \<Rightarrow> ('e, 'b) res" where
  "rbind m f = (case m of Inl e \<Rightarrow> Inl e | Inr x \<Rightarrow> f x)"

definition check :: "bool \<Rightarrow> 'e \<Rightarrow> ('e, unit) res" where
  "check b e = (if b then Inr () else Inl e)"

lemma rbind_simps [simp]: "rbind (Inl e) f = Inl e" "rbind (Inr x) f = f x"
  by (simp_all add: rbind_def)

lemma rbind_Inr_iff: "rbind m f = Inr y \<longleftrightarrow> (\<exists>x. m = Inr x \<and> f x = Inr y)"
  by (cases m) simp_all

lemma check_Inr_iff [simp]: "check b e = Inr u \<longleftrightarrow> b"
  by (simp add: check_def)

lemma check_simps [simp]: "check True e = Inr ()" "check False e = Inl e"
  by (simp_all add: check_def)

lemma rbind_check [simp]: "rbind (check b e) f = (if b then f () else Inl e)"
  by (simp add: check_def)

text \<open>A Python loop whose body may raise: it stops at the first error.\<close>

fun mfold :: "('a \<Rightarrow> 's \<Rightarrow> ('e, 's) res) \<Rightarrow> 'a list \<Rightarrow> 's \<Rightarrow> ('e, 's) res" where
  "mfold f [] s = Inr s"
| "mfold f (x # xs) s = rbind (f x s) (mfold f xs)"

lemma mfold_append: "mfold f (xs @ ys) s = rbind (mfold f xs s) (mfold f ys)"
proof (induction xs arbitrary: s)
  case (Cons x xs)
  then show ?case by (cases "f x s") simp_all
qed simp

lemma mfold_invariant:
  assumes "mfold f xs s = Inr s'" "P s" "\<And>x t t'. x \<in> set xs \<Longrightarrow> P t \<Longrightarrow> f x t = Inr t' \<Longrightarrow> P t'"
  shows "P s'"
  using assms
proof (induction xs arbitrary: s)
  case (Cons x xs)
  from Cons.prems(1) obtain t where "f x s = Inr t" "mfold f xs t = Inr s'"
    by (auto simp: rbind_Inr_iff)
  with Cons show ?case by (metis list.set_intros(1,2))
qed simp

text \<open>\<^verbatim>\<open>deque.insert(min(1, len(q)), x)\<close>: behind the head, or alone in an empty queue.\<close>

definition insert_second :: "'a \<Rightarrow> 'a list \<Rightarrow> 'a list" where
  "insert_second x q = (case q of [] \<Rightarrow> [x] | y # ys \<Rightarrow> y # x # ys)"

lemma insert_second_simps [simp]:
  "insert_second x [] = [x]" "insert_second x (y # ys) = y # x # ys"
  by (simp_all add: insert_second_def)

lemma set_insert_second [simp]: "set (insert_second x q) = insert x (set q)"
  by (cases q) auto

lemma distinct_insert_second [simp]: "distinct (insert_second x q) \<longleftrightarrow> x \<notin> set q \<and> distinct q"
  by (cases q) auto

lemma set_remove1_distinct: "distinct xs \<Longrightarrow> set (remove1 x xs) = set xs - {x}"
  by simp

lemma set_tl_subset: "set (tl xs) \<subseteq> set xs"
  by (cases xs) auto

lemma card_insert_Collect:
  assumes "finite {x. P x}" and "\<not> P a"
  shows "card {x. P x \<or> x = a} = Suc (card {x. P x})"
proof -
  have "{x. P x \<or> x = a} = insert a {x. P x}" by auto
  then show ?thesis using assms by simp
qed

end
