(* ===== verification/Payloads.thy ===== *)
theory Payloads
  imports Fq_Prelude "HOL-Library.Multiset"
begin

text \<open>
  The bytes each party signs (\<^verbatim>\<open>funduq_contract/payloads.py\<close>), the fingerprint rules of
  \<^verbatim>\<open>signatures.py\<close>, and what a signature over one of these payloads commits its signer to:
  payloads of two kinds are never the same bytes, and within a kind the bytes determine the
  fields. SHA-256 and Ed25519 are code outside the repository: \<open>sha256_hex\<close> and \<open>ed25519_verify\<close>
  are parameters, and what a lemma needs of them is a named hypothesis.
\<close>

section \<open>Decimal integers, as f-strings print them\<close>

definition digit_char :: "nat \<Rightarrow> char" where
  "digit_char d = char_of (48 + d)"

fun nat_str :: "nat \<Rightarrow> string" where
  "nat_str n = (if n < 10 then [digit_char n] else nat_str (n div 10) @ [digit_char (n mod 10)])"

declare nat_str.simps [simp del]

definition int_str :: "int \<Rightarrow> string" where
  "int_str i = (if i < 0 then CHR ''-'' # nat_str (nat (- i)) else nat_str (nat i))"

section \<open>The payloads\<close>

definition KYOK_CALL :: string where "KYOK_CALL = ''funduq-kyok-call''"
definition CONNECT_PROVIDER :: string where "CONNECT_PROVIDER = ''funduq-connect-provider''"
definition CONNECT_FUNDUQ :: string where "CONNECT_FUNDUQ = ''funduq-connect-funduq''"
definition RESOLVE :: string where "RESOLVE = ''funduq-resolve''"
definition CANCEL :: string where "CANCEL = ''funduq-cancel''"
definition VIEW :: string where "VIEW = ''funduq-view''"

lemmas payload_tags = KYOK_CALL_def CONNECT_PROVIDER_def CONNECT_FUNDUQ_def RESOLVE_def
  CANCEL_def VIEW_def

abbreviation colon :: char where "colon \<equiv> CHR '':''"

definition provider_connect_payload :: "key \<Rightarrow> string \<Rightarrow> string \<Rightarrow> string" where
  "provider_connect_payload funduq_public_key funduq_nonce provider_nonce =
     CONNECT_PROVIDER @ [colon] @ funduq_public_key @ [colon] @ funduq_nonce @ [colon] @ provider_nonce"

definition funduq_connect_payload :: "string \<Rightarrow> string \<Rightarrow> string" where
  "funduq_connect_payload funduq_nonce provider_nonce =
     CONNECT_FUNDUQ @ [colon] @ funduq_nonce @ [colon] @ provider_nonce"

definition kyok_call_payload :: "string \<Rightarrow> int \<Rightarrow> string \<Rightarrow> string" where
  "kyok_call_payload bearer timestamp body_hash =
     KYOK_CALL @ [colon] @ bearer @ [colon] @ int_str timestamp @ [colon] @ body_hash"

text \<open>\<^verbatim>\<open>b"\x00".join(...)\<close>.\<close>

fun nul_join :: "string list \<Rightarrow> string" where
  "nul_join [] = []"
| "nul_join [x] = x"
| "nul_join (x # y # ys) = x @ CHR 0x00 # nul_join (y # ys)"

definition resolve_payload :: "(string \<Rightarrow> string) \<Rightarrow> run_id \<Rightarrow> string list \<Rightarrow> string" where
  "resolve_payload sha256_hex run_id ask_ids =
     RESOLVE @ [colon] @ run_id @ [colon] @ sha256_hex (nul_join (sort ask_ids))"

definition cancel_payload :: "run_id \<Rightarrow> int \<Rightarrow> string" where
  "cancel_payload run_id timestamp = CANCEL @ [colon] @ run_id @ [colon] @ int_str timestamp"

definition view_payload :: "run_id \<Rightarrow> int \<Rightarrow> string" where
  "view_payload run_id timestamp = VIEW @ [colon] @ run_id @ [colon] @ int_str timestamp"

lemmas payload_defs = provider_connect_payload_def funduq_connect_payload_def
  kyok_call_payload_def resolve_payload_def cancel_payload_def view_payload_def

section \<open>Signatures and fingerprints\<close>

definition FINGERPRINT_HEX_LENGTH :: nat where
  "FINGERPRINT_HEX_LENGTH = 16"

text \<open>
  \<^verbatim>\<open>bytes.fromhex\<close>: pairs of hex digits, ASCII whitespace between pairs skipped;
  \<^term>\<open>None\<close> is its ValueError.
\<close>

definition hex_digit :: "char \<Rightarrow> nat option" where
  "hex_digit c =
     (let n = of_char c in
      if 48 \<le> n \<and> n \<le> 57 then Some (n - 48)
      else if 97 \<le> n \<and> n \<le> 102 then Some (n - 87)
      else if 65 \<le> n \<and> n \<le> 70 then Some (n - 55) else None)"

definition is_hex_space :: "char \<Rightarrow> bool" where
  "is_hex_space c = (of_char c \<in> {9, 10, 11, 12, 13, 32 :: nat})"

fun bytes_fromhex :: "string \<Rightarrow> string option" where
  "bytes_fromhex [] = Some []"
| "bytes_fromhex (c # cs) =
     (if is_hex_space c then bytes_fromhex cs
      else case cs of [] \<Rightarrow> None
        | d # ds \<Rightarrow>
            (case (hex_digit c, hex_digit d) of
               (Some a, Some b) \<Rightarrow> map_option ((#) (char_of (16 * a + b))) (bytes_fromhex ds)
             | _ \<Rightarrow> None))"

text \<open>
  \<open>ed25519_verify raw_key raw_signature payload\<close> is True iff building the public key succeeds
  and \<^verbatim>\<open>verify\<close> does not raise; every failure the code catches is False.
\<close>

type_synonym ed25519 = "string \<Rightarrow> string \<Rightarrow> string \<Rightarrow> bool"

definition verify_signature :: "ed25519 \<Rightarrow> key \<Rightarrow> string \<Rightarrow> string \<Rightarrow> bool" where
  "verify_signature ed25519_verify public_key_hex signature_hex payload =
     (case (bytes_fromhex public_key_hex, bytes_fromhex signature_hex) of
        (Some k, Some s) \<Rightarrow> ed25519_verify k s payload
      | _ \<Rightarrow> False)"

text \<open>A key that is not hex makes \<^verbatim>\<open>provider_fingerprint\<close> raise ValueError: \<^term>\<open>None\<close>.\<close>

definition provider_fingerprint :: "(string \<Rightarrow> string) \<Rightarrow> key \<Rightarrow> string option" where
  "provider_fingerprint sha256_hex public_key =
     map_option (\<lambda>raw. take FINGERPRINT_HEX_LENGTH (sha256_hex raw)) (bytes_fromhex public_key)"

definition is_fingerprint :: "string \<Rightarrow> bool" where
  "is_fingerprint value \<longleftrightarrow> length value = FINGERPRINT_HEX_LENGTH"

section \<open>Facts about the encodings\<close>

lemma digit_char_inj: "m < 10 \<Longrightarrow> n < 10 \<Longrightarrow> digit_char m = digit_char n \<longleftrightarrow> m = n"
  by (auto simp: digit_char_def dest: arg_cong [where f = "of_char :: char \<Rightarrow> nat"])

lemma digit_char_not: "n < 10 \<Longrightarrow> digit_char n \<noteq> colon \<and> digit_char n \<noteq> CHR ''-''"
proof -
  assume n: "n < 10"
  have "of_char (digit_char n) = (48 + n :: nat)" using n by (simp add: digit_char_def)
  moreover have "of_char colon = (58 :: nat)" "of_char (CHR ''-'') = (45 :: nat)" by simp_all
  ultimately show ?thesis using n by fastforce
qed

lemma nat_str_chars: "c \<in> set (nat_str n) \<Longrightarrow> c \<noteq> colon \<and> c \<noteq> CHR ''-''"
proof (induction n rule: nat_str.induct)
  case (1 n)
  show ?case
  proof (cases "n < 10")
    case True
    with "1.prems" show ?thesis by (simp add: nat_str.simps [of n] digit_char_not)
  next
    case False
    then have "c \<in> set (nat_str (n div 10)) \<or> c = digit_char (n mod 10)"
      using "1.prems" by (auto simp: nat_str.simps [of n])
    then show ?thesis using "1.IH" [OF False] digit_char_not [of "n mod 10"] by auto
  qed
qed

lemma nat_str_not_Nil [simp]: "nat_str n \<noteq> []"
  by (subst nat_str.simps) simp

lemma nat_str_inj: "nat_str m = nat_str n \<Longrightarrow> m = n"
proof (induction m arbitrary: n rule: nat_str.induct)
  case (1 m)
  show ?case
  proof (cases "m < 10")
    case True
    with "1.prems" show ?thesis
      by (cases "n < 10") (simp_all add: nat_str.simps [of m] nat_str.simps [of n] digit_char_inj
          Cons_eq_append_conv)
  next
    case m: False
    show ?thesis
    proof (cases "n < 10")
      case True
      with m "1.prems" show ?thesis
        by (simp add: nat_str.simps [of m] nat_str.simps [of n] append_eq_Cons_conv)
    next
      case n: False
      with m "1.prems" have eq: "nat_str (m div 10) = nat_str (n div 10)"
        and d: "digit_char (m mod 10) = digit_char (n mod 10)"
        by (simp_all add: nat_str.simps [of m] nat_str.simps [of n])
      from "1.IH" [OF m eq] have "m div 10 = n div 10" .
      moreover from d have "m mod 10 = n mod 10" by (simp add: digit_char_inj)
      ultimately show ?thesis by (metis div_mult_mod_eq)
    qed
  qed
qed

lemma int_str_no_colon: "colon \<notin> set (int_str i)"
  by (auto simp: int_str_def dest: nat_str_chars)

lemma int_str_inj: "int_str i = int_str j \<Longrightarrow> i = j"
proof -
  have minus: "CHR ''-'' # xs \<noteq> nat_str n" for xs n
    using nat_str_chars [of "CHR ''-''" n] by (metis list.set_intros(1))
  assume "int_str i = int_str j"
  then show ?thesis
    by (auto simp: int_str_def minus minus [symmetric] dest!: nat_str_inj split: if_splits)
qed

text \<open>Two strings joined by a separator that the first (the last) part does not contain split uniquely.\<close>

lemma sep_first_unique:
  assumes "c \<notin> set x" "c \<notin> set x'" "x @ c # y = x' @ c # y'"
  shows "x = x' \<and> y = y'"
proof -
  have "takeWhile (\<lambda>a. a \<noteq> c) (z @ c # w) = z" "dropWhile (\<lambda>a. a \<noteq> c) (z @ c # w) = c # w"
    if "c \<notin> set z" for z w
    using that by (induction z) auto
  with assms show ?thesis by (metis list.inject)
qed

lemma sep_last_unique:
  assumes "c \<notin> set y" "c \<notin> set y'" "x @ c # y = x' @ c # y'"
  shows "x = x' \<and> y = y'"
proof -
  from assms(3) have "rev y @ c # rev x = rev y' @ c # rev x'"
    by (metis append_assoc append_Cons append_Nil rev.simps(2) rev_append)
  moreover have "c \<notin> set (rev y)" "c \<notin> set (rev y')" using assms(1,2) by simp_all
  ultimately have "rev y = rev y' \<and> rev x = rev x'" by (metis sep_first_unique)
  then show ?thesis by simp
qed

text \<open>A list of NUL-free strings is determined by its NUL-join, but for the empty list.\<close>

lemma nul_join_Cons: "nul_join (x # xs) = (if xs = [] then x else x @ CHR 0x00 # nul_join xs)"
  by (cases xs) simp_all

lemma nul_join_inj:
  assumes "\<forall>x \<in> set xs. x \<noteq> [] \<and> CHR 0x00 \<notin> set x" "\<forall>y \<in> set ys. y \<noteq> [] \<and> CHR 0x00 \<notin> set y"
    and "nul_join xs = nul_join ys"
  shows "xs = ys"
  using assms
proof (induction xs arbitrary: ys)
  case Nil
  then show ?case by (cases ys) (auto simp: nul_join_Cons split: if_splits)
next
  case (Cons x xs)
  show ?case
  proof (cases ys)
    case Nil
    with Cons.prems show ?thesis by (auto simp: nul_join_Cons split: if_splits)
  next
    case (Cons y zs)
    have x: "CHR 0x00 \<notin> set x" and y: "CHR 0x00 \<notin> set y"
      using Cons.prems Cons by auto
    have eq: "nul_join (x # xs) = nul_join (y # zs)" using Cons.prems(3) Cons by simp
    show ?thesis
    proof (cases "xs = []")
      case True
      with eq x have "zs = [] \<and> x = y" by (auto simp: nul_join_Cons split: if_splits)
      with True Cons show ?thesis by simp
    next
      case False
      with eq y have zs: "zs \<noteq> []" by (auto simp: nul_join_Cons split: if_splits)
      with eq False have "x @ CHR 0x00 # nul_join xs = y @ CHR 0x00 # nul_join zs"
        by (simp add: nul_join_Cons)
      from sep_first_unique [OF x y this] have "x = y" "nul_join xs = nul_join zs" by simp_all
      moreover have "xs = zs" by (rule Cons.IH) (use Cons.prems Cons calculation in auto)
      ultimately show ?thesis using Cons by simp
    qed
  qed
qed

lemma sort_eq_iff_mset: "sort xs = sort ys \<longleftrightarrow> mset xs = mset ys" for xs :: "string list"
  by (metis mset_sort properties_for_sort sorted_sort)

section \<open>What a signature over a payload commits to\<close>

text \<open>The six kinds of signed statement, with the fields the payload builders take.\<close>

datatype signed_act =
    ProviderConnect key string string
  | FunduqConnect string string
  | KyokCall string int string
  | Resolve run_id "string list"
  | CancelRun run_id int
  | ViewRun run_id int

fun payload_of :: "(string \<Rightarrow> string) \<Rightarrow> signed_act \<Rightarrow> string" where
  "payload_of H (ProviderConnect k t n) = provider_connect_payload k t n"
| "payload_of H (FunduqConnect t n) = funduq_connect_payload t n"
| "payload_of H (KyokCall b t h) = kyok_call_payload b t h"
| "payload_of H (Resolve r asks) = resolve_payload H r asks"
| "payload_of H (CancelRun r t) = cancel_payload r t"
| "payload_of H (ViewRun r t) = view_payload r t"

fun act_tag :: "signed_act \<Rightarrow> string" where
  "act_tag (ProviderConnect k t n) = CONNECT_PROVIDER"
| "act_tag (FunduqConnect t n) = CONNECT_FUNDUQ"
| "act_tag (KyokCall b t h) = KYOK_CALL"
| "act_tag (Resolve r asks) = RESOLVE"
| "act_tag (CancelRun r t) = CANCEL"
| "act_tag (ViewRun r t) = VIEW"

text \<open>
  The fields that are hex strings in the program (keys, tickets, hashes) hold no colon, and ask
  ids are non-empty and NUL-free.
\<close>

fun act_wf :: "signed_act \<Rightarrow> bool" where
  "act_wf (ProviderConnect k t n) = (colon \<notin> set k \<and> colon \<notin> set t)"
| "act_wf (FunduqConnect t n) = (colon \<notin> set t)"
| "act_wf (KyokCall b t h) = (colon \<notin> set h)"
| "act_wf (Resolve r asks) = (\<forall>a \<in> set asks. a \<noteq> [] \<and> CHR 0x00 \<notin> set a)"
| "act_wf (CancelRun r t) = True"
| "act_wf (ViewRun r t) = True"

text \<open>An answer is about a collection of asks, not about the order they were listed in.\<close>

fun act_norm :: "signed_act \<Rightarrow> signed_act" where
  "act_norm (Resolve r asks) = Resolve r (sort asks)"
| "act_norm a = a"

lemma payload_tagged: "\<exists>rest. payload_of H a = act_tag a @ colon # rest"
  by (cases a) (auto simp: payload_defs)

lemma act_tag_no_colon: "colon \<notin> set (act_tag a)"
  by (cases a) (simp_all add: payload_tags)

lemma payload_same_tag: "payload_of H a = payload_of H b \<Longrightarrow> act_tag a = act_tag b"
proof -
  assume eq: "payload_of H a = payload_of H b"
  obtain r where "payload_of H a = act_tag a @ colon # r" using payload_tagged by blast
  moreover obtain r' where "payload_of H b = act_tag b @ colon # r'" using payload_tagged by blast
  ultimately show ?thesis using eq sep_first_unique [OF act_tag_no_colon act_tag_no_colon] by metis
qed

lemma timed_payload_inj:
  "x @ colon # int_str t = x' @ colon # int_str t' \<Longrightarrow> x = x' \<and> t = t'"
  using sep_last_unique [OF int_str_no_colon int_str_no_colon] int_str_inj by blast

lemma kyok_call_payload_inj:
  assumes "colon \<notin> set h" "colon \<notin> set h'" "kyok_call_payload b t h = kyok_call_payload b' t' h'"
  shows "b = b' \<and> t = t' \<and> h = h'"
proof -
  from assms(3) have "(b @ colon # int_str t) @ colon # h = (b' @ colon # int_str t') @ colon # h'"
    by (simp add: kyok_call_payload_def)
  from sep_last_unique [OF assms(1,2) this] show ?thesis using timed_payload_inj by blast
qed

lemma provider_connect_payload_inj:
  assumes "colon \<notin> set k" "colon \<notin> set t" "colon \<notin> set k'" "colon \<notin> set t'"
    and "provider_connect_payload k t n = provider_connect_payload k' t' n'"
  shows "k = k' \<and> t = t' \<and> n = n'"
proof -
  from assms(5) have "k @ colon # (t @ colon # n) = k' @ colon # (t' @ colon # n')"
    by (simp add: provider_connect_payload_def)
  from sep_first_unique [OF assms(1,3) this] show ?thesis
    using sep_first_unique [OF assms(2,4)] by blast
qed

lemma funduq_connect_payload_inj:
  assumes "colon \<notin> set t" "colon \<notin> set t'"
    and "funduq_connect_payload t n = funduq_connect_payload t' n'"
  shows "t = t' \<and> n = n'"
  using sep_first_unique [OF assms(1,2)] assms(3) by (simp add: funduq_connect_payload_def)

lemma cancel_payload_inj: "cancel_payload r t = cancel_payload r' t' \<Longrightarrow> r = r' \<and> t = t'"
  using timed_payload_inj by (simp add: cancel_payload_def)

lemma view_payload_inj: "view_payload r t = view_payload r' t' \<Longrightarrow> r = r' \<and> t = t'"
  using timed_payload_inj by (simp add: view_payload_def)

lemma resolve_payload_inj:
  assumes hex: "\<And>s. colon \<notin> set (H s)" and cf: "\<And>x y. H x = H y \<Longrightarrow> x = y"
    and wf: "act_wf (Resolve r asks)" "act_wf (Resolve r' asks')"
    and eq: "resolve_payload H r asks = resolve_payload H r' asks'"
  shows "r = r' \<and> sort asks = sort asks'"
proof -
  from eq have "r @ colon # H (nul_join (sort asks)) = r' @ colon # H (nul_join (sort asks'))"
    by (simp add: resolve_payload_def)
  then have "r = r'" and "H (nul_join (sort asks)) = H (nul_join (sort asks'))"
    using sep_last_unique [OF hex hex] by blast+
  moreover from this(2) have "sort asks = sort asks'" using wf cf by (auto intro!: nul_join_inj)
  ultimately show ?thesis by simp
qed

text \<open>
  C20. A signed payload commits its signer to one statement. If two well-formed statements
  (connect, answer, cancel, view, KYOK call; ask ids non-empty and NUL-free, hex fields
  colon-free) are the same bytes, they are of the same kind and have the same fields, an answer's
  asks up to the order they were listed in. The digest is assumed to print hex (no colon) and to
  be collision-free.
\<close>

theorem payload_determines_act:
  assumes digest_hex: "\<And>s. colon \<notin> set (sha256_hex s)"
    and digest_collision_free: "\<And>x y. sha256_hex x = sha256_hex y \<Longrightarrow> x = y"
    and wf: "act_wf a" "act_wf b"
    and same_bytes: "payload_of sha256_hex a = payload_of sha256_hex b"
  shows "act_norm a = act_norm b"
proof -
  have tag: "act_tag a = act_tag b" using payload_same_tag same_bytes by blast
  show ?thesis
  proof (cases a)
    case (Resolve r asks)
    with tag obtain r' asks' where b: "b = Resolve r' asks'" by (cases b) (simp_all add: payload_tags)
    from same_bytes Resolve b have "resolve_payload sha256_hex r asks = resolve_payload sha256_hex r' asks'"
      by simp
    from resolve_payload_inj [OF digest_hex digest_collision_free _ _ this] show ?thesis
      using wf Resolve b by simp
  next
    case (ProviderConnect k t n)
    with tag obtain k' t' n' where b: "b = ProviderConnect k' t' n'"
      by (cases b) (simp_all add: payload_tags)
    show ?thesis
      using provider_connect_payload_inj [of k t k' t' n n'] same_bytes wf
      by (simp add: ProviderConnect b)
  next
    case (FunduqConnect t n)
    with tag obtain t' n' where b: "b = FunduqConnect t' n'"
      by (cases b) (simp_all add: payload_tags)
    show ?thesis
      using funduq_connect_payload_inj [of t t' n n'] same_bytes wf by (simp add: FunduqConnect b)
  next
    case (KyokCall c t h)
    with tag obtain c' t' h' where b: "b = KyokCall c' t' h'"
      by (cases b) (simp_all add: payload_tags)
    show ?thesis
      using kyok_call_payload_inj [of h h' c t c' t'] same_bytes wf by (simp add: KyokCall b)
  next
    case (CancelRun r t)
    with tag obtain r' t' where b: "b = CancelRun r' t'"
      by (cases b) (simp_all add: payload_tags)
    show ?thesis using cancel_payload_inj [of r t r' t'] same_bytes by (simp add: CancelRun b)
  next
    case (ViewRun r t)
    with tag obtain r' t' where b: "b = ViewRun r' t'"
      by (cases b) (simp_all add: payload_tags)
    show ?thesis using view_payload_inj [of r t r' t'] same_bytes by (simp add: ViewRun b)
  qed
qed

text \<open>A colon-free, collision-free stand-in for the digest, to show the hypotheses can hold.\<close>

definition demo_digest :: "string \<Rightarrow> string" where
  "demo_digest s = concat (map (\<lambda>c. if c = colon then ''bb'' else [CHR ''a'', c]) s)"

lemma demo_digest_hex: "colon \<notin> set (demo_digest s)"
  by (induction s) (auto simp: demo_digest_def)

lemma demo_digest_inj: "demo_digest x = demo_digest y \<Longrightarrow> x = y"
proof (induction x arbitrary: y)
  case Nil
  then show ?case by (cases y) (auto simp: demo_digest_def split: if_splits)
next
  case (Cons c x)
  then show ?case by (cases y) (auto simp: demo_digest_def split: if_splits)
qed

theorem payload_determines_act_witness:
  "act_norm (Resolve ''run_1'' [''b'', ''a'']) = act_norm (Resolve ''run_1'' [''a'', ''b''])"
proof (rule payload_determines_act [where sha256_hex = demo_digest])
  show "colon \<notin> set (demo_digest s)" for s by (rule demo_digest_hex)
  show "x = y" if "demo_digest x = demo_digest y" for x y using that by (rule demo_digest_inj)
  show "act_wf (Resolve ''run_1'' [''b'', ''a''])" "act_wf (Resolve ''run_1'' [''a'', ''b''])" by auto
  show "payload_of demo_digest (Resolve ''run_1'' [''b'', ''a'']) =
        payload_of demo_digest (Resolve ''run_1'' [''a'', ''b''])"
    by (simp add: resolve_payload_def)
qed

end
