(* ===== verification/Chain.thy ===== *)
theory Chain
  imports Payloads
begin

text \<open>
  The actor chain (\<^verbatim>\<open>funduq_contract/chain.py\<close>): how hops are built, and what verifying a chain
  proves. A hop is a JWT; PyJWT, Ed25519 and SHA-256 are code outside the repository and enter as
  the fields of \<open>chain_crypto\<close>. The lemmas show what acceptance means hop by hop, that a chain
  built by the builders is accepted and keeps its head, and that the last hop of an accepted
  chain fixes every hop before it.
\<close>

section \<open>The crypto the code calls\<close>

text \<open>
  \<open>jwt_decode\<close> is \<^verbatim>\<open>jwt.decode(token, options={"verify_signature": False})\<close>, \<^term>\<open>None\<close> its
  PyJWTError; \<open>jwt_verifies raw_key token\<close> says that decoding with that key and EdDSA does not
  raise; \<open>ed_key_ok\<close> that \<^verbatim>\<open>Ed25519PublicKey.from_public_bytes\<close> accepts the bytes; \<open>jwt_encode\<close>
  signs claims with a private key; \<open>public_hex\<close> is the hex public key of a private key.
\<close>

record 'priv chain_crypto =
  jwt_decode :: "string \<Rightarrow> (string, json) dict option"
  jwt_verifies :: "string \<Rightarrow> string \<Rightarrow> bool"
  ed_key_ok :: "string \<Rightarrow> bool"
  cc_sha256_hex :: "string \<Rightarrow> string"
  jwt_encode :: "'priv \<Rightarrow> (string, json) dict \<Rightarrow> string"
  public_hex :: "'priv \<Rightarrow> key"

section \<open>Hops\<close>

datatype chain_error =
    EmptyChain
  | Unparseable nat
  | MissingActorPublicKey nat
  | PrevHashNotString nat
  | DispatchedToNotObject nat
  | DispatchedToFields nat
  | MalformedActorPublicKey nat
  | SignatureCheckFailed nat
  | PrevHashMismatch nat
  | WitnessSignsAsParty nat
  | NotTheNamedParty nat

record dispatch_target =
  dt_provider_key :: key
  dt_name :: string

record hop =
  actor_public_key :: key
  prev_hash :: "string option"
  dispatched_to :: "dispatch_target option"

definition parse_dispatched_to ::
  "nat \<Rightarrow> (string, json) dict \<Rightarrow> (chain_error, dispatch_target option) res" where
  "parse_dispatched_to index payload =
     (case dget payload ''dispatchedTo'' of
        None \<Rightarrow> Inr None
      | Some claimed \<Rightarrow>
          if \<not> jis_dict claimed then Inl (DispatchedToNotObject index)
          else (case (jget ''providerKey'' claimed, jget ''name'' claimed) of
                  (JStr pk, JStr n) \<Rightarrow> Inr (Some \<lparr>dt_provider_key = pk, dt_name = n\<rparr>)
                | _ \<Rightarrow> Inl (DispatchedToFields index)))"

definition parse_hop :: "nat \<Rightarrow> (string, json) dict \<Rightarrow> (chain_error, hop) res" where
  "parse_hop index payload =
     (case jget ''actorPublicKey'' (JObj payload) of
        JStr actor \<Rightarrow>
          (case jget ''prevHash'' (JObj payload) of
             JNull \<Rightarrow> rbind (parse_dispatched_to index payload) (\<lambda>d.
               Inr \<lparr>actor_public_key = actor, prev_hash = None, dispatched_to = d\<rparr>)
           | JStr h \<Rightarrow> rbind (parse_dispatched_to index payload) (\<lambda>d.
               Inr \<lparr>actor_public_key = actor, prev_hash = Some h, dispatched_to = d\<rparr>)
           | _ \<Rightarrow> Inl (PrevHashNotString index))
      | _ \<Rightarrow> Inl (MissingActorPublicKey index))"

type_synonym chain_result = "hop list"

definition actor_public_keys :: "chain_result \<Rightarrow> key list" where
  "actor_public_keys hops = map actor_public_key hops"

text \<open>\<^verbatim>\<open>head\<close> and \<^verbatim>\<open>presenter\<close> index the list; a result of \<open>verify_chain\<close> is never empty.\<close>

definition chain_head :: "chain_result \<Rightarrow> key option" where
  "chain_head hops = (case actor_public_keys hops of [] \<Rightarrow> None | k # _ \<Rightarrow> Some k)"

definition chain_presenter :: "chain_result \<Rightarrow> key option" where
  "chain_presenter hops =
     (case actor_public_keys hops of [] \<Rightarrow> None | ks \<Rightarrow> Some (last ks))"

section \<open>Building chains\<close>

definition hop_hash :: "'p chain_crypto \<Rightarrow> string \<Rightarrow> string" where
  "hop_hash K token = cc_sha256_hex K token"

definition hop_claims ::
  "'p chain_crypto \<Rightarrow> 'p \<Rightarrow> string option \<Rightarrow> dispatch_target option \<Rightarrow> (string, json) dict" where
  "hop_claims K private_key prev_token d =
     [(''actorPublicKey'', JStr (public_hex K private_key)),
      (''prevHash'', case prev_token of None \<Rightarrow> JNull | Some t \<Rightarrow> JStr (hop_hash K t))] @
     (case d of None \<Rightarrow> []
      | Some t \<Rightarrow> [(''dispatchedTo'',
            JObj [(''providerKey'', JStr (dt_provider_key t)), (''name'', JStr (dt_name t))])])"

definition sign_hop ::
  "'p chain_crypto \<Rightarrow> 'p \<Rightarrow> string option \<Rightarrow> dispatch_target option \<Rightarrow> string" where
  "sign_hop K private_key prev_token d = jwt_encode K private_key (hop_claims K private_key prev_token d)"

definition new_chain :: "'p chain_crypto \<Rightarrow> 'p \<Rightarrow> string list" where
  "new_chain K private_key = [sign_hop K private_key None None]"

text \<open>The empty chain makes \<^verbatim>\<open>extend_chain\<close> raise ValueError and \<^verbatim>\<open>dispatch_hop\<close> IndexError.\<close>

definition extend_chain :: "'p chain_crypto \<Rightarrow> 'p \<Rightarrow> string list \<Rightarrow> string list option" where
  "extend_chain K private_key prev_chain =
     (if prev_chain = [] then None
      else Some (prev_chain @ [sign_hop K private_key (Some (last prev_chain)) None]))"

definition dispatch_hop ::
  "'p chain_crypto \<Rightarrow> 'p \<Rightarrow> string list \<Rightarrow> dispatch_target \<Rightarrow> string list option" where
  "dispatch_hop K private_key prev_chain target =
     (if prev_chain = [] then None
      else Some (prev_chain @ [sign_hop K private_key (Some (last prev_chain)) (Some target)]))"

section \<open>Verifying\<close>

definition succession_check :: "nat \<Rightarrow> hop option \<Rightarrow> hop \<Rightarrow> (chain_error, unit) res" where
  "succession_check i previous h =
     (case previous of
        None \<Rightarrow> Inr ()
      | Some p \<Rightarrow>
          (case dispatched_to p of
             None \<Rightarrow> Inr ()
           | Some target \<Rightarrow>
               if actor_public_key h = dt_provider_key target then Inr ()
               else if actor_public_key h = actor_public_key p then
                 (if dispatched_to h = None then Inl (WitnessSignsAsParty i) else Inr ())
               else Inl (NotTheNamedParty i)))"

definition verify_hop ::
  "'p chain_crypto \<Rightarrow> nat \<Rightarrow> string option \<Rightarrow> hop option \<Rightarrow> string \<Rightarrow> (chain_error, hop) res" where
  "verify_hop K i prev_token previous token =
     (case jwt_decode K token of
        None \<Rightarrow> Inl (Unparseable i)
      | Some unverified \<Rightarrow>
          rbind (parse_hop i unverified) (\<lambda>h.
            case bytes_fromhex (actor_public_key h) of
              None \<Rightarrow> Inl (MalformedActorPublicKey i)
            | Some raw \<Rightarrow>
                rbind (check (ed_key_ok K raw) (MalformedActorPublicKey i)) (\<lambda>_.
                rbind (check (jwt_verifies K raw token) (SignatureCheckFailed i)) (\<lambda>_.
                rbind (check (prev_hash h = map_option (hop_hash K) prev_token) (PrevHashMismatch i)) (\<lambda>_.
                rbind (succession_check i previous h) (\<lambda>_. Inr h))))))"

fun verify_hops ::
  "'p chain_crypto \<Rightarrow> nat \<Rightarrow> string option \<Rightarrow> hop option \<Rightarrow> string list \<Rightarrow> (chain_error, hop list) res" where
  "verify_hops K i prev_token previous [] = Inr []"
| "verify_hops K i prev_token previous (token # tokens) =
     rbind (verify_hop K i prev_token previous token) (\<lambda>h.
     rbind (verify_hops K (Suc i) (Some token) (Some h) tokens) (\<lambda>hs. Inr (h # hs)))"

definition verify_chain :: "'p chain_crypto \<Rightarrow> string list \<Rightarrow> (chain_error, chain_result) res" where
  "verify_chain K chain = (if chain = [] then Inl EmptyChain else verify_hops K 0 None None chain)"

section \<open>What acceptance means\<close>

text \<open>One accepted hop, as a predicate: parsed, signed by the key it names, linked, in succession.\<close>

definition may_follow :: "hop option \<Rightarrow> hop \<Rightarrow> bool" where
  "may_follow previous h \<longleftrightarrow>
     (\<forall>p target. previous = Some p \<longrightarrow> dispatched_to p = Some target \<longrightarrow>
        actor_public_key h = dt_provider_key target
        \<or> actor_public_key h = actor_public_key p \<and> dispatched_to h \<noteq> None)"

definition hop_accepted :: "'p chain_crypto \<Rightarrow> string option \<Rightarrow> hop option \<Rightarrow> string \<Rightarrow> hop \<Rightarrow> bool" where
  "hop_accepted K prev_token previous token h \<longleftrightarrow>
     (\<exists>claims raw. jwt_decode K token = Some claims \<and> (\<exists>i. parse_hop i claims = Inr h)
        \<and> bytes_fromhex (actor_public_key h) = Some raw \<and> ed_key_ok K raw \<and> jwt_verifies K raw token)
     \<and> prev_hash h = map_option (hop_hash K) prev_token
     \<and> may_follow previous h"

fun hops_accepted :: "'p chain_crypto \<Rightarrow> string option \<Rightarrow> hop option \<Rightarrow> string list \<Rightarrow> hop list \<Rightarrow> bool" where
  "hops_accepted K prev_token previous [] hs \<longleftrightarrow> hs = []"
| "hops_accepted K prev_token previous (token # tokens) hs \<longleftrightarrow>
     (\<exists>h hs'. hs = h # hs' \<and> hop_accepted K prev_token previous token h
        \<and> hops_accepted K (Some token) (Some h) tokens hs')"

lemma parse_dispatched_to_index:
  "parse_dispatched_to i claims = Inr d \<longleftrightarrow> parse_dispatched_to j claims = Inr d"
  by (cases "dget claims ''dispatchedTo''"; cases "jget ''providerKey'' (the (dget claims ''dispatchedTo''))";
      cases "jget ''name'' (the (dget claims ''dispatchedTo''))")
     (simp_all add: parse_dispatched_to_def)

lemma parse_hop_index: "parse_hop i claims = Inr h \<longleftrightarrow> parse_hop j claims = Inr h"
  by (cases "jget ''actorPublicKey'' (JObj claims)"; cases "jget ''prevHash'' (JObj claims)")
     (simp_all add: parse_hop_def rbind_Inr_iff parse_dispatched_to_index [of i _ _ j] del: jget_JObj)

lemma succession_check_iff: "succession_check i previous h = Inr u \<longleftrightarrow> may_follow previous h"
  by (auto simp: succession_check_def may_follow_def split: option.splits)

lemma verify_hop_iff: "verify_hop K i pt prev token = Inr h \<longleftrightarrow> hop_accepted K pt prev token h"
proof (cases "jwt_decode K token")
  case None
  then show ?thesis by (simp add: verify_hop_def hop_accepted_def)
next
  case (Some claims)
  have parsed: "(\<exists>j. parse_hop j claims = Inr h') \<longleftrightarrow> parse_hop i claims = Inr h'" for h'
    using parse_hop_index by blast
  show ?thesis
  proof (cases "parse_hop i claims")
    case (Inl e)
    then show ?thesis by (simp add: verify_hop_def hop_accepted_def parsed Some)
  next
    case (Inr h')
    show ?thesis
    proof (cases "bytes_fromhex (actor_public_key h')")
      case None
      with Inr Some show ?thesis by (auto simp: verify_hop_def hop_accepted_def parsed)
    next
      case raw: (Some raw)
      have "verify_hop K i pt prev token = Inr h \<longleftrightarrow> h' = h \<and> ed_key_ok K raw \<and> jwt_verifies K raw token
          \<and> prev_hash h' = map_option (hop_hash K) pt \<and> (\<exists>u. succession_check i prev h' = Inr u)"
        by (auto simp: verify_hop_def Some Inr raw rbind_Inr_iff)
      then show ?thesis
        unfolding succession_check_iff hop_accepted_def parsed using Some Inr raw by (auto simp: parsed)
    qed
  qed
qed

lemma verify_hops_iff: "verify_hops K i pt prev tokens = Inr hs \<longleftrightarrow> hops_accepted K pt prev tokens hs"
  by (induction K i pt prev tokens arbitrary: hs rule: verify_hops.induct)
     (auto simp: rbind_Inr_iff verify_hop_iff)

lemma verify_chain_iff:
  "verify_chain K chain = Inr hops \<longleftrightarrow> chain \<noteq> [] \<and> hops_accepted K None None chain hops"
  by (auto simp: verify_chain_def verify_hops_iff)

lemma hops_accepted_length: "hops_accepted K pt prev tokens hs \<Longrightarrow> length hs = length tokens"
  by (induction tokens arbitrary: pt prev hs) auto

lemma hops_accepted_snoc:
  "hops_accepted K pt prev (tokens @ [token]) hs' \<longleftrightarrow>
     (\<exists>hs h. hs' = hs @ [h] \<and> hops_accepted K pt prev tokens hs
        \<and> hop_accepted K (if tokens = [] then pt else Some (last tokens))
             (if hs = [] then prev else Some (last hs)) token h)"
proof (induction tokens arbitrary: pt prev hs')
  case Nil
  then show ?case by auto
next
  case (Cons t tokens)
  show ?case (is "?L \<longleftrightarrow> ?R")
  proof
    assume ?L
    then obtain h0 hs0 where hs': "hs' = h0 # hs0" and h0: "hop_accepted K pt prev t h0"
      and rest: "hops_accepted K (Some t) (Some h0) (tokens @ [token]) hs0" by auto
    from rest [unfolded Cons.IH] obtain hs h where "hs0 = hs @ [h]"
      "hops_accepted K (Some t) (Some h0) tokens hs"
      "hop_accepted K (if tokens = [] then Some t else Some (last tokens))
         (if hs = [] then Some h0 else Some (last hs)) token h" by blast
    with hs' h0 show ?R
      by (intro exI [of _ "h0 # hs"] exI [of _ h]) (auto split: if_splits)
  next
    assume ?R
    then obtain h0 hs0 h where "hs' = (h0 # hs0) @ [h]" "hop_accepted K pt prev t h0"
      "hops_accepted K (Some t) (Some h0) tokens hs0"
      "hop_accepted K (if tokens = [] then Some t else Some (last tokens))
         (if hs0 = [] then Some h0 else Some (last hs0)) token h"
      by (fastforce split: if_splits)
    then show ?L using Cons.IH by auto
  qed
qed

lemma hops_accepted_snocE:
  assumes "hops_accepted K None None (tokens @ [token]) hs'"
  obtains hs h where "hs' = hs @ [h]" "hops_accepted K None None tokens hs"
    "hop_accepted K (if tokens = [] then None else Some (last tokens))
       (if hs = [] then None else Some (last hs)) token h"
  using assms hops_accepted_snoc by blast

section \<open>Properties\<close>

lemma hops_accepted_iff_nth:
  "hops_accepted K pt prev tokens hs \<longleftrightarrow> length hs = length tokens \<and>
     (\<forall>i < length tokens. hop_accepted K (if i = 0 then pt else Some (tokens ! (i - 1)))
        (if i = 0 then prev else Some (hs ! (i - 1))) (tokens ! i) (hs ! i))"
proof (induction tokens arbitrary: pt prev hs)
  case Nil
  then show ?case by auto
next
  case (Cons t tokens)
  show ?case
  proof (cases hs)
    case hs: (Cons h hs')
    have all: "(\<forall>i < Suc (length tokens). hop_accepted K (if i = 0 then pt else Some ((t # tokens) ! (i - 1)))
          (if i = 0 then prev else Some ((h # hs') ! (i - 1))) ((t # tokens) ! i) ((h # hs') ! i)) \<longleftrightarrow>
        hop_accepted K pt prev t h \<and> (\<forall>i < length tokens. hop_accepted K (if i = 0 then Some t else Some (tokens ! (i - 1)))
          (if i = 0 then Some h else Some (hs' ! (i - 1))) (tokens ! i) (hs' ! i))"
      unfolding All_less_Suc2 by (simp add: nth_Cons' if_distrib [of Some] cong: if_cong)
    show ?thesis unfolding hs hops_accepted.simps Cons.IH length_Cons all by auto
  qed simp
qed

text \<open>What a token's claims say about a hop, read off the format the module documents.\<close>

definition claims_say :: "(string, json) dict \<Rightarrow> hop \<Rightarrow> bool" where
  "claims_say claims h \<longleftrightarrow>
     dget claims ''actorPublicKey'' = Some (JStr (actor_public_key h)) \<and>
     (case prev_hash h of
        None \<Rightarrow> dget claims ''prevHash'' \<in> {None, Some JNull}
      | Some x \<Rightarrow> dget claims ''prevHash'' = Some (JStr x)) \<and>
     (case dispatched_to h of
        None \<Rightarrow> dget claims ''dispatchedTo'' = None
      | Some target \<Rightarrow> \<exists>d. dget claims ''dispatchedTo'' = Some (JObj d) \<and>
          dget d ''providerKey'' = Some (JStr (dt_provider_key target)) \<and> dget d ''name'' = Some (JStr (dt_name target)))"

lemma jget_JStr_iff: "jget k (JObj d) = JStr x \<longleftrightarrow> dget d k = Some (JStr x)"
  by (simp split: option.splits)

lemma parse_dispatched_to_iff:
  "parse_dispatched_to i claims = Inr d \<longleftrightarrow>
     (case d of None \<Rightarrow> dget claims ''dispatchedTo'' = None
      | Some target \<Rightarrow> \<exists>o'. dget claims ''dispatchedTo'' = Some (JObj o') \<and>
          dget o' ''providerKey'' = Some (JStr (dt_provider_key target)) \<and> dget o' ''name'' = Some (JStr (dt_name target)))"
proof (cases "dget claims ''dispatchedTo''")
  case None
  then show ?thesis by (auto simp: parse_dispatched_to_def split: option.splits)
next
  case (Some claimed)
  show ?thesis
  proof (cases claimed)
    case (JObj o')
    then show ?thesis using Some
      by (cases "jget ''providerKey'' (JObj o')"; cases "jget ''name'' (JObj o')")
         (auto simp: parse_dispatched_to_def jget_JStr_iff [symmetric] jis_dict_def split: option.splits simp del: jget_JObj)
  qed (use Some in \<open>auto simp: parse_dispatched_to_def jis_dict_def split: option.splits\<close>)
qed

lemma parse_hop_iff: "parse_hop i claims = Inr h \<longleftrightarrow> claims_say claims h"
proof (cases h)
  case (fields actor prev d)
  show ?thesis
    by (cases "jget ''actorPublicKey'' (JObj claims)"; cases "jget ''prevHash'' (JObj claims)")
       (auto simp: fields parse_hop_def claims_say_def rbind_Inr_iff parse_dispatched_to_iff split: option.splits)
qed

text \<open>
  C5. \<open>verify_chain\<close> accepts exactly the chains that are what they claim to be, and returns their hops. A non-empty chain is accepted
  when every token decodes to the claims of a hop; the hop's key is a well-formed ed25519 key under which the token verifies; the
  first hop links to nothing and every later one to the hash of the token before it; and a hop after a dispatch is signed by the party
  the dispatch named, or by the dispatcher itself and is then again a dispatch: a witness never signs as a party.
\<close>

theorem verify_chain_exact:
  "verify_chain K chain = Inr hops \<longleftrightarrow> chain \<noteq> [] \<and> length hops = length chain \<and>
    (\<forall>i < length chain.
       (\<exists>claims raw. jwt_decode K (chain ! i) = Some claims \<and> claims_say claims (hops ! i) \<and>
          bytes_fromhex (actor_public_key (hops ! i)) = Some raw \<and> ed_key_ok K raw \<and> jwt_verifies K raw (chain ! i)) \<and>
       prev_hash (hops ! i) = (if i = 0 then None else Some (hop_hash K (chain ! (i - 1)))) \<and>
       (\<forall>target. 0 < i \<and> dispatched_to (hops ! (i - 1)) = Some target \<longrightarrow>
          actor_public_key (hops ! i) = dt_provider_key target \<or>
          actor_public_key (hops ! i) = actor_public_key (hops ! (i - 1)) \<and> dispatched_to (hops ! i) \<noteq> None))"
proof -
  have "hop_accepted K (if i = 0 then None else Some (chain ! (i - 1))) (if i = 0 then None else Some (hops ! (i - 1))) (chain ! i) (hops ! i) \<longleftrightarrow>
      (\<exists>claims raw. jwt_decode K (chain ! i) = Some claims \<and> claims_say claims (hops ! i) \<and>
          bytes_fromhex (actor_public_key (hops ! i)) = Some raw \<and> ed_key_ok K raw \<and> jwt_verifies K raw (chain ! i)) \<and>
       prev_hash (hops ! i) = (if i = 0 then None else Some (hop_hash K (chain ! (i - 1)))) \<and>
       (\<forall>target. 0 < i \<and> dispatched_to (hops ! (i - 1)) = Some target \<longrightarrow>
          actor_public_key (hops ! i) = dt_provider_key target \<or>
          actor_public_key (hops ! i) = actor_public_key (hops ! (i - 1)) \<and> dispatched_to (hops ! i) \<noteq> None)" for i
    by (simp add: hop_accepted_def parse_hop_iff may_follow_def)
  then show ?thesis unfolding verify_chain_iff hops_accepted_iff_nth by simp
qed

lemma hop_accepted_same_token:
  assumes "hop_accepted K pt prev token h" "hop_accepted K pt' prev' token h'"
  shows "h = h' \<and> map_option (hop_hash K) pt = map_option (hop_hash K) pt'"
proof -
  from assms obtain i j claims where "parse_hop i claims = Inr h" "parse_hop j claims = Inr h'"
    unfolding hop_accepted_def by auto
  then have "h = h'" using parse_hop_index [of i claims h j] by simp
  then show ?thesis using assms unfolding hop_accepted_def by metis
qed

lemma hops_accepted_last_fixes:
  assumes cf: "\<And>x y. cc_sha256_hex K x = cc_sha256_hex K y \<Longrightarrow> x = y"
  shows "hops_accepted K None None (xs @ [t]) hs \<Longrightarrow> hops_accepted K None None (ys @ [t]) hs' \<Longrightarrow>
    xs = ys \<and> hs = hs'"
proof (induction xs arbitrary: ys t hs hs' rule: rev_induct)
  case Nil
  then obtain h where hs: "hs = [h]" "hop_accepted K None None t h" by auto
  from Nil.prems(2) obtain bs b where hs': "hs' = bs @ [b]" "hops_accepted K None None ys bs"
    and b: "hop_accepted K (if ys = [] then None else Some (last ys))
      (if bs = [] then None else Some (last bs)) t b"
    by (rule hops_accepted_snocE)
  from hop_accepted_same_token [OF hs(2) b] have "h = b" "ys = []" by (auto split: if_splits)
  with hs hs' show ?case by simp
next
  case (snoc x xs)
  from snoc.prems(1) obtain as a where hs: "hs = as @ [a]" "hops_accepted K None None (xs @ [x]) as"
    and a: "hop_accepted K (if xs @ [x] = [] then None else Some (last (xs @ [x])))
      (if as = [] then None else Some (last as)) t a"
    by (rule hops_accepted_snocE)
  from snoc.prems(2) obtain bs b where hs': "hs' = bs @ [b]" "hops_accepted K None None ys bs"
    and b: "hop_accepted K (if ys = [] then None else Some (last ys))
      (if bs = [] then None else Some (last bs)) t b"
    by (rule hops_accepted_snocE)
  from hop_accepted_same_token [OF a b] have "a = b" "ys \<noteq> []" "last ys = x"
    using cf by (auto simp: hop_hash_def split: if_splits)
  then obtain zs where ys: "ys = zs @ [x]" by (metis append_butlast_last_id)
  from snoc.IH [OF hs(2)] hs'(2) ys have "xs = zs \<and> as = bs" by simp
  with \<open>a = b\<close> ys hs hs' show ?case by simp
qed

text \<open>
  C16. Tamper evidence: the last hop fixes the whole chain. Two accepted chains that end in the
  same token are the same chain with the same parsed hops, so a chain that was reordered,
  shortened at its head or spliced cannot keep its presenter's hop. The digest is assumed to be
  collision-free.
\<close>

theorem chain_last_token_fixes_chain:
  assumes digest_collision_free: "\<And>x y. cc_sha256_hex K x = cc_sha256_hex K y \<Longrightarrow> x = y"
    and "verify_chain K chain = Inr hops" and "verify_chain K chain' = Inr hops'"
    and "last chain = last chain'"
  shows "chain = chain' \<and> hops = hops'"
proof -
  from assms(2,3) obtain xs ys t where "chain = xs @ [t]" "chain' = ys @ [t]"
    using assms(4) by (metis append_butlast_last_id verify_chain_iff)
  with assms(2,3) show ?thesis
    using hops_accepted_last_fixes [where K = K and xs = xs and t = t and ys = ys, OF digest_collision_free]
    by (simp add: verify_chain_iff)
qed

lemma parse_hop_claims:
  "parse_hop i (hop_claims K k pt d) =
     Inr \<lparr>actor_public_key = public_hex K k, prev_hash = map_option (hop_hash K) pt, dispatched_to = d\<rparr>"
  by (cases pt; cases d)
     (simp_all add: parse_hop_def hop_claims_def parse_dispatched_to_def)

lemma signed_hop_accepted:
  assumes "jwt_decode K token = Some (hop_claims K k pt d)"
    and "bytes_fromhex (public_hex K k) = Some raw" "ed_key_ok K raw" "jwt_verifies K raw token"
    and "may_follow prev \<lparr>actor_public_key = public_hex K k, prev_hash = map_option (hop_hash K) pt, dispatched_to = d\<rparr>"
  shows "hop_accepted K pt prev token
    \<lparr>actor_public_key = public_hex K k, prev_hash = map_option (hop_hash K) pt, dispatched_to = d\<rparr>"
  using assms unfolding hop_accepted_def by (auto simp: parse_hop_claims)

lemma chain_head_append: "hops \<noteq> [] \<Longrightarrow> chain_head (hops @ hs) = chain_head hops"
  by (cases hops) (simp_all add: chain_head_def actor_public_keys_def)

lemma chain_presenter_snoc: "chain_presenter (hops @ [h]) = Some (actor_public_key h)"
  by (cases hops) (simp_all add: chain_presenter_def actor_public_keys_def)

text \<open>
  C17. funduq's dispatch hop keeps a chain acceptable. If a chain is accepted and its last
  hop is not itself a dispatch, then appending the hop funduq signs for the agent the run goes to
  gives a chain that is accepted, has the same head, is presented by funduq's key and names that
  agent. What is assumed of PyJWT and Ed25519 is that the token just signed decodes to its claims
  and verifies under the signer's key.
\<close>

theorem dispatch_hop_accepted:
  assumes accepted: "verify_chain K chain = Inr hops" and open_end: "dispatched_to (last hops) = None"
    and token: "token = sign_hop K k (Some (last chain)) (Some target)"
    and jwt_decodes: "jwt_decode K token = Some (hop_claims K k (Some (last chain)) (Some target))"
    and key_is_hex: "bytes_fromhex (public_hex K k) = Some raw" "ed_key_ok K raw"
    and jwt_signature_holds: "jwt_verifies K raw token"
  shows "dispatch_hop K k chain target = Some (chain @ [token]) \<and>
    (\<exists>h. verify_chain K (chain @ [token]) = Inr (hops @ [h]) \<and>
       chain_head (hops @ [h]) = chain_head hops \<and>
       chain_presenter (hops @ [h]) = Some (public_hex K k) \<and> dispatched_to h = Some target)"
proof -
  define h where "h = \<lparr>actor_public_key = public_hex K k,
    prev_hash = map_option (hop_hash K) (Some (last chain)), dispatched_to = Some target\<rparr>"
  from accepted have ne: "chain \<noteq> []" and acc: "hops_accepted K None None chain hops"
    by (simp_all add: verify_chain_iff)
  then have hops: "hops \<noteq> []" using hops_accepted_length by fastforce
  have "hop_accepted K (Some (last chain)) (Some (last hops)) token h"
    unfolding h_def using jwt_decodes key_is_hex jwt_signature_holds
    by (rule signed_hop_accepted) (simp add: may_follow_def open_end)
  then have "verify_chain K (chain @ [token]) = Inr (hops @ [h])"
    using acc ne hops by (simp add: verify_chain_iff hops_accepted_snoc)
  then show ?thesis
    using ne hops token
    by (auto simp: dispatch_hop_def chain_head_append chain_presenter_snoc h_def)
qed

subsection \<open>Witnesses\<close>

text \<open>A two-token instance of the crypto: the head's hop \<open>''t0''\<close> and funduq's dispatch hop \<open>''t1''\<close>.\<close>

definition demo_crypto :: "bool chain_crypto" where
  "demo_crypto = \<lparr>
     jwt_decode = (\<lambda>t.
       if t = ''t0'' then Some [(''actorPublicKey'', JStr ''aa''), (''prevHash'', JNull)]
       else if t = ''t1'' then Some [(''actorPublicKey'', JStr ''bb''), (''prevHash'', JStr (demo_digest ''t0'')),
         (''dispatchedTo'', JObj [(''providerKey'', JStr ''cc''), (''name'', JStr ''agent'')])]
       else None),
     jwt_verifies = (\<lambda>raw t. t = ''t0'' \<and> raw = [char_of (170::nat)] \<or> t = ''t1'' \<and> raw = [char_of (187::nat)]),
     ed_key_ok = (\<lambda>raw. length raw = 1),
     cc_sha256_hex = demo_digest,
     jwt_encode = (\<lambda>priv claims. if priv then ''t1'' else ''t0''),
     public_hex = (\<lambda>priv. if priv then ''bb'' else ''aa'') \<rparr>"

lemma demo_hex:
  "bytes_fromhex ''aa'' = Some [char_of (170::nat)]" "bytes_fromhex ''bb'' = Some [char_of (187::nat)]"
  by (simp_all add: hex_digit_def is_hex_space_def)

definition demo_target :: dispatch_target where
  "demo_target = \<lparr>dt_provider_key = ''cc'', dt_name = ''agent''\<rparr>"

definition demo_head_hop :: hop where
  "demo_head_hop = \<lparr>actor_public_key = ''aa'', prev_hash = None, dispatched_to = None\<rparr>"

lemma demo_chain_accepted: "verify_chain demo_crypto [''t0''] = Inr [demo_head_hop]"
  by (simp add: verify_chain_def verify_hop_def demo_crypto_def parse_hop_def parse_dispatched_to_def
      demo_hex succession_check_def demo_head_hop_def del: bytes_fromhex.simps)

text \<open>The chain of two hops of \<open>demo_crypto\<close>, the second one a dispatch linked to the first.\<close>

definition demo_dispatch_hop :: hop where
  "demo_dispatch_hop = \<lparr>actor_public_key = ''bb'', prev_hash = Some (demo_digest ''t0''), dispatched_to = Some demo_target\<rparr>"

theorem verify_chain_exact_witness:
  "verify_chain demo_crypto [''t0'', ''t1''] = Inr [demo_head_hop, demo_dispatch_hop]"
  unfolding verify_chain_exact
  by (auto simp: less_Suc_eq demo_crypto_def demo_head_hop_def demo_dispatch_hop_def demo_target_def claims_say_def hop_hash_def demo_hex
      simp del: bytes_fromhex.simps)

theorem chain_last_token_fixes_chain_witness: "[''t0''] = [''t0''] \<and> [demo_head_hop] = [demo_head_hop]"
  by (rule chain_last_token_fixes_chain [where K = demo_crypto, OF _ demo_chain_accepted demo_chain_accepted])
     (simp_all add: demo_crypto_def demo_digest_inj)

theorem dispatch_hop_accepted_witness:
  "\<exists>h. verify_chain demo_crypto [''t0'', ''t1''] = Inr [demo_head_hop, h] \<and> dispatched_to h = Some demo_target"
proof -
  have "dispatch_hop demo_crypto True [''t0''] demo_target = Some ([''t0''] @ [''t1'']) \<and>
    (\<exists>h. verify_chain demo_crypto ([''t0''] @ [''t1'']) = Inr ([demo_head_hop] @ [h]) \<and>
       chain_head ([demo_head_hop] @ [h]) = chain_head [demo_head_hop] \<and>
       chain_presenter ([demo_head_hop] @ [h]) = Some (public_hex demo_crypto True) \<and>
       dispatched_to h = Some demo_target)"
    by (rule dispatch_hop_accepted [OF demo_chain_accepted, where raw = "[char_of (187::nat)]"])
       (simp_all add: demo_head_hop_def demo_crypto_def sign_hop_def hop_claims_def hop_hash_def
         demo_target_def demo_hex del: bytes_fromhex.simps)
  then show ?thesis by auto
qed

end
