(* ===== verification/Pause.thy ===== *)
theory Pause
  imports Fq_Prelude
begin

text \<open>
  Where a thread stands, read from a run's own events (\<^verbatim>\<open>funduq/pause.py\<close>): which asks a
  finished run left open, and which of them an inbound request answers. The lemmas show that only
  a finished run leaves asks, that every interrupt and every tool call without a result is one,
  and that an interrupt is answered by a \<^verbatim>\<open>resume\<close> entry and by nothing else.
\<close>

definition RUN_FINISHED :: json where "RUN_FINISHED = JStr ''RUN_FINISHED''"
definition RUN_ERROR :: json where "RUN_ERROR = JStr ''RUN_ERROR''"
definition TOOL_CALL_START :: json where "TOOL_CALL_START = JStr ''TOOL_CALL_START''"
definition TOOL_CALL_RESULT :: json where "TOOL_CALL_RESULT = JStr ''TOOL_CALL_RESULT''"

lemmas event_types = RUN_FINISHED_def RUN_ERROR_def TOOL_CALL_START_def TOOL_CALL_RESULT_def

text \<open>\<^term>\<open>None\<close> is the code's None; the list may be empty, and is any JSON value the event carries.\<close>

definition interrupt_outcome_of :: "event \<Rightarrow> json option" where
  "interrupt_outcome_of e =
     (if event_type e \<noteq> RUN_FINISHED then None
      else let outcome = dget_j ''outcome'' e in
        if \<not> jis_dict outcome \<or> jget ''type'' outcome \<noteq> JStr ''interrupt'' then None
        else Some (jor (jget ''interrupts'' outcome) (JArr [])))"

fun scan_tool_calls ::
  "event list \<Rightarrow> json list \<Rightarrow> json list \<Rightarrow> (py_error, json list \<times> json list) res" where
  "scan_tool_calls [] announced answered = Inr (announced, answered)"
| "scan_tool_calls (e # es) announced answered =
     (if event_type e = TOOL_CALL_START then
        rbind (py_sub ''toolCallId'' e) (\<lambda>t. scan_tool_calls es (announced @ [t]) answered)
      else if event_type e = TOOL_CALL_RESULT then
        rbind (py_sub ''toolCallId'' e) (\<lambda>t.
          rbind (check (hashable t) TypeError) (\<lambda>_. scan_tool_calls es announced (t # answered)))
      else scan_tool_calls es announced answered)"

definition unanswered_tool_calls :: "event list \<Rightarrow> (py_error, json list) res" where
  "unanswered_tool_calls events =
     rbind (scan_tool_calls events [] []) (\<lambda>(announced, answered).
       rbind (check (list_all hashable announced) TypeError) (\<lambda>_.
         Inr (filter (\<lambda>t. t \<notin> set answered) announced)))"

text \<open>The last RUN_FINISHED decides: the loop runs over the events in reverse.\<close>

definition interrupts_of :: "event list \<Rightarrow> json" where
  "interrupts_of events =
     (case find (\<lambda>e. event_type e = RUN_FINISHED) (rev events) of
        None \<Rightarrow> JArr []
      | Some e \<Rightarrow> (case interrupt_outcome_of e of
            None \<Rightarrow> JArr [] | Some v \<Rightarrow> jor v (JArr [])))"

definition finished :: "event list \<Rightarrow> bool" where
  "finished events = list_ex (\<lambda>e. event_type e = RUN_FINISHED) events"

definition add_interrupt_ask :: "json \<Rightarrow> json list \<Rightarrow> (py_error, json list) res" where
  "add_interrupt_ask interrupt asks =
     rbind (py_get ''toolCallId'' interrupt) (\<lambda>t.
     rbind (py_get ''id'' interrupt) (\<lambda>i.
     rbind (check (hashable (jor t i)) TypeError) (\<lambda>_. Inr (jor t i # asks))))"

definition open_asks :: "event list \<Rightarrow> (py_error, json set) res" where
  "open_asks events =
     (if \<not> finished events then Inr {}
      else rbind (unanswered_tool_calls events) (\<lambda>calls.
           rbind (py_iter (interrupts_of events)) (\<lambda>interrupts.
           rbind (mfold add_interrupt_ask interrupts calls) (\<lambda>asks.
             Inr (set (filter truthy asks))))))"

text \<open>The dict comprehension from an interrupt's id to the ask it stands for.\<close>

definition add_tool_call_of ::
  "json \<Rightarrow> (json, json) dict \<Rightarrow> (py_error, (json, json) dict) res" where
  "add_tool_call_of interrupt d =
     rbind (py_get ''id'' interrupt) (\<lambda>i.
       if \<not> truthy i then Inr d
       else rbind (check (hashable i) TypeError) (\<lambda>_.
         rbind (py_get ''toolCallId'' interrupt) (\<lambda>t. Inr (dput i (jor t i) d))))"

definition tool_call_of :: "event list \<Rightarrow> (py_error, (json, json) dict) res" where
  "tool_call_of events =
     rbind (py_iter (interrupts_of events)) (\<lambda>interrupts. mfold add_tool_call_of interrupts [])"

definition add_tool_answer ::
  "json set \<Rightarrow> event \<Rightarrow> json list \<Rightarrow> (py_error, json list) res" where
  "add_tool_answer only_by_resume message answered =
     (if dget_j ''role'' message = JStr ''tool'' \<and> truthy (dget_j ''toolCallId'' message)
      then rbind (check (hashable (dget_j ''toolCallId'' message)) TypeError) (\<lambda>_.
        if dget_j ''toolCallId'' message \<notin> only_by_resume
        then Inr (dget_j ''toolCallId'' message # answered) else Inr answered)
      else Inr answered)"

definition add_resume_answer ::
  "(json, json) dict \<Rightarrow> event \<Rightarrow> json list \<Rightarrow> (py_error, json list) res" where
  "add_resume_answer tco entry answered =
     rbind (check (hashable (dget_j ''interruptId'' entry)) TypeError) (\<lambda>_.
       case dget tco (dget_j ''interruptId'' entry) of
         None \<Rightarrow> Inr answered | Some ask \<Rightarrow> Inr (ask # answered))"

definition answered_asks ::
  "event list \<Rightarrow> event list option \<Rightarrow> event list \<Rightarrow> (py_error, json set) res" where
  "answered_asks messages resume events =
     rbind (tool_call_of events) (\<lambda>tco.
     rbind (check (list_all hashable (dvalues tco)) TypeError) (\<lambda>_.
     rbind (mfold (add_tool_answer (set (dvalues tco))) messages []) (\<lambda>answered.
     rbind (mfold (add_resume_answer tco) (case resume of None \<Rightarrow> [] | Some r \<Rightarrow> r) answered) (\<lambda>answered.
       Inr (set answered)))))"

definition failure_reason_of :: "event list \<Rightarrow> json option" where
  "failure_reason_of events =
     (case find (\<lambda>e. event_type e = RUN_ERROR) (rev events) of
        None \<Rightarrow> None
      | Some e \<Rightarrow> Some (jor (dget_j ''code'' e) (dget_j ''message'' e)))"

section \<open>What the functions compute\<close>

lemma scan_tool_calls_sets:
  assumes "scan_tool_calls es announced answered = Inr (announced', answered')"
  shows "set announced' = set announced \<union>
           {t. \<exists>e \<in> set es. event_type e = TOOL_CALL_START \<and> dget e ''toolCallId'' = Some t} \<and>
         set answered' = set answered \<union>
           {t. \<exists>e \<in> set es. event_type e = TOOL_CALL_RESULT \<and> dget e ''toolCallId'' = Some t}"
  using assms
proof (induction es announced answered rule: scan_tool_calls.induct)
  case (1 announced answered)
  then show ?case by simp
next
  case (2 e es announced answered)
  have distinct: "TOOL_CALL_START \<noteq> TOOL_CALL_RESULT" by (simp add: event_types)
  show ?case
  proof (cases "event_type e = TOOL_CALL_START")
    case True
    with "2.prems" obtain t where t: "dget e ''toolCallId'' = Some t"
      and "scan_tool_calls es (announced @ [t]) answered = Inr (announced', answered')"
      by (auto simp: rbind_Inr_iff py_sub_def split: option.splits)
    with True "2.IH"(1) [of t] distinct show ?thesis by (auto simp: py_sub_def)
  next
    case start: False
    show ?thesis
    proof (cases "event_type e = TOOL_CALL_RESULT")
      case True
      with start "2.prems" obtain t where t: "dget e ''toolCallId'' = Some t"
        and "scan_tool_calls es announced (t # answered) = Inr (announced', answered')"
        by (auto simp: rbind_Inr_iff py_sub_def split: option.splits if_splits)
      with True start "2.IH"(2) [of t] show ?thesis by (auto simp: py_sub_def)
    next
      case False
      with start "2.prems" "2.IH"(3) show ?thesis by auto
    qed
  qed
qed

definition tool_call_waits :: "event list \<Rightarrow> json \<Rightarrow> bool" where
  "tool_call_waits events t \<longleftrightarrow>
     (\<exists>e \<in> set events. event_type e = TOOL_CALL_START \<and> dget e ''toolCallId'' = Some t) \<and>
     \<not> (\<exists>e \<in> set events. event_type e = TOOL_CALL_RESULT \<and> dget e ''toolCallId'' = Some t)"

definition ask_of_interrupt :: "json \<Rightarrow> json" where
  "ask_of_interrupt i = jor (jget ''toolCallId'' i) (jget ''id'' i)"

lemma unanswered_tool_calls_set:
  "unanswered_tool_calls events = Inr calls \<Longrightarrow> t \<in> set calls \<longleftrightarrow> tool_call_waits events t"
proof -
  assume "unanswered_tool_calls events = Inr calls"
  then obtain ann ans where scan: "scan_tool_calls events [] [] = Inr (ann, ans)"
    and "calls = filter (\<lambda>t. t \<notin> set ans) ann"
    by (auto simp: unanswered_tool_calls_def rbind_Inr_iff split: if_splits)
  then show ?thesis
    using scan_tool_calls_sets [OF scan] by (auto simp: tool_call_waits_def)
qed

lemma py_get_Inr: "py_get k v = Inr x \<longleftrightarrow> jis_dict v \<and> x = jget k v"
  by (cases v) (auto simp: py_get_def jis_dict_def)

lemma add_interrupt_ask_Inr: "add_interrupt_ask i asks = Inr asks' \<Longrightarrow> asks' = ask_of_interrupt i # asks"
  by (auto simp: add_interrupt_ask_def rbind_Inr_iff py_get_Inr ask_of_interrupt_def split: if_splits)

lemma interrupt_asks_set:
  "mfold add_interrupt_ask is asks = Inr asks' \<Longrightarrow> set asks' = set asks \<union> ask_of_interrupt ` set is"
proof (induction "is" arbitrary: asks)
  case (Cons i "is")
  then obtain a where "add_interrupt_ask i asks = Inr a" "mfold add_interrupt_ask is a = Inr asks'"
    by (auto simp: rbind_Inr_iff)
  with Cons.IH [of a] show ?case by (auto dest: add_interrupt_ask_Inr)
qed simp

text \<open>
  The asks a run left open: whenever \<^verbatim>\<open>open_asks\<close> returns, a value is in its result iff the
  run finished and the value is a (non-empty) id that is either a tool call announced in the
  events that no result event answers, or the ask of one of the interrupts the last RUN_FINISHED
  carries.
\<close>

theorem open_asks_meaning:
  assumes "open_asks events = Inr asks"
  shows "ask \<in> asks \<longleftrightarrow> finished events \<and> truthy ask \<and>
    (tool_call_waits events ask \<or>
     (\<exists>is i. py_iter (interrupts_of events) = Inr is \<and> i \<in> set is \<and> ask = ask_of_interrupt i))"
proof (cases "finished events")
  case False
  with assms show ?thesis by (auto simp: open_asks_def)
next
  case True
  with assms obtain calls "is" all where "unanswered_tool_calls events = Inr calls"
    and "is": "py_iter (interrupts_of events) = Inr is" and "mfold add_interrupt_ask is calls = Inr all"
    and "asks = set (filter truthy all)"
    by (auto simp: open_asks_def rbind_Inr_iff)
  then show ?thesis
    using True interrupt_asks_set [of "is" calls all] unanswered_tool_calls_set [of events calls]
    by auto
qed

lemma add_tool_answer_Inr:
  "add_tool_answer R m as = Inr as' \<Longrightarrow> set as' = set as \<union>
     {t. dget_j ''role'' m = JStr ''tool'' \<and> truthy t \<and> t = dget_j ''toolCallId'' m \<and> t \<notin> R}"
  by (auto simp: add_tool_answer_def split: if_splits)

lemma tool_answers_set:
  "mfold (add_tool_answer R) ms as = Inr as' \<Longrightarrow> set as' = set as \<union>
     {t. \<exists>m \<in> set ms. dget_j ''role'' m = JStr ''tool'' \<and> truthy t \<and> t = dget_j ''toolCallId'' m \<and> t \<notin> R}"
proof (induction ms arbitrary: as)
  case (Cons m ms)
  then obtain b where "add_tool_answer R m as = Inr b" "mfold (add_tool_answer R) ms b = Inr as'"
    by (auto simp: rbind_Inr_iff)
  with Cons.IH [of b] add_tool_answer_Inr [of R m as b] show ?case by auto
qed simp

lemma resume_answers_set:
  "mfold (add_resume_answer tco) rs as = Inr as' \<Longrightarrow> set as' = set as \<union>
     {a. \<exists>r \<in> set rs. dget tco (dget_j ''interruptId'' r) = Some a}"
proof (induction rs arbitrary: as)
  case (Cons r rs)
  then obtain b where "add_resume_answer tco r as = Inr b" "mfold (add_resume_answer tco) rs b = Inr as'"
    by (auto simp: rbind_Inr_iff)
  moreover from this(1) have "set b = set as \<union> {a. dget tco (dget_j ''interruptId'' r) = Some a}"
    by (auto simp: add_resume_answer_def split: if_splits option.splits)
  ultimately show ?case using Cons.IH [of b] by auto
qed simp

text \<open>
  What an inbound request answers: a tool message answers the call it names unless that
  call belongs to an interrupt of the run, and a \<^verbatim>\<open>resume\<close> entry answers the ask of the interrupt
  it names. So an ask that belongs to an interrupt is answered by a \<^verbatim>\<open>resume\<close> entry that names the
  interrupt, never by a tool message.
\<close>

theorem answered_asks_meaning:
  assumes "answered_asks messages resume events = Inr answered" and "tool_call_of events = Inr tco"
  shows "ask \<in> answered \<longleftrightarrow>
    (ask \<notin> set (dvalues tco) \<and> truthy ask \<and>
      (\<exists>m \<in> set messages. dget_j ''role'' m = JStr ''tool'' \<and> ask = dget_j ''toolCallId'' m)) \<or>
    (\<exists>entry \<in> set (case resume of None \<Rightarrow> [] | Some r \<Rightarrow> r).
       dget tco (dget_j ''interruptId'' entry) = Some ask)"
proof -
  from assms obtain a b where "mfold (add_tool_answer (set (dvalues tco))) messages [] = Inr a"
    and "mfold (add_resume_answer tco) (case resume of None \<Rightarrow> [] | Some r \<Rightarrow> r) a = Inr b"
    and "answered = set b"
    by (auto simp: answered_asks_def rbind_Inr_iff split: if_splits)
  then show ?thesis
    using tool_answers_set [of "set (dvalues tco)" messages "[]" a]
      resume_answers_set [of tco "case resume of None \<Rightarrow> [] | Some r \<Rightarrow> r" a b]
    by auto
qed

subsection \<open>Witnesses\<close>

text \<open>A run that called a tool and finished on an interrupt for another call.\<close>

definition demo_events :: "event list" where
  "demo_events =
     [[(''type'', TOOL_CALL_START), (''toolCallId'', JStr ''tc1'')],
      [(''type'', RUN_FINISHED), (''outcome'', JObj [(''type'', JStr ''interrupt''),
         (''interrupts'', JArr [JObj [(''id'', JStr ''i1''), (''toolCallId'', JStr ''tc2'')]])])]]"

lemma demo_interrupts: "interrupts_of demo_events = JArr [JObj [(''id'', JStr ''i1''), (''toolCallId'', JStr ''tc2'')]]"
  by (simp add: interrupts_of_def demo_events_def event_type_def dget_j_def interrupt_outcome_of_def
      event_types jor_def)

lemma demo_open_asks: "open_asks demo_events = Inr {JStr ''tc2'', JStr ''tc1''}"
  unfolding open_asks_def demo_interrupts
  by (auto simp: finished_def demo_events_def event_type_def dget_j_def event_types
      unanswered_tool_calls_def py_sub_def add_interrupt_ask_def py_get_def jor_def)

lemma demo_tool_call_of: "tool_call_of demo_events = Inr [(JStr ''i1'', JStr ''tc2'')]"
  unfolding tool_call_of_def demo_interrupts by (simp add: add_tool_call_of_def py_get_def jor_def)

theorem open_asks_meaning_witness: "tool_call_waits demo_events (JStr ''tc1'') \<or>
    (\<exists>is i. py_iter (interrupts_of demo_events) = Inr is \<and> i \<in> set is \<and> JStr ''tc1'' = ask_of_interrupt i)"
  using open_asks_meaning [OF demo_open_asks, of "JStr ''tc1''"] by simp

definition demo_messages :: "event list" where
  "demo_messages = [[(''role'', JStr ''tool''), (''toolCallId'', JStr ''tc2'')],
      [(''role'', JStr ''tool''), (''toolCallId'', JStr ''tc1'')]]"

theorem answered_asks_meaning_witness:
  "\<exists>answered. answered_asks demo_messages None demo_events = Inr answered \<and>
     JStr ''tc1'' \<in> answered \<and> JStr ''tc2'' \<notin> answered"
proof -
  have eq: "answered_asks demo_messages None demo_events = Inr {JStr ''tc1''}"
    unfolding answered_asks_def demo_tool_call_of by (simp add: add_tool_answer_def dget_j_def demo_messages_def)
  show ?thesis
    using answered_asks_meaning [OF eq demo_tool_call_of, of "JStr ''tc2''"] eq by simp
qed

end
