(* ===== verification/Broker.thy ===== *)
theory Broker
  imports Fq_Prelude
begin

text \<open>
  The dispatcher (\<^verbatim>\<open>funduq/broker.py\<close>): its records and every operation of \<^verbatim>\<open>RunBroker\<close>.

  State. Run and thread-handler objects live in heaps (\<open>b_heap\<close> by run id, \<open>b_hands\<close> by a handler
  number), because the code shares them between dictionaries: \<open>b_runs\<close> are the keys of \<^verbatim>\<open>_runs\<close>,
  a handler's \<open>t_live\<close> and \<open>t_queue\<close> hold references. Connections are compared by identity
  (\<open>c_id\<close>). An inbox is a list. Timers and hand-over tasks are the offer number they were started
  for. What the broker does to the outside (handing an offer over, telling the forget listeners)
  is appended to \<open>b_effects\<close>.

  Steps. A thread handler takes one message from its inbox and handles it to the end before it
  takes the next; \<open>handle_next\<close> is that step, and it is atomic here: what other parties do while
  a record handler waits for the database is ordered before or after it.

  What runs a record command and what decides whether an input is a \<^verbatim>\<open>RunAgentInput\<close> is not the
  broker's: both are fields of the environment \<open>broker_env\<close>.
\<close>

section \<open>The record vocabulary and the inbox messages\<close>

datatype command =
    Offer
  | Claim
  | RelayEvent json
  | FinishStream
  | RequestCancel
  | Fail string "string option"

text \<open>\<^verbatim>\<open>_Answered.accepted\<close> is a refusal (an object with a string \<^verbatim>\<open>reason\<close>) or read for truth.\<close>

datatype verdict = Truth bool | Refusal string

datatype message =
    MQueued run_id
  | MAnswered run_id key verdict
  | MSaid run_id key command
  | MTrusted run_id command
  | MCancelAsked run_id
  | MOfferLapsed run_id nat
  | MUndelivered run_id
  | MPoke

section \<open>Providers, runs, thread handlers\<close>

record conn =
  c_id :: nat
  c_public_key :: key
  c_max_concurrent_runs :: "int option"

datatype abnormality = Misdeclared | Abandoned | Undelivered | Unanswered

record provider_handler =
  p_connection :: "conn option"
  p_declared :: "int option"
  p_in_flight :: nat
  p_counters :: "abnormality \<Rightarrow> nat"

definition new_provider_handler :: provider_handler where
  "new_provider_handler = \<lparr>p_connection = None, p_declared = None, p_in_flight = 0, p_counters = (\<lambda>_. 0)\<rparr>"

definition has_room :: "provider_handler \<Rightarrow> bool" where
  "has_room p = (case p_declared p of None \<Rightarrow> True | Some d \<Rightarrow> int (p_in_flight p) < d)"

datatype out_item = Item event | END_OF_STREAM

record brun =
  r_run_id :: run_id
  r_agent :: agent_ref
  r_thread_id :: thread_id
  r_input_json :: json
  r_queued_at :: time
  r_seq :: int
  r_addressed_run_id :: "run_id option"
  r_offered_to :: "key option"
  r_offered_conn :: "conn option"
  r_offer_id :: nat
  r_verdict_open :: bool
  r_offer_timer :: "nat option"
  r_handover_task :: "nat option"
  r_is_interjection :: bool
  r_claimed_by :: "key option"
  r_noted_abnormal :: bool
  r_poison :: "string option"
  r_cancel_notify :: "conn option"
  r_cancel_requested :: bool
  r_saw_run_finished :: bool
  r_saw_run_error :: bool
  r_out_queue :: "out_item list"
  r_stream_open :: bool
  r_settled :: bool

definition new_run ::
  "run_id \<Rightarrow> agent_ref \<Rightarrow> thread_id \<Rightarrow> json \<Rightarrow> time \<Rightarrow> int \<Rightarrow> run_id option \<Rightarrow> brun" where
  "new_run run_id agent thread_id input_json now seq addressed =
     \<lparr>r_run_id = run_id, r_agent = agent, r_thread_id = thread_id, r_input_json = input_json,
      r_queued_at = now, r_seq = seq, r_addressed_run_id = addressed, r_offered_to = None,
      r_offered_conn = None, r_offer_id = 0, r_verdict_open = False, r_offer_timer = None,
      r_handover_task = None, r_is_interjection = False, r_claimed_by = None, r_noted_abnormal = False,
      r_poison = None, r_cancel_notify = None, r_cancel_requested = False, r_saw_run_finished = False,
      r_saw_run_error = False, r_out_queue = [], r_stream_open = False, r_settled = False\<rparr>"

record thread_handler =
  t_thread_id :: thread_id
  t_agent :: agent_ref
  t_inbox :: "message list"
  t_queue :: "run_id list"
  t_live :: "run_id list"
  t_done :: bool

record delivered_run =
  dr_run_id :: run_id
  dr_agent_name :: string
  dr_run_input :: json
  dr_thread_id :: thread_id

datatype effect = HandOver conn delivered_run nat | Forgotten run_id

record 'w broker =
  b_runs :: "run_id list"
  b_heap :: "(run_id, brun) dict"
  b_run_threads :: "(run_id, nat) dict"
  b_threads :: "(thread_id, nat) dict"
  b_hands :: "(nat, thread_handler) dict"
  b_serving :: "(agent_ref, key) dict"
  b_providers :: "(key, provider_handler) dict"
  b_agent_threads :: "(agent_ref, nat list) dict"
  b_unserved_since :: "(agent_ref, time) dict"
  b_handlers :: "run_id list"
  b_quality_tolerance :: "int option"
  b_running :: bool
  b_work_to_do :: bool
  b_now :: time
  b_effects :: "effect list"
  b_world :: 'w

record 'w broker_env =
  env_record :: "command \<Rightarrow> brun \<Rightarrow> 'w \<Rightarrow> (brun \<times> 'w) option"
  env_input_error :: "json \<Rightarrow> string option"

definition new_broker :: "int option \<Rightarrow> time \<Rightarrow> 'w \<Rightarrow> 'w broker" where
  "new_broker tolerance now w =
     \<lparr>b_runs = [], b_heap = [], b_run_threads = [], b_threads = [], b_hands = [], b_serving = [],
      b_providers = [], b_agent_threads = [], b_unserved_since = [], b_handlers = [],
      b_quality_tolerance = tolerance, b_running = False, b_work_to_do = False, b_now = now,
      b_effects = [], b_world = w\<rparr>"

section \<open>Reaching the objects\<close>

abbreviation run_at :: "'w broker \<Rightarrow> run_id \<Rightarrow> brun option" where
  "run_at s r \<equiv> dget (b_heap s) r"

abbreviation hand_at :: "'w broker \<Rightarrow> nat \<Rightarrow> thread_handler option" where
  "hand_at s h \<equiv> dget (b_hands s) h"

abbreviation prov_at :: "'w broker \<Rightarrow> key \<Rightarrow> provider_handler option" where
  "prov_at s k \<equiv> dget (b_providers s) k"

definition upd_run :: "run_id \<Rightarrow> (brun \<Rightarrow> brun) \<Rightarrow> 'w broker \<Rightarrow> 'w broker" where
  "upd_run r f s = (case run_at s r of None \<Rightarrow> s | Some run \<Rightarrow> s\<lparr>b_heap := dput r (f run) (b_heap s)\<rparr>)"

definition upd_hand :: "nat \<Rightarrow> (thread_handler \<Rightarrow> thread_handler) \<Rightarrow> 'w broker \<Rightarrow> 'w broker" where
  "upd_hand h f s = (case hand_at s h of None \<Rightarrow> s | Some t \<Rightarrow> s\<lparr>b_hands := dput h (f t) (b_hands s)\<rparr>)"

definition put_inbox :: "nat \<Rightarrow> message \<Rightarrow> 'w broker \<Rightarrow> 'w broker" where
  "put_inbox h m s = upd_hand h (\<lambda>t. t\<lparr>t_inbox := t_inbox t @ [m]\<rparr>) s"

text \<open>\<^verbatim>\<open>_provider\<close>: the key's handler, born the first time the key is seen.\<close>

definition provider :: "key \<Rightarrow> 'w broker \<Rightarrow> provider_handler" where
  "provider public_key s = (case prov_at s public_key of None \<Rightarrow> new_provider_handler | Some p \<Rightarrow> p)"

definition upd_provider :: "key \<Rightarrow> (provider_handler \<Rightarrow> provider_handler) \<Rightarrow> 'w broker \<Rightarrow> 'w broker" where
  "upd_provider public_key f s =
     s\<lparr>b_providers := dput public_key (f (provider public_key s)) (b_providers s)\<rparr>"

text \<open>
  \<^verbatim>\<open>serving\<close>: \<^verbatim>\<open>_providers[key]\<close> is subscripted; a serving key always has its handler
  (\<open>serving_has_provider\<close> in \<open>Broker_Inv\<close>), so the None branch for it is never taken.
\<close>

definition serving :: "agent_ref \<Rightarrow> 'w broker \<Rightarrow> conn option" where
  "serving agent s =
     (case dget (b_serving s) agent of
        None \<Rightarrow> None
      | Some k \<Rightarrow> (case prov_at s k of None \<Rightarrow> None | Some p \<Rightarrow> p_connection p))"

definition agents_served_by :: "key \<Rightarrow> 'w broker \<Rightarrow> agent_ref list" where
  "agents_served_by public_key s = map fst (filter (\<lambda>(ref, k). k = public_key) (b_serving s))"

section \<open>The doors\<close>

definition post :: "run_id \<Rightarrow> message \<Rightarrow> 'w broker \<Rightarrow> bool \<times> 'w broker" where
  "post run_id m s =
     (case dget (b_run_threads s) run_id of
        None \<Rightarrow> (False, s)
      | Some h \<Rightarrow> (True, put_inbox h m s))"

definition answer_offer :: "run_id \<Rightarrow> verdict \<Rightarrow> key \<Rightarrow> 'w broker \<Rightarrow> bool \<times> 'w broker" where
  "answer_offer run_id accepted provider_key = post run_id (MAnswered run_id provider_key accepted)"

definition report_event :: "run_id \<Rightarrow> json \<Rightarrow> key \<Rightarrow> 'w broker \<Rightarrow> bool \<times> 'w broker" where
  "report_event run_id event origin = post run_id (MSaid run_id origin (RelayEvent event))"

definition finish_stream :: "run_id \<Rightarrow> key \<Rightarrow> 'w broker \<Rightarrow> bool \<times> 'w broker" where
  "finish_stream run_id origin = post run_id (MSaid run_id origin FinishStream)"

definition push :: "run_id \<Rightarrow> command \<Rightarrow> 'w broker \<Rightarrow> bool \<times> 'w broker" where
  "push run_id cmd = post run_id (MTrusted run_id cmd)"

definition note_undelivered :: "run_id \<Rightarrow> 'w broker \<Rightarrow> bool \<times> 'w broker" where
  "note_undelivered run_id = post run_id (MUndelivered run_id)"

definition request_cancel :: "run_id \<Rightarrow> 'w broker \<Rightarrow> bool \<times> 'w broker" where
  "request_cancel run_id s =
     (if run_id \<notin> set (b_runs s) then (False, s)
      else post run_id (MCancelAsked run_id) (upd_run run_id (\<lambda>r. r\<lparr>r_cancel_requested := True\<rparr>) s))"

section \<open>Intake\<close>

text \<open>A fresh handler number: one more than any in the heap.\<close>

definition next_hand :: "'w broker \<Rightarrow> nat" where
  "next_hand s = Suc (fold max (dkeys (b_hands s)) 0)"

definition thread_handler_for :: "thread_id \<Rightarrow> agent_ref \<Rightarrow> 'w broker \<Rightarrow> nat \<times> 'w broker" where
  "thread_handler_for thread_id agent s =
     (let fresh =
        (let h = next_hand s;
             bound = (case dget (b_agent_threads s) agent of None \<Rightarrow> [] | Some hs \<Rightarrow> hs)
         in (h, s\<lparr>b_hands := dput h \<lparr>t_thread_id = thread_id, t_agent = agent, t_inbox = [], t_queue = [],
                    t_live = [], t_done = False\<rparr> (b_hands s),
                  b_agent_threads := dput agent (List.insert h bound) (b_agent_threads s),
                  b_threads := dput thread_id h (b_threads s)\<rparr>))
      in case dget (b_threads s) thread_id of
           None \<Rightarrow> fresh
         | Some h \<Rightarrow>
             (case hand_at s h of None \<Rightarrow> fresh | Some t \<Rightarrow> if t_done t then fresh else (h, s)))"

text \<open>\<^term>\<open>None\<close>: the broker is not running and \<^verbatim>\<open>enqueue_run\<close> raises RuntimeError.\<close>

definition enqueue_run ::
  "run_id \<Rightarrow> agent_ref \<Rightarrow> thread_id \<Rightarrow> json \<Rightarrow> int \<Rightarrow> run_id option \<Rightarrow> 'w broker \<Rightarrow> 'w broker option" where
  "enqueue_run run_id agent thread_id input_json seq addressed s =
     (if \<not> b_running s then None
      else
        let run = new_run run_id agent thread_id input_json (b_now s) seq addressed;
            (h, s) = thread_handler_for thread_id agent s
        in Some (put_inbox h (MQueued run_id)
             (s\<lparr>b_heap := dput run_id run (b_heap s),
                b_runs := (if run_id \<in> set (b_runs s) then b_runs s else b_runs s @ [run_id]),
                b_run_threads := dput run_id h (b_run_threads s),
                b_handlers := List.insert run_id (b_handlers s)\<rparr>)))"

section \<open>Capacity, forgetting, pokes\<close>

definition release :: "run_id \<Rightarrow> 'w broker \<Rightarrow> 'w broker" where
  "release r s =
     (case run_at s r of
        None \<Rightarrow> s
      | Some run \<Rightarrow>
          let s = upd_run r (\<lambda>x. x\<lparr>r_offered_to := None, r_offered_conn := None\<rparr>) s in
          (case r_offered_to run of
             None \<Rightarrow> s
           | Some k \<Rightarrow>
               (case prov_at s k of
                  None \<Rightarrow> s
                | Some p \<Rightarrow>
                    if p_in_flight p > 0
                    then upd_provider k (\<lambda>p. p\<lparr>p_in_flight := p_in_flight p - 1\<rparr>) s else s)))"

definition poke_threads :: "'w broker \<Rightarrow> 'w broker" where
  "poke_threads s = fold (\<lambda>h. put_inbox h MPoke) (dvalues (b_threads s)) s"

definition poke_agent :: "agent_ref \<Rightarrow> 'w broker \<Rightarrow> 'w broker" where
  "poke_agent agent s =
     fold (\<lambda>h. put_inbox h MPoke)
       (case dget (b_agent_threads s) agent of None \<Rightarrow> [] | Some hs \<Rightarrow> hs) s"

definition forget :: "run_id \<Rightarrow> 'w broker \<Rightarrow> 'w broker" where
  "forget r s =
     (let tracked = r \<in> set (b_runs s);
          s = s\<lparr>b_runs := removeAll r (b_runs s), b_run_threads := dpop r (b_run_threads s),
                b_handlers := removeAll r (b_handlers s)\<rparr>;
          s = (if tracked
               then poke_threads
                 ((\<lambda>s. s\<lparr>b_work_to_do := True\<rparr>)
                   ((case run_at s r of
                       None \<Rightarrow> s
                     | Some run \<Rightarrow>
                         (let s = upd_run r (\<lambda>x. x\<lparr>r_settled := True\<rparr>) s
                          in if r_offered_to run \<noteq> None then release r s else s))))
               else s)
      in s\<lparr>b_effects := b_effects s @ [Forgotten r]\<rparr>)"

definition settle :: "nat \<Rightarrow> run_id \<Rightarrow> 'w broker \<Rightarrow> 'w broker" where
  "settle h r s =
     forget r
       (upd_hand h (\<lambda>t. t\<lparr>t_live := removeAll r (t_live t), t_queue := remove1 r (t_queue t)\<rparr>)
         (upd_run r (\<lambda>x. x\<lparr>r_settled := True, r_out_queue := r_out_queue x @ [END_OF_STREAM],
                           r_offer_timer := None\<rparr>) s))"

section \<open>The record\<close>

definition record_cmd :: "'w broker_env \<Rightarrow> run_id \<Rightarrow> command \<Rightarrow> 'w broker \<Rightarrow> 'w broker" where
  "record_cmd E r cmd s =
     (if r \<notin> set (b_handlers s) then s
      else case run_at s r of
        None \<Rightarrow> s
      | Some run \<Rightarrow>
          (case env_record E cmd run (b_world s) of
             None \<Rightarrow> s
           | Some (run', w') \<Rightarrow> s\<lparr>b_heap := dput r run' (b_heap s), b_world := w'\<rparr>))"

section \<open>The provider roster\<close>

text \<open>\<^verbatim>\<open>for ref, connection in mapping.items()\<close>: one agent of a registration.\<close>

definition register_one :: "agent_ref \<times> conn \<Rightarrow> 'w broker \<Rightarrow> 'w broker" where
  "register_one = (\<lambda>(ref, connection) s.
     let s = s\<lparr>b_serving := dput ref (c_public_key connection) (b_serving s)\<rparr>;
         s = upd_provider (c_public_key connection)
               (\<lambda>p. p\<lparr>p_connection := Some connection, p_declared := c_max_concurrent_runs connection\<rparr>) s
     in s\<lparr>b_unserved_since := dpop ref (b_unserved_since s)\<rparr>)"

definition register_provider :: "(agent_ref, conn) dict \<Rightarrow> 'w broker \<Rightarrow> 'w broker" where
  "register_provider mapping s =
     fold poke_agent (dkeys mapping)
       ((fold register_one mapping s)\<lparr>b_work_to_do := True\<rparr>)"

definition fail_held_runs :: "agent_ref \<Rightarrow> 'w broker \<Rightarrow> 'w broker" where
  "fail_held_runs ref s =
     fold (\<lambda>r s. case run_at s r of
              None \<Rightarrow> s
            | Some run \<Rightarrow>
                if r_agent run \<noteq> ref \<or> r_claimed_by run = None then s
                else snd (push r (Fail ''provider_left_holding_it'' None) s)) (b_runs s) s"

definition unregister_one :: "agent_ref \<Rightarrow> 'w broker \<Rightarrow> 'w broker" where
  "unregister_one ref s =
     (if dget (b_serving s) ref = None then s
      else poke_agent ref (fail_held_runs ref
        (s\<lparr>b_serving := dpop ref (b_serving s),
           b_unserved_since := dput ref (b_now s) (b_unserved_since s)\<rparr>)))"

definition unregister_provider :: "agent_ref list \<Rightarrow> 'w broker \<Rightarrow> 'w broker" where
  "unregister_provider refs s = fold unregister_one refs s"

definition note_abnormal :: "key \<Rightarrow> abnormality \<Rightarrow> 'w broker \<Rightarrow> 'w broker" where
  "note_abnormal public_key ev s =
     (let s = upd_provider public_key
                (\<lambda>p. p\<lparr>p_counters := (p_counters p)(ev := Suc (p_counters p ev))\<rparr>) s
      in case b_quality_tolerance s of
           None \<Rightarrow> s
         | Some tolerance \<Rightarrow>
             if int (p_counters (provider public_key s) ev) < tolerance then s
             else unregister_provider (agents_served_by public_key s) s)"

definition note_misdeclared :: "key \<Rightarrow> 'w broker \<Rightarrow> 'w broker" where
  "note_misdeclared provider_key s =
     (if has_room (provider provider_key s) then note_abnormal provider_key Misdeclared s else s)"

section \<open>Offers\<close>

text \<open>
  \<^verbatim>\<open>_offer\<close>. The environment's \<open>env_input_error\<close> is the text of the ValidationError that
  building the \<^verbatim>\<open>RunAgentInput\<close> raises, if it raises.
\<close>

definition offer :: "'w broker_env \<Rightarrow> nat \<Rightarrow> run_id \<Rightarrow> bool \<Rightarrow> 'w broker \<Rightarrow> 'w broker" where
  "offer E h r interjection s =
     (case run_at s r of
        None \<Rightarrow> s
      | Some run \<Rightarrow>
          (case serving (r_agent run) s of
             None \<Rightarrow>
               (if interjection then upd_hand h (\<lambda>t. t\<lparr>t_queue := insert_second r (t_queue t)\<rparr>) s else s)
           | Some connection \<Rightarrow>
               if \<not> has_room (provider (c_public_key connection) s)
               then (if interjection then upd_hand h (\<lambda>t. t\<lparr>t_queue := insert_second r (t_queue t)\<rparr>) s else s)
               else (case env_input_error E (r_input_json run) of
                       Some e \<Rightarrow>
                         settle h r (record_cmd E r (Fail ''input_does_not_validate''
                           (Some (''input does not validate as RunAgentInput: '' @ e))) s)
                     | None \<Rightarrow>
                         let delivered = \<lparr>dr_run_id = r_run_id run, dr_agent_name = ar_name (r_agent run),
                               dr_run_input = r_input_json run, dr_thread_id = r_thread_id run\<rparr>;
                             offer_id = Suc (r_offer_id run);
                             s = upd_run r (\<lambda>x. x\<lparr>r_offered_to := Some (c_public_key connection),
                                   r_offered_conn := Some connection, r_is_interjection := interjection,
                                   r_offer_id := offer_id, r_verdict_open := True\<rparr>) s;
                             s = upd_provider (c_public_key connection)
                                   (\<lambda>p. p\<lparr>p_in_flight := Suc (p_in_flight p)\<rparr>) s;
                             s = record_cmd E r Offer s;
                             s = upd_run r (\<lambda>x. x\<lparr>r_handover_task := Some offer_id,
                                   r_offer_timer := Some offer_id\<rparr>) s
                         in s\<lparr>b_effects := b_effects s @ [HandOver connection delivered offer_id]\<rparr>)))"

definition unoffered :: "brun \<Rightarrow> bool" where
  "unoffered run \<longleftrightarrow> r_claimed_by run = None \<and> \<not> r_verdict_open run \<and> r_offered_to run = None"

definition is_settled :: "'w broker \<Rightarrow> run_id \<Rightarrow> bool" where
  "is_settled s r = (case run_at s r of None \<Rightarrow> False | Some run \<Rightarrow> r_settled run)"

definition advance :: "'w broker_env \<Rightarrow> nat \<Rightarrow> 'w broker \<Rightarrow> 'w broker" where
  "advance E h s =
     (let s = upd_hand h (\<lambda>t. t\<lparr>t_queue := dropWhile (is_settled s) (t_queue t)\<rparr>) s in
      case hand_at s h of
        None \<Rightarrow> s
      | Some t \<Rightarrow>
          (case t_queue t of
             [] \<Rightarrow> s
           | r # _ \<Rightarrow>
               (case run_at s r of
                  None \<Rightarrow> s
                | Some run \<Rightarrow> if unoffered run then offer E h r False s else s)))"

definition joining_runs :: "thread_handler \<Rightarrow> run_id \<Rightarrow> 'w broker \<Rightarrow> run_id list" where
  "joining_runs t head_id s =
     filter (\<lambda>r. case run_at s r of
                None \<Rightarrow> False
              | Some run \<Rightarrow> r_addressed_run_id run = Some head_id \<and> \<not> r_settled run)
       (tl (t_queue t))"

definition join_one :: "'w broker_env \<Rightarrow> nat \<Rightarrow> run_id \<Rightarrow> 'w broker \<Rightarrow> 'w broker" where
  "join_one E h r s = offer E h r True (upd_hand h (\<lambda>t. t\<lparr>t_queue := remove1 r (t_queue t)\<rparr>) s)"

definition release_interjections :: "'w broker_env \<Rightarrow> nat \<Rightarrow> run_id \<Rightarrow> 'w broker \<Rightarrow> 'w broker" where
  "release_interjections E h head_id s =
     (case hand_at s h of
        None \<Rightarrow> s
      | Some t \<Rightarrow> fold (join_one E h) (joining_runs t head_id s) s)"

section \<open>The thread handler\<close>

definition on_queued :: "'w broker_env \<Rightarrow> nat \<Rightarrow> run_id \<Rightarrow> 'w broker \<Rightarrow> 'w broker" where
  "on_queued E h r s =
     (let s = upd_hand h (\<lambda>t. t\<lparr>t_live := List.insert r (t_live t)\<rparr>) s;
          to_queue = upd_hand h (\<lambda>t. t\<lparr>t_queue := t_queue t @ [r]\<rparr>) s
      in case (hand_at s h, run_at s r) of
           (Some t, Some run) \<Rightarrow>
             (case t_queue t of
                [] \<Rightarrow> to_queue
              | head_id # _ \<Rightarrow>
                  (case run_at s head_id of
                     None \<Rightarrow> to_queue
                   | Some head \<Rightarrow>
                       if r_claimed_by head \<noteq> None \<and> r_addressed_run_id run = Some head_id
                       then offer E h r True s else to_queue))
         | _ \<Rightarrow> s)"

text \<open>\<^verbatim>\<open>handler.live.get(run_id)\<close>.\<close>

definition live_run :: "nat \<Rightarrow> run_id \<Rightarrow> 'w broker \<Rightarrow> brun option" where
  "live_run h r s =
     (case hand_at s h of
        None \<Rightarrow> None
      | Some t \<Rightarrow> if r \<in> set (t_live t) then run_at s r else None)"

definition close_verdict :: "run_id \<Rightarrow> 'w broker \<Rightarrow> 'w broker" where
  "close_verdict r = upd_run r (\<lambda>x. x\<lparr>r_verdict_open := False, r_offer_timer := None\<rparr>)"

definition on_accepted :: "'w broker_env \<Rightarrow> nat \<Rightarrow> run_id \<Rightarrow> key \<Rightarrow> 'w broker \<Rightarrow> 'w broker" where
  "on_accepted E h r provider_key s =
     (let s = upd_run r (\<lambda>x. x\<lparr>r_claimed_by := Some provider_key, r_cancel_notify := r_offered_conn x\<rparr>) s;
          s = record_cmd E r Claim s
      in case run_at s r of
           None \<Rightarrow> s
         | Some run \<Rightarrow>
             if serving (r_agent run) s \<noteq> r_offered_conn run
             then snd (push r (Fail ''provider_left_holding_it'' None) s)
             else
               let s = (if \<not> r_is_interjection run then release_interjections E h r s else s)
               in (case run_at s r of
                     None \<Rightarrow> s
                   | Some run \<Rightarrow> if r_cancel_requested run then record_cmd E r RequestCancel s else s))"

definition on_answered ::
  "'w broker_env \<Rightarrow> nat \<Rightarrow> run_id \<Rightarrow> key \<Rightarrow> verdict \<Rightarrow> 'w broker \<Rightarrow> 'w broker" where
  "on_answered E h r provider_key accepted s =
     (case live_run h r s of
        None \<Rightarrow> s
      | Some run \<Rightarrow>
          if \<not> r_verdict_open run \<or> r_offered_to run \<noteq> Some provider_key then s
          else
            let s = close_verdict r s in
            (case accepted of
               Refusal reason \<Rightarrow>
                 settle h r (record_cmd E r (Fail ''provider_refused'' (Some reason)) (release r s))
             | Truth True \<Rightarrow> on_accepted E h r provider_key s
             | Truth False \<Rightarrow>
                 let s = release r s in
                 if r_cancel_requested run then settle h r (record_cmd E r RequestCancel s)
                 else settle h r (record_cmd E r (Fail ''provider_declined'' None)
                        (note_misdeclared provider_key s))))"

definition record_and_maybe_settle ::
  "'w broker_env \<Rightarrow> nat \<Rightarrow> run_id \<Rightarrow> command \<Rightarrow> 'w broker \<Rightarrow> 'w broker" where
  "record_and_maybe_settle E h r cmd s =
     (let s = record_cmd E r cmd s in
      case run_at s r of
        None \<Rightarrow> s
      | Some run \<Rightarrow>
          (case r_poison run of
             Some text \<Rightarrow> settle h r (record_cmd E r (Fail ''provider_sent_malformed_event'' (Some text)) s)
           | None \<Rightarrow> if cmd = FinishStream then settle h r s else s))"

definition on_said :: "'w broker_env \<Rightarrow> nat \<Rightarrow> run_id \<Rightarrow> key \<Rightarrow> command \<Rightarrow> 'w broker \<Rightarrow> 'w broker" where
  "on_said E h r origin cmd s =
     (case live_run h r s of
        None \<Rightarrow> s
      | Some run \<Rightarrow>
          if r_claimed_by run = None then s
          else if r_claimed_by run \<noteq> Some origin then s
          else record_and_maybe_settle E h r cmd s)"

definition on_cancel_asked :: "'w broker_env \<Rightarrow> nat \<Rightarrow> run_id \<Rightarrow> 'w broker \<Rightarrow> 'w broker" where
  "on_cancel_asked E h r s =
     (case live_run h r s of
        None \<Rightarrow> s
      | Some run \<Rightarrow>
          let s = upd_run r (\<lambda>x. x\<lparr>r_cancel_requested := True\<rparr>) s in
          if r_verdict_open run then s
          else if r_claimed_by run \<noteq> None then record_cmd E r RequestCancel s
          else settle h r (record_cmd E r RequestCancel s))"

definition on_trusted :: "'w broker_env \<Rightarrow> nat \<Rightarrow> run_id \<Rightarrow> command \<Rightarrow> 'w broker \<Rightarrow> 'w broker" where
  "on_trusted E h r cmd s =
     (case live_run h r s of
        None \<Rightarrow> s
      | Some run \<Rightarrow>
          (case cmd of
             RequestCancel \<Rightarrow> on_cancel_asked E h r s
           | Fail code msg \<Rightarrow>
               let s = (case r_claimed_by run of
                          Some k \<Rightarrow>
                            if \<not> r_noted_abnormal run
                            then note_abnormal k Abandoned (upd_run r (\<lambda>x. x\<lparr>r_noted_abnormal := True\<rparr>) s)
                            else s
                        | None \<Rightarrow> s)
               in settle h r (record_cmd E r cmd s)
           | _ \<Rightarrow> record_and_maybe_settle E h r cmd s))"

definition on_undelivered :: "nat \<Rightarrow> run_id \<Rightarrow> 'w broker \<Rightarrow> 'w broker" where
  "on_undelivered h r s =
     (case live_run h r s of
        None \<Rightarrow> s
      | Some run \<Rightarrow>
          (case r_claimed_by run of
             None \<Rightarrow> s
           | Some k \<Rightarrow>
               if r_noted_abnormal run then s
               else note_abnormal k Undelivered (upd_run r (\<lambda>x. x\<lparr>r_noted_abnormal := True\<rparr>) s)))"

definition on_offer_lapsed :: "'w broker_env \<Rightarrow> nat \<Rightarrow> run_id \<Rightarrow> nat \<Rightarrow> 'w broker \<Rightarrow> 'w broker" where
  "on_offer_lapsed E h r offer_id s =
     (case live_run h r s of
        None \<Rightarrow> s
      | Some run \<Rightarrow>
          if \<not> r_verdict_open run \<or> r_offer_id run \<noteq> offer_id then s
          else
            let s = upd_run r (\<lambda>x. x\<lparr>r_handover_task := None\<rparr>) (close_verdict r s);
                s = (case r_offered_to run of None \<Rightarrow> s | Some k \<Rightarrow> note_abnormal k Unanswered s);
                s = release r s
            in if r_cancel_requested run then settle h r (record_cmd E r RequestCancel s)
               else settle h r (record_cmd E r (Fail ''provider_did_not_answer'' None) s))"

fun dispatch_message :: "'w broker_env \<Rightarrow> nat \<Rightarrow> message \<Rightarrow> 'w broker \<Rightarrow> 'w broker" where
  "dispatch_message E h (MQueued r) s = on_queued E h r s"
| "dispatch_message E h (MAnswered r k v) s = on_answered E h r k v s"
| "dispatch_message E h (MSaid r origin cmd) s = on_said E h r origin cmd s"
| "dispatch_message E h (MTrusted r cmd) s = on_trusted E h r cmd s"
| "dispatch_message E h (MCancelAsked r) s = on_cancel_asked E h r s"
| "dispatch_message E h (MOfferLapsed r n) s = on_offer_lapsed E h r n s"
| "dispatch_message E h (MUndelivered r) s = on_undelivered h r s"
| "dispatch_message E h MPoke s = s"

definition on_message :: "'w broker_env \<Rightarrow> nat \<Rightarrow> message \<Rightarrow> 'w broker \<Rightarrow> 'w broker" where
  "on_message E h m s = advance E h (dispatch_message E h m s)"

text \<open>Leaving the loop: only when nothing is alive and nothing is waiting to be read.\<close>

definition leave_if_idle :: "nat \<Rightarrow> 'w broker \<Rightarrow> 'w broker" where
  "leave_if_idle h s =
     (case hand_at s h of
        None \<Rightarrow> s
      | Some t \<Rightarrow>
          if t_live t \<noteq> [] \<or> t_inbox t \<noteq> [] then s
          else
            let s = upd_hand h (\<lambda>t. t\<lparr>t_done := True\<rparr>) s;
                s = (case dget (b_agent_threads s) (t_agent t) of
                       None \<Rightarrow> s
                     | Some bound \<Rightarrow>
                         let rest = removeAll h bound in
                         s\<lparr>b_agent_threads :=
                             (if rest = [] then dpop (t_agent t) (b_agent_threads s)
                              else dput (t_agent t) rest (b_agent_threads s))\<rparr>)
            in if dget (b_threads s) (t_thread_id t) = Some h
               then s\<lparr>b_threads := dpop (t_thread_id t) (b_threads s)\<rparr> else s)"

text \<open>One turn of \<^verbatim>\<open>_thread_main\<close>'s loop; \<^term>\<open>None\<close> while the inbox is empty (the task waits).\<close>

definition handle_next :: "'w broker_env \<Rightarrow> nat \<Rightarrow> 'w broker \<Rightarrow> 'w broker option" where
  "handle_next E h s =
     (case hand_at s h of
        None \<Rightarrow> None
      | Some t \<Rightarrow>
          if t_done t then None
          else (case t_inbox t of
                  [] \<Rightarrow> None
                | m # ms \<Rightarrow>
                    Some (leave_if_idle h (on_message E h m (upd_hand h (\<lambda>t. t\<lparr>t_inbox := ms\<rparr>) s)))))"

section \<open>Clocks and observation\<close>

definition expirable :: "time \<Rightarrow> 'w broker \<Rightarrow> run_id \<Rightarrow> bool" where
  "expirable cutoff s r =
     (case run_at s r of
        None \<Rightarrow> False
      | Some run \<Rightarrow>
          r_claimed_by run = None \<and> r_offered_to run = None \<and> serving (r_agent run) s = None \<and>
          (case dget (b_unserved_since s) (r_agent run) of
             None \<Rightarrow> r_queued_at run
           | Some since \<Rightarrow> max (r_queued_at run) since) \<le> cutoff)"

definition expire_queued :: "time \<Rightarrow> 'w broker \<Rightarrow> run_id list \<times> 'w broker" where
  "expire_queued timeout_seconds s =
     (let expired = filter (expirable (b_now s - timeout_seconds) s) (b_runs s) in
      (expired, fold (\<lambda>r s. snd (push r (Fail ''no_provider_took_it'' None) s)) expired s))"

text \<open>One pass of \<^verbatim>\<open>run_forever\<close> before it waits again.\<close>

definition sweep_pass :: "time \<Rightarrow> 'w broker \<Rightarrow> 'w broker" where
  "sweep_pass unserved_timeout_seconds s =
     poke_threads ((snd (expire_queued unserved_timeout_seconds s))\<lparr>b_work_to_do := False\<rparr>)"

definition start_broker :: "'w broker \<Rightarrow> 'w broker" where
  "start_broker s = (if b_running s then s else s\<lparr>b_running := True, b_work_to_do := False\<rparr>)"

definition stop_broker :: "'w broker \<Rightarrow> 'w broker" where
  "stop_broker s = s\<lparr>b_running := False\<rparr>"

record run_snapshot =
  rs_run_id :: run_id
  rs_agent :: agent_ref
  rs_thread_id :: thread_id
  rs_offered_to :: "key option"
  rs_claimed_by :: "key option"
  rs_cancel_requested :: bool

definition snapshot :: "brun \<Rightarrow> run_snapshot" where
  "snapshot run = \<lparr>rs_run_id = r_run_id run, rs_agent = r_agent run, rs_thread_id = r_thread_id run,
     rs_offered_to = r_offered_to run, rs_claimed_by = r_claimed_by run,
     rs_cancel_requested = r_cancel_requested run\<rparr>"

definition broker_get :: "run_id \<Rightarrow> 'w broker \<Rightarrow> run_snapshot option" where
  "broker_get r s = (if r \<in> set (b_runs s) then map_option snapshot (run_at s r) else None)"

definition active_run_ids :: "'w broker \<Rightarrow> run_id list" where
  "active_run_ids s = b_runs s"

definition quality :: "'w broker \<Rightarrow> (key, nat \<times> int option \<times> (abnormality \<Rightarrow> nat)) dict" where
  "quality s = map (\<lambda>(k, p). (k, (p_in_flight p, p_declared p, p_counters p))) (b_providers s)"

datatype subscription = NoEvents | StreamTaken | Stream run_id

definition subscribe :: "run_id \<Rightarrow> 'w broker \<Rightarrow> subscription \<times> 'w broker" where
  "subscribe r s =
     (if r \<notin> set (b_runs s) then (NoEvents, s)
      else case run_at s r of
        None \<Rightarrow> (NoEvents, s)
      | Some run \<Rightarrow>
          if r_stream_open run then (StreamTaken, s)
          else (Stream r, upd_run r (\<lambda>x. x\<lparr>r_stream_open := True\<rparr>) s))"

text \<open>
  One resumption of \<^verbatim>\<open>_drain_run\<close>: an item is yielded, or the stream ends. \<^term>\<open>None\<close> while the
  queue is empty.
\<close>

definition drain_step :: "run_id \<Rightarrow> 'w broker \<Rightarrow> (event option \<times> 'w broker) option" where
  "drain_step r s =
     (case run_at s r of
        None \<Rightarrow> None
      | Some run \<Rightarrow>
          (case r_out_queue run of
             [] \<Rightarrow> None
           | Item e # rest \<Rightarrow> Some (Some e, upd_run r (\<lambda>x. x\<lparr>r_out_queue := rest\<rparr>) s)
           | END_OF_STREAM # rest \<Rightarrow>
               Some (None, upd_run r (\<lambda>x. x\<lparr>r_out_queue := rest, r_stream_open := False\<rparr>) s)))"

end
