(* ===== verification/Broker_Inv.thy ===== *)
theory Broker_Inv
  imports Broker
begin

text \<open>
  The invariant of the dispatcher and its preservation. \<open>binv X s\<close> says that the dictionaries, the
  heaps, the queues and the in-flight counts agree, for every run but those in \<open>X\<close> (the run a
  handler is in the middle of judging). Operations that only post messages, count conduct or write
  the record leave everything the invariant reads alone: they are in the relation \<open>frame\<close>. The
  others are treated one by one. The record handlers enter through the locale
  \<open>record_handlers\<close>, whose laws are what the broker relies on: a handler may append to a run's
  stream and touch the run's bookkeeping, but not the fields the broker decides by.
\<close>

section \<open>Reading a state after an update\<close>

lemma run_at_upd_run [simp]:
  "run_at (upd_run r f s) r' = (if r' = r then map_option f (run_at s r) else run_at s r')"
  by (auto simp: upd_run_def split: option.splits)

lemma hand_at_upd_hand [simp]:
  "hand_at (upd_hand h f s) h' = (if h' = h then map_option f (hand_at s h) else hand_at s h')"
  by (auto simp: upd_hand_def split: option.splits)

lemma prov_at_upd_provider [simp]:
  "prov_at (upd_provider k f s) k' = (if k' = k then Some (f (provider k s)) else prov_at s k')"
  by (simp add: upd_provider_def)

lemma upd_run_fields [simp, frame_simps]:
  "b_runs (upd_run r f s) = b_runs s" "b_run_threads (upd_run r f s) = b_run_threads s"
  "b_threads (upd_run r f s) = b_threads s" "b_hands (upd_run r f s) = b_hands s"
  "b_serving (upd_run r f s) = b_serving s" "b_providers (upd_run r f s) = b_providers s"
  "b_agent_threads (upd_run r f s) = b_agent_threads s" "b_handlers (upd_run r f s) = b_handlers s"
  "b_quality_tolerance (upd_run r f s) = b_quality_tolerance s" "b_now (upd_run r f s) = b_now s"
  "b_world (upd_run r f s) = b_world s" "b_unserved_since (upd_run r f s) = b_unserved_since s"
  "b_running (upd_run r f s) = b_running s"
  by (simp_all add: upd_run_def split: option.splits)

lemma upd_hand_fields [simp, frame_simps]:
  "b_runs (upd_hand h f s) = b_runs s" "b_run_threads (upd_hand h f s) = b_run_threads s"
  "b_threads (upd_hand h f s) = b_threads s" "b_heap (upd_hand h f s) = b_heap s"
  "b_serving (upd_hand h f s) = b_serving s" "b_providers (upd_hand h f s) = b_providers s"
  "b_agent_threads (upd_hand h f s) = b_agent_threads s" "b_handlers (upd_hand h f s) = b_handlers s"
  "b_quality_tolerance (upd_hand h f s) = b_quality_tolerance s" "b_now (upd_hand h f s) = b_now s"
  "b_world (upd_hand h f s) = b_world s" "b_unserved_since (upd_hand h f s) = b_unserved_since s"
  "b_running (upd_hand h f s) = b_running s"
  by (simp_all add: upd_hand_def split: option.splits)

lemma upd_provider_fields [simp, frame_simps]:
  "b_runs (upd_provider k f s) = b_runs s" "b_run_threads (upd_provider k f s) = b_run_threads s"
  "b_threads (upd_provider k f s) = b_threads s" "b_heap (upd_provider k f s) = b_heap s"
  "b_serving (upd_provider k f s) = b_serving s" "b_hands (upd_provider k f s) = b_hands s"
  "b_agent_threads (upd_provider k f s) = b_agent_threads s" "b_handlers (upd_provider k f s) = b_handlers s"
  "b_quality_tolerance (upd_provider k f s) = b_quality_tolerance s" "b_now (upd_provider k f s) = b_now s"
  "b_world (upd_provider k f s) = b_world s" "b_unserved_since (upd_provider k f s) = b_unserved_since s"
  "b_running (upd_provider k f s) = b_running s"
  by (simp_all add: upd_provider_def)

fun queued_ids :: "message list \<Rightarrow> run_id list" where
  "queued_ids [] = []"
| "queued_ids (MQueued r # ms) = r # queued_ids ms"
| "queued_ids (_ # ms) = queued_ids ms"

lemma queued_ids_append [simp]: "queued_ids (xs @ ys) = queued_ids xs @ queued_ids ys"
  by (induction xs rule: queued_ids.induct) simp_all

section \<open>The invariant\<close>

definition run_ok :: "brun \<Rightarrow> bool" where
  "run_ok run \<longleftrightarrow>
     (r_verdict_open run \<longrightarrow> r_offered_to run \<noteq> None \<and> r_claimed_by run = None) \<and>
     (\<forall>k. r_claimed_by run = Some k \<longrightarrow> r_offered_to run = Some k) \<and>
     (r_offered_to run \<noteq> None \<longrightarrow> r_verdict_open run \<or> r_claimed_by run \<noteq> None)"

definition unoffered_at :: "'w broker \<Rightarrow> run_id \<Rightarrow> bool" where
  "unoffered_at s r \<longleftrightarrow> (\<exists>run. run_at s r = Some run \<and> unoffered run)"

definition joined_at :: "'w broker \<Rightarrow> run_id \<Rightarrow> bool" where
  "joined_at s r \<longleftrightarrow> (\<exists>run. run_at s r = Some run \<and> r_is_interjection run \<and> r_offered_to run \<noteq> None)"

text \<open>A tracked run is unsettled and its owner is alive and holds it, or has it waiting to be read.\<close>

definition tracked_ok :: "'w broker \<Rightarrow> run_id \<Rightarrow> bool" where
  "tracked_ok s r \<longleftrightarrow>
     (\<exists>run h t. run_at s r = Some run \<and> dget (b_run_threads s) r = Some h \<and> hand_at s h = Some t \<and>
        \<not> t_done t \<and> (r \<in> set (t_live t) \<or> r \<in> set (queued_ids (t_inbox t))) \<and>
        \<not> r_settled run \<and> END_OF_STREAM \<notin> set (r_out_queue run) \<and>
        r_thread_id run = t_thread_id t \<and> r_run_id run = r \<and> r \<in> set (b_handlers s))"

text \<open>What a thread handler's lists have to do with the dictionaries, and with each other.\<close>

definition hand_shape :: "'w broker \<Rightarrow> nat \<Rightarrow> thread_handler \<Rightarrow> bool" where
  "hand_shape s h t \<longleftrightarrow>
     (\<not> t_done t \<longrightarrow> dget (b_threads s) (t_thread_id t) = Some h \<and>
        (\<exists>hs. dget (b_agent_threads s) (t_agent t) = Some hs \<and> h \<in> set hs)) \<and>
     (t_done t \<longrightarrow> t_live t = [] \<and> queued_ids (t_inbox t) = []) \<and>
     distinct (t_live t) \<and> distinct (t_queue t) \<and> set (t_queue t) \<subseteq> set (t_live t) \<and>
     distinct (queued_ids (t_inbox t)) \<and> set (queued_ids (t_inbox t)) \<inter> set (t_live t) = {} \<and>
     (\<forall>r \<in> set (t_live t) \<union> set (queued_ids (t_inbox t)). r \<in> set (b_runs s) \<and> dget (b_run_threads s) r = Some h)"

text \<open>
  Where the runs of a handler stand: a run not yet read, or waiting behind the head, is not
  offered to anyone; a live run outside the queue is an interjection that was offered.
\<close>

definition hand_phases :: "run_id set \<Rightarrow> 'w broker \<Rightarrow> thread_handler \<Rightarrow> bool" where
  "hand_phases X s t \<longleftrightarrow>
     (\<forall>r \<in> set (queued_ids (t_inbox t)) \<union> set (tl (t_queue t)) - X. unoffered_at s r) \<and>
     (\<forall>r \<in> set (t_live t) - set (t_queue t) - X. joined_at s r)"

definition hand_ok :: "run_id set \<Rightarrow> 'w broker \<Rightarrow> nat \<Rightarrow> thread_handler \<Rightarrow> bool" where
  "hand_ok X s h t \<longleftrightarrow> hand_shape s h t \<and> hand_phases X s t"

definition seats :: "'w broker \<Rightarrow> key \<Rightarrow> run_id set" where
  "seats s k = {r \<in> set (b_runs s). \<exists>run. run_at s r = Some run \<and> r_offered_to run = Some k}"

definition seats_ok :: "'w broker \<Rightarrow> bool" where
  "seats_ok s \<longleftrightarrow>
     (\<forall>k p. prov_at s k = Some p \<longrightarrow> p_in_flight p = card (seats s k)) \<and>
     (\<forall>k. prov_at s k = None \<longrightarrow> seats s k = {})"

definition roster_ok :: "'w broker \<Rightarrow> bool" where
  "roster_ok s \<longleftrightarrow>
     (\<forall>k p c. prov_at s k = Some p \<longrightarrow> p_connection p = Some c \<longrightarrow> c_public_key c = k) \<and>
     (\<forall>a k. dget (b_serving s) a = Some k \<longrightarrow> (\<exists>p c. prov_at s k = Some p \<and> p_connection p = Some c))"

definition stream_closed :: "brun \<Rightarrow> bool" where
  "stream_closed run \<longleftrightarrow>
     r_settled run \<and> r_offered_to run = None \<and>
     (r_out_queue run \<noteq> [] \<longrightarrow> last (r_out_queue run) = END_OF_STREAM) \<and>
     END_OF_STREAM \<notin> set (butlast (r_out_queue run))"

text \<open>A run that is no longer tracked is over: its stream is closed and nothing records for it.\<close>

definition forgotten_ok :: "'w broker \<Rightarrow> bool" where
  "forgotten_ok s \<longleftrightarrow> set (b_handlers s) \<subseteq> set (b_runs s) \<and> (\<forall>r run. r \<notin> set (b_runs s) \<longrightarrow> run_at s r = Some run \<longrightarrow> stream_closed run)"

text \<open>The handler a thread is bound to exists, is that thread's and has not left.\<close>

definition threads_ok :: "'w broker \<Rightarrow> bool" where
  "threads_ok s \<longleftrightarrow>
     (\<forall>x h. dget (b_threads s) x = Some h \<longrightarrow> (\<exists>t. hand_at s h = Some t \<and> t_thread_id t = x \<and> \<not> t_done t))"

definition binv :: "run_id set \<Rightarrow> 'w broker \<Rightarrow> bool" where
  "binv X s \<longleftrightarrow>
     distinct (b_runs s) \<and>
     (\<forall>r \<in> set (b_runs s). tracked_ok s r) \<and>
     (\<forall>h t. hand_at s h = Some t \<longrightarrow> hand_ok X s h t) \<and>
     (\<forall>r \<in> set (b_runs s) - X. \<forall>run. run_at s r = Some run \<longrightarrow> run_ok run) \<and>
     seats_ok s \<and> roster_ok s \<and> forgotten_ok s \<and> threads_ok s"

lemma binv_mono: "binv X s \<Longrightarrow> X \<subseteq> Y \<Longrightarrow> binv Y s"
  unfolding binv_def hand_ok_def hand_phases_def by blast

lemma binv_tracked: "binv X s \<Longrightarrow> r \<in> set (b_runs s) \<Longrightarrow> tracked_ok s r"
  by (simp add: binv_def)

lemma binv_hand: "binv X s \<Longrightarrow> hand_at s h = Some t \<Longrightarrow> hand_ok X s h t"
  by (simp add: binv_def)

lemma binv_run_ok: "binv X s \<Longrightarrow> r \<in> set (b_runs s) \<Longrightarrow> r \<notin> X \<Longrightarrow> run_at s r = Some run \<Longrightarrow> run_ok run"
  by (simp add: binv_def)

lemma live_tracked:
  "binv X s \<Longrightarrow> hand_at s h = Some t \<Longrightarrow> r \<in> set (t_live t) \<Longrightarrow>
     r \<in> set (b_runs s) \<and> dget (b_run_threads s) r = Some h"
  using binv_hand [of X s h t] unfolding hand_ok_def hand_shape_def by blast

lemma bound_thread: "binv X s \<Longrightarrow> hand_at s h = Some t \<Longrightarrow> \<not> t_done t \<Longrightarrow> dget (b_threads s) (t_thread_id t) = Some h"
  using binv_hand [of X s h t] unfolding hand_ok_def hand_shape_def by blast

lemma recorded_tracked: "binv X s \<Longrightarrow> r \<in> set (b_handlers s) \<Longrightarrow> r \<in> set (b_runs s)"
  unfolding binv_def forgotten_ok_def by blast

lemma tracked_run: "tracked_ok s r \<Longrightarrow> \<exists>run. run_at s r = Some run \<and> \<not> r_settled run \<and> r_run_id run = r"
  unfolding tracked_ok_def by blast

section \<open>The frame relation\<close>

text \<open>What a record handler may do to a run: nothing the broker decides by; the stream only grows.\<close>

definition frame_run :: "brun \<Rightarrow> brun \<Rightarrow> bool" where
  "frame_run x y \<longleftrightarrow>
     r_run_id y = r_run_id x \<and> r_agent y = r_agent x \<and> r_thread_id y = r_thread_id x \<and>
     r_input_json y = r_input_json x \<and> r_addressed_run_id y = r_addressed_run_id x \<and>
     r_offered_to y = r_offered_to x \<and> r_offered_conn y = r_offered_conn x \<and>
     r_offer_id y = r_offer_id x \<and> r_verdict_open y = r_verdict_open x \<and>
     r_is_interjection y = r_is_interjection x \<and> r_claimed_by y = r_claimed_by x \<and>
     r_settled y = r_settled x \<and>
     (\<exists>evs. r_out_queue y = r_out_queue x @ map Item evs \<and> (r_settled x \<longrightarrow> evs = []))"

definition frame_hand :: "thread_handler \<Rightarrow> thread_handler \<Rightarrow> bool" where
  "frame_hand x y \<longleftrightarrow>
     t_thread_id y = t_thread_id x \<and> t_agent y = t_agent x \<and> t_queue y = t_queue x \<and>
     t_live y = t_live x \<and> t_done y = t_done x \<and> queued_ids (t_inbox y) = queued_ids (t_inbox x)"

lemma frame_run_refl [simp]: "frame_run x x"
  unfolding frame_run_def by (auto intro: exI [of _ "[]"])

lemma frame_run_trans: "frame_run x y \<Longrightarrow> frame_run y z \<Longrightarrow> frame_run x z"
  unfolding frame_run_def by (auto simp flip: map_append)

lemma frame_hand_refl [simp]: "frame_hand x x"
  by (simp add: frame_hand_def)

lemma frame_hand_trans: "frame_hand x y \<Longrightarrow> frame_hand y z \<Longrightarrow> frame_hand x z"
  by (simp add: frame_hand_def)

lemma rel_option_refl': "(\<And>x. R x x) \<Longrightarrow> rel_option R x x"
  by (cases x) auto

lemma rel_option_trans':
  "(\<And>x y z. R x y \<Longrightarrow> R y z \<Longrightarrow> R x z) \<Longrightarrow> rel_option R a b \<Longrightarrow> rel_option R b c \<Longrightarrow> rel_option R a c"
  by (cases a; cases b; cases c) auto

text \<open>The provider part: in-flight counts and connections stay, a handler born on the way is empty.\<close>

definition frame_prov :: "provider_handler option \<Rightarrow> provider_handler option \<Rightarrow> bool" where
  "frame_prov x y \<longleftrightarrow>
     (case y of
        None \<Rightarrow> x = None
      | Some q \<Rightarrow>
          (case x of
             None \<Rightarrow> p_in_flight q = 0 \<and> p_connection q = None \<and> p_declared q = None
           | Some p \<Rightarrow> p_in_flight q = p_in_flight p \<and> p_connection q = p_connection p \<and> p_declared q = p_declared p))"

definition frame :: "'w broker \<Rightarrow> 'w broker \<Rightarrow> bool" where
  "frame s s' \<longleftrightarrow>
     b_runs s' = b_runs s \<and> b_run_threads s' = b_run_threads s \<and> b_threads s' = b_threads s \<and>
     b_handlers s' = b_handlers s \<and> b_agent_threads s' = b_agent_threads s \<and>
     (\<forall>r. rel_option frame_run (run_at s r) (run_at s' r)) \<and>
     (\<forall>h. rel_option frame_hand (hand_at s h) (hand_at s' h)) \<and>
     (\<forall>k. frame_prov (prov_at s k) (prov_at s' k)) \<and>
     (\<forall>a k. dget (b_serving s') a = Some k \<longrightarrow> dget (b_serving s) a = Some k)"

lemma frame_prov_refl [simp]: "frame_prov x x"
  by (simp add: frame_prov_def split: option.splits)

lemma frame_prov_trans: "frame_prov x y \<Longrightarrow> frame_prov y z \<Longrightarrow> frame_prov x z"
  by (simp add: frame_prov_def split: option.splits)

lemma frame_refl [simp]: "frame s s"
  by (simp add: frame_def rel_option_refl')

lemma frame_trans [trans]:
  assumes "frame s s'" "frame s' s''"
  shows "frame s s''"
proof -
  have "rel_option frame_run (run_at s r) (run_at s'' r)" for r
    by (rule rel_option_trans' [of frame_run _ "run_at s' r"])
       (use assms frame_run_trans in \<open>blast, simp_all add: frame_def\<close>)
  moreover have "rel_option frame_hand (hand_at s h) (hand_at s'' h)" for h
    by (rule rel_option_trans' [of frame_hand _ "hand_at s' h"])
       (use assms frame_hand_trans in \<open>blast, simp_all add: frame_def\<close>)
  moreover have "frame_prov (prov_at s k) (prov_at s'' k)" for k
    by (rule frame_prov_trans [of _ "prov_at s' k"]) (use assms in \<open>simp_all add: frame_def\<close>)
  ultimately show ?thesis using assms unfolding frame_def by simp
qed

lemma frame_provD: "frame s s' \<Longrightarrow> frame_prov (prov_at s k) (prov_at s' k)"
  by (simp add: frame_def)

lemma frame_servingD: "frame s s' \<Longrightarrow> dget (b_serving s') a = Some k \<Longrightarrow> dget (b_serving s) a = Some k"
  by (simp add: frame_def)

lemma frame_fold: "(\<And>x s. x \<in> set xs \<Longrightarrow> frame s (f x s)) \<Longrightarrow> frame s (fold f xs s)"
proof (induction xs arbitrary: s)
  case (Cons x xs)
  have "frame s (f x s)" using Cons.prems by simp
  moreover have "frame (f x s) (fold f xs (f x s))" using Cons by simp
  ultimately show ?case by (simp add: frame_trans)
qed simp

lemma frame_runD: "frame s s' \<Longrightarrow> run_at s r = Some x \<Longrightarrow> \<exists>y. run_at s' r = Some y \<and> frame_run x y"
  unfolding frame_def by (metis option.rel_cases option.distinct(1) option.inject)

lemma frame_runD': "frame s s' \<Longrightarrow> run_at s' r = Some y \<Longrightarrow> \<exists>x. run_at s r = Some x \<and> frame_run x y"
  unfolding frame_def by (metis option.rel_cases option.distinct(1) option.inject)

lemma frame_handD: "frame s s' \<Longrightarrow> hand_at s h = Some x \<Longrightarrow> \<exists>y. hand_at s' h = Some y \<and> frame_hand x y"
  unfolding frame_def by (metis option.rel_cases option.distinct(1) option.inject)

lemma frame_handD': "frame s s' \<Longrightarrow> hand_at s' h = Some y \<Longrightarrow> \<exists>x. hand_at s h = Some x \<and> frame_hand x y"
  unfolding frame_def by (metis option.rel_cases option.distinct(1) option.inject)

lemma frame_fields:
  assumes "frame s s'"
  shows "b_runs s' = b_runs s" "b_run_threads s' = b_run_threads s" "b_threads s' = b_threads s"
    "b_handlers s' = b_handlers s" "b_agent_threads s' = b_agent_threads s"
  using assms by (simp_all add: frame_def)

lemma frame_unoffered_at: "frame s s' \<Longrightarrow> unoffered_at s r \<Longrightarrow> unoffered_at s' r"
  unfolding unoffered_at_def by (auto dest!: frame_runD simp: frame_run_def unoffered_def)

lemma frame_joined_at: "frame s s' \<Longrightarrow> joined_at s r \<Longrightarrow> joined_at s' r"
  unfolding joined_at_def by (auto dest!: frame_runD simp: frame_run_def)

lemma frame_seats: "frame s s' \<Longrightarrow> seats s' k = seats s k"
  unfolding seats_def by (auto simp: frame_fields dest: frame_runD frame_runD' simp: frame_run_def)

lemma frame_tracked_ok: "frame s s' \<Longrightarrow> tracked_ok s r \<Longrightarrow> tracked_ok s' r"
proof -
  assume f: "frame s s'" and "tracked_ok s r"
  then obtain run h t where *: "run_at s r = Some run" "dget (b_run_threads s) r = Some h" "hand_at s h = Some t"
      "\<not> t_done t" "r \<in> set (t_live t) \<or> r \<in> set (queued_ids (t_inbox t))" "\<not> r_settled run"
      "END_OF_STREAM \<notin> set (r_out_queue run)" "r_thread_id run = t_thread_id t" "r_run_id run = r"
      "r \<in> set (b_handlers s)"
    unfolding tracked_ok_def by blast
  from frame_runD [OF f *(1)] obtain run' where "run_at s' r = Some run'" "frame_run run run'" by blast
  moreover from frame_handD [OF f *(3)] obtain t' where "hand_at s' h = Some t'" "frame_hand t t'" by blast
  ultimately show ?thesis
    using * f unfolding tracked_ok_def frame_run_def frame_hand_def frame_def by auto
qed

lemma frame_hand_ok:
  assumes f: "frame s s'" and "frame_hand t t'" and ok: "hand_ok X s h t"
  shows "hand_ok X s' h t'"
proof -
  have eqs: "t_thread_id t' = t_thread_id t" "t_agent t' = t_agent t" "t_queue t' = t_queue t" "t_live t' = t_live t"
    "t_done t' = t_done t" "queued_ids (t_inbox t') = queued_ids (t_inbox t)"
    using assms(2) by (simp_all add: frame_hand_def)
  have "hand_shape s' h t'" using ok unfolding hand_ok_def hand_shape_def eqs frame_fields [OF f] by simp
  moreover have "hand_phases X s' t'"
    using ok frame_unoffered_at [OF f] frame_joined_at [OF f] unfolding hand_ok_def hand_phases_def eqs by blast
  ultimately show ?thesis by (simp add: hand_ok_def)
qed

lemma frame_seats_ok:
  assumes f: "frame s s'" and ok: "seats_ok s"
  shows "seats_ok s'"
  unfolding seats_ok_def frame_seats [OF f]
proof (intro conjI allI impI)
  show "p_in_flight p' = card (seats s k)" if "prov_at s' k = Some p'" for k p'
    using that frame_provD [OF f, of k] ok
    by (cases "prov_at s k") (simp_all add: frame_prov_def seats_ok_def)
  show "seats s k = {}" if "prov_at s' k = None" for k
    using that frame_provD [OF f, of k] ok by (simp add: frame_prov_def seats_ok_def)
qed

lemma frame_roster_ok:
  assumes f: "frame s s'" and ok: "roster_ok s"
  shows "roster_ok s'"
  unfolding roster_ok_def
proof (intro conjI allI impI)
  show "c_public_key c = k" if "prov_at s' k = Some p'" "p_connection p' = Some c" for k p' c
    using that frame_provD [OF f, of k] ok
    by (cases "prov_at s k") (simp_all add: frame_prov_def roster_ok_def)
  show "\<exists>p c. prov_at s' k = Some p \<and> p_connection p = Some c" if "dget (b_serving s') a = Some k" for a k
  proof -
    from ok frame_servingD [OF f that] obtain p c where "prov_at s k = Some p" "p_connection p = Some c"
      unfolding roster_ok_def by blast
    then show ?thesis using frame_provD [OF f, of k] by (cases "prov_at s' k") (simp_all add: frame_prov_def)
  qed
qed

lemma frame_forgotten_ok: "frame s s' \<Longrightarrow> forgotten_ok s \<Longrightarrow> forgotten_ok s'"
  unfolding forgotten_ok_def
  by (auto simp: frame_fields dest!: frame_runD' simp: frame_run_def stream_closed_def)

lemma threads_transfer:
  assumes "threads_ok s" "b_threads s' = b_threads s"
    and "\<And>h t. hand_at s h = Some t \<Longrightarrow>
      \<exists>t'. hand_at s' h = Some t' \<and> t_thread_id t' = t_thread_id t \<and> t_done t' = t_done t"
  shows "threads_ok s'"
  unfolding threads_ok_def
proof (intro allI impI)
  fix x h
  assume "dget (b_threads s') x = Some h"
  then obtain t where "hand_at s h = Some t" "t_thread_id t = x" "\<not> t_done t"
    using assms(1,2) unfolding threads_ok_def by auto
  then show "\<exists>t. hand_at s' h = Some t \<and> t_thread_id t = x \<and> \<not> t_done t" using assms(3) by fastforce
qed

lemma frame_threads_ok: "frame s s' \<Longrightarrow> threads_ok s \<Longrightarrow> threads_ok s'"
  by (rule threads_transfer) (auto simp: frame_fields frame_hand_def dest: frame_handD)

lemma binv_frame:
  assumes f: "frame s s'" and ok: "binv X s"
  shows "binv X s'"
  unfolding binv_def
proof (intro conjI ballI allI impI)
  show "distinct (b_runs s')" using frame_fields [OF f] ok by (simp add: binv_def)
  show "tracked_ok s' r" if "r \<in> set (b_runs s')" for r
    using that frame_fields [OF f] ok frame_tracked_ok [OF f] by (simp add: binv_def)
  show "hand_ok X s' h t" if "hand_at s' h = Some t" for h t
    using frame_handD' [OF f that] ok frame_hand_ok [OF f] binv_hand by blast
  show "run_ok run" if "r \<in> set (b_runs s') - X" "run_at s' r = Some run" for r run
  proof -
    from frame_runD' [OF f that(2)] obtain x where "run_at s r = Some x" "frame_run x run" by blast
    then show ?thesis using that(1) ok unfolding binv_def frame_fields [OF f] by (auto simp: run_ok_def frame_run_def)
  qed
  show "seats_ok s'" "roster_ok s'" "forgotten_ok s'" "threads_ok s'"
    using f ok by (simp_all add: binv_def frame_seats_ok frame_roster_ok frame_forgotten_ok frame_threads_ok)
qed

section \<open>Operations inside the frame\<close>

lemma frame_upd_run: "(\<And>x. run_at s r = Some x \<Longrightarrow> frame_run x (f x)) \<Longrightarrow> frame s (upd_run r f s)"
  by (cases "run_at s r") (auto simp: frame_def rel_option_refl' simp del: upd_run_fields simp: upd_run_fields)

lemma frame_upd_hand: "(\<And>x. hand_at s h = Some x \<Longrightarrow> frame_hand x (f x)) \<Longrightarrow> frame s (upd_hand h f s)"
  by (cases "hand_at s h") (auto simp: frame_def rel_option_refl')

lemma frame_upd_provider:
  "(\<And>p. p_in_flight (f p) = p_in_flight p \<and> p_connection (f p) = p_connection p \<and> p_declared (f p) = p_declared p)
     \<Longrightarrow> frame s (upd_provider k f s)"
  by (cases "prov_at s k")
     (auto simp: frame_def rel_option_refl' frame_prov_def provider_def new_provider_handler_def split: option.splits)

lemma frame_flags [simp, intro]:
  "frame s (s\<lparr>b_work_to_do := x\<rparr>)" "frame s (s\<lparr>b_effects := e\<rparr>)" "frame s (s\<lparr>b_unserved_since := u\<rparr>)"
  "frame s (s\<lparr>b_world := w\<rparr>)" "frame s (s\<lparr>b_now := n\<rparr>)" "frame s (s\<lparr>b_running := b\<rparr>)"
  by (simp_all add: frame_def rel_option_refl')

lemma frame_put_inbox: "queued_ids [m] = [] \<Longrightarrow> frame s (put_inbox h m s)"
  unfolding put_inbox_def by (rule frame_upd_hand) (simp add: frame_hand_def)

lemma frame_post: "queued_ids [m] = [] \<Longrightarrow> frame s (snd (post r m s))"
  by (auto simp: post_def frame_put_inbox split: option.splits)

lemma frame_doors:
  "frame s (snd (answer_offer r v k s))" "frame s (snd (report_event r e k s))"
  "frame s (snd (finish_stream r k s))" "frame s (snd (push r c s))" "frame s (snd (note_undelivered r s))"
  by (simp_all add: answer_offer_def report_event_def finish_stream_def push_def note_undelivered_def frame_post)

lemma frame_request_cancel: "frame s (snd (request_cancel r s))"
proof -
  have "frame s (upd_run r (\<lambda>r. r\<lparr>r_cancel_requested := True\<rparr>) s)"
    by (rule frame_upd_run) (auto simp: frame_run_def)
  then show ?thesis
    unfolding request_cancel_def by (simp add: frame_trans [OF _ frame_post])
qed

lemma frame_poke_threads: "frame s (poke_threads s)"
  unfolding poke_threads_def by (intro frame_fold frame_put_inbox) simp

lemma frame_poke_agent: "frame s (poke_agent a s)"
  unfolding poke_agent_def by (intro frame_fold frame_put_inbox) simp

lemma frame_fail_held_runs: "frame s (fail_held_runs ref s)"
  unfolding fail_held_runs_def by (intro frame_fold) (auto simp: frame_doors split: option.splits)

lemma frame_unregister_one: "frame s (unregister_one ref s)"
proof -
  let ?s = "s\<lparr>b_serving := dpop ref (b_serving s), b_unserved_since := dput ref (b_now s) (b_unserved_since s)\<rparr>"
  have "frame s ?s" by (auto simp: frame_def rel_option_refl' split: if_splits)
  then show ?thesis
    unfolding unregister_one_def
    by (simp add: frame_trans [OF frame_trans [OF _ frame_fail_held_runs] frame_poke_agent])
qed

lemma frame_unregister_provider: "frame s (unregister_provider refs s)"
  unfolding unregister_provider_def by (intro frame_fold frame_unregister_one)

lemma frame_note_abnormal: "frame s (note_abnormal k ev s)"
proof -
  let ?s = "upd_provider k (\<lambda>p. p\<lparr>p_counters := (p_counters p)(ev := Suc (p_counters p ev))\<rparr>) s"
  have "frame s ?s" by (rule frame_upd_provider) simp
  then show ?thesis
    unfolding note_abnormal_def Let_def
    using frame_trans [OF _ frame_unregister_provider] by (auto split: option.splits)
qed

lemma frame_note_misdeclared: "frame s (note_misdeclared k s)"
  by (simp add: note_misdeclared_def frame_note_abnormal)

lemma frame_expire_queued: "frame s (snd (expire_queued n s))"
  unfolding expire_queued_def Let_def snd_conv by (intro frame_fold frame_doors)

lemma frame_sweep_pass: "frame s (sweep_pass n s)"
  unfolding sweep_pass_def
  by (rule frame_trans [OF frame_trans [OF frame_expire_queued frame_flags(1)] frame_poke_threads])

lemmas frame_ops = frame_doors frame_request_cancel frame_poke_threads frame_poke_agent
  frame_unregister_provider frame_note_abnormal frame_note_misdeclared frame_expire_queued frame_sweep_pass

section \<open>The record handlers\<close>

locale record_handlers =
  fixes E :: "'w broker_env"
  assumes keeps: "env_record E c run w = Some (run', w') \<Longrightarrow> \<not> r_settled run \<Longrightarrow> frame_run run run'"
begin

lemma frame_record_cmd:
  assumes "binv X s"
  shows "frame s (record_cmd E r c s)"
proof (cases "r \<in> set (b_handlers s) \<and> run_at s r \<noteq> None")
  case True
  then obtain run where run: "run_at s r = Some run" by blast
  then have live: "\<not> r_settled run"
    using True tracked_run [OF binv_tracked [OF assms recorded_tracked [OF assms, of r]]] by auto
  show ?thesis
  proof (cases "env_record E c run (b_world s)")
    case (Some rw)
    then obtain run' w' where rw: "env_record E c run (b_world s) = Some (run', w')" by (cases rw) auto
    have "frame_run run run'" using keeps [OF rw live] .
    then have "frame s (upd_run r (\<lambda>_. run') s)" using run by (intro frame_upd_run) auto
    moreover have "record_cmd E r c s = (upd_run r (\<lambda>_. run') s)\<lparr>b_world := w'\<rparr>"
      using True run rw by (simp add: record_cmd_def upd_run_def)
    ultimately show ?thesis by (metis frame_trans frame_flags(4))
  qed (use True run in \<open>simp add: record_cmd_def\<close>)
qed (auto simp: record_cmd_def split: option.splits)

lemma binv_record_cmd: "binv X s \<Longrightarrow> binv X (record_cmd E r c s)"
  by (rule binv_frame [OF frame_record_cmd])

end

end
