(* ===== verification/Broker_Steps.thy ===== *)
theory Broker_Steps
  imports Broker_Inv
begin

text \<open>
  Every operation of the dispatcher keeps the invariant of \<open>Broker_Inv\<close>. The operations that
  move a run between phases (release, settle, offer, join, claim) are shown to take the invariant
  with the run exempted to the invariant without exemptions; the handlers are then chains of such
  steps. The section ends with the step relation of the whole dispatcher and its reachable states.
\<close>

section \<open>A run a handler is judging\<close>

lemma upd_run_upd_run: "upd_run r f (upd_run r g s) = upd_run r (f \<circ> g) s"
proof -
  have "dput k v (dput k u d) = dput k v d" for k v u and d :: "(run_id, brun) dict"
    by (induction d) auto
  then show ?thesis by (simp add: upd_run_def split: option.splits)
qed

lemma upd_hand_upd_hand: "upd_hand h f (upd_hand h g s) = upd_hand h (f \<circ> g) s"
proof -
  have "dput k v (dput k u d) = dput k v d" for k v u and d :: "(nat, thread_handler) dict"
    by (induction d) auto
  then show ?thesis by (simp add: upd_hand_def split: option.splits)
qed

lemma seats_upd_run_same:
  "(\<And>x. run_at s r = Some x \<Longrightarrow> r_offered_to (f x) = r_offered_to x) \<Longrightarrow> seats (upd_run r f s) k = seats s k"
  unfolding seats_def by (auto split: if_splits)

lemma phases_upd_run_exempt: "r \<in> X \<Longrightarrow> hand_phases X s t \<Longrightarrow> hand_phases X (upd_run r f s) t"
  unfolding hand_phases_def unoffered_at_def joined_at_def by (metis (no_types, lifting) Diff_iff run_at_upd_run)

lemma shape_upd_run [simp]: "hand_shape (upd_run r f s) h t = hand_shape s h t"
  by (simp add: hand_shape_def)

text \<open>Changes to the verdict, the claim, the clocks of an exempted run.\<close>

lemma binv_upd_exempt:
  assumes ok: "binv X s" and r: "r \<in> X" "r \<in> set (b_runs s)"
    and f: "\<And>x. r_offered_to (f x) = r_offered_to x" "\<And>x. r_settled (f x) = r_settled x"
      "\<And>x. r_out_queue (f x) = r_out_queue x" "\<And>x. r_thread_id (f x) = r_thread_id x"
      "\<And>x. r_run_id (f x) = r_run_id x"
  shows "binv X (upd_run r f s)"
proof -
  have "tracked_ok (upd_run r f s) r'" if "tracked_ok s r'" for r'
    using that unfolding tracked_ok_def by (auto simp: f)
  moreover have "hand_ok X (upd_run r f s) h t" if "hand_ok X s h t" for h t
    using that r(1) by (simp add: hand_ok_def phases_upd_run_exempt)
  moreover have "seats_ok (upd_run r f s)" if "seats_ok s"
    using that by (simp add: seats_ok_def seats_upd_run_same f)
  moreover have "roster_ok (upd_run r f s)" if "roster_ok s" using that by (simp add: roster_ok_def)
  moreover have "forgotten_ok (upd_run r f s)" if "forgotten_ok s"
    using that r(2) unfolding forgotten_ok_def by auto
  moreover have "threads_ok (upd_run r f s)" if "threads_ok s" using that by (simp add: threads_ok_def)
  ultimately show ?thesis using ok r(1) unfolding binv_def by (auto split: if_splits)
qed

section \<open>Giving a place back\<close>

lemma release_unoffered:
  "run_at s r = Some run \<Longrightarrow> r_offered_to run = None \<Longrightarrow>
     release r s = upd_run r (\<lambda>x. x\<lparr>r_offered_to := None, r_offered_conn := None\<rparr>) s"
  by (simp add: release_def)

lemma seats_finite [simp]: "finite (seats s k)"
  by (rule finite_subset [of _ "set (b_runs s)"]) (auto simp: seats_def)

lemma release_offered:
  assumes ok: "binv X s" and r: "r \<in> set (b_runs s)" "run_at s r = Some run" "r_offered_to run = Some k"
  shows "\<exists>p. prov_at s k = Some p \<and> p_in_flight p > 0 \<and>
    release r s = upd_provider k (\<lambda>p. p\<lparr>p_in_flight := p_in_flight p - 1\<rparr>)
      (upd_run r (\<lambda>x. x\<lparr>r_offered_to := None, r_offered_conn := None\<rparr>) s)"
proof -
  have "r \<in> seats s k" using r by (simp add: seats_def)
  then have "prov_at s k \<noteq> None" "card (seats s k) > 0"
    using ok by (auto simp: binv_def seats_ok_def card_gt_0_iff)
  then obtain p where "prov_at s k = Some p" "p_in_flight p > 0" using ok by (auto simp: binv_def seats_ok_def)
  then show ?thesis using r by (simp add: release_def Let_def)
qed

lemma seats_release:
  assumes "run_at s r = Some run"
  shows "seats (upd_run r (\<lambda>x. x\<lparr>r_offered_to := None, r_offered_conn := None\<rparr>) s) k = seats s k - {r}"
  using assms unfolding seats_def by (auto split: if_splits)

lemma seats_only: "r \<in> seats s k \<longleftrightarrow> r \<in> set (b_runs s) \<and> (\<exists>run. run_at s r = Some run \<and> r_offered_to run = Some k)"
  by (simp add: seats_def)

lemma seats_ok_release:
  assumes ok: "binv X s" and r: "r \<in> set (b_runs s)" "run_at s r = Some run"
  shows "seats_ok (release r s)"
proof (cases "r_offered_to run")
  case None
  then have "seats (release r s) k = seats s k" for k
    using r by (simp add: release_unoffered seats_release) (auto simp: seats_def)
  then show ?thesis using ok None r by (simp add: release_unoffered binv_def seats_ok_def)
next
  case (Some k)
  from release_offered [OF ok r this] obtain p where p: "prov_at s k = Some p" "p_in_flight p > 0"
    "release r s = upd_provider k (\<lambda>p. p\<lparr>p_in_flight := p_in_flight p - 1\<rparr>)
      (upd_run r (\<lambda>x. x\<lparr>r_offered_to := None, r_offered_conn := None\<rparr>) s)" by blast
  have seats: "seats (release r s) k' = (if k' = k then seats s k - {r} else seats s k')" for k'
  proof -
    have "seats (release r s) k' = seats s k' - {r}"
      using r p(3) seats_release [OF r(2), of k'] by (simp add: seats_def)
    moreover have "r \<notin> seats s k'" if "k' \<noteq> k" using that r Some by (simp add: seats_only)
    ultimately show ?thesis by auto
  qed
  have "r \<in> seats s k" using r Some by (simp add: seats_only)
  then show ?thesis using ok p unfolding seats_ok_def seats
    by (auto simp: p(3) provider_def binv_def seats_ok_def)
qed

lemma release_frame_parts:
  "b_runs (release r s) = b_runs s" "b_run_threads (release r s) = b_run_threads s"
  "b_threads (release r s) = b_threads s" "b_hands (release r s) = b_hands s"
  "b_agent_threads (release r s) = b_agent_threads s" "b_handlers (release r s) = b_handlers s"
  "b_serving (release r s) = b_serving s" "b_world (release r s) = b_world s"
  "run_at (release r s) r' =
     (if r' = r then map_option (\<lambda>x. x\<lparr>r_offered_to := None, r_offered_conn := None\<rparr>) (run_at s r) else run_at s r')"
  by (simp_all add: release_def Let_def split: option.splits)

lemma roster_release: "roster_ok s \<Longrightarrow> roster_ok (release r s)"
  by (auto simp: release_def Let_def roster_ok_def provider_def split: option.splits if_splits) fastforce

lemma binv_release:
  assumes ok: "binv X s" and r: "r \<in> X" "r \<in> set (b_runs s)"
  shows "binv X (release r s)"
proof -
  obtain run where run: "run_at s r = Some run" using tracked_run [OF binv_tracked [OF ok r(2)]] by blast
  have "tracked_ok (release r s) r'" if "tracked_ok s r'" for r'
    using that unfolding tracked_ok_def by (auto simp: release_frame_parts)
  moreover have "hand_ok X (release r s) h t" if ok': "hand_ok X s h t" for h t
  proof -
    have "hand_phases X (release r s) t \<longleftrightarrow>
        hand_phases X (upd_run r (\<lambda>x. x\<lparr>r_offered_to := None, r_offered_conn := None\<rparr>) s) t"
      by (simp add: hand_phases_def unoffered_at_def joined_at_def release_frame_parts)
    moreover have "hand_shape (release r s) h t = hand_shape s h t"
      by (simp add: hand_shape_def release_frame_parts)
    ultimately show ?thesis using ok' r(1) by (simp add: hand_ok_def phases_upd_run_exempt)
  qed
  moreover have "forgotten_ok (release r s)" if "forgotten_ok s"
    using that r(2) unfolding forgotten_ok_def by (auto simp: release_frame_parts)
  moreover have "threads_ok (release r s)" if "threads_ok s"
    using that by (simp add: threads_ok_def release_frame_parts)
  ultimately show ?thesis
    using ok r(1) seats_ok_release [OF ok r(2) run] roster_release [of s r] unfolding binv_def
    by (auto simp: release_frame_parts split: if_splits)
qed

section \<open>Settling\<close>

lemma phases_transfer:
  assumes "hand_phases X s t"
    and "\<And>x. x \<in> set (queued_ids (t_inbox t')) \<union> set (tl (t_queue t')) \<Longrightarrow> x \<notin> X' \<Longrightarrow>
      (x \<in> set (queued_ids (t_inbox t)) \<union> set (tl (t_queue t)) - X \<and> run_at s' x = run_at s x) \<or> unoffered_at s' x"
    and "\<And>x. x \<in> set (t_live t') \<Longrightarrow> x \<notin> set (t_queue t') \<Longrightarrow> x \<notin> X' \<Longrightarrow>
      (x \<in> set (t_live t) - set (t_queue t) - X \<and> run_at s' x = run_at s x) \<or> joined_at s' x"
  shows "hand_phases X' s' t'"
  unfolding hand_phases_def
proof (intro conjI ballI)
  show "unoffered_at s' x" if "x \<in> set (queued_ids (t_inbox t')) \<union> set (tl (t_queue t')) - X'" for x
    using that assms(1) assms(2) [of x] unfolding hand_phases_def unoffered_at_def by auto
  show "joined_at s' x" if "x \<in> set (t_live t') - set (t_queue t') - X'" for x
    using that assms(1) assms(3) [of x] unfolding hand_phases_def joined_at_def by auto
qed

lemma tracked_transfer:
  assumes "tracked_ok s r"
    and "\<And>run. run_at s r = Some run \<Longrightarrow> \<exists>run'. run_at s' r = Some run' \<and> r_settled run' = r_settled run \<and>
       set (r_out_queue run') = set (r_out_queue run) \<and> r_thread_id run' = r_thread_id run \<and> r_run_id run' = r_run_id run"
    and "dget (b_run_threads s') r = dget (b_run_threads s) r" "r \<in> set (b_handlers s) \<Longrightarrow> r \<in> set (b_handlers s')"
    and "\<And>h t. dget (b_run_threads s) r = Some h \<Longrightarrow> hand_at s h = Some t \<Longrightarrow> \<not> t_done t \<Longrightarrow>
       r \<in> set (t_live t) \<union> set (queued_ids (t_inbox t)) \<Longrightarrow>
       \<exists>t'. hand_at s' h = Some t' \<and> \<not> t_done t' \<and> t_thread_id t' = t_thread_id t \<and>
         r \<in> set (t_live t') \<union> set (queued_ids (t_inbox t'))"
  shows "tracked_ok s' r"
proof -
  from assms(1) obtain run h t where *: "run_at s r = Some run" "dget (b_run_threads s) r = Some h"
      "hand_at s h = Some t" "\<not> t_done t" "r \<in> set (t_live t) \<union> set (queued_ids (t_inbox t))" "\<not> r_settled run"
      "END_OF_STREAM \<notin> set (r_out_queue run)" "r_thread_id run = t_thread_id t" "r_run_id run = r"
      "r \<in> set (b_handlers s)"
    unfolding tracked_ok_def by blast
  from assms(2) [OF *(1)] obtain run' where "run_at s' r = Some run'" "r_settled run' = r_settled run"
    "set (r_out_queue run') = set (r_out_queue run)" "r_thread_id run' = r_thread_id run"
    "r_run_id run' = r_run_id run" by blast
  moreover from assms(5) [OF *(2-5)] obtain t' where "hand_at s' h = Some t'" "\<not> t_done t'"
    "t_thread_id t' = t_thread_id t" "r \<in> set (t_live t') \<union> set (queued_ids (t_inbox t'))" by blast
  ultimately show ?thesis using * assms(3,4) unfolding tracked_ok_def by simp
qed

text \<open>What settling does besides giving the place back and telling everybody.\<close>

definition drop_run :: "nat \<Rightarrow> run_id \<Rightarrow> 'w broker \<Rightarrow> 'w broker" where
  "drop_run h r s =
     (upd_hand h (\<lambda>t. t\<lparr>t_live := removeAll r (t_live t), t_queue := remove1 r (t_queue t)\<rparr>)
        (upd_run r (\<lambda>x. x\<lparr>r_settled := True, r_out_queue := r_out_queue x @ [END_OF_STREAM],
                          r_offer_timer := None\<rparr>) s))
       \<lparr>b_runs := removeAll r (b_runs s), b_run_threads := dpop r (b_run_threads s),
        b_handlers := removeAll r (b_handlers s)\<rparr>"

lemma drop_run_fields [simp]:
  "b_runs (drop_run h r s) = removeAll r (b_runs s)" "b_run_threads (drop_run h r s) = dpop r (b_run_threads s)"
  "b_handlers (drop_run h r s) = removeAll r (b_handlers s)" "b_threads (drop_run h r s) = b_threads s"
  "b_agent_threads (drop_run h r s) = b_agent_threads s" "b_serving (drop_run h r s) = b_serving s"
  "b_providers (drop_run h r s) = b_providers s" "b_world (drop_run h r s) = b_world s"
  "run_at (drop_run h r s) r' =
     (if r' = r then map_option (\<lambda>x. x\<lparr>r_settled := True, r_out_queue := r_out_queue x @ [END_OF_STREAM],
                                    r_offer_timer := None\<rparr>) (run_at s r) else run_at s r')"
  "hand_at (drop_run h r s) h' =
     (if h' = h then map_option (\<lambda>t. t\<lparr>t_live := removeAll r (t_live t), t_queue := remove1 r (t_queue t)\<rparr>) (hand_at s h)
      else hand_at s h')"
  by (simp_all add: drop_run_def)

lemma drop_run_tracked:
  assumes "tracked_ok s r'" "r' \<noteq> r"
  shows "tracked_ok (drop_run h r s) r'"
  by (rule tracked_transfer [OF assms(1)]) (use assms(2) in auto)

lemma tl_remove1_subset: "distinct q \<Longrightarrow> set (tl (remove1 r q)) \<subseteq> set (tl q) - {r}"
  by (cases q) (auto dest: set_tl_subset [THEN subsetD])

lemma drop_run_hand_ok:
  assumes ok: "hand_ok X s h t" and live: "r \<in> set (t_live t)"
  shows "hand_ok (X - {r}) (drop_run h r s) h
    (t\<lparr>t_live := removeAll r (t_live t), t_queue := remove1 r (t_queue t)\<rparr>)"
proof -
  have shape: "hand_shape s h t" and phases: "hand_phases X s t" using ok by (simp_all add: hand_ok_def)
  have r: "r \<notin> set (queued_ids (t_inbox t))" using live shape unfolding hand_shape_def by blast
  have d: "distinct (t_queue t)" using shape by (simp add: hand_shape_def)
  have "hand_phases (X - {r}) (drop_run h r s) (t\<lparr>t_live := removeAll r (t_live t), t_queue := remove1 r (t_queue t)\<rparr>)"
    by (rule phases_transfer [OF phases]) (use d r tl_remove1_subset [OF d, of r] in auto)
  moreover have "hand_shape (drop_run h r s) h (t\<lparr>t_live := removeAll r (t_live t), t_queue := remove1 r (t_queue t)\<rparr>)"
    using shape r live unfolding hand_shape_def by (auto simp: distinct_removeAll)
  ultimately show ?thesis by (simp add: hand_ok_def)
qed

lemma drop_run_hand_ok_other:
  assumes ok: "hand_ok X s h' t" and "dget (b_run_threads s) r = Some h" "h' \<noteq> h"
  shows "hand_ok (X - {r}) (drop_run h r s) h' t"
proof -
  have shape: "hand_shape s h' t" and phases: "hand_phases X s t" using ok by (simp_all add: hand_ok_def)
  have r: "r \<notin> set (t_live t)" "r \<notin> set (queued_ids (t_inbox t))"
    using shape assms(2,3) unfolding hand_shape_def by auto
  moreover have "r \<notin> set (tl (t_queue t))"
    using r(1) shape set_tl_subset [of "t_queue t"] unfolding hand_shape_def by blast
  ultimately have "hand_phases (X - {r}) (drop_run h r s) t"
    by (intro phases_transfer [OF phases]) auto
  moreover have "hand_shape (drop_run h r s) h' t"
    using shape r unfolding hand_shape_def by auto
  ultimately show ?thesis by (simp add: hand_ok_def)
qed

lemma binv_drop_run:
  assumes ok: "binv X s" and h: "hand_at s h = Some t" "r \<in> set (t_live t)"
    and free: "\<And>run. run_at s r = Some run \<Longrightarrow> r_offered_to run = None"
  shows "binv (X - {r}) (drop_run h r s)"
proof -
  have r: "r \<in> set (b_runs s)" "dget (b_run_threads s) r = Some h" using live_tracked [OF ok h] by auto
  obtain run where run: "run_at s r = Some run" "END_OF_STREAM \<notin> set (r_out_queue run)"
    using binv_tracked [OF ok r(1)] unfolding tracked_ok_def by blast
  have seats: "seats (drop_run h r s) k = seats s k" for k
    using free run(1) by (auto simp: seats_def)
  show ?thesis unfolding binv_def
  proof (intro conjI ballI allI impI)
    show "distinct (b_runs (drop_run h r s))" using ok by (simp add: binv_def distinct_removeAll)
    show "tracked_ok (drop_run h r s) r'" if "r' \<in> set (b_runs (drop_run h r s))" for r'
      using that binv_tracked [OF ok] by (auto intro: drop_run_tracked)
    show "hand_ok (X - {r}) (drop_run h r s) h' t'" if "hand_at (drop_run h r s) h' = Some t'" for h' t'
      using that h r(2) binv_hand [OF ok] drop_run_hand_ok [of X s h t r] drop_run_hand_ok_other [of X s h' t' r h]
      by (auto split: if_splits)
    show "run_ok x" if "r' \<in> set (b_runs (drop_run h r s)) - (X - {r})" "run_at (drop_run h r s) r' = Some x" for r' x
      using that ok by (auto simp: binv_def)
    show "seats_ok (drop_run h r s)" "roster_ok (drop_run h r s)"
      using ok by (simp_all add: binv_def seats_ok_def seats roster_ok_def)
    show "threads_ok (drop_run h r s)" by (rule threads_transfer [of s]) (use ok in \<open>auto simp: binv_def\<close>)
    show "forgotten_ok (drop_run h r s)"
      using ok run free unfolding binv_def forgotten_ok_def
      by (auto simp: stream_closed_def in_set_butlast_appendI butlast_append)
  qed
qed

lemma dput_dput_same: "dput k v (dput k u d) = dput k v d"
  by (induction d) auto

text \<open>\<open>settle\<close>, in the order of the invariant: the place goes back, the run is dropped, everybody is told.\<close>

definition settled_core :: "nat \<Rightarrow> run_id \<Rightarrow> brun \<Rightarrow> 'w broker \<Rightarrow> 'w broker" where
  "settled_core h r run s = drop_run h r (if r_offered_to run = None then s else release r s)"

lemma settled_run_eq:
  "run\<lparr>r_settled := True, r_out_queue := q, r_offer_timer := None, r_offered_to := None, r_offered_conn := None\<rparr> =
   run\<lparr>r_offered_to := None, r_offered_conn := None, r_settled := True, r_out_queue := q, r_offer_timer := None\<rparr>"
  "run\<lparr>r_out_queue := q, r_offer_timer := None, r_settled := True\<rparr> =
   run\<lparr>r_settled := True, r_out_queue := q, r_offer_timer := None\<rparr>"
  by (cases run; simp)+

lemma settle_core_eq:
  assumes "run_at s r = Some run"
  shows "(let s1 = (upd_hand h (\<lambda>t. t\<lparr>t_live := removeAll r (t_live t), t_queue := remove1 r (t_queue t)\<rparr>)
             (upd_run r (\<lambda>x. x\<lparr>r_settled := True, r_out_queue := r_out_queue x @ [END_OF_STREAM],
                           r_offer_timer := None\<rparr>) s))
             \<lparr>b_runs := removeAll r (b_runs s), b_run_threads := dpop r (b_run_threads s),
                b_handlers := removeAll r (b_handlers s)\<rparr>;
           s2 = upd_run r (\<lambda>x. x\<lparr>r_settled := True\<rparr>) s1
         in if r_offered_to run \<noteq> None then release r s2 else s2) = settled_core h r run s"
proof -
  let ?f = "\<lambda>x. x\<lparr>r_settled := True, r_out_queue := r_out_queue x @ [END_OF_STREAM], r_offer_timer := None\<rparr>"
  let ?g = "\<lambda>t. t\<lparr>t_live := removeAll r (t_live t), t_queue := remove1 r (t_queue t)\<rparr>"
  have push: "upd_run r (\<lambda>x. x\<lparr>r_settled := True\<rparr>) (drop_run h r s) = drop_run h r s"
    using assms by (cases "hand_at s h")
      (simp_all add: drop_run_def upd_run_def upd_hand_def dput_dput_same settled_run_eq)
  have rel: "release r (drop_run h r s) = drop_run h r (release r s)" if k: "r_offered_to run = Some k" for k
  proof (cases "prov_at s k")
    case None
    then show ?thesis using assms k by (cases "hand_at s h")
      (simp_all add: release_def drop_run_def upd_run_def upd_hand_def dput_dput_same settled_run_eq)
  next
    case (Some p)
    then show ?thesis using assms k by (cases "hand_at s h"; cases "p_in_flight p > 0")
      (simp_all add: release_def drop_run_def upd_run_def upd_hand_def upd_provider_def provider_def
         dput_dput_same settled_run_eq)
  qed
  have "(upd_hand h ?g (upd_run r ?f s))\<lparr>b_runs := removeAll r (b_runs s), b_run_threads := dpop r (b_run_threads s),
      b_handlers := removeAll r (b_handlers s)\<rparr> = drop_run h r s"
    by (simp add: drop_run_def)
  then show ?thesis using push rel unfolding Let_def settled_core_def by (cases "r_offered_to run") auto
qed

lemma settle_eq:
  assumes "r \<in> set (b_runs s)" "run_at s r = Some run"
  shows "settle h r s =
    (let s' = poke_threads ((settled_core h r run s)\<lparr>b_work_to_do := True\<rparr>)
     in s'\<lparr>b_effects := b_effects s' @ [Forgotten r]\<rparr>)"
  unfolding settle_core_eq [OF assms(2), symmetric]
  using assms by (simp add: settle_def forget_def Let_def)

lemma binv_settle:
  assumes ok: "binv X s" and h: "hand_at s h = Some t" "r \<in> set (t_live t)"
  shows "binv (X - {r}) (settle h r s)"
proof -
  have r: "r \<in> set (b_runs s)" using live_tracked [OF ok h] by auto
  obtain run where run: "run_at s r = Some run" using tracked_run [OF binv_tracked [OF ok r]] by blast
  let ?s = "if r_offered_to run = None then s else release r s"
  have "binv (insert r X) s" using ok by (rule binv_mono) auto
  then have "binv (insert r X) ?s" using binv_release [of "insert r X" s r] r by simp
  moreover have "hand_at ?s h = Some t" using h by (simp add: release_frame_parts)
  ultimately have "binv (insert r X - {r}) (drop_run h r ?s)"
    by (rule binv_drop_run) (use h run in \<open>auto simp: release_frame_parts split: if_splits\<close>)
  then have "binv (X - {r}) (drop_run h r ?s)" by simp
  then show ?thesis
    unfolding settle_eq [OF r run] Let_def settled_core_def
    by (rule binv_frame [OF frame_trans [OF frame_trans [OF frame_flags(1) frame_poke_threads] frame_flags(2)]])
qed

section \<open>Closing an exemption\<close>

lemma binv_close:
  assumes ok: "binv (insert r X) s" and h: "hand_at s h = Some t" "r \<in> set (t_live t)"
    and run: "run_at s r = Some run" "run_ok run"
    and wait: "r \<in> set (tl (t_queue t)) \<Longrightarrow> unoffered run"
    and join: "r \<notin> set (t_queue t) \<Longrightarrow> r_is_interjection run \<and> r_offered_to run \<noteq> None"
  shows "binv X s"
proof -
  have r: "dget (b_run_threads s) r = Some h" using live_tracked [OF ok h] by simp
  have "hand_ok X s h' t'" if h': "hand_at s h' = Some t'" for h' t'
  proof -
    have ok': "hand_ok (insert r X) s h' t'" using binv_hand [OF ok h'] .
    then have shape: "hand_shape s h' t'" and phases: "hand_phases (insert r X) s t'" by (simp_all add: hand_ok_def)
    have other: "r \<notin> set (t_live t') \<and> r \<notin> set (queued_ids (t_inbox t')) \<and> r \<notin> set (tl (t_queue t'))" if "h' \<noteq> h"
      using that shape r set_tl_subset [of "t_queue t'"] unfolding hand_shape_def by (auto dest!: bspec [of _ _ r])
    have own: "r \<notin> set (queued_ids (t_inbox t))" if "h' = h"
      using that shape h h' unfolding hand_shape_def by auto
    have "hand_phases X s t'"
    proof (rule phases_transfer [OF phases])
      show "x \<in> set (queued_ids (t_inbox t')) \<union> set (tl (t_queue t')) - insert r X \<and> run_at s x = run_at s x \<or>
          unoffered_at s x"
        if "x \<in> set (queued_ids (t_inbox t')) \<union> set (tl (t_queue t'))" "x \<notin> X" for x
        using that other own wait h h' run(1) by (cases "h' = h") (auto simp: unoffered_at_def)
      show "x \<in> set (t_live t') - set (t_queue t') - insert r X \<and> run_at s x = run_at s x \<or> joined_at s x"
        if "x \<in> set (t_live t')" "x \<notin> set (t_queue t')" "x \<notin> X" for x
        using that other join h h' run(1) by (cases "h' = h") (auto simp: joined_at_def)
    qed
    with shape show ?thesis by (simp add: hand_ok_def)
  qed
  then show ?thesis using ok run unfolding binv_def by auto
qed

lemma unoffered_run_ok: "unoffered run \<Longrightarrow> run_ok run"
  by (simp add: unoffered_def run_ok_def)

section \<open>The queue of a handler\<close>

text \<open>A handler whose queue is changed while a live run is exempted.\<close>

lemma binv_requeue:
  assumes ok: "binv X s" and h: "hand_at s h = Some t" "r \<in> set (t_live t)" and r: "r \<in> X"
    and q: "distinct q" "set q \<subseteq> set (t_live t)" "set q - {r} = set (t_queue t) - {r}" "set (tl q) - {r} \<subseteq> set (tl (t_queue t))"
  shows "binv X (upd_hand h (\<lambda>t. t\<lparr>t_queue := q\<rparr>) s)"
proof -
  let ?s = "upd_hand h (\<lambda>t. t\<lparr>t_queue := q\<rparr>) s"
  have "tracked_ok ?s r'" if "tracked_ok s r'" for r'
    by (rule tracked_transfer [OF that]) (auto simp: h)
  moreover have "hand_ok X ?s h' t'" if h': "hand_at ?s h' = Some t'" for h' t'
  proof -
    obtain u where u: "hand_at s h' = Some u" "t' = (if h' = h then u\<lparr>t_queue := q\<rparr> else u)"
      using h' by (auto split: if_splits)
    have "hand_shape s h' u" and phases: "hand_phases X s u" using binv_hand [OF ok u(1)] by (simp_all add: hand_ok_def)
    moreover have "hand_shape ?s h' t'"
      using \<open>hand_shape s h' u\<close> u h(1) q(1,2) unfolding hand_shape_def by (auto simp: hand_shape_def)
    moreover have "hand_phases X ?s t'"
      by (rule phases_transfer [OF phases]) (use u h(1) q(3,4) r in \<open>auto split: if_splits\<close>)
    ultimately show ?thesis by (simp add: hand_ok_def)
  qed
  moreover have "seats ?s k = seats s k" for k by (simp add: seats_def)
  moreover have "threads_ok ?s" if "threads_ok s" by (rule threads_transfer [OF that]) auto
  ultimately show ?thesis using ok unfolding binv_def
    by (simp add: seats_ok_def roster_ok_def forgotten_ok_def)
qed

section \<open>Taking a place\<close>

definition seat :: "run_id \<Rightarrow> conn \<Rightarrow> bool \<Rightarrow> nat \<Rightarrow> 'w broker \<Rightarrow> 'w broker" where
  "seat r c interjection offer_id s =
     upd_provider (c_public_key c) (\<lambda>p. p\<lparr>p_in_flight := Suc (p_in_flight p)\<rparr>)
       (upd_run r (\<lambda>x. x\<lparr>r_offered_to := Some (c_public_key c), r_offered_conn := Some c,
          r_is_interjection := interjection, r_offer_id := offer_id, r_verdict_open := True\<rparr>) s)"

lemma seat_fields [simp]:
  "b_runs (seat r c i n s) = b_runs s" "b_run_threads (seat r c i n s) = b_run_threads s"
  "b_threads (seat r c i n s) = b_threads s" "b_hands (seat r c i n s) = b_hands s"
  "b_agent_threads (seat r c i n s) = b_agent_threads s" "b_handlers (seat r c i n s) = b_handlers s"
  "b_serving (seat r c i n s) = b_serving s" "b_world (seat r c i n s) = b_world s"
  "run_at (seat r c i n s) r' =
     (if r' = r then map_option (\<lambda>x. x\<lparr>r_offered_to := Some (c_public_key c), r_offered_conn := Some c,
          r_is_interjection := i, r_offer_id := n, r_verdict_open := True\<rparr>) (run_at s r) else run_at s r')"
  "prov_at (seat r c i n s) k =
     (if k = c_public_key c then Some ((provider k s)\<lparr>p_in_flight := Suc (p_in_flight (provider k s))\<rparr>) else prov_at s k)"
  by (simp_all add: seat_def provider_def)

lemma in_flight_card: "seats_ok s \<Longrightarrow> p_in_flight (provider k s) = card (seats s k)"
  by (auto simp: seats_ok_def provider_def new_provider_handler_def split: option.splits)

lemma seats_ok_seat:
  assumes ok: "seats_ok s" and r: "r \<in> set (b_runs s)" "run_at s r = Some run" "r_offered_to run = None"
  shows "seats_ok (seat r c i n s)"
proof -
  have seats: "seats (seat r c i n s) k = (if k = c_public_key c then insert r (seats s k) else seats s k)" for k
    using r by (auto simp: seats_def)
  have "r \<notin> seats s k" for k using r by (simp add: seats_only)
  then show ?thesis
    using ok in_flight_card [OF ok] unfolding seats_ok_def [of "seat r c i n s"] seats
    by (auto simp: seats_ok_def)
qed

lemma roster_ok_seat: "roster_ok s \<Longrightarrow> roster_ok (seat r c i n s)"
  unfolding roster_ok_def seat_fields
  by (auto simp: provider_def new_provider_handler_def split: option.splits if_splits) fastforce+

lemma binv_seat:
  assumes ok: "binv X s" and r: "r \<in> X" "r \<in> set (b_runs s)" "run_at s r = Some run" "r_offered_to run = None"
  shows "binv X (seat r c i n s)"
proof -
  let ?s = "seat r c i n s"
  have "tracked_ok ?s r'" if "tracked_ok s r'" for r'
    by (rule tracked_transfer [OF that]) (auto split: if_splits)
  moreover have "hand_ok X ?s h t" if "hand_ok X s h t" for h t
  proof -
    have "hand_shape s h t" and phases: "hand_phases X s t" using that by (simp_all add: hand_ok_def)
    moreover have "hand_shape ?s h t" using \<open>hand_shape s h t\<close> by (simp add: hand_shape_def)
    moreover have "hand_phases X ?s t" by (rule phases_transfer [OF phases]) (use r(1) in auto)
    ultimately show ?thesis by (simp add: hand_ok_def)
  qed
  moreover have "forgotten_ok ?s" if "forgotten_ok s"
    using that r(2) unfolding forgotten_ok_def by auto
  moreover have "threads_ok ?s" if "threads_ok s" using that by (simp add: threads_ok_def)
  ultimately show ?thesis
    using ok r(1) seats_ok_seat [OF _ r(2-4)] roster_ok_seat [of s r c i n] unfolding binv_def
    by (auto split: if_splits)
qed

section \<open>Offers\<close>

text \<open>The situation in which the dispatcher offers a run.\<close>

definition offerable :: "bool \<Rightarrow> nat \<Rightarrow> run_id \<Rightarrow> 'w broker \<Rightarrow> bool" where
  "offerable interjection h r s \<longleftrightarrow>
     binv {r} s \<and> unoffered_at s r \<and>
     (\<exists>t. hand_at s h = Some t \<and> r \<in> set (t_live t) \<and>
        (if interjection then r \<notin> set (t_queue t) else \<exists>q. t_queue t = r # q))"

lemma offer_eq:
  assumes "run_at s r = Some run" "serving (r_agent run) s = Some c" "has_room (provider (c_public_key c) s)"
    "env_input_error E (r_input_json run) = None"
  shows "\<exists>d. offer E h r i s =
    (let s' = upd_run r (\<lambda>x. x\<lparr>r_handover_task := Some (Suc (r_offer_id run)), r_offer_timer := Some (Suc (r_offer_id run))\<rparr>)
                (record_cmd E r Offer (seat r c i (Suc (r_offer_id run)) s))
     in s'\<lparr>b_effects := b_effects s' @ [HandOver c d (Suc (r_offer_id run))]\<rparr>)"
  using assms unfolding offer_def seat_def Let_def by auto

lemma requeue_offerable:
  assumes "offerable True h r s" "hand_at s h = Some t"
  shows "binv {} (upd_hand h (\<lambda>t. t\<lparr>t_queue := insert_second r (t_queue t)\<rparr>) s)"
proof -
  let ?q = "insert_second r (t_queue t)" and ?s = "upd_hand h (\<lambda>t. t\<lparr>t_queue := insert_second r (t_queue t)\<rparr>) s"
  from assms have ok: "binv {r} s" and u: "unoffered_at s r" and live: "r \<in> set (t_live t)" "r \<notin> set (t_queue t)"
    by (auto simp: offerable_def)
  have shape: "hand_shape s h t" using binv_hand [OF ok assms(2)] by (simp add: hand_ok_def)
  have eq: "?s = upd_hand h (\<lambda>t. t\<lparr>t_queue := ?q\<rparr>) s" using assms(2) by (simp add: upd_hand_def)
  have "binv {r} (upd_hand h (\<lambda>t. t\<lparr>t_queue := ?q\<rparr>) s)"
    by (rule binv_requeue [OF ok assms(2) live(1)])
       (use shape live in \<open>auto simp: hand_shape_def insert_second_def split: list.splits\<close>)
  then have "binv {r} ?s" by (simp add: eq)
  moreover obtain run where "run_at ?s r = Some run" "unoffered run" using u by (auto simp: unoffered_at_def)
  ultimately show ?thesis
    by (intro binv_close [of r "{}" ?s h "t\<lparr>t_queue := ?q\<rparr>" run]) (use assms(2) live in \<open>auto simp: unoffered_run_ok\<close>)
qed

end
