(* ===== verification/Broker_Reach.thy ===== *)
theory Broker_Reach
  imports Broker_Steps
begin

text \<open>
  The handlers of the dispatcher keep its invariant, for any record handlers that satisfy
  \<open>record_handlers\<close>; the step relation of the whole dispatcher and its reachable states.
\<close>

lemma live_unsettled:
  "binv X s \<Longrightarrow> hand_at s h = Some t \<Longrightarrow> r \<in> set (t_live t) \<Longrightarrow> run_at s r = Some run \<Longrightarrow> \<not> r_settled run"
  using live_tracked binv_tracked tracked_run by fastforce

lemma live_runD:
  assumes "live_run h r s = Some run"
  obtains t where "hand_at s h = Some t" "r \<in> set (t_live t)" "run_at s r = Some run"
  using assms by (auto simp: live_run_def split: option.splits if_splits)

lemma frame_held:
  assumes "frame s s'" "hand_at s h = Some t" "r \<in> set (t_live t)"
  obtains t' where "hand_at s' h = Some t'" "r \<in> set (t_live t')" "t_queue t' = t_queue t"
  using frame_handD [OF assms(1,2)] assms(3) by (auto simp: frame_hand_def)

lemma binv_settle_frame:
  assumes "binv {r} s" "frame s s'" "hand_at s h = Some t" "r \<in> set (t_live t)"
  shows "binv {} (settle h r s')"
proof -
  obtain t' where "hand_at s' h = Some t'" "r \<in> set (t_live t')" using frame_held [OF assms(2-4)] by blast
  with binv_settle [OF binv_frame [OF assms(2,1)]] show ?thesis by fastforce
qed

lemma release_exempt_ok:
  "binv X s \<Longrightarrow> hand_at s h = Some t \<Longrightarrow> r \<in> set (t_live t) \<Longrightarrow> binv (insert r X) (release r s)"
  by (rule binv_release [OF binv_mono [of X s]]) (auto dest: live_tracked)

context record_handlers
begin

lemma binv_settle_record:
  assumes "binv X s" "X \<subseteq> {r}" "hand_at s h = Some t" "r \<in> set (t_live t)"
  shows "binv {} (settle h r (record_cmd E r c s))"
  using binv_settle_frame [OF binv_mono [OF assms(1,2)] frame_record_cmd [OF assms(1)] assms(3,4)] .

lemma binv_offer:
  assumes "offerable i h r s"
  shows "binv {} (offer E h r i s)"
proof -
  from assms obtain t run where ok: "binv {r} s" and h: "hand_at s h = Some t" "r \<in> set (t_live t)"
    and q: "if i then r \<notin> set (t_queue t) else \<exists>q. t_queue t = r # q"
    and run: "run_at s r = Some run" "unoffered run"
    by (auto simp: offerable_def unoffered_at_def)
  have d: "distinct (t_queue t)" using binv_hand [OF ok h(1)] by (simp add: hand_ok_def hand_shape_def)
  have "binv {} s" if "\<not> i"
    by (rule binv_close [OF _ h run(1)]) (use ok that q run unoffered_run_ok in auto)
  then have stay: "binv {} (if i then upd_hand h (\<lambda>t. t\<lparr>t_queue := insert_second r (t_queue t)\<rparr>) s else s)"
    using requeue_offerable [of h r s t] assms h by auto
  consider (unserved) "serving (r_agent run) s = None"
    | (full) c where "serving (r_agent run) s = Some c" "\<not> has_room (provider (c_public_key c) s)"
    | (invalid) c e where "serving (r_agent run) s = Some c" "has_room (provider (c_public_key c) s)"
        "env_input_error E (r_input_json run) = Some e"
    | (offered) c where "serving (r_agent run) s = Some c" "has_room (provider (c_public_key c) s)"
        "env_input_error E (r_input_json run) = None"
    by (cases "serving (r_agent run) s"; cases "env_input_error E (r_input_json run)") auto
  then show ?thesis
  proof cases
    case invalid
    then show ?thesis using binv_settle_record [OF ok _ h] run by (simp add: offer_def)
  next
    case offered
    let ?n = "Suc (r_offer_id run)"
    let ?s = "seat r c i ?n s"
    have r: "r \<in> set (b_runs s)" using live_tracked [OF ok h] by simp
    have ok': "binv {r} ?s" by (rule binv_seat [OF ok _ r run(1)]) (use run(2) in \<open>auto simp: unoffered_def\<close>)
    have h': "hand_at ?s h = Some t" using h by simp
    let ?s' = "upd_run r (\<lambda>x. x\<lparr>r_handover_task := Some ?n, r_offer_timer := Some ?n\<rparr>) (record_cmd E r Offer ?s)"
    have "frame (record_cmd E r Offer ?s) ?s'" by (rule frame_upd_run) (auto simp: frame_run_def)
    then have f: "frame ?s (?s'\<lparr>b_effects := e\<rparr>)" for e
      using frame_record_cmd [OF ok'] frame_trans frame_flags(2) by metis
    from offer_eq [OF run(1) offered] obtain e where e: "offer E h r i s = ?s'\<lparr>b_effects := e\<rparr>"
      unfolding Let_def by blast
    let ?run = "run\<lparr>r_offered_to := Some (c_public_key c), r_offered_conn := Some c,
          r_is_interjection := i, r_offer_id := ?n, r_verdict_open := True\<rparr>"
    have "binv {} ?s"
      by (rule binv_close [OF _ h' h(2), of _ ?run])
         (use ok' run q d set_tl_subset [of "t_queue t"] in \<open>auto simp: run_ok_def unoffered_def split: if_splits\<close>)
    then show ?thesis unfolding e by (rule binv_frame [OF f])
  qed (use run stay in \<open>simp_all add: offer_def\<close>)
qed

lemma binv_advance:
  assumes ok: "binv {} s"
  shows "binv {} (advance E h s)"
proof (cases "hand_at s h")
  case (Some t)
  have shape: "hand_shape s h t" using binv_hand [OF ok Some] by (simp add: hand_ok_def)
  have "\<not> is_settled s r" if "r \<in> set (t_queue t)" for r
    using that shape live_unsettled [OF ok Some] unfolding hand_shape_def is_settled_def
    by (auto split: option.splits)
  then have "dropWhile (is_settled s) (t_queue t) = t_queue t" by (cases "t_queue t") auto
  let ?s = "upd_hand h (\<lambda>t. t\<lparr>t_queue := dropWhile (is_settled s) (t_queue t)\<rparr>) s"
  have "frame s ?s"
    by (rule frame_upd_hand) (use Some \<open>dropWhile _ _ = _\<close> in \<open>auto simp: frame_hand_def\<close>)
  then have ok': "binv {} ?s" using ok by (rule binv_frame)
  have t: "hand_at ?s h = Some t" using Some \<open>dropWhile _ _ = _\<close> by simp
  have offer: "binv {} (offer E h r False ?s)" if "t_queue t = r # q" "run_at ?s r = Some run" "unoffered run" for r q run
  proof (rule binv_offer)
    have "r \<in> set (t_live t)" using that shape by (auto simp: hand_shape_def)
    then show "offerable False h r ?s"
      unfolding offerable_def unoffered_at_def using binv_mono [OF ok'] t that by auto
  qed
  show ?thesis
    unfolding advance_def Let_def t using ok' offer by (auto split: list.splits option.splits)
qed (use ok in \<open>simp add: advance_def upd_hand_def\<close>)

text \<open>Joining: a waiting run leaves the queue and is offered at once.\<close>

lemma join_offerable:
  assumes ok: "binv {} s" and h: "hand_at s h = Some t" "r \<in> set (tl (t_queue t))"
  shows "offerable True h r (upd_hand h (\<lambda>t. t\<lparr>t_queue := remove1 r (t_queue t)\<rparr>) s)"
proof -
  have shape: "hand_shape s h t" and phases: "hand_phases {} s t"
    using binv_hand [OF ok h(1)] by (simp_all add: hand_ok_def)
  have d: "distinct (t_queue t)" and live: "r \<in> set (t_live t)" "set (t_queue t) \<subseteq> set (t_live t)"
    using shape h(2) set_tl_subset [of "t_queue t"] unfolding hand_shape_def by auto
  have "unoffered_at s r" using phases h(2) by (simp add: hand_phases_def)
  moreover have "upd_hand h (\<lambda>t. t\<lparr>t_queue := remove1 r (t_queue t)\<rparr>) s = upd_hand h (\<lambda>u. u\<lparr>t_queue := remove1 r (t_queue t)\<rparr>) s"
    using h by (simp add: upd_hand_def)
  moreover have "binv {r} (upd_hand h (\<lambda>u. u\<lparr>t_queue := remove1 r (t_queue t)\<rparr>) s)"
    by (rule binv_requeue [OF binv_mono [OF ok] h(1) live(1)])
       (use d live(2) tl_remove1_subset [OF d, of r] notin_set_remove1 in auto)
  ultimately show ?thesis using h live d by (auto simp: offerable_def unoffered_at_def)
qed

lemma offer_join_queue:
  assumes ok: "offerable True h r s" and h: "hand_at s h = Some t"
  shows "\<exists>t'. hand_at (offer E h r True s) h = Some t' \<and> (t_queue t' = t_queue t \<or> t_queue t' = insert_second r (t_queue t))"
proof -
  have b: "binv {r} s" and u: "unoffered_at s r" and live: "r \<in> set (t_live t)" "r \<notin> set (t_queue t)"
    using assms by (auto simp: offerable_def)
  obtain run where run: "run_at s r = Some run" "unoffered run" using u by (auto simp: unoffered_at_def)
  have r: "r \<in> set (b_runs s)" using live_tracked [OF b h live(1)] by simp
  have settle: "\<exists>t'. hand_at (settle h r (record_cmd E r c s)) h = Some t' \<and> t_queue t' = t_queue t" for c
  proof -
    let ?s = "record_cmd E r c s"
    have f: "frame s ?s" by (rule frame_record_cmd [OF b])
    from frame_held [OF f h live(1)] obtain t1 where t1: "hand_at ?s h = Some t1" "t_queue t1 = t_queue t" by blast
    from frame_runD [OF f run(1)] obtain run1 where run1: "run_at ?s r = Some run1" by blast
    let ?c = "settled_core h r run1 ?s"
    have "hand_at ?c h = Some (t1\<lparr>t_live := removeAll r (t_live t1), t_queue := remove1 r (t_queue t1)\<rparr>)"
      using t1 by (simp add: settled_core_def release_frame_parts)
    from frame_handD [OF _ this] frame_trans [OF frame_flags(1) frame_poke_threads]
    have "\<exists>t'. hand_at (poke_threads (?c\<lparr>b_work_to_do := True\<rparr>)) h = Some t' \<and> t_queue t' = remove1 r (t_queue t1)"
      by (fastforce simp: frame_hand_def)
    moreover have "r \<in> set (b_runs ?s)" using r frame_fields(1) [OF f] by simp
    ultimately show ?thesis using settle_eq [OF _ run1, of h] t1 live by (simp add: Let_def remove1_idem)
  qed
  have keep: "\<exists>t'. hand_at s' h = Some t' \<and> t_queue t' = t_queue t" if "frame (seat r c True n s) s'" for s' c n
    using frame_handD [OF that, of h t] h by (auto simp: frame_hand_def)
  have offered: "\<exists>t'. hand_at (offer E h r True s) h = Some t' \<and> t_queue t' = t_queue t"
    if c: "serving (r_agent run) s = Some c" "has_room (provider (c_public_key c) s)" "env_input_error E (r_input_json run) = None" for c
  proof -
    let ?n = "Suc (r_offer_id run)"
    have "binv {r} (seat r c True ?n s)"
      by (rule binv_seat [OF b _ r run(1)]) (use run(2) in \<open>auto simp: unoffered_def\<close>)
    then have "frame (seat r c True ?n s) (record_cmd E r Offer (seat r c True ?n s))"
      by (rule frame_record_cmd)
    then obtain t' where "hand_at (record_cmd E r Offer (seat r c True ?n s)) h = Some t'" "t_queue t' = t_queue t"
      using keep by blast
    moreover from offer_eq [OF run(1) c, of h True] have "hand_at (offer E h r True s) h =
        hand_at (record_cmd E r Offer (seat r c True ?n s)) h" by (auto simp: Let_def)
    ultimately show ?thesis by simp
  qed
  show ?thesis
    using settle offered run(1) h
    by (cases "serving (r_agent run) s"; cases "env_input_error E (r_input_json run)")
       (auto simp: offer_def [of E h r True s] split: if_splits)
qed

lemma join_one_step:
  assumes ok: "binv {} s" and h: "hand_at s h = Some t" "r \<in> set (tl (t_queue t))"
  shows "binv {} (join_one E h r s) \<and>
    (\<exists>t'. hand_at (join_one E h r s) h = Some t' \<and> set (tl (t_queue t)) - {r} \<subseteq> set (tl (t_queue t')))"
proof -
  let ?s = "upd_hand h (\<lambda>t. t\<lparr>t_queue := remove1 r (t_queue t)\<rparr>) s"
  note off = join_offerable [OF ok h]
  have t: "hand_at ?s h = Some (t\<lparr>t_queue := remove1 r (t_queue t)\<rparr>)" using h by simp
  have d: "distinct (t_queue t)" using binv_hand [OF ok h(1)] by (simp add: hand_ok_def hand_shape_def)
  obtain y ys where q: "t_queue t = y # ys" "r \<in> set ys" "r \<noteq> y" using h(2) d by (cases "t_queue t") auto
  from offer_join_queue [OF off t] obtain t' where t': "hand_at (offer E h r True ?s) h = Some t'"
    "t_queue t' = remove1 r (t_queue t) \<or> t_queue t' = insert_second r (remove1 r (t_queue t))" by auto
  have "set (tl (t_queue t)) - {r} \<subseteq> set (tl (t_queue t'))" using t'(2) q d by auto
  then show ?thesis using binv_offer [OF off] t'(1) unfolding join_one_def by blast
qed

lemma binv_join_all:
  assumes "binv {} s" "hand_at s h = Some t" "distinct rs" "set rs \<subseteq> set (tl (t_queue t))"
  shows "binv {} (fold (join_one E h) rs s)"
  using assms
proof (induction rs arbitrary: s t)
  case (Cons r rs)
  have "r \<in> set (tl (t_queue t))" using Cons.prems by simp
  from join_one_step [OF Cons.prems(1,2) this] obtain t' where
    "binv {} (join_one E h r s)" "hand_at (join_one E h r s) h = Some t'" "set (tl (t_queue t)) - {r} \<subseteq> set (tl (t_queue t'))"
    by blast
  then show ?case using Cons.IH [of "join_one E h r s" t'] Cons.prems by auto
qed simp

lemma binv_release_interjections:
  assumes ok: "binv {} s"
  shows "binv {} (release_interjections E h head_id s)"
proof (cases "hand_at s h")
  case (Some t)
  have "distinct (tl (t_queue t))"
    using binv_hand [OF ok Some] by (simp add: hand_ok_def hand_shape_def distinct_tl)
  then show ?thesis
    using binv_join_all [OF ok Some, of "joining_runs t head_id s"] Some
    by (auto simp: release_interjections_def joining_runs_def)
qed (use ok in \<open>simp add: release_interjections_def\<close>)

text \<open>Reading a queued run: it becomes live, and waits or joins.\<close>

lemma binv_read_queued:
  assumes ok: "binv {} s" and h: "hand_at s h = Some t" "t_inbox t = MQueued r # ms"
  shows "binv {r} (upd_hand h (\<lambda>u. u\<lparr>t_inbox := ms, t_live := List.insert r (t_live t)\<rparr>) s)" (is "binv _ ?s")
proof -
  have shape: "hand_shape s h t" using binv_hand [OF ok h(1)] by (simp add: hand_ok_def)
  have "tracked_ok ?s r'" if "tracked_ok s r'" for r'
    by (rule tracked_transfer [OF that]) (use h in \<open>auto split: if_splits\<close>)
  moreover have "hand_ok {r} ?s h' t'" if h': "hand_at ?s h' = Some t'" for h' t'
  proof -
    obtain u where u: "hand_at s h' = Some u"
      "t' = (if h' = h then u\<lparr>t_inbox := ms, t_live := List.insert r (t_live t)\<rparr> else u)"
      using h' by (auto split: if_splits)
    have sh: "hand_shape s h' u" and phases: "hand_phases {} s u" using binv_hand [OF ok u(1)] by (simp_all add: hand_ok_def)
    moreover have "hand_shape ?s h' t'"
      using sh u h unfolding hand_shape_def by (cases "h' = h") (auto simp: distinct_insert)
    moreover have "hand_phases {r} ?s t'"
      by (rule phases_transfer [OF phases]) (use u h in \<open>auto split: if_splits\<close>)
    ultimately show ?thesis by (simp add: hand_ok_def)
  qed
  moreover have "seats ?s k = seats s k" for k by (simp add: seats_def)
  moreover have "binv {r} s" by (rule binv_mono [OF ok]) simp
  moreover have "threads_ok ?s" if "threads_ok s" by (rule threads_transfer [OF that]) auto
  ultimately show ?thesis unfolding binv_def
    by (simp add: seats_ok_def roster_ok_def forgotten_ok_def)
qed

lemma binv_on_queued:
  assumes ok: "binv {} s" and h: "hand_at s h = Some t" "t_inbox t = MQueued r # ms"
  shows "binv {} (on_queued E h r (upd_hand h (\<lambda>t. t\<lparr>t_inbox := ms\<rparr>) s))"
proof -
  let ?s = "upd_hand h (\<lambda>u. u\<lparr>t_inbox := ms, t_live := List.insert r (t_live t)\<rparr>) s"
  let ?t = "t\<lparr>t_inbox := ms, t_live := List.insert r (t_live t)\<rparr>"
  have shape: "hand_shape s h t" and phases: "hand_phases {} s t"
    using binv_hand [OF ok h(1)] by (simp_all add: hand_ok_def)
  have eq: "upd_hand h (\<lambda>t. t\<lparr>t_live := List.insert r (t_live t)\<rparr>) (upd_hand h (\<lambda>t. t\<lparr>t_inbox := ms\<rparr>) s) = ?s"
    using h by (simp add: upd_hand_def dput_dput_same)
  have ok': "binv {r} ?s" by (rule binv_read_queued [OF ok h])
  have t: "hand_at ?s h = Some ?t" using h by simp
  have q: "r \<notin> set (t_queue t)" "distinct (t_queue t)" "set (t_queue t) \<subseteq> set (t_live t)"
    using shape h(2) unfolding hand_shape_def by auto
  have "unoffered_at s r" using phases h(2) by (simp add: hand_phases_def)
  then obtain run where run: "run_at ?s r = Some run" "unoffered run" by (auto simp: unoffered_at_def)
  let ?q = "upd_hand h (\<lambda>t. t\<lparr>t_queue := t_queue t @ [r]\<rparr>) ?s"
  have "?q = upd_hand h (\<lambda>u. u\<lparr>t_queue := t_queue t @ [r]\<rparr>) ?s" using h by (simp add: upd_hand_def)
  moreover have "binv {r} (upd_hand h (\<lambda>u. u\<lparr>t_queue := t_queue t @ [r]\<rparr>) ?s)"
    by (rule binv_requeue [OF ok' t]) (use q in \<open>auto split: list.splits simp: tl_append\<close>)
  ultimately have "binv {r} ?q" by simp
  then have queue: "binv {} ?q"
    by (rule binv_close [of r "{}" ?q h "?t\<lparr>t_queue := t_queue t @ [r]\<rparr>" run])
       (use h run in \<open>auto simp: unoffered_run_ok\<close>)
  have "offerable True h r ?s"
    using ok' t run q by (auto simp: offerable_def unoffered_at_def)
  then have "binv {} (offer E h r True ?s)" by (rule binv_offer)
  then show ?thesis
    unfolding on_queued_def eq Let_def t run(1) using queue by (auto split: list.splits option.splits)
qed

lemma binv_settle_record_frame:
  assumes "binv {r} s" "frame s s'" "hand_at s h = Some t" "r \<in> set (t_live t)"
  shows "binv {} (settle h r (record_cmd E r c s'))"
proof -
  obtain t' where "hand_at s' h = Some t'" "r \<in> set (t_live t')" using frame_held [OF assms(2-4)] by blast
  then show ?thesis using binv_settle_record [OF binv_frame [OF assms(2,1)]] by blast
qed

lemma close_verdict_exempt:
  assumes "binv {} s" "hand_at s h = Some t" "r \<in> set (t_live t)"
  shows "binv {r} (close_verdict r s)" "hand_at (close_verdict r s) h = Some t"
proof -
  have "r \<in> set (b_runs s)" using live_tracked [OF assms] by simp
  then show "binv {r} (close_verdict r s)"
    unfolding close_verdict_def by (intro binv_upd_exempt [OF binv_mono [OF assms(1)]]) auto
qed (use assms in \<open>simp add: close_verdict_def\<close>)

text \<open>A run whose offer is open is the head of its queue or an interjection outside it.\<close>

lemma offered_place:
  assumes ok: "binv {} s" and h: "hand_at s h = Some t" "r \<in> set (t_live t)"
    and run: "run_at s r = Some run" "r_offered_to run \<noteq> None"
  shows "r \<notin> set (tl (t_queue t))" "r \<notin> set (t_queue t) \<Longrightarrow> r_is_interjection run"
  using binv_hand [OF ok h(1)] h(2) run
  by (force simp: hand_ok_def hand_phases_def unoffered_at_def joined_at_def unoffered_def)+

lemma binv_claim:
  assumes ok: "binv {} s" and h: "hand_at s h = Some t" "r \<in> set (t_live t)"
    and run: "run_at s r = Some run" "r_offered_to run = Some k"
  shows "binv {} (upd_run r (\<lambda>x. x\<lparr>r_claimed_by := Some k, r_cancel_notify := r_offered_conn x\<rparr>) (close_verdict r s))"
    (is "binv _ ?s")
proof -
  have "binv {r} ?s"
    by (rule binv_upd_exempt [OF close_verdict_exempt(1) [OF ok h]])
       (use live_tracked [OF ok h] in \<open>auto simp: close_verdict_def\<close>)
  moreover have "hand_at ?s h = Some t" using h by (simp add: close_verdict_def)
  ultimately show ?thesis
    by (rule binv_close [of r "{}" ?s h t "run\<lparr>r_verdict_open := False, r_offer_timer := None, r_claimed_by := Some k,
          r_cancel_notify := r_offered_conn run\<rparr>"])
       (use offered_place [OF ok h run(1)] h run in \<open>auto simp: close_verdict_def run_ok_def\<close>)
qed

lemma binv_on_accepted:
  assumes ok: "binv {} s" and h: "hand_at s h = Some t" "r \<in> set (t_live t)"
    and run: "run_at s r = Some run" "r_offered_to run = Some k"
  shows "binv {} (on_accepted E h r k (close_verdict r s))"
proof -
  let ?s = "upd_run r (\<lambda>x. x\<lparr>r_claimed_by := Some k, r_cancel_notify := r_offered_conn x\<rparr>) (close_verdict r s)"
  have ok1: "binv {} ?s" by (rule binv_claim [OF assms])
  have h1: "hand_at ?s h = Some t" using h by (simp add: close_verdict_def)
  let ?s2 = "record_cmd E r Claim ?s"
  have ok2: "binv {} ?s2" using ok1 by (rule binv_record_cmd)
  have "binv {} (snd (push r c ?s2))" for c using ok2 by (rule binv_frame [OF frame_doors(4)])
  then show ?thesis
    unfolding on_accepted_def Let_def
    using ok2 binv_record_cmd binv_release_interjections [OF ok2] by (auto split: option.splits)
qed

lemma binv_on_answered:
  assumes ok: "binv {} s"
  shows "binv {} (on_answered E h r k v s)"
proof (cases "\<exists>run. live_run h r s = Some run \<and> r_verdict_open run \<and> r_offered_to run = Some k")
  case True
  then obtain run t where run: "run_at s r = Some run" "r_verdict_open run" "r_offered_to run = Some k"
    and lr: "live_run h r s = Some run" and h: "hand_at s h = Some t" "r \<in> set (t_live t)"
    by (blast elim: live_runD)
  note close = close_verdict_exempt [OF ok h]
  have rel: "binv {r} (release r (close_verdict r s))" "hand_at (release r (close_verdict r s)) h = Some t"
    using release_exempt_ok [OF close h(2)] close(2) by (simp_all add: release_frame_parts)
  note settle = binv_settle_record_frame [OF rel(1) _ rel(2) h(2)]
  show ?thesis
    unfolding on_answered_def lr Let_def
    using settle [OF frame_refl] settle [OF frame_note_misdeclared] binv_on_accepted [OF ok h run(1,3)] run
    by (auto split: verdict.splits bool.splits)
qed (use ok in \<open>auto simp: on_answered_def split: option.splits\<close>)

lemma binv_record_and_maybe_settle:
  assumes ok: "binv {} s" and h: "hand_at s h = Some t" "r \<in> set (t_live t)"
  shows "binv {} (record_and_maybe_settle E h r c s)"
proof -
  let ?s = "record_cmd E r c s"
  have ok': "binv {} ?s" by (rule binv_record_cmd [OF ok])
  then have ok'': "binv {r} ?s" by (rule binv_mono) simp
  obtain t' where h': "hand_at ?s h = Some t'" "r \<in> set (t_live t')"
    using frame_held [OF frame_record_cmd [OF ok] h] by blast
  show ?thesis
    unfolding record_and_maybe_settle_def Let_def
    using ok' binv_settle_record_frame [OF ok'' frame_refl h'] binv_settle_frame [OF ok'' frame_refl h']
    by (auto split: option.splits)
qed

lemma binv_on_said: "binv {} s \<Longrightarrow> binv {} (on_said E h r k c s)"
  using binv_record_and_maybe_settle by (auto simp: on_said_def split: option.splits elim!: live_runD)

lemma frame_mark:
  "frame s (upd_run r (\<lambda>x. x\<lparr>r_cancel_requested := b\<rparr>) s)" "frame s (upd_run r (\<lambda>x. x\<lparr>r_noted_abnormal := b\<rparr>) s)"
  "frame s (upd_run r (\<lambda>x. x\<lparr>r_handover_task := n\<rparr>) s)"
  by (rule frame_upd_run; simp add: frame_run_def)+

lemma binv_on_cancel_asked:
  assumes ok: "binv {} s"
  shows "binv {} (on_cancel_asked E h r s)"
proof (cases "live_run h r s")
  case (Some run)
  then obtain t where h: "hand_at s h = Some t" "r \<in> set (t_live t)" by (auto elim: live_runD)
  let ?s = "upd_run r (\<lambda>x. x\<lparr>r_cancel_requested := True\<rparr>) s"
  have ok': "binv {} ?s" by (rule binv_frame [OF frame_mark(1) ok])
  moreover have "binv {} (settle h r (record_cmd E r RequestCancel ?s))"
    by (rule binv_settle_record_frame [OF binv_mono [OF ok] frame_mark(1) h]) simp
  ultimately show ?thesis using Some binv_record_cmd by (simp add: on_cancel_asked_def Let_def)
qed (use ok in \<open>simp add: on_cancel_asked_def\<close>)

lemma binv_on_trusted:
  assumes ok: "binv {} s"
  shows "binv {} (on_trusted E h r c s)"
proof (cases "live_run h r s")
  case (Some run)
  then obtain t where h: "hand_at s h = Some t" "r \<in> set (t_live t)" by (auto elim: live_runD)
  have "binv {r} s" by (rule binv_mono [OF ok]) simp
  note settle = binv_settle_record_frame [OF this _ h]
  have "frame s (note_abnormal k e (upd_run r (\<lambda>x. x\<lparr>r_noted_abnormal := True\<rparr>) s))" for k e
    by (rule frame_trans [OF frame_mark(2) frame_note_abnormal])
  then show ?thesis
    unfolding on_trusted_def Some Let_def
    using binv_on_cancel_asked [OF ok] binv_record_and_maybe_settle [OF ok h] settle [OF frame_refl] settle
    by (auto split: command.splits option.splits)
qed (use ok in \<open>simp add: on_trusted_def\<close>)

lemma binv_on_undelivered: "binv {} s \<Longrightarrow> binv {} (on_undelivered h r s)"
  unfolding on_undelivered_def
  by (auto intro!: binv_frame [OF frame_trans [OF frame_mark(2) frame_note_abnormal]] split: option.splits)

lemma binv_on_offer_lapsed:
  assumes ok: "binv {} s"
  shows "binv {} (on_offer_lapsed E h r n s)"
proof (cases "\<exists>run. live_run h r s = Some run \<and> r_verdict_open run \<and> r_offer_id run = n")
  case True
  then obtain run t where lr: "live_run h r s = Some run" and h: "hand_at s h = Some t" "r \<in> set (t_live t)"
    and cond: "r_verdict_open run" "r_offer_id run = n"
    by (blast elim: live_runD)
  let ?c = "close_verdict r s" and ?m = "upd_run r (\<lambda>x. x\<lparr>r_handover_task := None\<rparr>) (close_verdict r s)"
  let ?n = "case r_offered_to run of None \<Rightarrow> ?m | Some k \<Rightarrow> note_abnormal k Unanswered ?m"
  note close = close_verdict_exempt [OF ok h]
  have f: "frame ?c ?n"
    using frame_mark(3) frame_trans [OF frame_mark(3) frame_note_abnormal] by (auto split: option.splits)
  obtain t' where h': "hand_at ?n h = Some t'" "r \<in> set (t_live t')" using frame_held [OF f close(2) h(2)] by blast
  have "binv {r} ?n" by (rule binv_frame [OF f close(1)])
  then have "binv {r} (release r ?n)" "hand_at (release r ?n) h = Some t'"
    using release_exempt_ok [OF _ h', of "{r}"] h' by (simp_all add: release_frame_parts)
  from binv_settle_record_frame [OF this(1) frame_refl this(2) h'(2)]
  show ?thesis unfolding on_offer_lapsed_def lr Let_def using cond by simp
qed (use ok in \<open>auto simp: on_offer_lapsed_def split: option.splits\<close>)

lemma binv_dispatch:
  assumes ok: "binv {} s" and h: "hand_at s h = Some t" "t_inbox t = m # ms"
  shows "binv {} (dispatch_message E h m (upd_hand h (\<lambda>t. t\<lparr>t_inbox := ms\<rparr>) s))"
proof (cases "\<exists>r. m = MQueued r")
  case True
  then show ?thesis using binv_on_queued [OF ok h(1)] h(2) by auto
next
  case False
  have "queued_ids (m # ms) = queued_ids ms" using False by (cases m) auto
  then have "frame s (upd_hand h (\<lambda>t. t\<lparr>t_inbox := ms\<rparr>) s)"
    by (intro frame_upd_hand) (use h in \<open>auto simp: frame_hand_def\<close>)
  from binv_frame [OF this ok] show ?thesis
    using False by (cases m) (simp_all add: binv_on_answered binv_on_said binv_on_trusted binv_on_cancel_asked
        binv_on_offer_lapsed binv_on_undelivered)
qed

end

lemma removeAll_other: "h' \<noteq> h \<Longrightarrow> h' \<in> set hs \<Longrightarrow> h' \<in> set (removeAll h hs) \<and> removeAll h hs \<noteq> []"
  by (induction hs) auto

lemma leave_fields:
  assumes "hand_at s h = Some t" "t_live t = []" "t_inbox t = []"
  shows "b_runs (leave_if_idle h s) = b_runs s" "b_run_threads (leave_if_idle h s) = b_run_threads s"
    "b_heap (leave_if_idle h s) = b_heap s" "b_handlers (leave_if_idle h s) = b_handlers s"
    "b_serving (leave_if_idle h s) = b_serving s" "b_providers (leave_if_idle h s) = b_providers s"
    "hand_at (leave_if_idle h s) h' = (if h' = h then Some (t\<lparr>t_done := True\<rparr>) else hand_at s h')"
    "dget (b_threads (leave_if_idle h s)) x =
       (if dget (b_threads s) x = Some h \<and> x = t_thread_id t then None else dget (b_threads s) x)"
  using assms by (auto simp: leave_if_idle_def Let_def split: option.splits)

lemma leave_agent_threads:
  assumes "hand_at s h = Some t" "t_live t = []" "t_inbox t = []" "h' \<noteq> h"
    and "dget (b_agent_threads s) a = Some hs" "h' \<in> set hs"
  shows "\<exists>hs'. dget (b_agent_threads (leave_if_idle h s)) a = Some hs' \<and> h' \<in> set hs'"
  using assms removeAll_other [OF assms(4,6)]
  by (cases "dget (b_agent_threads s) (t_agent t)") (auto simp: leave_if_idle_def Let_def)

lemma binv_leave_if_idle:
  assumes ok: "binv {} s"
  shows "binv {} (leave_if_idle h s)"
proof (cases "\<exists>t. hand_at s h = Some t \<and> t_live t = [] \<and> t_inbox t = []")
  case True
  then obtain t where t: "hand_at s h = Some t" "t_live t = []" "t_inbox t = []" by blast
  note f = leave_fields [OF t]
  let ?s = "leave_if_idle h s"
  have "tracked_ok ?s r" if "tracked_ok s r" for r
  proof (rule tracked_transfer [OF that])
    fix h' u
    assume "dget (b_run_threads s) r = Some h'" "hand_at s h' = Some u" "\<not> t_done u"
      "r \<in> set (t_live u) \<union> set (queued_ids (t_inbox u))"
    then show "\<exists>t'. hand_at ?s h' = Some t' \<and> \<not> t_done t' \<and> t_thread_id t' = t_thread_id u \<and>
        r \<in> set (t_live t') \<union> set (queued_ids (t_inbox t'))"
      using t by (cases "h' = h") (simp_all add: f)
  qed (simp_all add: f)
  moreover have "hand_ok {} ?s h' u" if u: "hand_at ?s h' = Some u" for h' u
  proof (cases "h' = h")
    case True
    have "hand_ok {} s h t" using binv_hand [OF ok t(1)] .
    moreover have "u = t\<lparr>t_done := True\<rparr>" using True u by (simp add: f)
    ultimately show ?thesis using True t by (simp add: hand_ok_def hand_shape_def hand_phases_def)
  next
    case False
    then have u': "hand_at s h' = Some u" using u by (simp add: f)
    have sh: "hand_shape s h' u" and phases: "hand_phases {} s u" using binv_hand [OF ok u'] by (simp_all add: hand_ok_def)
    have "hand_phases {} ?s u" by (rule phases_transfer [OF phases]) (auto simp: f)
    moreover have "hand_shape ?s h' u"
      using sh False leave_agent_threads [OF t False, of "t_agent u"] unfolding hand_shape_def by (auto simp: f)
    ultimately show ?thesis by (simp add: hand_ok_def)
  qed
  moreover have "seats ?s k = seats s k" for k by (simp add: seats_def f)
  moreover have "threads_ok ?s"
  proof -
    have tk: "\<exists>u. hand_at s h' = Some u \<and> t_thread_id u = x \<and> \<not> t_done u" if "dget (b_threads s) x = Some h'" for x h'
      using ok that by (simp add: binv_def threads_ok_def)
    show ?thesis unfolding threads_ok_def f using tk t by (auto split: if_splits) (metis option.inject)
  qed
  ultimately show ?thesis using ok unfolding binv_def by (simp add: f seats_ok_def roster_ok_def forgotten_ok_def)
qed (use ok in \<open>auto simp: leave_if_idle_def split: option.splits\<close>)

section \<open>Intake and roster\<close>

lemma next_hand_fresh: "hand_at s (next_hand s) = None"
proof -
  have "h \<le> fold max (dkeys (b_hands s)) 0" if "h \<in> set (dkeys (b_hands s))" for h
    unfolding Max.set_eq_fold [symmetric] by (rule Max_ge) (use that in auto)
  then show ?thesis unfolding dget_None_keys next_hand_def by fastforce
qed

text \<open>The state after the thread's handler was found or made.\<close>

lemma binv_new_hand:
  assumes ok: "binv {} s" and h: "hand_at s h = None"
    and gone: "dget (b_threads s) x = None"
    and t: "t_thread_id t = x" "t_agent t = a" "t_inbox t = []" "t_queue t = []" "t_live t = []" "\<not> t_done t"
    and hs: "h \<in> set hs" "\<And>hs'. dget (b_agent_threads s) a = Some hs' \<Longrightarrow> set hs' \<subseteq> set hs"
  shows "binv {} (s\<lparr>b_hands := dput h t (b_hands s), b_agent_threads := dput a hs (b_agent_threads s),
    b_threads := dput x h (b_threads s)\<rparr>)" (is "binv _ ?s")
proof -
  have "tracked_ok ?s r" if "tracked_ok s r" for r
    by (rule tracked_transfer [OF that]) (use h in auto)
  moreover have "hand_ok {} ?s h' u" if u: "hand_at ?s h' = Some u" for h' u
  proof (cases "h' = h")
    case True
    then show ?thesis using u t hs by (simp add: hand_ok_def hand_shape_def hand_phases_def)
  next
    case False
    then have "hand_at s h' = Some u" using u by simp
    then have sh: "hand_shape s h' u" and phases: "hand_phases {} s u"
      using binv_hand [OF ok] by (simp_all add: hand_ok_def)
    have "hand_phases {} ?s u" by (rule phases_transfer [OF phases]) auto
    moreover have "hand_shape ?s h' u"
      using sh gone hs(2) unfolding hand_shape_def by auto
    ultimately show ?thesis by (simp add: hand_ok_def)
  qed
  moreover have "seats ?s k = seats s k" for k by (simp add: seats_def)
  moreover have "threads_ok ?s" if "threads_ok s"
    using that h t unfolding threads_ok_def by (auto split: if_splits) fastforce+
  ultimately show ?thesis using ok unfolding binv_def by (simp add: seats_ok_def roster_ok_def forgotten_ok_def)
qed

lemma dput_comm_reads:
  "hand_at (put_inbox h m s) h' = (if h' = h then map_option (\<lambda>t. t\<lparr>t_inbox := t_inbox t @ [m]\<rparr>) (hand_at s h) else hand_at s h')"
  by (simp add: put_inbox_def)

lemma put_inbox_fields [simp]:
  "b_runs (put_inbox h m s) = b_runs s" "b_run_threads (put_inbox h m s) = b_run_threads s"
  "b_threads (put_inbox h m s) = b_threads s" "b_heap (put_inbox h m s) = b_heap s"
  "b_serving (put_inbox h m s) = b_serving s" "b_providers (put_inbox h m s) = b_providers s"
  "b_agent_threads (put_inbox h m s) = b_agent_threads s" "b_handlers (put_inbox h m s) = b_handlers s"
  "b_world (put_inbox h m s) = b_world s"
  by (simp_all add: put_inbox_def)

text \<open>Tracking a run no one has seen before, with its message in the inbox of its thread's handler.\<close>

lemma binv_track:
  assumes ok: "binv {} s" and fresh: "run_at s r = None"
    and h: "hand_at s h = Some t" "\<not> t_done t" "t_thread_id t = r_thread_id run"
    and run: "r_run_id run = r" "unoffered run" "\<not> r_settled run" "r_out_queue run = []"
  shows "binv {} (put_inbox h (MQueued r)
    (s\<lparr>b_heap := dput r run (b_heap s), b_runs := (if r \<in> set (b_runs s) then b_runs s else b_runs s @ [r]),
       b_run_threads := dput r h (b_run_threads s), b_handlers := List.insert r (b_handlers s)\<rparr>))" (is "binv _ ?s")
proof -
  have r: "r \<notin> set (b_runs s)" using tracked_run [OF binv_tracked [OF ok, of r]] fresh by auto
  have other: "tracked_ok ?s r'" if "tracked_ok s r'" for r'
  proof -
    have "r' \<noteq> r" using that fresh by (auto simp: tracked_ok_def)
    then show ?thesis using h by (intro tracked_transfer [OF that]) (auto simp: dput_comm_reads)
  qed
  have "tracked_ok ?s r" using h run by (auto simp: tracked_ok_def dput_comm_reads)
  moreover have "hand_ok {} ?s h' u" if u: "hand_at ?s h' = Some u" for h' u
  proof -
    obtain v where v: "hand_at s h' = Some v" "u = (if h' = h then v\<lparr>t_inbox := t_inbox v @ [MQueued r]\<rparr> else v)"
      using u by (auto simp: dput_comm_reads split: if_splits)
    have sh: "hand_shape s h' v" and phases: "hand_phases {} s v" using binv_hand [OF ok v(1)] by (simp_all add: hand_ok_def)
    have new: "r \<notin> set (t_live v)" "r \<notin> set (queued_ids (t_inbox v))" using sh r by (auto simp: hand_shape_def)
    have "hand_shape ?s h' u"
      using sh v h new unfolding hand_shape_def by (cases "h' = h") auto
    moreover have "r \<notin> set (tl (t_queue v))"
      using sh new set_tl_subset [of "t_queue v"] unfolding hand_shape_def by blast
    then have "hand_phases {} ?s u"
      by (intro phases_transfer [OF phases]) (use v run new in \<open>auto simp: unoffered_at_def split: if_splits\<close>)
    ultimately show ?thesis by (simp add: hand_ok_def)
  qed
  moreover have "seats ?s k = seats s k" for k using run r by (auto simp: seats_def unoffered_def)
  moreover have "threads_ok ?s" if "threads_ok s" by (rule threads_transfer [OF that]) (auto simp: dput_comm_reads)
  ultimately show ?thesis
    using ok r other run unfolding binv_def
    by (auto simp: seats_ok_def roster_ok_def forgotten_ok_def unoffered_run_ok)
qed

lemma binv_enqueue_run:
  assumes ok: "binv {} s" and fresh: "run_at s r = None" and e: "enqueue_run r a x input seq adr s = Some s'"
  shows "binv {} s'"
proof -
  obtain h s1 where hs: "thread_handler_for x a s = (h, s1)" by fastforce
  let ?run = "new_run r a x input (b_now s) seq adr"
  have s': "s' = put_inbox h (MQueued r) (s1\<lparr>b_heap := dput r ?run (b_heap s1),
      b_runs := (if r \<in> set (b_runs s1) then b_runs s1 else b_runs s1 @ [r]),
      b_run_threads := dput r h (b_run_threads s1), b_handlers := List.insert r (b_handlers s1)\<rparr>)"
    using e hs by (simp add: enqueue_run_def split: if_splits)
  have "binv {} s1 \<and> run_at s1 r = None \<and> (\<exists>t. hand_at s1 h = Some t \<and> \<not> t_done t \<and> t_thread_id t = x)"
  proof (cases "dget (b_threads s) x")
    case None
    let ?hs = "List.insert (next_hand s) (case dget (b_agent_threads s) a of None \<Rightarrow> [] | Some hs \<Rightarrow> hs)"
    have "h = next_hand s" and s1: "s1 = s\<lparr>b_hands := dput h \<lparr>t_thread_id = x, t_agent = a, t_inbox = [], t_queue = [],
        t_live = [], t_done = False\<rparr> (b_hands s), b_agent_threads := dput a ?hs (b_agent_threads s),
        b_threads := dput x h (b_threads s)\<rparr>"
      using hs None by (auto simp: thread_handler_for_def Let_def)
    then have "binv {} s1" unfolding s1
      by (intro binv_new_hand [OF ok _ None]) (auto simp: next_hand_fresh)
    then show ?thesis using s1 fresh by simp
  next
    case (Some h0)
    then obtain t where "hand_at s h0 = Some t" "t_thread_id t = x" "\<not> t_done t"
      using ok unfolding binv_def threads_ok_def by blast
    then show ?thesis using hs Some ok fresh by (auto simp: thread_handler_for_def Let_def)
  qed
  then show ?thesis unfolding s'
    by (elim conjE exE) (rule binv_track, auto simp: new_run_def unoffered_def)
qed

lemma register_one_parts:
  "b_runs (register_one m s) = b_runs s" "b_run_threads (register_one m s) = b_run_threads s"
  "b_threads (register_one m s) = b_threads s" "b_heap (register_one m s) = b_heap s"
  "b_hands (register_one m s) = b_hands s" "b_agent_threads (register_one m s) = b_agent_threads s"
  "b_handlers (register_one m s) = b_handlers s"
  by (simp_all add: register_one_def Let_def split: prod.splits)

lemma binv_register_one:
  assumes ok: "binv {} s"
  shows "binv {} (register_one m s)"
proof -
  obtain ref c where m: "m = (ref, c)" by fastforce
  let ?s = "register_one m s" and ?k = "c_public_key c"
  have p: "prov_at ?s k = (if k = ?k then Some ((provider k s)\<lparr>p_connection := Some c, p_declared := c_max_concurrent_runs c\<rparr>)
      else prov_at s k)" for k
    by (simp add: m register_one_def Let_def provider_def)
  have sv: "dget (b_serving ?s) a = (if a = ref then Some ?k else dget (b_serving s) a)" for a
    by (simp add: m register_one_def Let_def)
  have "seats ?s k = seats s k" for k by (simp add: seats_def register_one_parts)
  then have "seats_ok ?s" using ok in_flight_card [of s] by (simp add: binv_def seats_ok_def p)
  moreover have "roster_ok ?s" using ok unfolding binv_def roster_ok_def p sv by auto
  moreover have "tracked_ok ?s = tracked_ok s" by (rule ext) (simp add: tracked_ok_def register_one_parts)
  moreover have "hand_ok {} ?s = hand_ok {} s"
    by (intro ext) (simp add: hand_ok_def hand_shape_def hand_phases_def unoffered_at_def joined_at_def register_one_parts)
  ultimately show ?thesis using ok unfolding binv_def
    by (simp add: forgotten_ok_def threads_ok_def register_one_parts)
qed

lemma binv_register_provider: "binv {} s \<Longrightarrow> binv {} (register_provider mapping s)"
proof -
  assume ok: "binv {} s"
  have "binv {} (fold register_one mapping s)"
    using ok by (induction mapping arbitrary: s) (simp_all add: binv_register_one)
  moreover have "frame s' (fold poke_agent refs (s'\<lparr>b_work_to_do := True\<rparr>))" for refs and s' :: "'a broker"
    by (rule frame_trans [OF frame_flags(1) frame_fold]) (rule frame_poke_agent)
  ultimately show ?thesis unfolding register_provider_def using binv_frame by blast
qed

section \<open>The event stream's reader\<close>

lemma binv_subscribe: "binv {} s \<Longrightarrow> binv {} (snd (subscribe r s))"
proof -
  have "frame s (upd_run r (\<lambda>x. x\<lparr>r_stream_open := True\<rparr>) s)" by (rule frame_upd_run) (simp add: frame_run_def)
  then show "binv {} s \<Longrightarrow> binv {} (snd (subscribe r s))"
    using binv_frame by (auto simp: subscribe_def split: option.splits)
qed

lemma binv_pop_stream:
  assumes ok: "binv {} s" and run: "run_at s r = Some run" "r_out_queue run = x # rest"
  shows "binv {} (upd_run r (\<lambda>x. x\<lparr>r_out_queue := rest, r_stream_open := b\<rparr>) s)" (is "binv _ ?s")
proof -
  have "tracked_ok ?s r'" if t: "tracked_ok s r'" for r'
    using t run unfolding tracked_ok_def by (cases "r' = r") auto
  moreover have "unoffered_at ?s = unoffered_at s" "joined_at ?s = joined_at s"
    using run by (auto simp: unoffered_at_def joined_at_def unoffered_def fun_eq_iff)
  then have "hand_ok {} ?s = hand_ok {} s" by (intro ext) (simp add: hand_ok_def hand_phases_def)
  moreover have "seats ?s k = seats s k" for k by (rule seats_upd_run_same) simp
  moreover have "stream_closed (run\<lparr>r_out_queue := rest, r_stream_open := b\<rparr>)" if "stream_closed run"
    using that run(2) by (cases rest) (auto simp: stream_closed_def)
  then have "forgotten_ok ?s" if "forgotten_ok s" using that run unfolding forgotten_ok_def by auto
  moreover have "run_ok (run\<lparr>r_out_queue := rest, r_stream_open := b\<rparr>) = run_ok run" by (simp add: run_ok_def)
  ultimately show ?thesis using ok run unfolding binv_def
    by (auto simp: seats_ok_def roster_ok_def threads_ok_def split: if_splits)
qed

lemma binv_drain_step:
  assumes ok: "binv {} s" and d: "drain_step r s = Some (e, s')"
  shows "binv {} s'"
proof -
  obtain run x rest where run: "run_at s r = Some run" "r_out_queue run = x # rest"
    using d by (auto simp: drain_step_def split: option.splits list.splits)
  have "upd_run r (\<lambda>x. x\<lparr>r_out_queue := rest\<rparr>) s = upd_run r (\<lambda>x. x\<lparr>r_out_queue := rest, r_stream_open := r_stream_open run\<rparr>) s"
    using run by (simp add: upd_run_def)
  then have "binv {} (upd_run r (\<lambda>x. x\<lparr>r_out_queue := rest\<rparr>) s)" using binv_pop_stream [OF ok run] by simp
  then show ?thesis using d run binv_pop_stream [OF ok run] by (cases x) (auto simp: drain_step_def)
qed

section \<open>The dispatcher as a transition system\<close>

text \<open>
  What can happen to a broker: a call of a door, a provider coming or going, a clock, a thread
  handler handling its next message, a reader taking its next item. A run id is queued once (it is
  the primary key of its row). The offer clock and a failed hand-over put \<^verbatim>\<open>_OfferLapsed\<close>
  in the inbox; they may do so at any time. The world the record handlers write to may be changed by
  others between steps.
\<close>

inductive broker_step :: "'w broker_env \<Rightarrow> 'w broker \<Rightarrow> 'w broker \<Rightarrow> bool" for E where
  step_start: "broker_step E s (start_broker s)"
| step_stop: "broker_step E s (stop_broker s)"
| step_enqueue: "run_at s r = None \<Longrightarrow> enqueue_run r a x input seq adr s = Some s' \<Longrightarrow> broker_step E s s'"
| step_answer: "broker_step E s (snd (answer_offer r v k s))"
| step_report: "broker_step E s (snd (report_event r e k s))"
| step_finish: "broker_step E s (snd (finish_stream r k s))"
| step_push: "broker_step E s (snd (push r c s))"
| step_undelivered: "broker_step E s (snd (note_undelivered r s))"
| step_cancel: "broker_step E s (snd (request_cancel r s))"
| step_register: "broker_step E s (register_provider mapping s)"
| step_unregister: "broker_step E s (unregister_provider refs s)"
| step_lapse: "broker_step E s (put_inbox h (MOfferLapsed r n) s)"
| step_handle: "handle_next E h s = Some s' \<Longrightarrow> broker_step E s s'"
| step_sweep: "broker_step E s (sweep_pass n s)"
| step_subscribe: "broker_step E s (snd (subscribe r s))"
| step_drain: "drain_step r s = Some (e, s') \<Longrightarrow> broker_step E s s'"
| step_time: "n \<ge> b_now s \<Longrightarrow> broker_step E s (s\<lparr>b_now := n\<rparr>)"
| step_world: "broker_step E s (s\<lparr>b_world := w\<rparr>)"

inductive broker_reach :: "'w broker_env \<Rightarrow> 'w broker \<Rightarrow> bool" for E where
  reach_init: "broker_reach E (new_broker tolerance now w)"
| reach_step: "broker_reach E s \<Longrightarrow> broker_step E s s' \<Longrightarrow> broker_reach E s'"

inductive_cases broker_stepE: "broker_step E s s'"

lemma binv_new_broker: "binv {} (new_broker tolerance now w)"
  by (simp add: binv_def new_broker_def seats_ok_def roster_ok_def forgotten_ok_def threads_ok_def seats_def)

context record_handlers
begin

lemma binv_handle_next: "binv {} s \<Longrightarrow> handle_next E h s = Some s' \<Longrightarrow> binv {} s'"
  unfolding handle_next_def on_message_def
  by (auto intro!: binv_leave_if_idle binv_advance binv_dispatch split: option.splits if_splits list.splits)

lemma binv_step: "broker_step E s s' \<Longrightarrow> binv {} s \<Longrightarrow> binv {} s'"
proof (induction rule: broker_step.induct)
  case (step_start s)
  then show ?case by (simp add: start_broker_def binv_frame [OF frame_trans [OF frame_flags(6) frame_flags(1)]])
next
  case (step_stop s)
  then show ?case by (simp add: stop_broker_def binv_frame [OF frame_flags(6)])
next
  case (step_lapse s h r n)
  then show ?case by (simp add: binv_frame [OF frame_put_inbox])
qed (blast intro: binv_enqueue_run binv_frame [OF frame_doors(1)] binv_frame [OF frame_doors(2)]
    binv_frame [OF frame_doors(3)] binv_frame [OF frame_doors(4)] binv_frame [OF frame_doors(5)]
    binv_frame [OF frame_request_cancel] binv_register_provider binv_frame [OF frame_unregister_provider]
    binv_handle_next binv_frame [OF frame_sweep_pass] binv_subscribe binv_drain_step
    binv_frame [OF frame_flags(5)] binv_frame [OF frame_flags(4)])+

lemma reach_binv: "broker_reach E s \<Longrightarrow> binv {} s"
  by (induction rule: broker_reach.induct) (auto intro: binv_new_broker binv_step)

end

end
