(* ===== verification/Broker_Relation.thy ===== *)
theory Broker_Relation
  imports Broker_Reach
begin

text \<open>
  Relations between the state before and after that hold across every operation once they hold for
  its smallest parts, in a hierarchy of locales. \<open>small_relation\<close> names the parts that record nothing: changes that touch neither runs nor
  providers, changes of a run that put nothing in its stream but the end mark of a settled run, conduct counts and places
  given back. \<open>step_relation\<close> adds a place taken where there is room, record commands of an admitted kind, and runs that fail.
  \<open>loose_relation\<close> is for relations that do not look at the order of a stream or an inbox, or at who claimed a run; it is a sublocale
  of \<open>step_relation\<close>, and its lemmas go through a handler's whole step. \<open>door_relation\<close> adds the doors. Instances: \<open>incap\<close>, how an
  in-flight count may change, here; \<open>quiet\<close>, what may enter a stream, and \<open>still_over\<close>, that what is
  settled stays settled, in \<open>Broker_Props\<close>; \<open>inbox_grow\<close> in \<open>Coupling\<close>; \<open>carried\<close>, what a step leaves of a run's stream, in \<open>Channel\<close>.
\<close>

lemma provider_upd_provider: "provider k' (upd_provider k f s) = (if k' = k then f (provider k s) else provider k' s)"
  by (simp add: provider_def upd_provider_def)

text \<open>The commands a message may make its handler record, besides funduq's own.\<close>

fun message_cmd :: "message \<Rightarrow> command option" where
  "message_cmd (MSaid r k c) = Some c"
| "message_cmd (MTrusted r c) = Some c"
| "message_cmd _ = None"

text \<open>How the dispatcher itself changes a run: it may end the stream of a run it settles, and claims are made elsewhere.\<close>

definition tame :: "(brun \<Rightarrow> brun) \<Rightarrow> bool" where
  "tame f \<longleftrightarrow>
     (\<forall>x. (r_out_queue (f x) = r_out_queue x \<or> r_out_queue (f x) = r_out_queue x @ [END_OF_STREAM] \<and> r_settled (f x)) \<and>
        (r_settled x \<longrightarrow> r_settled (f x)) \<and> r_claimed_by (f x) = r_claimed_by x)"

definition loose :: "(brun \<Rightarrow> brun) \<Rightarrow> bool" where
  "loose f \<longleftrightarrow>
     (\<forall>x. set (r_out_queue (f x)) \<subseteq> insert END_OF_STREAM (set (r_out_queue x)) \<and> (r_settled x \<longrightarrow> r_settled (f x)))"

lemma tame_keep:
  "(\<And>x. r_out_queue (f x) = r_out_queue x \<and> (r_settled x \<longrightarrow> r_settled (f x)) \<and> r_claimed_by (f x) = r_claimed_by x) \<Longrightarrow> tame f"
  by (simp add: tame_def)

lemma tame_loose: "tame f \<Longrightarrow> loose f"
  unfolding tame_def loose_def by (metis Un_commute Un_insert_left insert_is_Un list.set(1,2) set_append subset_insertI subset_refl)

locale small_relation =
  fixes R :: "'w broker \<Rightarrow> 'w broker \<Rightarrow> bool"
  assumes R_trans: "R s s' \<Longrightarrow> R s' s'' \<Longrightarrow> R s s''"
    and R_same: "b_heap s' = b_heap s \<Longrightarrow> b_providers s' = b_providers s \<Longrightarrow> b_hands s' = b_hands s \<Longrightarrow>
      (\<And>q. dget (b_run_threads s') q = None \<or> dget (b_run_threads s') q = dget (b_run_threads s) q) \<Longrightarrow> R s s'"
    and R_upd_hand: "(\<And>t. t_inbox (j t) = t_inbox t) \<Longrightarrow> R s (upd_hand h j s)"
    and R_put_own: "R s (put_inbox h MPoke s)" "R s (put_inbox h (MTrusted r (Fail code msg)) s)"
    and R_upd_run: "tame f \<Longrightarrow> R s (upd_run r f s)"
    and R_upd_provider: "(\<And>p. p_declared (g p) = p_declared p \<and> p_in_flight (g p) \<le> p_in_flight p) \<Longrightarrow>
      R s (upd_provider k g s)"
begin

lemma R_refl [simp]: "R s s"
  by (rule R_same) simp_all

lemma R_fold: "(\<And>x s. R s (f x s)) \<Longrightarrow> R s (fold f xs s)"
proof (induction xs arbitrary: s)
  case (Cons x xs)
  then have "R s (f x s)" "R (f x s) (fold f xs (f x s))" by blast+
  then have "R s (fold f xs (f x s))" by (rule R_trans)
  then show ?case by simp
qed simp

lemma R_push: "R s (snd (push r (Fail code msg) s))"
  by (auto simp: push_def post_def R_put_own split: option.splits)

lemma R_poke: "R s (poke_threads s)" "R s (poke_agent a s)"
  by (simp_all add: poke_threads_def poke_agent_def R_fold R_put_own)

lemma R_flags:
  "R s (s\<lparr>b_work_to_do := x\<rparr>)" "R s (s\<lparr>b_effects := e\<rparr>)" "R s (s\<lparr>b_unserved_since := u\<rparr>)"
  "R s (s\<lparr>b_world := w\<rparr>)" "R s (s\<lparr>b_now := n\<rparr>)" "R s (s\<lparr>b_running := b\<rparr>)"
  by (simp_all add: R_same)

lemma R_release: "R s (release r s)"
proof -
  have run: "R s (upd_run r (\<lambda>x. x\<lparr>r_offered_to := None, r_offered_conn := None\<rparr>) s)"
    by (rule R_upd_run) (auto simp: tame_def)
  have "R s (upd_provider k (\<lambda>p. p\<lparr>p_in_flight := p_in_flight p - 1\<rparr>)
      (upd_run r (\<lambda>x. x\<lparr>r_offered_to := None, r_offered_conn := None\<rparr>) s))" for k
    by (rule R_trans [OF run R_upd_provider]) simp
  then show ?thesis using run by (auto simp: release_def Let_def split: option.splits)
qed

lemma R_fail_held_runs: "R s (fail_held_runs ref s)"
  unfolding fail_held_runs_def by (rule R_fold) (auto simp: R_push split: option.splits)

lemma R_unregister_one: "R s (unregister_one ref s)"
proof -
  let ?s = "s\<lparr>b_serving := dpop ref (b_serving s), b_unserved_since := dput ref (b_now s) (b_unserved_since s)\<rparr>"
  have "R s ?s" by (rule R_same) simp_all
  then have "R s (poke_agent ref (fail_held_runs ref ?s))"
    using R_trans R_fail_held_runs R_poke(2) by metis
  then show ?thesis by (simp add: unregister_one_def)
qed

lemma R_unregister_provider: "R s (unregister_provider refs s)"
  unfolding unregister_provider_def by (rule R_fold) (rule R_unregister_one)

lemma R_note_abnormal: "R s (note_abnormal k ev s)"
proof -
  let ?s = "upd_provider k (\<lambda>p. p\<lparr>p_counters := (p_counters p)(ev := Suc (p_counters p ev))\<rparr>) s"
  have "R s ?s" by (rule R_upd_provider) simp
  moreover from this have "R s (unregister_provider refs ?s)" for refs
    using R_trans R_unregister_provider by blast
  ultimately show ?thesis by (auto simp: note_abnormal_def Let_def split: option.splits)
qed

lemma R_note_misdeclared: "R s (note_misdeclared k s)"
  by (simp add: note_misdeclared_def R_note_abnormal)

lemma R_forget: "R s (forget r s)"
proof (cases "r \<in> set (b_runs s)")
  case True
  let ?s = "s\<lparr>b_runs := removeAll r (b_runs s), b_run_threads := dpop r (b_run_threads s),
    b_handlers := removeAll r (b_handlers s)\<rparr>"
  define t where "t = (case run_at ?s r of None \<Rightarrow> ?s
    | Some run \<Rightarrow> (let s = upd_run r (\<lambda>x. x\<lparr>r_settled := True\<rparr>) ?s
                     in if r_offered_to run \<noteq> None then release r s else s))"
  have 1: "R s ?s" "R ?s (upd_run r (\<lambda>x. x\<lparr>r_settled := True\<rparr>) ?s)"
    by (simp_all add: R_same R_upd_run tame_keep)
  have "R ?s t"
    using 1(2) R_trans [OF 1(2) R_release] unfolding t_def Let_def by (cases "run_at ?s r") auto
  with 1(1) have "R s t" by (rule R_trans)
  then have "R s (poke_threads (t\<lparr>b_work_to_do := True\<rparr>))"
    using R_trans R_poke(1) R_flags(1) by metis
  moreover have "forget r s = (poke_threads (t\<lparr>b_work_to_do := True\<rparr>))
      \<lparr>b_effects := b_effects (poke_threads (t\<lparr>b_work_to_do := True\<rparr>)) @ [Forgotten r]\<rparr>"
    unfolding forget_def t_def Let_def using True by simp
  ultimately show ?thesis using R_trans R_flags(2) by metis
qed (simp add: forget_def R_same)

lemma R_settle: "R s (settle h r s)"
proof -
  let ?f = "\<lambda>x. x\<lparr>r_settled := True, r_out_queue := r_out_queue x @ [END_OF_STREAM], r_offer_timer := None\<rparr>"
  let ?g = "\<lambda>t. t\<lparr>t_live := removeAll r (t_live t), t_queue := remove1 r (t_queue t)\<rparr>"
  have "R s (upd_hand h ?g (upd_run r ?f s))"
    by (rule R_trans [OF R_upd_run R_upd_hand]) (auto simp: tame_def)
  then show ?thesis unfolding settle_def by (rule R_trans [OF _ R_forget])
qed

end

locale step_relation = small_relation R for R :: "'w broker \<Rightarrow> 'w broker \<Rightarrow> bool" +
  fixes E :: "'w broker_env" and admitted :: "command \<Rightarrow> bool"
  assumes R_seat: "has_room (provider (c_public_key c) s) \<Longrightarrow> R s (seat r c i n s)"
    and R_record_cmd: "admitted cmd \<Longrightarrow> R s (record_cmd E r cmd s)"
    and R_failed: "R s (settle h r (record_cmd E r (Fail code msg) s))"
    and own_admitted: "admitted Offer" "admitted Claim" "admitted RequestCancel"
begin

lemma R_offer: "R s (offer E h r i s)"
proof (cases "run_at s r")
  case (Some run)
  have stay: "R s (if i then upd_hand h (\<lambda>t. t\<lparr>t_queue := insert_second r (t_queue t)\<rparr>) s else s)"
    by (simp add: R_upd_hand)
  have "R s (offer E h r i s)" if c: "serving (r_agent run) s = Some c" "has_room (provider (c_public_key c) s)"
    "env_input_error E (r_input_json run) = None" for c
  proof -
    let ?s = "record_cmd E r Offer (seat r c i (Suc (r_offer_id run)) s)"
    have "R s ?s" using R_trans [OF R_seat [OF c(2)] R_record_cmd [OF own_admitted(1)]] .
    then have "R s ((upd_run r f ?s)\<lparr>b_effects := e\<rparr>)" if "tame f" for e f
      using R_trans [OF R_trans [OF _ R_upd_run [OF that]] R_flags(2)] by blast
    then show ?thesis using offer_eq [OF Some c, of h i] by (auto simp: Let_def tame_keep)
  qed
  then show ?thesis using Some stay R_failed
    by (cases "serving (r_agent run) s"; cases "env_input_error E (r_input_json run)")
       (auto simp: offer_def [of E h r i s] simp del: if_split split: if_splits)
qed (simp add: offer_def)

lemmas R_parts = R_upd_run R_upd_hand R_record_cmd R_release R_offer
  R_note_abnormal R_note_misdeclared R_push R_flags

lemma R_recorded_last: "admitted c \<Longrightarrow> R s (settle h r (record_cmd E r c s))"
  by (rule R_trans [OF R_record_cmd R_settle])

lemmas R_ends = R_failed [THEN [2] R_trans] R_recorded_last [of RequestCancel, THEN [2] R_trans]
  R_recorded_last [of FinishStream, THEN [2] R_trans]

lemmas R_then = R_parts [THEN [2] R_trans]

lemma R_advance: "R s (advance E h s)"
  unfolding advance_def Let_def by (auto simp: tame_def own_admitted intro!: R_then split: option.splits list.splits)

lemma R_release_interjections: "R s (release_interjections E h head_id s)"
  unfolding release_interjections_def join_one_def
  by (auto simp: tame_def own_admitted intro!: R_fold R_then split: option.splits)

lemma R_on_queued: "R s (on_queued E h r s)"
  unfolding on_queued_def Let_def by (auto simp: tame_def own_admitted intro!: R_then split: option.splits list.splits prod.splits)

lemma R_record_and_maybe_settle: "admitted c \<Longrightarrow> R s (record_and_maybe_settle E h r c s)"
  unfolding record_and_maybe_settle_def Let_def by (auto simp: tame_def own_admitted intro!: R_ends R_then split: option.splits)

lemma R_on_cancel_asked: "R s (on_cancel_asked E h r s)"
  unfolding on_cancel_asked_def Let_def by (auto simp: tame_def own_admitted intro!: R_ends R_then split: option.splits)

lemma R_on_trusted: "admitted c \<or> (\<exists>code msg. c = Fail code msg) \<Longrightarrow> R s (on_trusted E h r c s)"
  unfolding on_trusted_def Let_def
  by (auto simp: tame_def own_admitted intro!: R_ends R_then R_on_cancel_asked R_record_and_maybe_settle split: option.splits command.splits)

lemma R_leave: "R s (leave_if_idle h s)"
proof (cases "hand_at s h")
  case (Some t)
  have "R s (upd_hand h (\<lambda>t. t\<lparr>t_done := True\<rparr>) s)" by (rule R_upd_hand) simp
  then have "R s (leave_if_idle h s)" if "t_live t = []" "t_inbox t = []"
    using that Some by (elim R_trans) (auto intro!: R_same simp: leave_if_idle_def Let_def split: option.splits)
  then show ?thesis using Some by (cases "t_live t = [] \<and> t_inbox t = []") (auto simp: leave_if_idle_def)
qed (simp add: leave_if_idle_def)

text \<open>An answer: the claim itself is the one change of a run that is not tame.\<close>

lemma R_after_claim:
  "R (upd_run r (\<lambda>x. x\<lparr>r_claimed_by := Some k, r_cancel_notify := r_offered_conn x\<rparr>) s) (on_accepted E h r k s)"
proof -
  define s0 where "s0 = upd_run r (\<lambda>x. x\<lparr>r_claimed_by := Some k, r_cancel_notify := r_offered_conn x\<rparr>) s"
  define s1 where "s1 = record_cmd E r Claim s0"
  have "R s0 s1" unfolding s1_def by (rule R_record_cmd) (rule own_admitted)
  moreover have "R s1 (on_accepted E h r k s)"
    unfolding on_accepted_def Let_def s0_def [symmetric] s1_def [symmetric]
    by (auto simp: own_admitted intro!: R_then R_release_interjections split: option.splits)
  ultimately show ?thesis unfolding s0_def by (rule R_trans)
qed

lemma R_not_accepted: "v \<noteq> Truth True \<Longrightarrow> R s (on_answered E h r k v s)"
  unfolding on_answered_def Let_def close_verdict_def
  by (auto simp: tame_def own_admitted intro!: R_ends R_then split: option.splits verdict.splits bool.splits)

lemma R_on_undelivered: "R s (on_undelivered h r s)"
  unfolding on_undelivered_def by (auto simp: tame_def intro!: R_then split: option.splits)

lemma R_on_offer_lapsed: "R s (on_offer_lapsed E h r n s)"
  unfolding on_offer_lapsed_def close_verdict_def Let_def
  by (auto simp: tame_def own_admitted intro!: R_ends R_then split: option.splits)

end

locale loose_relation = small_relation R for R :: "'w broker \<Rightarrow> 'w broker \<Rightarrow> bool" +
  fixes E :: "'w broker_env" and admitted :: "command \<Rightarrow> bool"
  assumes seat_related: "has_room (provider (c_public_key c) s) \<Longrightarrow> R s (seat r c i n s)"
    and record_related: "admitted cmd \<Longrightarrow> R s (record_cmd E r cmd s)"
    and funduqs_admitted: "admitted Offer" "admitted Claim" "admitted RequestCancel" "admitted (Fail code msg)"
    and R_upd_loose: "loose f \<Longrightarrow> R s (upd_run r f s)"
    and R_read: "R s (upd_hand h (\<lambda>t. t\<lparr>t_inbox := tl (t_inbox t)\<rparr>) s)"

sublocale loose_relation \<subseteq> step_relation R E admitted
proof unfold_locales
  show "R s (settle h r (record_cmd E r (Fail code msg) s))" for s h r code msg
    by (rule R_trans [OF record_related R_settle]) (rule funduqs_admitted)
qed (auto intro: seat_related record_related funduqs_admitted)

context loose_relation
begin

lemma R_on_accepted: "R s (on_accepted E h r k s)"
  by (rule R_trans [OF R_upd_loose R_after_claim]) (auto simp: loose_def)

lemma R_on_answered: "R s (on_answered E h r k v s)"
  using R_not_accepted R_trans [OF R_upd_run R_on_accepted]
  by (cases "v = Truth True") (auto simp: on_answered_def close_verdict_def tame_def Let_def split: option.splits)

lemma R_dispatch:
  assumes "\<And>c. message_cmd m = Some c \<Longrightarrow> admitted c"
  shows "R s (dispatch_message E h m s)"
  using assms
  by (cases m) (auto simp: on_said_def R_record_and_maybe_settle R_on_queued R_on_answered R_on_trusted R_on_cancel_asked
      R_on_undelivered R_on_offer_lapsed split: option.splits)

lemma R_handle_next:
  assumes "handle_next E h s = Some s'" "hand_at s h = Some t" "t_inbox t = m # ms"
    and "\<And>c. message_cmd m = Some c \<Longrightarrow> admitted c"
  shows "R s s'"
proof -
  have "s' = leave_if_idle h (advance E h (dispatch_message E h m (upd_hand h (\<lambda>t. t\<lparr>t_inbox := ms\<rparr>) s)))"
    using assms(1-3) by (simp add: handle_next_def on_message_def split: if_splits)
  moreover have "upd_hand h (\<lambda>t. t\<lparr>t_inbox := ms\<rparr>) s = upd_hand h (\<lambda>t. t\<lparr>t_inbox := tl (t_inbox t)\<rparr>) s"
    using assms(2,3) by (simp add: upd_hand_def)
  ultimately show ?thesis
    using R_trans [OF R_trans [OF R_trans [OF R_read R_dispatch [OF assms(4)]] R_advance] R_leave] by simp
qed

end

text \<open>A relation that any message in an inbox keeps holds across every door, and across every step.\<close>

locale door_relation = loose_relation +
  assumes R_put_inbox: "R s (put_inbox h m s)"
begin

lemma R_post: "R s (snd (post r m s))"
  by (auto simp: post_def R_put_inbox split: option.splits)

lemma R_doors:
  "R s (snd (answer_offer r v k s))" "R s (snd (report_event r e k s))" "R s (snd (finish_stream r k s))"
  "R s (snd (note_undelivered r s))" "R s (snd (request_cancel r s))" "R s (snd (push r c s))"
  by (auto simp: push_def answer_offer_def report_event_def finish_stream_def note_undelivered_def request_cancel_def
      tame_def R_post intro!: R_trans [OF R_upd_run R_post])

lemma R_sweep_pass: "R s (sweep_pass n s)"
proof -
  have "R s (snd (expire_queued n s))" by (auto simp: expire_queued_def Let_def intro!: R_fold R_push)
  then show ?thesis unfolding sweep_pass_def by (intro R_trans [OF _ R_poke(1)] R_trans [OF _ R_flags(1)])
qed

lemma R_subscribe: "R s (snd (subscribe r s))"
  by (auto simp: subscribe_def tame_def intro!: R_upd_run split: option.splits)

lemma R_drain_step:
  assumes "drain_step r s = Some (e, s')"
  shows "R s s'"
proof -
  obtain run x rest where run: "run_at s r = Some run" "r_out_queue run = x # rest"
    using assms by (auto simp: drain_step_def split: option.splits list.splits)
  have "s' = upd_run r (\<lambda>y. y\<lparr>r_out_queue := tl (r_out_queue y),
      r_stream_open := (if x = END_OF_STREAM then False else r_stream_open y)\<rparr>) s"
    using assms run by (cases x) (auto simp: drain_step_def upd_run_def)
  moreover have "R s \<dots>" by (rule R_upd_loose) (auto simp: loose_def dest: set_tl_subset [THEN subsetD])
  ultimately show ?thesis by simp
qed

text \<open>
  Across any step: the relation holds, or a provider registered, or a run was queued, or a handler
  read a message that carries a command not admitted.
\<close>

lemma R_step:
  assumes "broker_step E s s'"
  obtains mapping where "s' = register_provider mapping s"
  | r a x input seq adr where "run_at s r = None" "enqueue_run r a x input seq adr s = Some s'"
  | h t m ms c where "hand_at s h = Some t" "t_inbox t = m # ms" "message_cmd m = Some c" "\<not> admitted c"
      "handle_next E h s = Some s'"
  | "R s s'"
  using assms
proof cases
  case (step_handle h)
  then obtain t m ms where "hand_at s h = Some t" "t_inbox t = m # ms"
    by (auto simp: handle_next_def split: option.splits if_splits list.splits)
  then show ?thesis using that(3,4) R_handle_next [OF step_handle] step_handle by blast
next
  case step_start
  then show ?thesis using that(4) R_same [of s' s] by (simp add: start_broker_def)
next
  case step_stop
  then show ?thesis using that(4) R_same [of s' s] by (simp add: stop_broker_def)
next
  case (step_drain r e)
  then show ?thesis using that(4) R_drain_step by blast
next
  case (step_register mapping)
  then show ?thesis using that(1) by blast
next
  case (step_enqueue r a x input seq adr)
  then show ?thesis using that(2) by blast
qed (use that(4) in \<open>simp_all add: R_doors R_put_inbox R_unregister_provider R_sweep_pass R_subscribe R_flags\<close>)

end

section \<open>In-flight counts\<close>

text \<open>The declared capacity of every provider stays, and a count that grew is within it.\<close>

definition incap_at :: "key \<Rightarrow> 'w broker \<Rightarrow> 'w broker \<Rightarrow> bool" where
  "incap_at k s s' \<longleftrightarrow>
     p_declared (provider k s') = p_declared (provider k s) \<and>
     (p_in_flight (provider k s') \<le> p_in_flight (provider k s) \<or>
      (\<forall>d. p_declared (provider k s) = Some d \<longrightarrow> int (p_in_flight (provider k s')) \<le> d))"

definition incap :: "'w broker \<Rightarrow> 'w broker \<Rightarrow> bool" where
  "incap s s' \<longleftrightarrow> (\<forall>k. incap_at k s s')"

lemma incap_refl [simp]: "incap s s"
  by (simp add: incap_def incap_at_def)

lemma incap_trans [trans]:
  assumes "incap s s'" "incap s' s''"
  shows "incap s s''"
  unfolding incap_def
proof
  fix k
  have "incap_at k s s'" "incap_at k s' s''" using assms by (simp_all add: incap_def)
  then show "incap_at k s s''" unfolding incap_at_def by (auto intro: order_trans)
qed

lemma incap_same: "b_providers s' = b_providers s \<Longrightarrow> incap s s'"
  by (simp add: incap_def incap_at_def provider_def)

lemma incap_upd_provider:
  "(\<And>p. p_declared (f p) = p_declared p \<and> p_in_flight (f p) \<le> p_in_flight p) \<Longrightarrow> incap s (upd_provider k f s)"
  by (simp add: incap_def incap_at_def provider_upd_provider)

lemma incap_seat:
  assumes "has_room (provider (c_public_key c) s)"
  shows "incap s (seat r c i n s)"
  unfolding incap_def
proof
  fix k
  show "incap_at k s (seat r c i n s)"
    using assms by (auto simp: incap_at_def seat_def provider_upd_provider provider_def has_room_def split: option.splits)
qed

lemma incap_record_cmd: "incap s (record_cmd E r c s)"
  by (auto simp: record_cmd_def incap_same split: option.splits)

interpretation cap: door_relation incap E "\<lambda>_. True" for E
proof
  show "incap s s''" if "incap s s'" "incap s' s''" for s s' s'' :: "'a broker" using that by (rule incap_trans)
qed (simp_all add: incap_same incap_upd_provider incap_seat incap_record_cmd)

text \<open>Registering changes what a provider declares, and no count.\<close>

lemma in_flight_register_one: "p_in_flight (provider k (register_one m s)) = p_in_flight (provider k s)"
  by (auto simp: register_one_def Let_def provider_def upd_provider_def split: prod.splits option.splits)

lemma providers_poke_agent: "b_providers (poke_agent a s) = b_providers s"
proof -
  have "b_providers (fold (\<lambda>h. put_inbox h MPoke) hs s) = b_providers s" for hs
    by (induction hs arbitrary: s) simp_all
  then show ?thesis by (simp add: poke_agent_def)
qed

lemma in_flight_register: "p_in_flight (provider k (register_provider mapping s)) = p_in_flight (provider k s)"
proof -
  have "p_in_flight (provider k (fold register_one mapping s)) = p_in_flight (provider k s)"
    by (induction mapping arbitrary: s) (simp_all add: in_flight_register_one)
  moreover have "b_providers (fold poke_agent refs s) = b_providers s" for refs and s :: "'a broker"
    by (induction refs arbitrary: s) (simp_all add: providers_poke_agent)
  ultimately show ?thesis by (simp add: register_provider_def provider_def)
qed

definition growth_ok :: "'w broker \<Rightarrow> 'w broker \<Rightarrow> bool" where
  "growth_ok s s' \<longleftrightarrow>
     (\<forall>k. p_in_flight (provider k s') \<le> p_in_flight (provider k s) \<or>
      (\<forall>d. p_declared (provider k s') = Some d \<longrightarrow> int (p_in_flight (provider k s')) \<le> d))"

lemma incap_growth: "incap s s' \<Longrightarrow> growth_ok s s'"
  unfolding incap_def incap_at_def growth_ok_def by metis

lemma step_growth_ok:
  assumes "broker_step E s s'"
  shows "growth_ok s s'"
  using assms
proof (cases rule: cap.R_step)
  case (1 mapping)
  then show ?thesis by (simp add: growth_ok_def in_flight_register)
next
  case (2 r a x input seq adr)
  then have "b_providers s' = b_providers s"
    by (auto simp: enqueue_run_def thread_handler_for_def Let_def split: if_splits option.splits prod.splits)
  then show ?thesis by (intro incap_growth incap_same)
qed (auto intro: incap_growth)

end
