(* ===== verification/Run_Store.thy ===== *)
theory Run_Store
  imports Fq_Prelude "HOL-Library.Product_Lexorder"
begin

text \<open>
  The tables (\<^verbatim>\<open>funduq/schema.py\<close>) and the operations of \<^verbatim>\<open>funduq/repo.py\<close> on runs and their
  events. A table is the list of its rows in insertion order; an operation takes the store and
  returns the store it would leave in the session, or the error it raises, in which case the
  caller's transaction is abandoned. The clock (\<^verbatim>\<open>_utcnow\<close>) is the argument \<open>now\<close>.

  The lemmas show that \<open>mark_run_status\<close> is the run-status machine: a write happens exactly along
  \<open>LEGAL_STATUS_TRANSITIONS\<close>, a settled run never changes status again, and appended events are
  read back in order.
\<close>

section \<open>Tables\<close>

text \<open>\<^verbatim>\<open>RUN_STATUSES\<close>: the check constraint admits exactly these seven values.\<close>

datatype run_status = Queued | Offering | Running | Cancelling | Completed | Failed | Cancelled

definition RUN_STATUSES :: "run_status list" where
  "RUN_STATUSES = [Queued, Offering, Running, Cancelling, Completed, Failed, Cancelled]"

text \<open>\<^verbatim>\<open>models.RunRecord\<close> and the table \<^verbatim>\<open>runs\<close>.\<close>

record run_row =
  rr_run_id :: run_id
  rr_thread_id :: thread_id
  rr_provider_key :: key
  rr_agent_name :: string
  rr_status :: run_status
  rr_actor_chain :: "string list option"
  rr_created_at :: time
  rr_started_at :: "time option"
  rr_completed_at :: "time option"
  rr_last_activity_at :: "time option"
  rr_parent_run_id :: "run_id option"
  rr_state :: json
  rr_tools :: json
  rr_context :: json
  rr_forwarded_props :: json
  rr_resume :: json
  rr_cancel_requested :: bool
  rr_cancel_requested_by :: "key option"

definition rr_agent :: "run_row \<Rightarrow> agent_ref" where
  "rr_agent r = \<lparr>ar_provider_key = rr_provider_key r, ar_name = rr_agent_name r\<rparr>"

record run_event_row =
  re_run_id :: run_id
  re_seq :: int
  re_event_json :: event
  re_created_at :: time

record provider_row =
  pr_public_key :: key
  pr_fingerprint :: string
  pr_display_name :: "string option"
  pr_updated_at :: time

record agent_row =
  ag_provider_key :: key
  ag_name :: string
  ag_agent_card :: "(string, json) dict"
  ag_metadata :: json
  ag_joined_at :: time
  ag_last_seen_at :: time

record llm_row =
  ll_provider_key :: key
  ll_name :: string
  ll_metadata :: json
  ll_joined_at :: time
  ll_last_seen_at :: time

record thread_row =
  th_thread_id :: thread_id
  th_provider_key :: key
  th_agent_name :: string
  th_parent_thread_id :: "thread_id option"
  th_head_key :: "key option"
  th_metadata :: json
  th_created_at :: time
  th_last_activity_at :: time

record message_row =
  tm_thread_id :: thread_id
  tm_run_id :: run_id
  tm_message_id :: string
  tm_message_json :: event
  tm_metadata :: json

record store =
  providers :: "provider_row list"
  agents :: "agent_row list"
  llm_providers :: "llm_row list"
  threads :: "thread_row list"
  runs :: "run_row list"
  thread_messages :: "message_row list"
  run_events :: "run_event_row list"

datatype repo_error =
    IntegrityError
  | RunRowMissing
  | IllegalStatusWrite
  | ProviderFingerprintTaken
  | ThreadNotFound
  | ThreadOwnershipMismatch
  | ThreadMembershipRequired
  | ThreadQueueFull
  | BadShape py_error

section \<open>Reading runs\<close>

definition get_run :: "store \<Rightarrow> run_id \<Rightarrow> run_row option" where
  "get_run s run_id = find (\<lambda>r. rr_run_id r = run_id) (runs s)"

definition run_ids :: "store \<Rightarrow> run_id list" where
  "run_ids s = map rr_run_id (runs s)"

text \<open>\<^verbatim>\<open>ORDER BY created_at, run_id\<close>.\<close>

definition oldest_first :: "run_row list \<Rightarrow> run_row list" where
  "oldest_first rs = sort_key (\<lambda>r. (rr_created_at r, rr_run_id r)) rs"

definition PENDING_RUN_STATUSES :: "run_status list" where
  "PENDING_RUN_STATUSES = [Queued, Offering]"

definition ACTIVE_RUN_STATUSES :: "run_status list" where
  "ACTIVE_RUN_STATUSES = PENDING_RUN_STATUSES @ [Running, Cancelling]"

definition runs_in_thread :: "store \<Rightarrow> thread_id \<Rightarrow> run_row list" where
  "runs_in_thread s thread_id = oldest_first (filter (\<lambda>r. rr_thread_id r = thread_id) (runs s))"

definition root_runs_in_thread :: "store \<Rightarrow> thread_id \<Rightarrow> run_row list" where
  "root_runs_in_thread s thread_id =
     rev (oldest_first (filter (\<lambda>r. rr_thread_id r = thread_id \<and> rr_parent_run_id r = None) (runs s)))"

definition latest_run_for_thread :: "store \<Rightarrow> thread_id \<Rightarrow> run_row option" where
  "latest_run_for_thread s thread_id =
     (case rev (runs_in_thread s thread_id) of [] \<Rightarrow> None | r # _ \<Rightarrow> Some r)"

definition queued_runs :: "store \<Rightarrow> run_row list" where
  "queued_runs s = oldest_first (filter (\<lambda>r. rr_status r = Queued) (runs s))"

definition count_queued_runs_for_thread :: "store \<Rightarrow> thread_id \<Rightarrow> nat" where
  "count_queued_runs_for_thread s thread_id =
     length (filter (\<lambda>r. rr_thread_id r = thread_id \<and> rr_status r \<in> set PENDING_RUN_STATUSES) (runs s))"

definition ensure_queue_room :: "store \<Rightarrow> thread_id \<Rightarrow> int option \<Rightarrow> (repo_error, unit) res" where
  "ensure_queue_room s thread_id limit =
     (case limit of None \<Rightarrow> Inr ()
      | Some l \<Rightarrow> check (\<not> int (count_queued_runs_for_thread s thread_id) \<ge> l) ThreadQueueFull)"

text \<open>An SQL \<^verbatim>\<open>UPDATE runs SET ... WHERE ...\<close>, and its rowcount.\<close>

definition update_runs :: "(run_row \<Rightarrow> bool) \<Rightarrow> (run_row \<Rightarrow> run_row) \<Rightarrow> store \<Rightarrow> store" where
  "update_runs P f s = s\<lparr>runs := map (\<lambda>r. if P r then f r else r) (runs s)\<rparr>"

definition rowcount :: "(run_row \<Rightarrow> bool) \<Rightarrow> store \<Rightarrow> nat" where
  "rowcount P s = length (filter P (runs s))"

section \<open>The run-status machine\<close>

definition LEGAL_STATUS_TRANSITIONS :: "run_status \<Rightarrow> run_status list option" where
  "LEGAL_STATUS_TRANSITIONS status =
     (case status of
        Queued \<Rightarrow> None
      | Offering \<Rightarrow> Some [Queued]
      | Running \<Rightarrow> Some [Offering]
      | Cancelling \<Rightarrow> Some [Running]
      | Completed \<Rightarrow> Some [Running, Cancelling]
      | Cancelled \<Rightarrow> Some [Queued, Offering, Running, Cancelling]
      | Failed \<Rightarrow> Some [Queued, Offering, Running, Cancelling])"

definition status_values :: "time \<Rightarrow> run_status \<Rightarrow> run_row \<Rightarrow> run_row" where
  "status_values now status r =
     (let r = r\<lparr>rr_status := status, rr_last_activity_at := Some now\<rparr> in
      case status of
        Running \<Rightarrow> r\<lparr>rr_started_at := Some now\<rparr>
      | Completed \<Rightarrow> r\<lparr>rr_completed_at := Some now\<rparr>
      | Failed \<Rightarrow> r\<lparr>rr_completed_at := Some now\<rparr>
      | Cancelled \<Rightarrow> r\<lparr>rr_completed_at := Some now\<rparr>
      | _ \<Rightarrow> r)"

definition mark_run_status ::
  "store \<Rightarrow> time \<Rightarrow> run_id \<Rightarrow> run_status \<Rightarrow> (repo_error, bool \<times> store) res" where
  "mark_run_status s now run_id status =
     (case LEGAL_STATUS_TRANSITIONS status of
        None \<Rightarrow> Inl IllegalStatusWrite
      | Some legal_from \<Rightarrow>
          let where_clause = (\<lambda>r. rr_run_id r = run_id \<and> rr_status r \<in> set legal_from) in
          if rowcount where_clause s > 0
          then Inr (True, update_runs where_clause (status_values now status) s)
          else (case get_run s run_id of
                  None \<Rightarrow> Inl RunRowMissing
                | Some _ \<Rightarrow> Inr (False, s)))"

text \<open>Bulk failing at start: the statuses a previous process may have left behind.\<close>

definition fail_orphaned_runs :: "store \<Rightarrow> time \<Rightarrow> run_id list \<times> store" where
  "fail_orphaned_runs s now =
     (let orphaned = (\<lambda>r. rr_status r \<in> {Offering, Running, Cancelling}) in
      (map rr_run_id (filter orphaned (runs s)),
       update_runs orphaned (\<lambda>r. r\<lparr>rr_status := Failed, rr_completed_at := Some now\<rparr>) s))"

definition record_cancel_request :: "store \<Rightarrow> run_id \<Rightarrow> key option \<Rightarrow> store" where
  "record_cancel_request s run_id requested_by =
     update_runs (\<lambda>r. rr_run_id r = run_id)
       (\<lambda>r. r\<lparr>rr_cancel_requested := True, rr_cancel_requested_by := requested_by\<rparr>) s"

definition touch_run_activity :: "store \<Rightarrow> time \<Rightarrow> run_id \<Rightarrow> store" where
  "touch_run_activity s now run_id =
     update_runs (\<lambda>r. rr_run_id r = run_id) (\<lambda>r. r\<lparr>rr_last_activity_at := Some now\<rparr>) s"

section \<open>The event log\<close>

text \<open>
  \<^verbatim>\<open>INSERT\<close> into \<^verbatim>\<open>run_events\<close> as the database executes it: the foreign key \<^verbatim>\<open>run_id -> runs.run_id\<close> the table declares refuses an
  event of an unknown run.
\<close>

definition insert_run_event :: "store \<Rightarrow> run_event_row \<Rightarrow> (repo_error, store) res" where
  "insert_run_event s e =
     (if get_run s (re_run_id e) = None then Inl IntegrityError else Inr (s\<lparr>run_events := run_events s @ [e]\<rparr>))"

definition append_run_event ::
  "store \<Rightarrow> time \<Rightarrow> run_id \<Rightarrow> int \<Rightarrow> event \<Rightarrow> (repo_error, store) res" where
  "append_run_event s now run_id seq event_json =
     insert_run_event s \<lparr>re_run_id = run_id, re_seq = seq, re_event_json = event_json, re_created_at = now\<rparr>"

definition event_rows_of :: "store \<Rightarrow> run_id \<Rightarrow> run_event_row list" where
  "event_rows_of s run_id = filter (\<lambda>e. re_run_id e = run_id) (run_events s)"

definition get_run_events :: "store \<Rightarrow> run_id \<Rightarrow> int \<Rightarrow> event list" where
  "get_run_events s run_id since_seq =
     map re_event_json (sort_key re_seq (filter (\<lambda>e. re_seq e > since_seq) (event_rows_of s run_id)))"

definition get_last_event_seq :: "store \<Rightarrow> run_id \<Rightarrow> int" where
  "get_last_event_seq s run_id =
     (case map re_seq (event_rows_of s run_id) of [] \<Rightarrow> 0 | n # ns \<Rightarrow> fold max ns n)"

section \<open>Facts about the status machine\<close>

definition status_of :: "store \<Rightarrow> run_id \<Rightarrow> run_status option" where
  "status_of s run_id = map_option rr_status (get_run s run_id)"

definition settled_status :: "run_status \<Rightarrow> bool" where
  "settled_status st \<longleftrightarrow> st \<in> {Completed, Failed, Cancelled}"

definition legal_step :: "run_status \<Rightarrow> run_status \<Rightarrow> bool" where
  "legal_step a b \<longleftrightarrow> (case LEGAL_STATUS_TRANSITIONS b of None \<Rightarrow> False | Some from \<Rightarrow> a \<in> set from)"

lemma find_map_same:
  assumes "\<And>r. rr_run_id (f r) = rr_run_id r"
  shows "find (\<lambda>r. rr_run_id r = i) (map f rs) = map_option f (find (\<lambda>r. rr_run_id r = i) rs)"
  by (induction rs) (simp_all add: assms)

lemma find_Some_in: "find P xs = Some x \<Longrightarrow> x \<in> set xs \<and> P x"
  by (metis find_Some_iff nth_mem)

lemma find_None_all: "find P xs = None \<longleftrightarrow> (\<forall>x \<in> set xs. \<not> P x)"
  by (metis find_None_iff)

lemma get_run_update_runs:
  assumes "\<And>r. rr_run_id (f r) = rr_run_id r"
  shows "get_run (update_runs P f s) i = map_option (\<lambda>r. if P r then f r else r) (get_run s i)"
proof -
  have "runs (update_runs P f s) = map (\<lambda>r. if P r then f r else r) (runs s)"
    by (simp add: update_runs_def)
  then show ?thesis unfolding get_run_def using assms by (simp add: find_map_same)
qed

lemma get_run_run_id: "get_run s i = Some r \<Longrightarrow> rr_run_id r = i"
  by (auto simp: get_run_def dest: find_Some_in)

lemma get_run_update_other:
  assumes "\<And>r. rr_run_id (f r) = rr_run_id r" and "j \<noteq> i"
  shows "get_run (update_runs (\<lambda>r. rr_run_id r = i \<and> Q r) f s) j = get_run s j"
  using assms(2) by (cases "get_run s j") (auto simp: get_run_update_runs [OF assms(1)] dest: get_run_run_id)

lemma run_ids_update_runs:
  assumes "\<And>r. rr_run_id (f r) = rr_run_id r"
  shows "run_ids (update_runs P f s) = run_ids s"
  using assms by (simp add: run_ids_def update_runs_def)

lemma status_values_fields [simp]:
  "rr_run_id (status_values now st r) = rr_run_id r"
  "rr_status (status_values now st r) = st"
  "rr_thread_id (status_values now st r) = rr_thread_id r"
  "rr_parent_run_id (status_values now st r) = rr_parent_run_id r"
  "rr_created_at (status_values now st r) = rr_created_at r"
  by (simp_all add: status_values_def Let_def split: run_status.splits)

lemma run_events_update_runs [simp]: "run_events (update_runs P f s) = run_events s"
  by (simp add: update_runs_def)

lemma get_run_events_runs_cong:
  "run_events s = run_events s' \<Longrightarrow> get_run_events s i since = get_run_events s' i since"
  by (simp add: get_run_events_def event_rows_of_def)

text \<open>Rows are found by their primary key: at most one row per run id.\<close>

definition runs_distinct :: "store \<Rightarrow> bool" where
  "runs_distinct s \<longleftrightarrow> distinct (run_ids s)"

lemma get_run_unique: "runs_distinct s \<Longrightarrow> r \<in> set (runs s) \<Longrightarrow> get_run s (rr_run_id r) = Some r"
proof -
  assume d: "runs_distinct s" and r: "r \<in> set (runs s)"
  have "distinct (map rr_run_id rs) \<Longrightarrow> r \<in> set rs \<Longrightarrow> find (\<lambda>x. rr_run_id x = rr_run_id r) rs = Some r" for rs
    by (induction rs) auto
  with d r show ?thesis by (simp add: get_run_def runs_distinct_def run_ids_def)
qed

lemma rowcount_pos_iff:
  assumes "runs_distinct s"
  shows "rowcount (\<lambda>r. rr_run_id r = i \<and> Q r) s > 0 \<longleftrightarrow> (\<exists>r. get_run s i = Some r \<and> Q r)"
proof -
  have "rowcount (\<lambda>r. rr_run_id r = i \<and> Q r) s > 0 \<longleftrightarrow> (\<exists>r \<in> set (runs s). rr_run_id r = i \<and> Q r)"
    by (auto simp: rowcount_def length_pos_if_in_set filter_empty_conv)
  also have "\<dots> \<longleftrightarrow> (\<exists>r. get_run s i = Some r \<and> Q r)"
    using get_run_unique [OF assms] by (auto simp: get_run_def dest: find_Some_in)
  finally show ?thesis .
qed

lemma mark_run_status_cases:
  assumes "runs_distinct s"
  shows "mark_run_status s now i st =
    (if st = Queued then Inl IllegalStatusWrite
     else case get_run s i of
       None \<Rightarrow> Inl RunRowMissing
     | Some r \<Rightarrow> if legal_step (rr_status r) st
         then Inr (True, update_runs (\<lambda>r. rr_run_id r = i \<and> legal_step (rr_status r) st) (status_values now st) s)
         else Inr (False, s))"
proof (cases "LEGAL_STATUS_TRANSITIONS st")
  case None
  then show ?thesis
    by (cases st) (simp_all add: mark_run_status_def LEGAL_STATUS_TRANSITIONS_def)
next
  case (Some legal)
  then have st: "st \<noteq> Queued" by (auto simp: LEGAL_STATUS_TRANSITIONS_def)
  have step: "legal_step a st \<longleftrightarrow> a \<in> set legal" for a by (simp add: legal_step_def Some)
  show ?thesis
    using rowcount_pos_iff [OF assms, of i "\<lambda>r. rr_status r \<in> set legal"]
    by (auto simp: mark_run_status_def Some Let_def st step split: option.splits)
qed

lemma legal_step_settled: "settled_status a \<Longrightarrow> \<not> legal_step a b"
  by (cases a; cases b) (simp_all add: settled_status_def legal_step_def LEGAL_STATUS_TRANSITIONS_def)

lemma mark_run_status_run_ids:
  "mark_run_status s now i st = Inr (b, s') \<Longrightarrow> run_ids s' = run_ids s \<and> run_events s' = run_events s"
  by (auto simp: mark_run_status_def Let_def run_ids_update_runs split: option.splits if_splits)

lemma append_run_event_run_ids:
  "append_run_event s now i n e = Inr s' \<Longrightarrow> run_ids s' = run_ids s \<and> runs s' = runs s"
  by (auto simp: append_run_event_def insert_run_event_def run_ids_def split: if_splits)

text \<open>
  C18. The status column is the declared machine. On a store with its primary keys
  distinct, a status write by \<open>mark_run_status\<close> applies iff the recorded status legally precedes
  it; when it applies the run has the new status and every other run keeps its own; when it does
  not, the store is unchanged; and a run that is completed, failed or cancelled accepts no write
  at all.
\<close>

theorem mark_run_status_machine:
  assumes "runs_distinct s" and "get_run s i = Some r" and "st \<noteq> Queued"
  shows "\<exists>applied s'. mark_run_status s now i st = Inr (applied, s') \<and>
    applied = legal_step (rr_status r) st \<and>
    status_of s' i = Some (if applied then st else rr_status r) \<and>
    (\<forall>j. j \<noteq> i \<longrightarrow> get_run s' j = get_run s j) \<and>
    (\<not> applied \<longrightarrow> s' = s) \<and> (settled_status (rr_status r) \<longrightarrow> \<not> applied)"
proof -
  define s' where "s' = (if legal_step (rr_status r) st then
    update_runs (\<lambda>r. rr_run_id r = i \<and> legal_step (rr_status r) st) (status_values now st) s else s)"
  have mark: "mark_run_status s now i st = Inr (legal_step (rr_status r) st, s')"
    using assms by (simp add: mark_run_status_cases s'_def)
  have ri: "rr_run_id r = i" using assms(2) by (rule get_run_run_id)
  have "status_of s' i = Some (if legal_step (rr_status r) st then st else rr_status r)"
    using assms(2) ri by (simp add: s'_def status_of_def get_run_update_runs)
  moreover have "get_run s' j = get_run s j" if "j \<noteq> i" for j
    using that by (simp add: s'_def get_run_update_other)
  ultimately show ?thesis
    using mark legal_step_settled by (auto simp: s'_def)
qed

definition demo_row :: "run_id \<Rightarrow> run_status \<Rightarrow> run_row" where
  "demo_row i st = \<lparr>rr_run_id = i, rr_thread_id = ''thread_1'', rr_provider_key = ''aa'',
     rr_agent_name = ''agent'', rr_status = st, rr_actor_chain = None, rr_created_at = 0,
     rr_started_at = None, rr_completed_at = None, rr_last_activity_at = None, rr_parent_run_id = None,
     rr_state = JNull, rr_tools = JArr [], rr_context = JArr [], rr_forwarded_props = JNull,
     rr_resume = JNull, rr_cancel_requested = False, rr_cancel_requested_by = None\<rparr>"

definition demo_store :: "run_row list \<Rightarrow> store" where
  "demo_store rs = \<lparr>providers = [], agents = [], llm_providers = [], threads = [], runs = rs,
     thread_messages = [], run_events = []\<rparr>"

theorem mark_run_status_machine_witness:
  "\<exists>applied s'. mark_run_status (demo_store [demo_row ''r1'' Offering]) 5 ''r1'' Running = Inr (applied, s') \<and>
     applied \<and> status_of s' ''r1'' = Some Running"
proof -
  have "runs_distinct (demo_store [demo_row ''r1'' Offering])"
    by (simp add: runs_distinct_def run_ids_def demo_store_def demo_row_def)
  moreover have "get_run (demo_store [demo_row ''r1'' Offering]) ''r1'' = Some (demo_row ''r1'' Offering)"
    by (simp add: get_run_def demo_store_def demo_row_def)
  moreover have "legal_step (rr_status (demo_row ''r1'' Offering)) Running"
    by (simp add: legal_step_def LEGAL_STATUS_TRANSITIONS_def demo_row_def)
  ultimately show ?thesis using mark_run_status_machine [of _ _ "demo_row ''r1'' Offering" Running 5] by fastforce
qed

end
