(* ===== verification/Handlers.thy ===== *)
theory Handlers
  imports Broker_Reach Run_Store
begin

text \<open>
  The record handlers (\<^verbatim>\<open>funduq/handlers.py\<close>) and \<^verbatim>\<open>Funduq.mark_run_status\<close> of
  \<^verbatim>\<open>funduq/core.py\<close>: what the dispatcher's commands do to the database, to a run's stream and to
  the change subscribers.

  The world is the committed database, the clock, the notifications sent and the stop requests
  handed to providers. A handler that raises is cut short by \<^verbatim>\<open>RunBroker._record\<close>, which logs
  and goes on: what it did to the run object until then stays, what its session held is rolled back.

  AG-UI's own event models come from a package: the set of its type names, its validation and the
  dump of its \<^verbatim>\<open>RunErrorEvent\<close> are the fields of \<open>event_lib\<close>.
\<close>

record event_lib =
  el_known_types :: "string list"
  el_valid :: "json \<Rightarrow> bool"
  el_run_error :: "string \<Rightarrow> string option \<Rightarrow> event"
  el_input_error :: "json \<Rightarrow> string option"

record world =
  w_store :: store
  w_now :: time
  w_changes :: "(run_id \<times> run_status) list"
  w_asked :: "(conn \<times> run_id) list"

section \<open>Status writes\<close>

text \<open>\<^verbatim>\<open>Funduq.mark_run_status\<close> on a session holding \<open>st\<close>: write, commit, then notify.\<close>

definition commit_status :: "world \<Rightarrow> store \<Rightarrow> run_id \<Rightarrow> run_status \<Rightarrow> (repo_error, world) res" where
  "commit_status w st run_id status =
     rbind (mark_run_status st (w_now w) run_id status) (\<lambda>(applied, st').
       Inr (w\<lparr>w_store := st',
              w_changes := (if applied then w_changes w @ [(run_id, status)] else w_changes w)\<rparr>))"

text \<open>A handler's last act, with the run object as it stands when the session may raise.\<close>

definition kept :: "brun \<Rightarrow> world \<Rightarrow> (repo_error, brun \<times> world) res \<Rightarrow> brun \<times> world" where
  "kept run w m = (case m of Inl _ \<Rightarrow> (run, w) | Inr x \<Rightarrow> x)"

definition put_out :: "event \<Rightarrow> brun \<Rightarrow> brun" where
  "put_out e run = run\<lparr>r_out_queue := r_out_queue run @ [Item e]\<rparr>"

section \<open>The handlers\<close>

definition handle_offer :: "brun \<Rightarrow> world \<Rightarrow> brun \<times> world" where
  "handle_offer run w =
     kept run w (rbind (commit_status w (w_store w) (r_run_id run) Offering) (\<lambda>w'. Inr (run, w')))"

definition handle_claim :: "brun \<Rightarrow> world \<Rightarrow> brun \<times> world" where
  "handle_claim run w =
     kept run w (rbind (commit_status w (w_store w) (r_run_id run) Running) (\<lambda>w'. Inr (run, w')))"

definition type_tag :: "json \<Rightarrow> json" where
  "type_tag ev = (if jis_dict ev then jget ''type'' ev else JNull)"

definition must_validate :: "event_lib \<Rightarrow> json \<Rightarrow> bool" where
  "must_validate L ev = (case type_tag ev of JStr t \<Rightarrow> t \<in> set (el_known_types L) | _ \<Rightarrow> True)"

text \<open>The accepted event: the outcome flags, the record, the stream, in this order.\<close>

definition relay_accepted :: "event \<Rightarrow> brun \<Rightarrow> world \<Rightarrow> brun \<times> world" where
  "relay_accepted e run w =
     (let run = (if event_type e = JStr ''RUN_FINISHED'' then run\<lparr>r_saw_run_finished := True\<rparr>
                 else if event_type e = JStr ''RUN_ERROR'' then run\<lparr>r_saw_run_error := True\<rparr> else run);
          run = run\<lparr>r_seq := r_seq run + 1\<rparr>
      in kept run w
           (rbind (append_run_event (w_store w) (w_now w) (r_run_id run) (r_seq run) e) (\<lambda>st.
              Inr (put_out e run, w\<lparr>w_store := touch_run_activity st (w_now w) (r_run_id run)\<rparr>))))"

definition handle_relay :: "event_lib \<Rightarrow> json \<Rightarrow> brun \<Rightarrow> world \<Rightarrow> brun \<times> world" where
  "handle_relay L ev run w =
     (if must_validate L ev \<and> \<not> el_valid L ev
      then (run\<lparr>r_poison := Some ''provider sent a malformed AG-UI event''\<rparr>, w)
      else (case ev of JObj e \<Rightarrow> relay_accepted e run w | _ \<Rightarrow> (run, w)))"

definition finish_status :: "brun \<Rightarrow> run_status" where
  "finish_status run =
     (if r_saw_run_finished run then Completed
      else if r_cancel_requested run then Cancelled else Failed)"

definition handle_finish :: "event_lib \<Rightarrow> brun \<Rightarrow> world \<Rightarrow> brun \<times> world" where
  "handle_finish L run w =
     (let status = finish_status run in
      if status = Failed \<and> \<not> r_saw_run_error run
      then
        let e = el_run_error L ''the agent's stream ended without finishing''
                  (Some ''provider_stream_ended_without_finishing'');
            run = run\<lparr>r_seq := r_seq run + 1\<rparr>
        in kept run w
             (rbind (append_run_event (w_store w) (w_now w) (r_run_id run) (r_seq run) e) (\<lambda>st.
              rbind (commit_status w st (r_run_id run) status) (\<lambda>w'. Inr (put_out e run, w'))))
      else kept run w (rbind (commit_status w (w_store w) (r_run_id run) status) (\<lambda>w'. Inr (run, w'))))"

definition handle_cancel :: "brun \<Rightarrow> world \<Rightarrow> brun \<times> world" where
  "handle_cancel run w =
     (if r_claimed_by run = None
      then kept run w (rbind (commit_status w (w_store w) (r_run_id run) Cancelled) (\<lambda>w'. Inr (run, w')))
      else kept run w
        (rbind (commit_status w (w_store w) (r_run_id run) Cancelling) (\<lambda>w'.
           Inr (run, (case r_cancel_notify run of
                        None \<Rightarrow> w'
                      | Some c \<Rightarrow> w'\<lparr>w_asked := w_asked w' @ [(c, r_run_id run)]\<rparr>)))))"

definition handle_fail :: "event_lib \<Rightarrow> string \<Rightarrow> string option \<Rightarrow> brun \<Rightarrow> world \<Rightarrow> brun \<times> world" where
  "handle_fail L code msg run w =
     (let e = el_run_error L (case msg of None \<Rightarrow> code | Some m \<Rightarrow> if m = [] then code else m) (Some code);
          run = run\<lparr>r_seq := r_seq run + 1\<rparr>
      in kept run w
           (rbind (append_run_event (w_store w) (w_now w) (r_run_id run) (r_seq run) e) (\<lambda>st.
            rbind (commit_status w st (r_run_id run) Failed) (\<lambda>w'. Inr (put_out e run, w')))))"

fun handle_command :: "event_lib \<Rightarrow> command \<Rightarrow> brun \<Rightarrow> world \<Rightarrow> brun \<times> world" where
  "handle_command L Offer run w = handle_offer run w"
| "handle_command L Claim run w = handle_claim run w"
| "handle_command L (RelayEvent ev) run w = handle_relay L ev run w"
| "handle_command L FinishStream run w = handle_finish L run w"
| "handle_command L RequestCancel run w = handle_cancel run w"
| "handle_command L (Fail code msg) run w = handle_fail L code msg run w"

text \<open>\<^verbatim>\<open>make_handlers\<close>: every command has its handler.\<close>

definition make_handlers :: "event_lib \<Rightarrow> world broker_env" where
  "make_handlers L = \<lparr>env_record = (\<lambda>cmd run w. Some (handle_command L cmd run w)), env_input_error = el_input_error L\<rparr>"

text \<open>\<^verbatim>\<open>close_with_terminal_event\<close>: through the broker while it tracks the run, else by hand, once.\<close>

definition close_with_terminal_event ::
  "event_lib \<Rightarrow> run_id \<Rightarrow> string \<Rightarrow> world broker \<Rightarrow> (repo_error, world broker) res" where
  "close_with_terminal_event L run_id code s =
     (case push run_id (Fail code None) s of
        (True, s') \<Rightarrow> Inr s'
      | (False, _) \<Rightarrow>
          let w = b_world s; st = w_store w in
          if \<exists>e \<in> set (get_run_events st run_id 0). event_type e = JStr ''RUN_ERROR'' then Inr s
          else rbind (append_run_event st (w_now w) run_id (get_last_event_seq st run_id + 1)
                       (el_run_error L code (Some code)))
                 (\<lambda>st'. Inr (s\<lparr>b_world := w\<lparr>w_store := st'\<rparr>\<rparr>)))"

section \<open>They keep what the dispatcher decides by\<close>

lemma frame_run_bookkeeping [simp]:
  "frame_run x (x\<lparr>r_seq := n\<rparr>)" "frame_run x (x\<lparr>r_poison := p\<rparr>)"
  "frame_run x (x\<lparr>r_saw_run_finished := b\<rparr>)" "frame_run x (x\<lparr>r_saw_run_error := b\<rparr>)"
  by (simp_all add: frame_run_def)

lemma frame_run_put_out: "\<not> r_settled x \<Longrightarrow> frame_run x (put_out e x)"
  unfolding frame_run_def put_out_def by (auto intro!: exI [of _ "[e]"])

lemma frame_run_kept:
  assumes "kept run w m = (run', w')" "frame_run x run" "\<And>y v. m = Inr (y, v) \<Longrightarrow> frame_run x y"
  shows "frame_run x run'"
  using assms by (auto simp: kept_def split: sum.splits)

lemma relay_accepted_frame:
  assumes "relay_accepted e run w = (run', w')" "\<not> r_settled run"
  shows "frame_run run run'"
proof -
  define run1 where "run1 = (if event_type e = JStr ''RUN_FINISHED'' then run\<lparr>r_saw_run_finished := True\<rparr>
     else if event_type e = JStr ''RUN_ERROR'' then run\<lparr>r_saw_run_error := True\<rparr> else run)"
  define run2 where "run2 = run1\<lparr>r_seq := r_seq run1 + 1\<rparr>"
  have f: "frame_run run run2"
    by (rule frame_run_trans [of _ run1]) (simp_all add: run1_def run2_def)
  have "\<not> r_settled run2" using assms(2) by (simp add: run1_def run2_def)
  then have "frame_run run (put_out e run2)" using frame_run_trans [OF f frame_run_put_out] by blast
  then show ?thesis
    using assms(1) f unfolding relay_accepted_def Let_def run1_def [symmetric] run2_def [symmetric]
    by (elim frame_run_kept) (auto simp: rbind_Inr_iff)
qed

lemma handle_command_frame:
  assumes "handle_command L c run w = (run', w')" "\<not> r_settled run"
  shows "frame_run run run'"
proof -
  have out: "frame_run run (put_out e (run\<lparr>r_seq := n\<rparr>))" for e n
    by (rule frame_run_trans [OF frame_run_bookkeeping(1) frame_run_put_out]) (use assms in simp)
  note defs = handle_offer_def handle_claim_def handle_finish_def handle_cancel_def handle_fail_def Let_def
  show ?thesis
  proof (cases c)
    case (RelayEvent ev)
    then show ?thesis using assms relay_accepted_frame by (auto simp: handle_relay_def split: if_splits json.splits)
  qed (use assms(1) out in \<open>auto simp: defs rbind_Inr_iff split: if_splits elim!: frame_run_kept\<close>)
qed

interpretation fq: record_handlers "make_handlers L" for L
  by unfold_locales (auto simp: make_handlers_def intro: handle_command_frame)

section \<open>The stream is the record\<close>

lemma insort_key_snoc: "f y \<le> f x \<Longrightarrow> insort_key f y (zs @ [x]) = insort_key f y zs @ [x]"
  by (induction zs) auto

lemma sort_key_snoc: "\<forall>y \<in> set xs. f y \<le> f x \<Longrightarrow> sort_key f (xs @ [x]) = sort_key f xs @ [x]"
  by (induction xs) (simp_all add: insort_key_snoc)

definition seqs_below :: "store \<Rightarrow> brun \<Rightarrow> bool" where
  "seqs_below st run \<longleftrightarrow> 0 \<le> r_seq run \<and> (\<forall>row \<in> set (event_rows_of st (r_run_id run)). re_seq row \<le> r_seq run)"

text \<open>
  What a command adds to a run's stream and to its record: at most one event, the same in
  both, or in the record's failure nothing in either.
\<close>

definition recorded :: "brun \<Rightarrow> world \<Rightarrow> brun \<Rightarrow> world \<Rightarrow> bool" where
  "recorded run w run' w' \<longleftrightarrow> r_run_id run' = r_run_id run \<and> r_seq run \<le> r_seq run' \<and>
     (\<exists>es. r_out_queue run' = r_out_queue run @ map Item es \<and> length es \<le> 1 \<and>
        (\<exists>rows. event_rows_of (w_store w') (r_run_id run) = event_rows_of (w_store w) (r_run_id run) @ rows \<and>
           map re_event_json rows = es \<and> (\<forall>row \<in> set rows. re_seq row = r_seq run + 1 \<and> r_seq run' = r_seq run + 1)))"

lemma event_rows_cong: "run_events st' = run_events st \<Longrightarrow> event_rows_of st' r = event_rows_of st r"
  by (simp add: event_rows_of_def)

lemma commit_status_events: "commit_status w st r target = Inr w' \<Longrightarrow> run_events (w_store w') = run_events st"
  by (auto simp: commit_status_def rbind_Inr_iff dest: mark_run_status_run_ids)

lemma append_event_rows:
  "append_run_event st now r n e = Inr st' \<Longrightarrow>
     event_rows_of st' r = event_rows_of st r @ [\<lparr>re_run_id = r, re_seq = n, re_event_json = e, re_created_at = now\<rparr>]"
  by (auto simp: append_run_event_def insert_run_event_def event_rows_of_def split: if_splits)

lemma recorded_same: "run_events (w_store w') = run_events (w_store w) \<Longrightarrow> recorded run w run w'"
  unfolding recorded_def by (simp add: event_rows_cong [of "w_store w'" "w_store w"])

lemma recorded_status_only:
  assumes k: "kept run w (rbind (commit_status w (w_store w) r target) (\<lambda>v. Inr (run, f v))) = (run', w')"
    and f: "\<And>v. w_store (f v) = w_store v"
  shows "recorded run w run' w'"
proof (cases "commit_status w (w_store w) r target")
  case (Inl e)
  then show ?thesis using k by (simp add: kept_def recorded_same)
next
  case (Inr v)
  then have "run' = run" "w' = f v" using k by (simp_all add: kept_def)
  then show ?thesis using commit_status_events [OF Inr] f [of v] by (simp add: recorded_same)
qed

lemma recorded_appended:
  assumes k: "kept x w (rbind (append_run_event (w_store w) (w_now w) (r_run_id run) (r_seq run + 1) e) f) = (run', w')"
    and x: "r_run_id x = r_run_id run" "r_seq x = r_seq run + 1" "r_out_queue x = r_out_queue run"
    and f: "\<And>st y v. f st = Inr (y, v) \<Longrightarrow> y = put_out e x \<and> run_events (w_store v) = run_events st"
  shows "recorded run w run' w'"
proof (cases "rbind (append_run_event (w_store w) (w_now w) (r_run_id run) (r_seq run + 1) e) f")
  case (Inl err)
  then have "run' = x" "w' = w" using k by (simp_all add: kept_def)
  then show ?thesis using x by (simp add: recorded_def)
next
  case (Inr p)
  then have p: "p = (run', w')" using k by (simp add: kept_def)
  from Inr p obtain st where st: "append_run_event (w_store w) (w_now w) (r_run_id run) (r_seq run + 1) e = Inr st" "f st = Inr (run', w')"
    by (auto simp: rbind_Inr_iff)
  from f [OF st(2)] have "run' = put_out e x" "run_events (w_store w') = run_events st" by simp_all
  then show ?thesis
    using x append_event_rows [OF st(1)] event_rows_cong [of "w_store w'" st]
    by (auto simp: recorded_def put_out_def intro!: exI [of _ "[e]"])
qed

lemma handle_command_recorded:
  assumes "handle_command L c run w = (run', w')"
  shows "recorded run w run' w'"
proof (cases c)
  case Offer
  then show ?thesis using assms recorded_status_only [where f = "\<lambda>v. v"] by (auto simp: handle_offer_def)
next
  case Claim
  then show ?thesis using assms recorded_status_only [where f = "\<lambda>v. v"] by (auto simp: handle_claim_def)
next
  case (RelayEvent ev)
  show ?thesis
  proof (cases "\<exists>e. ev = JObj e \<and> handle_relay L ev run w = relay_accepted e run w")
    case True
    then obtain e where e: "relay_accepted e run w = (run', w')" using assms RelayEvent by auto
    let ?x = "(if event_type e = JStr ''RUN_FINISHED'' then run\<lparr>r_saw_run_finished := True\<rparr>
       else if event_type e = JStr ''RUN_ERROR'' then run\<lparr>r_saw_run_error := True\<rparr> else run)\<lparr>r_seq := r_seq run + 1\<rparr>"
    have "kept ?x w (rbind (append_run_event (w_store w) (w_now w) (r_run_id run) (r_seq run + 1) e)
        (\<lambda>st. Inr (put_out e ?x, w\<lparr>w_store := touch_run_activity st (w_now w) (r_run_id run)\<rparr>))) = (run', w')"
      using e by (auto simp: relay_accepted_def Let_def split: if_splits)
    then show ?thesis by (rule recorded_appended) (auto simp: touch_run_activity_def)
  next
    case False
    then show ?thesis using assms RelayEvent
      by (cases ev) (auto simp: handle_relay_def recorded_def split: if_splits)
  qed
next
  case FinishStream
  let ?e = "el_run_error L ''the agent's stream ended without finishing'' (Some ''provider_stream_ended_without_finishing'')"
  show ?thesis
  proof (cases "finish_status run = Failed \<and> \<not> r_saw_run_error run")
    case True
    then have "kept (run\<lparr>r_seq := r_seq run + 1\<rparr>) w (rbind (append_run_event (w_store w) (w_now w) (r_run_id run) (r_seq run + 1) ?e)
        (\<lambda>st. rbind (commit_status w st (r_run_id run) Failed) (\<lambda>v. Inr (put_out ?e (run\<lparr>r_seq := r_seq run + 1\<rparr>), v)))) = (run', w')"
      using assms FinishStream by (simp add: handle_finish_def Let_def)
    then show ?thesis by (rule recorded_appended) (auto simp: rbind_Inr_iff dest: commit_status_events)
  next
    case False
    then have "kept run w (rbind (commit_status w (w_store w) (r_run_id run) (finish_status run)) (\<lambda>v. Inr (run, v))) = (run', w')"
      using assms unfolding FinishStream by (simp only: handle_command.simps handle_finish_def Let_def if_False)
    then show ?thesis by (rule recorded_status_only [where f = "\<lambda>v. v"]) simp
  qed
next
  case RequestCancel
  then show ?thesis using assms recorded_status_only [where f = "\<lambda>v. v"]
      recorded_status_only [where f = "\<lambda>v. case r_cancel_notify run of None \<Rightarrow> v | Some c \<Rightarrow> v\<lparr>w_asked := w_asked v @ [(c, r_run_id run)]\<rparr>"]
    by (auto simp: handle_cancel_def split: if_splits option.splits)
next
  case (Fail code msg)
  let ?e = "el_run_error L (case msg of None \<Rightarrow> code | Some m \<Rightarrow> if m = [] then code else m) (Some code)"
  have "kept (run\<lparr>r_seq := r_seq run + 1\<rparr>) w (rbind (append_run_event (w_store w) (w_now w) (r_run_id run) (r_seq run + 1) ?e)
      (\<lambda>st. rbind (commit_status w st (r_run_id run) Failed) (\<lambda>v. Inr (put_out ?e (run\<lparr>r_seq := r_seq run + 1\<rparr>), v)))) = (run', w')"
    using assms Fail by (simp add: handle_fail_def Let_def)
  then show ?thesis by (rule recorded_appended) (auto simp: rbind_Inr_iff dest: commit_status_events)
qed

text \<open>
  C14. What is streamed is what is recorded. If the sequence numbers of a run's recorded
  events are at most the counter its run object carries, then handling any command appends the same
  events (one, or none) to the run's stream and to the event log as it is read back in order, and the
  counter again bounds the log's numbers. A command whose transaction fails appends to neither.
\<close>

theorem stream_is_the_record:
  assumes "handle_command L c run w = (run', w')" and "seqs_below (w_store w) run"
  shows "\<exists>es. length es \<le> 1 \<and> r_out_queue run' = r_out_queue run @ map Item es \<and>
    get_run_events (w_store w') (r_run_id run) 0 = get_run_events (w_store w) (r_run_id run) 0 @ es \<and>
    seqs_below (w_store w') run'"
proof -
  from handle_command_recorded [OF assms(1)] obtain rows where
    id: "r_run_id run' = r_run_id run" "r_seq run \<le> r_seq run'"
    and out: "r_out_queue run' = r_out_queue run @ map Item (map re_event_json rows)" "length rows \<le> 1"
    and rows: "event_rows_of (w_store w') (r_run_id run) = event_rows_of (w_store w) (r_run_id run) @ rows"
      "\<forall>row \<in> set rows. re_seq row = r_seq run + 1 \<and> r_seq run' = r_seq run + 1"
    unfolding recorded_def by auto
  have below: "0 \<le> r_seq run" "\<forall>row \<in> set (event_rows_of (w_store w) (r_run_id run)). re_seq row \<le> r_seq run"
    using assms(2) by (simp_all add: seqs_below_def)
  have "get_run_events (w_store w') (r_run_id run) 0 = get_run_events (w_store w) (r_run_id run) 0 @ map re_event_json rows"
  proof (cases rows)
    case (Cons row rest)
    then have r: "rows = [row]" "re_seq row = r_seq run + 1" using out(2) rows(2) by auto
    have "\<forall>y \<in> set (filter (\<lambda>e. re_seq e > 0) (event_rows_of (w_store w) (r_run_id run))). re_seq y \<le> re_seq row"
      using below(2) r(2) by force
    from sort_key_snoc [OF this] show ?thesis using rows(1) r below(1) by (simp add: get_run_events_def)
  qed (use rows in \<open>simp add: get_run_events_def\<close>)
  moreover have "seqs_below (w_store w') run'"
    unfolding seqs_below_def id(1) rows(1) using below id(2) rows(2) by (auto intro: order_trans)
  ultimately show ?thesis using out by (intro exI [of _ "map re_event_json rows"]) simp
qed

definition demo_lib :: event_lib where
  "demo_lib = \<lparr>el_known_types = [''RUN_FINISHED'', ''RUN_ERROR''], el_valid = jis_dict,
     el_run_error = (\<lambda>m c. [(''type'', JStr ''RUN_ERROR''), (''message'', JStr m), (''code'', jopt_str c)]),
     el_input_error = (\<lambda>_. None)\<rparr>"

theorem stream_is_the_record_witness:
  "\<exists>es. r_out_queue (fst (handle_command demo_lib (Fail ''gone'' None)
       (new_run ''r1'' \<lparr>ar_provider_key = ''aa'', ar_name = ''agent''\<rparr> ''thread_1'' JNull 0 0 None)
       \<lparr>w_store = demo_store [demo_row ''r1'' Queued], w_now = 0, w_changes = [], w_asked = []\<rparr>)) = map Item es \<and>
     get_run_events (w_store (snd (handle_command demo_lib (Fail ''gone'' None)
       (new_run ''r1'' \<lparr>ar_provider_key = ''aa'', ar_name = ''agent''\<rparr> ''thread_1'' JNull 0 0 None)
       \<lparr>w_store = demo_store [demo_row ''r1'' Queued], w_now = 0, w_changes = [], w_asked = []\<rparr>))) ''r1'' 0 = es"
  (is "\<exists>es. r_out_queue (fst (handle_command demo_lib ?c ?run ?w)) = _ \<and> _")
proof -
  have "seqs_below (w_store ?w) ?run" "r_out_queue ?run = []" "r_run_id ?run = ''r1''"
    "get_run_events (w_store ?w) ''r1'' 0 = []"
    by (simp_all add: seqs_below_def new_run_def demo_store_def event_rows_of_def get_run_events_def)
  then show ?thesis using stream_is_the_record [of demo_lib ?c ?run ?w] by (metis append_Nil prod.collapse)
qed

end
