(* ===== verification/Broker_Props.thy ===== *)
theory Broker_Props
  imports Broker_Relation Handlers
begin

text \<open>
  What holds of the dispatcher with funduq's own record handlers, in every state it can reach:
  capacity, turns, streams, and who is heard.
\<close>

section \<open>What may enter a stream\<close>

definition own_items :: "event_lib \<Rightarrow> out_item set" where
  "own_items L = insert END_OF_STREAM {Item (el_run_error L m c) | m c. True}"

definition quiet :: "event_lib \<Rightarrow> world broker \<Rightarrow> world broker \<Rightarrow> bool" where
  "quiet L s s' \<longleftrightarrow>
     (\<forall>r run'. run_at s' r = Some run' \<longrightarrow>
        (\<exists>run. run_at s r = Some run \<and> set (r_out_queue run') \<subseteq> set (r_out_queue run) \<union> own_items L))"

definition relays :: "command \<Rightarrow> bool" where
  "relays c \<longleftrightarrow> (\<exists>ev. c = RelayEvent ev)"

lemma quiet_trans:
  assumes "quiet L s s'" "quiet L s' s''"
  shows "quiet L s s''"
  unfolding quiet_def
proof (intro allI impI)
  fix r run''
  assume "run_at s'' r = Some run''"
  then obtain run' where 1: "run_at s' r = Some run'" "set (r_out_queue run'') \<subseteq> set (r_out_queue run') \<union> own_items L"
    using assms(2) unfolding quiet_def by blast
  then obtain run where "run_at s r = Some run" "set (r_out_queue run') \<subseteq> set (r_out_queue run) \<union> own_items L"
    using assms(1) unfolding quiet_def by blast
  with 1 show "\<exists>run. run_at s r = Some run \<and> set (r_out_queue run'') \<subseteq> set (r_out_queue run) \<union> own_items L" by blast
qed

lemma quiet_same: "b_heap s' = b_heap s \<Longrightarrow> quiet L s s'"
  by (auto simp: quiet_def)

lemma quiet_upd_run: "loose f \<Longrightarrow> quiet L s (upd_run r f s)"
  unfolding quiet_def loose_def own_items_def by (auto split: if_splits) blast

lemma put_out_own: "set (r_out_queue (put_out (el_run_error L m c) run)) \<subseteq> set (r_out_queue run) \<union> own_items L"
  by (auto simp: put_out_def own_items_def)

text \<open>What each command's handler puts in the run's stream.\<close>

lemma handle_command_items:
  assumes "handle_command L c run w = (run', w')"
  shows "set (r_out_queue run') \<subseteq>
    set (r_out_queue run) \<union> own_items L \<union> {Item e | e. c = RelayEvent (JObj e)}"
proof -
  note defs = handle_offer_def handle_claim_def handle_relay_def relay_accepted_def handle_finish_def
    handle_cancel_def handle_fail_def Let_def kept_def
  have own: "Item (el_run_error L m code) \<in> own_items L" for m code by (auto simp: own_items_def)
  show ?thesis
    using assms own
    by (cases c) (auto simp: defs put_out_def rbind_Inr_iff split: if_splits sum.splits json.splits)
qed

lemma quiet_record_cmd: "\<not> relays c \<Longrightarrow> quiet L s (record_cmd (make_handlers L) r c s)"
proof -
  assume c: "\<not> relays c"
  show ?thesis
  proof (cases "r \<in> set (b_handlers s) \<and> run_at s r \<noteq> None")
    case True
    then obtain run where run: "run_at s r = Some run" by blast
    obtain run' w' where h: "handle_command L c run (b_world s) = (run', w')" by fastforce
    have eq: "record_cmd (make_handlers L) r c s = s\<lparr>b_heap := dput r run' (b_heap s), b_world := w'\<rparr>"
      using True run h by (simp add: record_cmd_def make_handlers_def)
    have "set (r_out_queue run') \<subseteq> set (r_out_queue run) \<union> own_items L"
      using handle_command_items [OF h] c by (auto simp: relays_def)
    then show ?thesis unfolding eq quiet_def using run by auto
  qed (auto simp: record_cmd_def split: option.splits intro: quiet_same)
qed

lemma quiet_record_relay:
  assumes "run_at (record_cmd (make_handlers L) r (RelayEvent ev) s) r' = Some run'"
  shows "\<exists>run. run_at s r' = Some run \<and>
    set (r_out_queue run') \<subseteq> set (r_out_queue run) \<union> own_items L \<union> {Item e | e. r' = r \<and> ev = JObj e}"
proof (cases "r \<in> set (b_handlers s) \<and> run_at s r \<noteq> None")
  case True
  then obtain run where run: "run_at s r = Some run" by blast
  obtain run1 w' where h: "handle_command L (RelayEvent ev) run (b_world s) = (run1, w')" by fastforce
  have eq: "record_cmd (make_handlers L) r (RelayEvent ev) s = s\<lparr>b_heap := dput r run1 (b_heap s), b_world := w'\<rparr>"
    using True run h by (simp add: record_cmd_def make_handlers_def)
  show ?thesis using assms run handle_command_items [OF h] unfolding eq by (auto split: if_splits)
next
  case False
  then show ?thesis using assms by (auto simp: record_cmd_def split: option.splits)
qed

lemma quiet_seat: "quiet L s (seat r c i n s)"
  by (auto simp: quiet_def)

interpretation quiet: door_relation "quiet L" "make_handlers L" "\<lambda>c. \<not> relays c" for L
proof
  show "quiet L s s''" if "quiet L s s'" "quiet L s' s''" for s s' s'' using that by (rule quiet_trans)
qed (simp_all add: quiet_same quiet_upd_run tame_loose quiet_seat quiet_record_cmd relays_def)

lemma relay_dispatch:
  assumes m: "m = MSaid q k (RelayEvent ev) \<or> m = MTrusted q (RelayEvent ev)"
    and run': "run_at (dispatch_message (make_handlers L) h m s) r = Some run'"
  shows "\<exists>run. run_at s r = Some run \<and>
    (set (r_out_queue run') \<subseteq> set (r_out_queue run) \<union> own_items L \<or>
     (\<exists>e t x. set (r_out_queue run') \<subseteq> insert (Item e) (set (r_out_queue run) \<union> own_items L) \<and>
        q = r \<and> ev = JObj e \<and> hand_at s h = Some t \<and> r \<in> set (t_live t) \<and>
        (m = MTrusted r (RelayEvent ev) \<or> r_claimed_by run = Some k)))"
proof -
  let ?E = "make_handlers L"
  define s1 where "s1 = record_cmd ?E q (RelayEvent ev) s"
  have tail: "quiet L s1 (record_and_maybe_settle ?E h q (RelayEvent ev) s)"
    unfolding record_and_maybe_settle_def Let_def s1_def [symmetric]
    by (auto split: option.splits intro!: quiet.R_failed simp: relays_def)
  consider (idle) "dispatch_message ?E h m s = s"
    | (heard) x where "dispatch_message ?E h m s = record_and_maybe_settle ?E h q (RelayEvent ev) s"
        "live_run h q s = Some x" "m = MTrusted q (RelayEvent ev) \<or> r_claimed_by x = Some k"
  proof -
    have "dispatch_message ?E h m s = s \<or>
      (\<exists>x. dispatch_message ?E h m s = record_and_maybe_settle ?E h q (RelayEvent ev) s \<and> live_run h q s = Some x \<and>
        (m = MTrusted q (RelayEvent ev) \<or> r_claimed_by x = Some k))"
      using m by (cases "live_run h q s") (auto simp: on_said_def on_trusted_def)
    then show thesis using that by blast
  qed
  then show ?thesis
  proof cases
    case idle
    then show ?thesis using run' by auto
  next
    case heard
    from heard(2) obtain t where t: "hand_at s h = Some t" "q \<in> set (t_live t)" "run_at s q = Some x"
      by (rule live_runD)
    from run' [unfolded heard(1)] tail obtain run1 where run1: "run_at (record_cmd ?E q (RelayEvent ev) s) r = Some run1"
      "set (r_out_queue run') \<subseteq> set (r_out_queue run1) \<union> own_items L"
      unfolding quiet_def s1_def by blast
    from quiet_record_relay [OF run1(1)] obtain run where run: "run_at s r = Some run"
      "set (r_out_queue run1) \<subseteq> set (r_out_queue run) \<union> own_items L \<union> {Item e | e. r = q \<and> ev = JObj e}" by blast
    then show ?thesis
      using run1(2) t heard(3) by (cases "r = q"; cases ev) (auto intro!: exI [of _ run])
  qed
qed

text \<open>
  C4. Only the holder is heard. If in one step of the dispatcher an event that is not one
  of funduq's own error events newly appears in a run's stream, then a thread handler that holds the
  run live was at that moment reading the report of exactly this event, and the reporter's key is the
  key that claimed the run (or the report was funduq's own, pushed without attribution).
\<close>

theorem only_the_holder_is_heard:
  assumes "broker_step (make_handlers L) s s'" and "run_at s' r = Some run'" "Item e \<in> set (r_out_queue run')"
    and "\<forall>run. run_at s r = Some run \<longrightarrow> Item e \<notin> set (r_out_queue run)" and "\<forall>m c. e \<noteq> el_run_error L m c"
  shows "\<exists>h t ms run. hand_at s h = Some t \<and> r \<in> set (t_live t) \<and> run_at s r = Some run \<and>
    ((\<exists>k. t_inbox t = MSaid r k (RelayEvent (JObj e)) # ms \<and> r_claimed_by run = Some k) \<or>
     t_inbox t = MTrusted r (RelayEvent (JObj e)) # ms)"
proof -
  let ?E = "make_handlers L"
  have e: "Item e \<notin> own_items L" using assms(5) by (auto simp: own_items_def)
  have no: "\<not> quiet L s s'" using assms(2-4) e unfolding quiet_def by blast
  from assms(1) show ?thesis
  proof (cases rule: quiet.R_step)
    case (1 mapping)
    have "b_heap (fold (\<lambda>h. put_inbox h MPoke) hs s) = b_heap s" for hs and s :: "world broker"
      by (induction hs arbitrary: s) simp_all
    then have "b_heap (fold poke_agent refs s) = b_heap s" for refs and s :: "world broker"
      by (induction refs arbitrary: s) (simp_all add: poke_agent_def)
    moreover have "b_heap (fold register_one mapping s) = b_heap s"
      by (induction mapping arbitrary: s) (simp_all add: register_one_parts)
    ultimately show ?thesis using 1 no quiet_same [of s' s] by (simp add: register_provider_def)
  next
    case (2 q a x input seq adr)
    then have "b_heap s' = dput q (new_run q a x input (b_now s) seq adr) (b_heap s)"
      by (auto simp: enqueue_run_def thread_handler_for_def Let_def split: if_splits option.splits prod.splits)
    then show ?thesis using assms(2-4) by (auto simp: new_run_def split: if_splits)
  next
    case (3 h t m ms c)
    then obtain ev q k where m: "m = MSaid q k (RelayEvent ev) \<or> m = MTrusted q (RelayEvent ev)"
      by (cases m) (auto simp: relays_def)
    let ?s = "upd_hand h (\<lambda>t. t\<lparr>t_inbox := ms\<rparr>) s"
    have "s' = leave_if_idle h (advance ?E h (dispatch_message ?E h m ?s))"
      using 3 by (simp add: handle_next_def on_message_def split: if_splits)
    then have "quiet L (dispatch_message ?E h m ?s) s'"
      using quiet.R_trans [OF quiet.R_advance quiet.R_leave] by simp
    then obtain run1 where run1: "run_at (dispatch_message ?E h m ?s) r = Some run1"
      "set (r_out_queue run') \<subseteq> set (r_out_queue run1) \<union> own_items L"
      using assms(2) unfolding quiet_def by blast
    from relay_dispatch [OF m run1(1)] obtain run where run: "run_at s r = Some run"
      "set (r_out_queue run1) \<subseteq> set (r_out_queue run) \<union> own_items L \<or>
       (\<exists>e u. set (r_out_queue run1) \<subseteq> insert (Item e) (set (r_out_queue run) \<union> own_items L) \<and>
          q = r \<and> ev = JObj e \<and> hand_at ?s h = Some u \<and> r \<in> set (t_live u) \<and>
          (m = MTrusted r (RelayEvent ev) \<or> r_claimed_by run = Some k))" by auto
    have "Item e \<in> set (r_out_queue run1)" "Item e \<notin> set (r_out_queue run)" using assms(3,4) e run1(2) run(1) by auto
    then have "q = r" "ev = JObj e" "r \<in> set (t_live t)" "m = MTrusted r (RelayEvent ev) \<or> r_claimed_by run = Some k"
      using run(2) e 3(1) by auto
    then show ?thesis using run(1) 3(1,2) m by blast
  next
    case 4
    then show ?thesis using no by blast
  qed
qed

section \<open>A run of the dispatcher\<close>

text \<open>One provider with room for one run, two threads with a run each.\<close>

definition demo_agent :: agent_ref where
  "demo_agent = \<lparr>ar_provider_key = ''aa'', ar_name = ''agent''\<rparr>"

definition demo_conn :: conn where
  "demo_conn = \<lparr>c_id = 1, c_public_key = ''aa'', c_max_concurrent_runs = Some 1\<rparr>"

definition demo_world :: world where
  "demo_world = \<lparr>w_store = demo_store [demo_row ''r1'' Queued, demo_row ''r2'' Queued], w_now = 0,
     w_changes = [], w_asked = []\<rparr>"

definition demo_event :: event where
  "demo_event = [(''type'', JStr ''CUSTOM''), (''value'', JStr ''hi'')]"

definition enqueue_demo :: "run_id \<Rightarrow> thread_id \<Rightarrow> world broker \<Rightarrow> world broker" where
  "enqueue_demo r x s = the (enqueue_run r demo_agent x JNull 0 None s)"

definition turn :: "nat \<Rightarrow> world broker \<Rightarrow> world broker" where
  "turn h s = the (handle_next (make_handlers demo_lib) h s)"

definition demo_queued :: "world broker" where
  "demo_queued = enqueue_demo ''r2'' ''thread_2'' (enqueue_demo ''r1'' ''thread_1''
     (register_provider [(demo_agent, demo_conn)] (start_broker (new_broker (Some 3) 0 demo_world))))"

definition demo_offered :: "world broker" where
  "demo_offered = turn 1 demo_queued"

definition demo_waiting :: "world broker" where
  "demo_waiting = turn 2 demo_offered"

definition demo_claimed :: "world broker" where
  "demo_claimed = turn 1 (snd (answer_offer ''r1'' (Truth True) ''aa'' demo_waiting))"

definition demo_said :: "world broker" where
  "demo_said = snd (report_event ''r1'' (JObj demo_event) ''aa'' demo_claimed)"

definition demo_heard :: "world broker" where
  "demo_heard = turn 1 demo_said"

lemmas demo_defs = demo_lib_def demo_agent_def demo_conn_def demo_world_def demo_event_def

lemma demo_fresh: "run_at (register_provider [(demo_agent, demo_conn)] (start_broker (new_broker (Some 3) 0 demo_world))) ''r1'' = None"
  "run_at (enqueue_demo ''r1'' ''thread_1'' (register_provider [(demo_agent, demo_conn)]
     (start_broker (new_broker (Some 3) 0 demo_world)))) ''r2'' = None"
  by code_simp+

lemma enqueue_demo_step:
  "broker_reach E s \<Longrightarrow> run_at s r = None \<Longrightarrow> b_running s \<Longrightarrow> broker_reach E (enqueue_demo r x s)"
  unfolding enqueue_demo_def
  by (rule reach_step [OF _ step_enqueue [where r = r and a = demo_agent and x = x and input = JNull and seq = 0 and adr = None]])
     (auto simp: enqueue_run_def split: prod.splits)

lemma turn_step:
  "\<not> Option.is_none (handle_next (make_handlers demo_lib) h s) \<Longrightarrow> broker_step (make_handlers demo_lib) s (turn h s)"
  unfolding turn_def by (rule step_handle [where h = h]) (auto simp: Option.is_none_def)

lemma reach_demo_queued: "broker_reach E demo_queued"
proof -
  have "broker_reach E (register_provider [(demo_agent, demo_conn)] (start_broker (new_broker (Some 3) 0 demo_world)))"
    by (intro reach_step [OF reach_step [OF reach_init step_start] step_register])
  then show ?thesis unfolding demo_queued_def
    by (intro enqueue_demo_step) (use demo_fresh in \<open>auto\<close>, code_simp+)
qed

lemma reach_demo_offered: "broker_reach (make_handlers demo_lib) demo_offered"
  unfolding demo_offered_def by (rule reach_step [OF reach_demo_queued turn_step]) code_simp

lemma reach_demo_waiting: "broker_reach (make_handlers demo_lib) demo_waiting"
  unfolding demo_waiting_def by (rule reach_step [OF reach_demo_offered turn_step]) code_simp

lemma reach_demo_claimed: "broker_reach (make_handlers demo_lib) demo_claimed"
  unfolding demo_claimed_def by (rule reach_step [OF reach_step [OF reach_demo_waiting step_answer] turn_step]) code_simp

lemma reach_demo_said: "broker_reach (make_handlers demo_lib) demo_said"
  unfolding demo_said_def by (rule reach_step [OF reach_demo_claimed step_report])

lemma step_demo_heard: "broker_step (make_handlers demo_lib) demo_said demo_heard"
  unfolding demo_heard_def by (rule turn_step) code_simp

theorem only_the_holder_is_heard_witness:
  "Item demo_event \<in> set (r_out_queue (the (run_at demo_heard ''r1''))) \<and>
   (\<exists>h t ms run. hand_at demo_said h = Some t \<and> ''r1'' \<in> set (t_live t) \<and> run_at demo_said ''r1'' = Some run \<and>
     ((\<exists>k. t_inbox t = MSaid ''r1'' k (RelayEvent (JObj demo_event)) # ms \<and> r_claimed_by run = Some k) \<or>
      t_inbox t = MTrusted ''r1'' (RelayEvent (JObj demo_event)) # ms))"
proof -
  have after: "map_option r_out_queue (run_at demo_heard ''r1'') = Some [Item demo_event]" by code_simp
  have before: "map_option r_out_queue (run_at demo_said ''r1'') = Some []" by code_simp
  obtain run' where run': "run_at demo_heard ''r1'' = Some run'" "r_out_queue run' = [Item demo_event]" using after by auto
  moreover have "\<forall>m c. demo_event \<noteq> el_run_error demo_lib m c" by (simp add: demo_defs)
  ultimately show ?thesis
    using only_the_holder_is_heard [OF step_demo_heard run'(1), of demo_event] before by auto
qed

text \<open>
  Interjections that arrive while the turn is being offered wait in order; when the turn is claimed and the provider has no room
  for them, each is put back right behind it, which turns their order around.
\<close>

definition demo_joining :: "world broker" where
  "demo_joining = (let join = (\<lambda>r s. the (enqueue_run r demo_agent ''thread_1'' JNull 0 (Some ''r1'') s)) in
     turn 1 (turn 1 (turn 1 (join ''r4'' (join ''r3'' (enqueue_demo ''r1'' ''thread_1''
       (register_provider [(demo_agent, demo_conn)] (start_broker (new_broker (Some 3) 0 demo_world)))))))))"

lemma waiting_interjections_are_reversed:
  "map_option t_queue (hand_at demo_joining 1) = Some [''r1'', ''r3'', ''r4''] \<and>
   map_option t_queue (hand_at (turn 1 (snd (answer_offer ''r1'' (Truth True) ''aa'' demo_joining))) 1) = Some [''r1'', ''r4'', ''r3'']"
  by code_simp

section \<open>Capacity and turns\<close>

text \<open>The runs a provider holds a place for: offered to it or claimed by it.\<close>

abbreviation held_by :: "'w broker \<Rightarrow> key \<Rightarrow> run_id set" where
  "held_by s k \<equiv> {r \<in> set (b_runs s). \<exists>run. run_at s r = Some run \<and> r_offered_to run = Some k}"

text \<open>
  C1. Capacity. In every reachable state of the dispatcher the in-flight count kept for a
  provider is the number of tracked runs offered to it or claimed by it; and a step that makes that
  number grow leaves it within what the provider declares.
\<close>

theorem capacity_is_respected:
  assumes "broker_reach (make_handlers L) s" and "broker_step (make_handlers L) s s'"
  shows "p_in_flight (provider k s') = card (held_by s' k) \<and>
    (card (held_by s k) < card (held_by s' k) \<longrightarrow>
      (case p_declared (provider k s') of None \<Rightarrow> True | Some d \<Rightarrow> int (card (held_by s' k)) \<le> d))"
proof -
  have count: "p_in_flight (provider k x) = card (held_by x k)" if "broker_reach (make_handlers L) x" for x
    using fq.reach_binv [OF that] in_flight_card [of x k] by (simp add: binv_def seats_def)
  have s': "broker_reach (make_handlers L) s'" using assms by (rule reach_step)
  have "p_in_flight (provider k s') \<le> p_in_flight (provider k s) \<or>
      (\<forall>d. p_declared (provider k s') = Some d \<longrightarrow> int (p_in_flight (provider k s')) \<le> d)"
    using step_growth_ok [OF assms(2)] by (simp add: growth_ok_def)
  then show ?thesis unfolding count [OF assms(1)] count [OF s'] by (auto split: option.splits)
qed

theorem capacity_is_respected_witness:
  "card (held_by demo_queued ''aa'') < card (held_by demo_offered ''aa'') \<and>
   p_in_flight (provider ''aa'' demo_offered) = card (held_by demo_offered ''aa'') \<and>
   int (card (held_by demo_offered ''aa'')) \<le> 1"
proof -
  have step: "broker_step (make_handlers demo_lib) demo_queued demo_offered"
    unfolding demo_offered_def by (rule turn_step) code_simp
  have "p_in_flight (provider ''aa'' demo_queued) = 0" "p_in_flight (provider ''aa'' demo_offered) = 1" by code_simp+
  moreover have "p_in_flight (provider ''aa'' demo_queued) = card (held_by demo_queued ''aa'')"
    using fq.reach_binv [OF reach_demo_queued] in_flight_card [of demo_queued "''aa''"] by (simp add: binv_def seats_def)
  moreover have "p_declared (provider ''aa'' demo_offered) = Some 1" by code_simp
  ultimately show ?thesis
    using capacity_is_respected [OF reach_demo_queued step, of "''aa''"] by simp
qed

lemma offered_turn_unique:
  assumes "broker_reach (make_handlers L) s" and "r \<in> set (b_runs s)" "q \<in> set (b_runs s)"
    and "run_at s r = Some x" "run_at s q = Some y" and "r_thread_id x = r_thread_id y"
    and "r_offered_to x \<noteq> None" "r_offered_to y \<noteq> None" and "\<not> r_is_interjection x" "\<not> r_is_interjection y"
  shows "r = q"
proof -
  have ok: "binv {} s" using assms(1) by (rule fq.reach_binv)
  have owner: "\<exists>h t. hand_at s h = Some t \<and> \<not> t_done t \<and> t_thread_id t = r_thread_id z \<and> (\<exists>ps. t_queue t = p # ps)"
    if p: "p \<in> set (b_runs s)" "run_at s p = Some z" "r_offered_to z \<noteq> None" "\<not> r_is_interjection z" for p z
  proof -
    from binv_tracked [OF ok p(1)] p(2) obtain h t where h: "hand_at s h = Some t" "\<not> t_done t"
        "p \<in> set (t_live t) \<or> p \<in> set (queued_ids (t_inbox t))" "r_thread_id z = t_thread_id t"
      unfolding tracked_ok_def by auto
    have ph: "hand_phases {} s t" using binv_hand [OF ok h(1)] by (simp add: hand_ok_def)
    have "p \<notin> set (queued_ids (t_inbox t)) \<union> set (tl (t_queue t))"
      using ph p(2,3) by (force simp: hand_phases_def unoffered_at_def unoffered_def)
    moreover from this have "p \<in> set (t_queue t)" using ph h(3) p(2,4) by (force simp: hand_phases_def joined_at_def)
    ultimately have "\<exists>ps. t_queue t = p # ps" by (cases "t_queue t") auto
    then show ?thesis using h by auto
  qed
  from owner [OF assms(2,4,7,9)] obtain h t rs where a: "hand_at s h = Some t" "\<not> t_done t"
    "t_thread_id t = r_thread_id x" "t_queue t = r # rs" by blast
  from owner [OF assms(3,5,8,10)] obtain h' t' qs where b: "hand_at s h' = Some t'" "\<not> t_done t'"
    "t_thread_id t' = r_thread_id y" "t_queue t' = q # qs" by blast
  have "dget (b_threads s) (t_thread_id t) = Some h" "dget (b_threads s) (t_thread_id t') = Some h'"
    using bound_thread [OF ok] a(1,2) b(1,2) by blast+
  then show ?thesis using a b assms(6) by simp
qed

text \<open>The runs of a thread that hold its turn: offered or claimed, and not joining another's turn.\<close>

abbreviation turns_of :: "'w broker \<Rightarrow> thread_id \<Rightarrow> run_id set" where
  "turns_of s x \<equiv> {r \<in> set (b_runs s). \<exists>run. run_at s r = Some run \<and> r_thread_id run = x \<and>
     r_offered_to run \<noteq> None \<and> \<not> r_is_interjection run}"

text \<open>
  One turn at a time. In every reachable state at most one tracked run of a thread is
  offered to a provider or claimed by one, interjections aside.
\<close>

lemma one_turn_per_thread:
  assumes "broker_reach (make_handlers L) s"
  shows "card (turns_of s x) \<le> 1"
proof -
  have "r = q" if "r \<in> turns_of s x" "q \<in> turns_of s x" for r q
    using that offered_turn_unique [OF assms, of r q] by auto
  moreover have "finite (turns_of s x)" by simp
  ultimately show ?thesis by (simp add: card_le_Suc0_iff_eq)
qed

lemma closed_stream_shape:
  assumes "stream_closed run"
  shows "r_out_queue run = [] \<or> (\<exists>evs. r_out_queue run = map Item evs @ [END_OF_STREAM])"
proof -
  have "\<exists>evs. xs = map Item evs" if "END_OF_STREAM \<notin> set xs" for xs
    using that
  proof (induction xs)
    case (Cons x xs)
    then obtain e evs where "x = Item e" "xs = map Item evs" by (cases x) auto
    then show ?case by (auto intro: exI [of _ "e # evs"])
  qed simp
  then show ?thesis using assms by (metis append_butlast_last_id stream_closed_def)
qed

text \<open>
  C15. A stream ends once. In every reachable state a run object the dispatcher has made is
  tracked exactly as long as it is not settled; a tracked run's stream has no end mark, and what is
  left of a settled run's stream is events followed by one end mark, or nothing.
\<close>

theorem stream_ends_once:
  assumes "broker_reach (make_handlers L) s" and "run_at s r = Some run"
  shows "(r \<in> set (b_runs s) \<longleftrightarrow> \<not> r_settled run) \<and>
    (\<not> r_settled run \<longrightarrow> END_OF_STREAM \<notin> set (r_out_queue run)) \<and>
    (r_settled run \<longrightarrow> r_offered_to run = None \<and>
      (r_out_queue run = [] \<or> (\<exists>evs. r_out_queue run = map Item evs @ [END_OF_STREAM])))"
proof (cases "r \<in> set (b_runs s)")
  case True
  then show ?thesis
    using binv_tracked [OF fq.reach_binv [OF assms(1)] True] assms(2) by (auto simp: tracked_ok_def)
next
  case False
  then have c: "stream_closed run"
    using fq.reach_binv [OF assms(1)] assms(2) by (simp add: binv_def forgotten_ok_def)
  show ?thesis using c False closed_stream_shape [OF c] by (auto simp: stream_closed_def)
qed

theorem stream_ends_once_witness:
  "''r1'' \<in> set (b_runs demo_heard) \<and> END_OF_STREAM \<notin> set (r_out_queue (the (run_at demo_heard ''r1'')))"
proof -
  have t: "''r1'' \<in> set (b_runs demo_heard)" by code_simp
  have "map_option r_settled (run_at demo_heard ''r1'') = Some False" by code_simp
  then obtain run where "run_at demo_heard ''r1'' = Some run" by auto
  then show ?thesis
    using t stream_ends_once [OF reach_step [OF reach_demo_said step_demo_heard], of "''r1''" run] by auto
qed

section \<open>What ends a run\<close>

definition still_over :: "world broker \<Rightarrow> world broker \<Rightarrow> bool" where
  "still_over s s' \<longleftrightarrow>
     (\<forall>r run. run_at s r = Some run \<longrightarrow> r_settled run \<longrightarrow> (\<exists>run'. run_at s' r = Some run' \<and> r_settled run'))"

lemma still_over_trans:
  assumes "still_over s s'" "still_over s' s''"
  shows "still_over s s''"
  unfolding still_over_def
proof (intro allI impI)
  fix r run
  assume "run_at s r = Some run" "r_settled run"
  with assms(1) obtain run' where "run_at s' r = Some run'" "r_settled run'" unfolding still_over_def by blast
  with assms(2) show "\<exists>run'. run_at s'' r = Some run' \<and> r_settled run'" unfolding still_over_def by blast
qed

lemma handle_command_settled:
  assumes "handle_command L c run w = (run', w')"
  shows "r_settled run' = r_settled run"
proof -
  note defs = handle_offer_def handle_claim_def handle_relay_def relay_accepted_def handle_finish_def
    handle_cancel_def handle_fail_def Let_def kept_def
  show ?thesis
    using assms by (cases c) (auto simp: defs put_out_def rbind_Inr_iff split: if_splits sum.splits json.splits)
qed

lemma still_over_record_cmd: "still_over s (record_cmd (make_handlers L) r c s)"
proof (cases "r \<in> set (b_handlers s) \<and> run_at s r \<noteq> None")
  case True
  then obtain run where run: "run_at s r = Some run" by blast
  obtain run' w' where h: "handle_command L c run (b_world s) = (run', w')" by fastforce
  have "record_cmd (make_handlers L) r c s = s\<lparr>b_heap := dput r run' (b_heap s), b_world := w'\<rparr>"
    using True run h by (simp add: record_cmd_def make_handlers_def)
  then show ?thesis using run handle_command_settled [OF h] by (simp add: still_over_def)
next
  case False
  then have "record_cmd (make_handlers L) r c s = s" by (auto simp: record_cmd_def split: option.splits)
  then show ?thesis by (simp add: still_over_def)
qed

interpretation over: door_relation still_over "make_handlers L" "\<lambda>_. True" for L
proof
  show "still_over s s''" if "still_over s s'" "still_over s' s''" for s s' s'' using that by (rule still_over_trans)
qed (simp_all add: still_over_record_cmd, auto simp: still_over_def tame_def loose_def)

definition has_run :: "world broker \<Rightarrow> run_id \<Rightarrow> bool" where
  "has_run s r \<longleftrightarrow> run_at s r \<noteq> None"

definition run_over :: "world broker \<Rightarrow> run_id \<Rightarrow> bool" where
  "run_over s r \<longleftrightarrow> (\<exists>run. run_at s r = Some run \<and> r_settled run)"

lemma settle_over: "has_run s r \<Longrightarrow> run_over (settle h r s) r"
proof -
  assume run: "has_run s r"
  let ?s = "upd_hand h (\<lambda>t. t\<lparr>t_live := removeAll r (t_live t), t_queue := remove1 r (t_queue t)\<rparr>)
    (upd_run r (\<lambda>x. x\<lparr>r_settled := True, r_out_queue := r_out_queue x @ [END_OF_STREAM], r_offer_timer := None\<rparr>) s)"
  have "still_over ?s (settle h r s)" unfolding settle_def by (rule over.R_forget)
  then show ?thesis using run by (auto simp: still_over_def has_run_def run_over_def)
qed

text \<open>The messages on which a thread handler ends a run it holds.\<close>

fun ends_run :: "'w broker \<Rightarrow> nat \<Rightarrow> message \<Rightarrow> run_id option" where
  "ends_run s h (MTrusted r (Fail code msg)) = (if live_run h r s \<noteq> None then Some r else None)"
| "ends_run s h (MTrusted r FinishStream) = (if live_run h r s \<noteq> None then Some r else None)"
| "ends_run s h (MSaid r k FinishStream) =
     (case live_run h r s of None \<Rightarrow> None | Some run \<Rightarrow> if r_claimed_by run = Some k then Some r else None)"
| "ends_run s h (MAnswered r k v) =
     (case live_run h r s of
        None \<Rightarrow> None
      | Some run \<Rightarrow> if r_verdict_open run \<and> r_offered_to run = Some k \<and> v \<noteq> Truth True then Some r else None)"
| "ends_run s h (MOfferLapsed r n) =
     (case live_run h r s of
        None \<Rightarrow> None
      | Some run \<Rightarrow> if r_verdict_open run \<and> r_offer_id run = n then Some r else None)"
| "ends_run s h (MCancelAsked r) =
     (case live_run h r s of
        None \<Rightarrow> None
      | Some run \<Rightarrow> if \<not> r_verdict_open run \<and> r_claimed_by run = None then Some r else None)"
| "ends_run s h _ = None"

lemma heap_unregister_provider: "b_heap (unregister_provider refs s) = b_heap s"
proof -
  have inbox: "b_heap (fold (\<lambda>h. put_inbox h m) hs s) = b_heap s" for hs m and s :: "'a broker"
    by (induction hs arbitrary: s) simp_all
  have held: "b_heap (fail_held_runs ref s) = b_heap s" for ref and s :: "'a broker"
  proof -
    have "b_heap (fold (\<lambda>r s. case run_at s r of None \<Rightarrow> s | Some run \<Rightarrow>
        if r_agent run \<noteq> ref \<or> r_claimed_by run = None then s
        else snd (push r (Fail ''provider_left_holding_it'' None) s)) rs s) = b_heap s" for rs
      by (induction rs arbitrary: s) (auto simp: push_def post_def split: option.splits)
    then show ?thesis by (simp add: fail_held_runs_def)
  qed
  have "b_heap (unregister_one ref s) = b_heap s" for ref and s :: "'a broker"
    by (simp add: unregister_one_def poke_agent_def inbox held)
  then show ?thesis unfolding unregister_provider_def by (induction refs arbitrary: s) simp_all
qed

lemma heap_note_abnormal: "b_heap (note_abnormal k ev s) = b_heap s"
  by (simp add: note_abnormal_def Let_def heap_unregister_provider split: option.splits)

lemma has_run_simps [simp]:
  "has_run (upd_run q f s) r = has_run s r" "has_run (release q s) r = has_run s r"
  "has_run (note_abnormal k ev s) r = has_run s r" "has_run (close_verdict q s) r = has_run s r"
  "has_run (note_misdeclared k s) r = has_run s r"
  "has_run (record_cmd E q c s) r = has_run s r"
  by (auto simp: has_run_def release_frame_parts heap_note_abnormal close_verdict_def note_misdeclared_def
      record_cmd_def split: option.splits)

lemma live_has_run: "live_run h r s = Some run \<Longrightarrow> has_run s r"
  by (auto simp: has_run_def elim: live_runD)

lemma finish_settles:
  assumes "has_run s r"
  shows "run_over (record_and_maybe_settle E h r FinishStream s) r"
proof -
  have "has_run (record_cmd E r FinishStream s) r" using assms by simp
  then obtain run where "run_at (record_cmd E r FinishStream s) r = Some run" by (auto simp: has_run_def)
  then show ?thesis using assms
    by (cases "r_poison run") (auto simp: record_and_maybe_settle_def Let_def intro!: settle_over)
qed

lemma ends_run_settles:
  assumes "ends_run s h m = Some r"
  shows "run_over (dispatch_message E h m s) r"
proof (cases m)
  case (MTrusted q c)
  then show ?thesis using assms
    by (cases c; cases "live_run h q s")
       (auto simp: on_trusted_def Let_def live_has_run intro!: settle_over finish_settles split: option.splits if_splits)
next
  case (MSaid q k c)
  then show ?thesis using assms
    by (cases c; cases "live_run h q s")
       (auto simp: on_said_def Let_def live_has_run intro!: settle_over finish_settles split: option.splits if_splits)
next
  case (MAnswered q k v)
  then show ?thesis using assms
    by (cases v; cases "live_run h q s")
       (auto simp: on_answered_def Let_def live_has_run intro!: settle_over split: option.splits if_splits bool.splits)
next
  case (MOfferLapsed q n)
  then show ?thesis using assms
    by (cases "live_run h q s")
       (auto simp: on_offer_lapsed_def Let_def live_has_run intro!: settle_over split: option.splits if_splits)
next
  case (MCancelAsked q)
  then show ?thesis using assms
    by (cases "live_run h q s")
       (auto simp: on_cancel_asked_def Let_def live_has_run intro!: settle_over split: option.splits if_splits)
qed (use assms in simp_all)

text \<open>
  C12. What ends a run ends it. When a thread handler reads, for a run it holds, a trusted
  failure or end of stream, an end of stream from the run's claimer, a refusal or a decline of the
  offer by the provider it is offered to, the lapse of that offer, or a cancel of a run no one has been
  offered, then at the end of that step the run is no longer tracked, its stream is closed (what is
  left of it ends with the one end mark) and its place is free.
\<close>

theorem ending_message_ends_run:
  assumes "broker_reach (make_handlers L) s" and "hand_at s h = Some t" "t_inbox t = m # ms"
    and "ends_run s h m = Some r" and "handle_next (make_handlers L) h s = Some s'"
  shows "r \<notin> set (b_runs s') \<and>
    (\<exists>run. run_at s' r = Some run \<and> r_settled run \<and> r_offered_to run = None \<and>
      (r_out_queue run = [] \<or> (\<exists>evs. r_out_queue run = map Item evs @ [END_OF_STREAM])))"
proof -
  let ?E = "make_handlers L" and ?s = "upd_hand h (\<lambda>t. t\<lparr>t_inbox := ms\<rparr>) s"
  have s': "s' = leave_if_idle h (advance ?E h (dispatch_message ?E h m ?s))"
    using assms(2,3,5) by (simp add: handle_next_def on_message_def split: if_splits)
  have "live_run h q ?s = live_run h q s" for q using assms(2) by (simp add: live_run_def)
  then have "ends_run ?s h m = ends_run s h m" by (cases "(s, h, m)" rule: ends_run.cases) simp_all
  then have "run_over (dispatch_message ?E h m ?s) r" using ends_run_settles assms(4) by simp
  moreover have "still_over (dispatch_message ?E h m ?s) s'"
    unfolding s' by (rule over.R_trans [OF over.R_advance over.R_leave])
  ultimately obtain run where run: "run_at s' r = Some run" "r_settled run"
    by (auto simp: run_over_def still_over_def)
  have "broker_reach ?E s'" using reach_step [OF assms(1) step_handle [OF assms(5)]] .
  then have ok: "binv {} s'" by (rule fq.reach_binv)
  have "r \<notin> set (b_runs s')" using tracked_run [OF binv_tracked [OF ok, of r]] run by auto
  moreover from this have "stream_closed run" using ok run by (simp add: binv_def forgotten_ok_def)
  ultimately show ?thesis using run closed_stream_shape by (auto simp: stream_closed_def)
qed

definition demo_cancelled :: "world broker" where
  "demo_cancelled = snd (request_cancel ''r2'' demo_waiting)"

theorem ending_message_ends_run_witness:
  "''r2'' \<in> set (b_runs demo_waiting) \<and> ''r2'' \<notin> set (b_runs (turn 2 demo_cancelled))"
proof -
  have reach: "broker_reach (make_handlers demo_lib) demo_cancelled"
    unfolding demo_cancelled_def by (rule reach_step [OF reach_demo_waiting step_cancel])
  have inbox: "map_option t_inbox (hand_at demo_cancelled 2) = Some [MCancelAsked ''r2'']" by code_simp
  then obtain t where t: "hand_at demo_cancelled 2 = Some t" "t_inbox t = [MCancelAsked ''r2'']" by auto
  have ends: "ends_run demo_cancelled 2 (MCancelAsked ''r2'') = Some ''r2''" by code_simp
  have "\<not> Option.is_none (handle_next (make_handlers demo_lib) 2 demo_cancelled)" by code_simp
  then have next_state: "handle_next (make_handlers demo_lib) 2 demo_cancelled = Some (turn 2 demo_cancelled)"
    by (auto simp: turn_def Option.is_none_def)
  have "''r2'' \<in> set (b_runs demo_waiting)" by code_simp
  then show ?thesis using ending_message_ends_run [OF reach t ends next_state] by blast
qed

section \<open>No message is lost\<close>

text \<open>
  C13. A tracked run has a living owner. In every reachable state a message posted for a
  tracked run is taken by the door and lands, last, in the inbox of the one handler its thread is bound
  to; that handler's task has not ended, so it will read the message: it can take a step.
\<close>

theorem posted_message_is_read:
  assumes "broker_reach (make_handlers L) s" and "r \<in> set (b_runs s)" and "post r m s = (taken, s')"
  shows "taken \<and> (\<exists>run h t. run_at s r = Some run \<and> dget (b_threads s') (r_thread_id run) = Some h \<and>
    dget (b_run_threads s') r = Some h \<and> hand_at s' h = Some t \<and> \<not> t_done t \<and> t_inbox t \<noteq> [] \<and>
    last (t_inbox t) = m \<and> handle_next E h s' \<noteq> None)"
proof -
  have ok: "binv {} s" using assms(1) by (rule fq.reach_binv)
  from binv_tracked [OF ok assms(2)] obtain run h t where t: "run_at s r = Some run"
      "dget (b_run_threads s) r = Some h" "hand_at s h = Some t" "\<not> t_done t" "r_thread_id run = t_thread_id t"
    unfolding tracked_ok_def by blast
  have s': "taken" "s' = put_inbox h m s" using assms(3) t(2) by (simp_all add: post_def)
  have "dget (b_threads s) (t_thread_id t) = Some h" by (rule bound_thread [OF ok t(3,4)])
  moreover have "handle_next E h s' \<noteq> None"
    using t(3,4) by (auto simp: s'(2) handle_next_def dput_comm_reads split: list.splits)
  ultimately show ?thesis using t s' by (auto simp: dput_comm_reads)
qed

theorem posted_message_is_read_witness:
  "fst (post ''r2'' MPoke demo_waiting)"
proof -
  have "''r2'' \<in> set (b_runs demo_waiting)" by code_simp
  then show ?thesis
    using posted_message_is_read [OF reach_demo_waiting, of "''r2''" MPoke "fst (post ''r2'' MPoke demo_waiting)"
        "snd (post ''r2'' MPoke demo_waiting)" "make_handlers demo_lib"] by simp
qed

end
