(* ===== verification/Coupling.thy ===== *)
theory Coupling
  imports Broker_Props
begin

text \<open>
  The dispatcher and the database agree. The status column of a tracked run is the phase the
  dispatcher has it in (queued, offering, running or cancelling), and the row of a run the dispatcher
  has let go of has a final status. \<open>cinv X s\<close> says so for every run but those in \<open>X\<close>; it is shown for
  every state the dispatcher reaches inside funduq (\<open>fq_reach\<close>), where a run is queued with its row
  already there, only failures are pushed with funduq's own authority, and nobody else writes the
  status of a run the dispatcher knows.
\<close>

section \<open>What a command writes\<close>

fun target_status :: "command \<Rightarrow> brun \<Rightarrow> run_status option" where
  "target_status Offer run = Some Offering"
| "target_status Claim run = Some Running"
| "target_status (RelayEvent ev) run = None"
| "target_status FinishStream run = Some (finish_status run)"
| "target_status RequestCancel run = Some (if r_claimed_by run = None then Cancelled else Cancelling)"
| "target_status (Fail code msg) run = Some Failed"

definition next_status :: "command \<Rightarrow> brun \<Rightarrow> run_status \<Rightarrow> run_status" where
  "next_status c run st =
     (case target_status c run of None \<Rightarrow> st | Some target \<Rightarrow> if legal_step st target then target else st)"

lemma next_status_eq:
  "target_status c run = Some t \<Longrightarrow> next_status c run = (\<lambda>x. if legal_step x t then t else x)"
  "target_status c run = None \<Longrightarrow> next_status c run = (\<lambda>x. x)"
  by (simp_all add: next_status_def fun_eq_iff)

abbreviation db_status :: "world broker \<Rightarrow> run_id \<Rightarrow> run_status option" where
  "db_status s r \<equiv> status_of (w_store (b_world s)) r"

definition status_written :: "store \<Rightarrow> store \<Rightarrow> run_id \<Rightarrow> (run_status \<Rightarrow> run_status) \<Rightarrow> bool" where
  "status_written st st' r f \<longleftrightarrow>
     runs_distinct st' \<and> (\<forall>q. status_of st' q = (if q = r then map_option f (status_of st r) else status_of st q))"

lemma commit_status_written:
  assumes d: "runs_distinct st" and r: "status_of st r = Some old" and t: "target \<noteq> Queued"
  shows "\<exists>w'. commit_status w st r target = Inr w' \<and>
    status_written st (w_store w') r (\<lambda>x. if legal_step x target then target else x)"
proof -
  obtain row where row: "get_run st r = Some row" "rr_status row = old" using r by (auto simp: status_of_def)
  have id: "rr_run_id row = r" using row(1) by (rule get_run_run_id)
  define st' where "st' = (if legal_step old target
    then update_runs (\<lambda>x. rr_run_id x = r \<and> legal_step (rr_status x) target) (status_values (w_now w) target) st else st)"
  have m: "mark_run_status st (w_now w) r target = Inr (legal_step old target, st')"
    using mark_run_status_cases [OF d] row t by (simp add: st'_def)
  have "runs_distinct st'" using d by (simp add: st'_def runs_distinct_def run_ids_update_runs)
  moreover have "status_of st' q = (if q = r then map_option (\<lambda>x. if legal_step x target then target else x) (status_of st r)
      else status_of st q)" for q
  proof (cases "q = r")
    case True
    then show ?thesis using row id by (simp add: st'_def status_of_def get_run_update_runs)
  next
    case False
    then have "get_run st' q = get_run st q" by (simp add: st'_def get_run_update_other)
    then show ?thesis using False by (simp add: status_of_def)
  qed
  ultimately show ?thesis using m by (auto simp: commit_status_def status_written_def)
qed

lemma status_written_id: "runs_distinct st \<Longrightarrow> status_written st st r (\<lambda>x. x)"
  by (simp add: status_written_def option.map_ident)

lemma append_status:
  "append_run_event st now r n e = Inr st' \<Longrightarrow> status_of st' = status_of st \<and> runs_distinct st' = runs_distinct st"
  by (auto simp: append_run_event_def insert_run_event_def status_of_def runs_distinct_def run_ids_def get_run_def fun_eq_iff split: if_splits)

lemma append_keeps_status:
  assumes "status_of st r = Some old" "runs_distinct st"
  shows "\<exists>st'. append_run_event st now r n e = Inr st' \<and> status_of st' = status_of st \<and> runs_distinct st'"
proof -
  obtain st' where "append_run_event st now r n e = Inr st'"
    using assms by (auto simp: append_run_event_def insert_run_event_def status_of_def)
  then show ?thesis using append_status assms(2) by blast
qed

lemma touch_keeps_status: "status_of (touch_run_activity st now r) q = status_of st q"
  by (cases "get_run st q") (auto simp: touch_run_activity_def status_of_def get_run_update_runs)

lemma touch_keeps_distinct: "runs_distinct (touch_run_activity st now r) = runs_distinct st"
  by (simp add: touch_run_activity_def runs_distinct_def run_ids_update_runs)

lemma handle_command_status:
  assumes d: "runs_distinct (w_store w)" and r: "status_of (w_store w) (r_run_id run) = Some old"
  shows "status_written (w_store w) (w_store (snd (handle_command L c run w))) (r_run_id run) (next_status c run)"
proof -
  note commit = commit_status_written [OF d r]
  have via_append: "status_written (w_store w) (w_store (snd (kept x w (rbind
      (append_run_event (w_store w) (w_now w) (r_run_id run) n e) (\<lambda>st.
       rbind (commit_status w st (r_run_id run) target) (\<lambda>w'. Inr (y, w'))))))) (r_run_id run)
       (\<lambda>x. if legal_step x target then target else x)"
    if t: "target \<noteq> Queued" for x n e target and y :: brun
  proof -
    from append_keeps_status [OF r d, of "w_now w" n e] obtain st where st:
      "append_run_event (w_store w) (w_now w) (r_run_id run) n e = Inr st" "status_of st = status_of (w_store w)" "runs_distinct st"
      by blast
    from commit_status_written [OF st(3), of "r_run_id run" old target w] r st(2) t
    obtain w' where "commit_status w st (r_run_id run) target = Inr w'"
      "status_written st (w_store w') (r_run_id run) (\<lambda>x. if legal_step x target then target else x)" by auto
    then show ?thesis using st by (simp add: kept_def status_written_def)
  qed
  show ?thesis
  proof (cases c)
    case Offer
    then show ?thesis using commit [of Offering w] by (auto simp: handle_offer_def kept_def next_status_eq)
  next
    case Claim
    then show ?thesis using commit [of Running w] by (auto simp: handle_claim_def kept_def next_status_eq)
  next
    case (RelayEvent ev)
    then show ?thesis
      using d
      by (auto dest!: append_status simp: handle_relay_def relay_accepted_def kept_def Let_def next_status_eq rbind_def status_written_def
          touch_keeps_status touch_keeps_distinct option.map_ident split: json.splits sum.splits)
  next
    case FinishStream
    have t: "finish_status run \<noteq> Queued" by (simp add: finish_status_def)
    show ?thesis
    proof (cases "finish_status run = Failed \<and> \<not> r_saw_run_error run")
      case True
      then show ?thesis using FinishStream via_append [of Failed] by (simp add: handle_finish_def next_status_eq Let_def)
    next
      case False
      then have "handle_command L c run w =
          kept run w (rbind (commit_status w (w_store w) (r_run_id run) (finish_status run)) (\<lambda>w'. Inr (run, w')))"
        unfolding FinishStream by (simp only: handle_command.simps handle_finish_def Let_def if_False)
      then show ?thesis using FinishStream commit [OF t, of w] by (auto simp: kept_def next_status_eq)
    qed
  next
    case RequestCancel
    then show ?thesis using commit [of Cancelled w] commit [of Cancelling w]
      by (auto simp: handle_cancel_def kept_def next_status_eq split: option.splits)
  next
    case (Fail code msg)
    then show ?thesis using via_append [of Failed] by (simp add: handle_fail_def next_status_eq Let_def)
  qed
qed

section \<open>Operations that leave the world alone\<close>

lemma world_fold: "(\<And>x s. b_world (f x s) = b_world s) \<Longrightarrow> b_world (fold f xs s) = b_world s"
  by (induction xs arbitrary: s) simp_all

lemma world_post [simp]: "b_world (snd (post r m s)) = b_world s"
  by (auto simp: post_def split: option.splits)

lemma world_push [simp]: "b_world (snd (push r c s)) = b_world s"
  by (simp add: push_def)

lemma world_poke [simp]: "b_world (poke_threads s) = b_world s" "b_world (poke_agent a s) = b_world s"
  by (simp_all add: poke_threads_def poke_agent_def world_fold)

lemma world_unregister_provider [simp]: "b_world (unregister_provider refs s) = b_world s"
proof -
  have "b_world (fail_held_runs ref s) = b_world s" for ref and s :: "'a broker"
    unfolding fail_held_runs_def by (rule world_fold) (auto split: option.splits)
  then have "b_world (unregister_one ref s) = b_world s" for ref and s :: "'a broker"
    by (simp add: unregister_one_def)
  then show ?thesis unfolding unregister_provider_def by (rule world_fold)
qed

lemma world_note_abnormal [simp]: "b_world (note_abnormal k ev s) = b_world s"
  by (simp add: note_abnormal_def Let_def split: option.splits)

lemma world_note_misdeclared [simp]: "b_world (note_misdeclared k s) = b_world s"
  by (simp add: note_misdeclared_def)

lemma world_sweep_pass [simp]: "b_world (sweep_pass n s) = b_world s"
proof -
  have "b_world (snd (expire_queued n s)) = b_world s" by (simp add: expire_queued_def Let_def world_fold)
  then show ?thesis by (simp add: sweep_pass_def)
qed

lemma world_seat [simp]: "b_world (seat r c i n s) = b_world s"
  by (simp add: seat_def)

lemma world_release [simp]: "b_world (release r s) = b_world s"
  by (rule release_frame_parts)

lemma world_settle [simp]: "b_world (settle h r s) = b_world s"
  by (simp add: settle_def forget_def Let_def split: option.splits)

section \<open>The agreement\<close>

definition phase_statuses :: "brun \<Rightarrow> run_status set" where
  "phase_statuses run =
     (if r_claimed_by run \<noteq> None then {Running, Cancelling}
      else if r_verdict_open run then {Offering} else {Queued})"

definition status_ok :: "world broker \<Rightarrow> run_id \<Rightarrow> bool" where
  "status_ok s r \<longleftrightarrow> (\<exists>run st. run_at s r = Some run \<and> db_status s r = Some st \<and> st \<in> phase_statuses run)"

definition cinv :: "run_id set \<Rightarrow> world broker \<Rightarrow> bool" where
  "cinv X s \<longleftrightarrow>
     runs_distinct (w_store (b_world s)) \<and>
     (\<forall>r \<in> set (b_runs s). db_status s r \<noteq> None \<and> (r \<notin> X \<longrightarrow> status_ok s r)) \<and>
     (\<forall>r. r \<notin> set (b_runs s) \<longrightarrow> has_run s r \<longrightarrow> (\<exists>st. db_status s r = Some st \<and> settled_status st))"

definition phase_rel :: "brun \<Rightarrow> brun \<Rightarrow> bool" where
  "phase_rel x y \<longleftrightarrow> r_claimed_by y = r_claimed_by x \<and> r_verdict_open y = r_verdict_open x"

definition same_phase :: "world broker \<Rightarrow> world broker \<Rightarrow> bool" where
  "same_phase s s' \<longleftrightarrow>
     b_runs s' = b_runs s \<and> w_store (b_world s') = w_store (b_world s) \<and>
     (\<forall>r. rel_option phase_rel (run_at s r) (run_at s' r))"

lemma cinv_mono: "cinv X s \<Longrightarrow> X \<subseteq> Y \<Longrightarrow> cinv Y s"
  unfolding cinv_def by blast

lemma phase_rel_statuses: "phase_rel x y \<Longrightarrow> phase_statuses y = phase_statuses x"
  by (simp add: phase_rel_def phase_statuses_def)

lemma frame_run_phase: "frame_run x y \<Longrightarrow> phase_rel x y"
  by (simp add: phase_rel_def frame_run_def)

lemma status_ok_transfer:
  assumes "rel_option phase_rel (run_at s r) (run_at s' r)" "db_status s' r = db_status s r" "status_ok s r"
  shows "status_ok s' r"
  using assms by (cases "run_at s r"; cases "run_at s' r") (auto simp: status_ok_def phase_rel_statuses)

lemma same_phase_status_ok: "same_phase s s' \<Longrightarrow> status_ok s r \<Longrightarrow> status_ok s' r"
  unfolding same_phase_def by (rule status_ok_transfer) auto

lemma same_phase_has_run:
  assumes "same_phase s s'"
  shows "has_run s' r = has_run s r"
proof -
  have "rel_option phase_rel (run_at s r) (run_at s' r)" using assms by (simp add: same_phase_def)
  then show ?thesis unfolding has_run_def by (cases "run_at s r"; cases "run_at s' r") auto
qed

lemma cinv_same_phase:
  assumes "same_phase s s'" "cinv X s"
  shows "cinv X s'"
proof -
  have "b_runs s' = b_runs s" "w_store (b_world s') = w_store (b_world s)" using assms(1) by (auto simp: same_phase_def)
  then show ?thesis
    using assms(2) same_phase_status_ok [OF assms(1)] same_phase_has_run [OF assms(1)] unfolding cinv_def by simp
qed

lemma rel_option_mono': "rel_option P x y \<Longrightarrow> (\<And>a b. P a b \<Longrightarrow> Q a b) \<Longrightarrow> rel_option Q x y"
  by (cases x; cases y) auto

lemma same_phase_frame:
  assumes "frame s s'" "b_world s' = b_world s"
  shows "same_phase s s'"
proof -
  have "rel_option phase_rel (run_at s r) (run_at s' r)" for r
  proof (rule rel_option_mono' [of frame_run, OF _ frame_run_phase])
    show "rel_option frame_run (run_at s r) (run_at s' r)" using assms(1) by (simp add: frame_def)
  qed
  then show ?thesis using frame_fields(1) [OF assms(1)] assms(2) by (simp add: same_phase_def)
qed

lemma phase_rel_refl [simp]: "phase_rel x x"
  by (simp add: phase_rel_def)

lemma same_phase_heap: "b_heap s' = b_heap s \<Longrightarrow> b_runs s' = b_runs s \<Longrightarrow> b_world s' = b_world s \<Longrightarrow> same_phase s s'"
  by (simp add: same_phase_def rel_option_refl')

lemma same_phase_release: "same_phase s (release r s)"
proof -
  have "rel_option phase_rel (run_at s q) (run_at (release r s) q)" for q
    by (cases "run_at s q") (auto simp: release_frame_parts phase_rel_def)
  then show ?thesis by (simp add: same_phase_def release_frame_parts)
qed

lemmas cinv_frame = cinv_same_phase [OF same_phase_frame]

lemma cinv_upd_exempt:
  assumes ok: "cinv X s" and r: "r \<in> X"
  shows "cinv X (upd_run r f s)"
proof -
  have "status_ok (upd_run r f s) q" if "q \<in> set (b_runs s)" "q \<notin> X" for q
  proof -
    have "q \<noteq> r" using that(2) r by auto
    moreover have "status_ok s q" using ok that by (simp add: cinv_def)
    ultimately show ?thesis by (simp add: status_ok_def)
  qed
  then show ?thesis using ok unfolding cinv_def upd_run_fields has_run_simps by blast
qed

lemma cinv_close:
  assumes ok: "cinv (insert r X) s" and r: "status_ok s r"
  shows "cinv X s"
proof -
  have "status_ok s q" if "q \<in> set (b_runs s)" "q \<notin> X" for q
    using ok r that by (cases "q = r") (simp_all add: cinv_def)
  then show ?thesis using ok unfolding cinv_def by simp
qed

text \<open>Recording for a tracked run changes that run's status and no other.\<close>

lemma record_status:
  assumes ok: "binv Y s" and c: "cinv X s" and r: "r \<in> set (b_runs s)" and run: "run_at s r = Some run"
  shows "status_written (w_store (b_world s)) (w_store (b_world (record_cmd (make_handlers L) r c s))) r (next_status c run)"
proof -
  have h: "r \<in> set (b_handlers s)" "r_run_id run = r"
    using binv_tracked [OF ok r] run by (auto simp: tracked_ok_def)
  obtain old where old: "db_status s r = Some old" "runs_distinct (w_store (b_world s))" using c r by (auto simp: cinv_def)
  obtain run' w' where hc: "handle_command L c run (b_world s) = (run', w')" by fastforce
  then have "b_world (record_cmd (make_handlers L) r c s) = w'"
    using h run by (simp add: record_cmd_def make_handlers_def)
  then show ?thesis using handle_command_status [OF old(2), of run old L c] old(1) h(2) hc by simp
qed

lemma record_phase:
  assumes ok: "binv Y s"
  shows "rel_option phase_rel (run_at s q) (run_at (record_cmd (make_handlers L) r c s) q)"
proof (rule rel_option_mono' [of frame_run, OF _ frame_run_phase])
  show "rel_option frame_run (run_at s q) (run_at (record_cmd (make_handlers L) r c s) q)"
    using fq.frame_record_cmd [OF ok, of L r c] by (simp add: frame_def)
qed

lemma has_run_record: "has_run (record_cmd E r c s) q = has_run s q"
  by simp

lemma cinv_record:
  assumes ok: "binv Y s" and c: "cinv X s" and r: "r \<in> set (b_runs s)"
  shows "cinv (insert r X) (record_cmd (make_handlers L) r c s)"
proof -
  let ?s = "record_cmd (make_handlers L) r c s"
  obtain run where run: "run_at s r = Some run" using tracked_run [OF binv_tracked [OF ok r]] by blast
  have w: "runs_distinct (w_store (b_world ?s))"
    "\<And>q. db_status ?s q = (if q = r then map_option (next_status c run) (db_status s r) else db_status s q)"
    using record_status [OF ok c r run, of L c] by (simp_all add: status_written_def)
  have runs: "b_runs ?s = b_runs s" using fq.frame_record_cmd [OF ok] by (rule frame_fields)
  have "status_ok ?s q" if "status_ok s q" "q \<noteq> r" for q
    by (rule status_ok_transfer [OF record_phase [OF ok] _ that(1)]) (simp add: w that(2))
  then show ?thesis using c w r unfolding cinv_def runs has_run_record by auto
qed

section \<open>Settling, offering, joining\<close>

lemma heap_poke_threads [simp]: "b_heap (poke_threads s) = b_heap s"
proof -
  have "b_heap (fold (\<lambda>h. put_inbox h MPoke) hs s) = b_heap s" for hs
    by (induction hs arbitrary: s) simp_all
  then show ?thesis by (simp add: poke_threads_def)
qed

lemma settle_effect:
  assumes "r \<in> set (b_runs s)" "run_at s r = Some run"
  shows "b_runs (settle h r s) = removeAll r (b_runs s)" "q \<noteq> r \<Longrightarrow> run_at (settle h r s) q = run_at s q"
  using frame_fields(1) [OF frame_poke_threads, of "(settled_core h r run s)\<lparr>b_work_to_do := True\<rparr>"]
  unfolding settle_eq [OF assms] Let_def by (simp_all add: settled_core_def release_frame_parts)

lemma cinv_settle:
  assumes ok: "binv Y s" and c: "cinv X s" and r: "r \<in> set (b_runs s)"
    and done_status: "db_status s r = Some st" "settled_status st"
  shows "cinv (X - {r}) (settle h r s)"
proof -
  obtain run where run: "run_at s r = Some run" using tracked_run [OF binv_tracked [OF ok r]] by blast
  note e = settle_effect [OF r run]
  have "status_ok (settle h r s) q" if "q \<in> set (b_runs s)" "q \<noteq> r" "q \<notin> X" for q
  proof -
    have "status_ok s q" using c that by (simp add: cinv_def)
    then show ?thesis using that(2) by (simp add: status_ok_def e(2))
  qed
  moreover have "\<exists>st. db_status s q = Some st \<and> settled_status st" if "q \<notin> set (b_runs s) \<or> q = r" "has_run (settle h r s) q" for q
  proof (cases "q = r")
    case False
    then have "has_run s q" using that(2) by (simp add: has_run_def e(2))
    then show ?thesis using c that False by (simp add: cinv_def)
  qed (use done_status in simp)
  ultimately show ?thesis using c unfolding cinv_def world_settle e(1) by auto
qed

lemma status_after:
  assumes ok: "binv Y s" and c: "cinv X s" and r: "r \<in> set (b_runs s)" and run: "run_at s r = Some run"
    and old: "db_status s r = Some st"
  shows "db_status (record_cmd (make_handlers L) r c s) r = Some (next_status c run st)"
  using record_status [OF ok c r run, of L c] old by (simp add: status_written_def)

lemma fail_settles_status: "settled_status (next_status (Fail code msg) run st)"
  by (cases st) (simp_all add: next_status_def legal_step_def LEGAL_STATUS_TRANSITIONS_def settled_status_def)

lemma finish_settles_status: "r_claimed_by run \<noteq> None \<Longrightarrow> st \<in> phase_statuses run \<Longrightarrow> settled_status (next_status FinishStream run st)"
  by (cases st) (auto simp: next_status_def legal_step_def LEGAL_STATUS_TRANSITIONS_def settled_status_def
      phase_statuses_def finish_status_def)

lemma cancel_settles_status: "r_claimed_by run = None \<Longrightarrow> settled_status (next_status RequestCancel run st)"
  by (cases st) (simp_all add: next_status_def legal_step_def LEGAL_STATUS_TRANSITIONS_def settled_status_def)

lemma cinv_settle_record:
  assumes ok: "binv Y s" and c: "cinv X s" and r: "r \<in> set (b_runs s)" and run: "run_at s r = Some run"
    and fin: "\<And>st. db_status s r = Some st \<Longrightarrow> settled_status (next_status cmd run st)"
  shows "cinv (X - {r}) (settle h r (record_cmd (make_handlers L) r cmd s))"
proof -
  let ?s = "record_cmd (make_handlers L) r cmd s"
  obtain st where st: "db_status s r = Some st" using c r by (auto simp: cinv_def)
  have "r \<in> set (b_runs ?s)" using r frame_fields(1) [OF fq.frame_record_cmd [OF ok]] by simp
  then have "cinv (insert r X - {r}) (settle h r ?s)"
    using cinv_settle [OF fq.binv_record_cmd [OF ok] cinv_record [OF ok c r]] status_after [OF ok c r run st] fin [OF st] by blast
  then show ?thesis by simp
qed

lemma same_phase_upd_run: "(\<And>x. phase_rel x (f x)) \<Longrightarrow> same_phase s (upd_run r f s)"
  by (simp add: same_phase_def rel_option_refl' option.rel_map)

lemma same_phase_trans:
  assumes "same_phase s s'" "same_phase s' s''"
  shows "same_phase s s''"
proof -
  have "rel_option phase_rel (run_at s r) (run_at s'' r)" for r
    by (rule rel_option_trans' [of phase_rel _ "run_at s' r"]) (use assms in \<open>auto simp: phase_rel_def same_phase_def\<close>)
  then show ?thesis using assms by (simp add: same_phase_def)
qed

lemma cinv_offer:
  assumes off: "offerable i h r s" and c: "cinv {} s"
  shows "cinv {} (offer (make_handlers L) h r i s)"
proof -
  let ?E = "make_handlers L"
  from off obtain t run where ok: "binv {r} s" and h: "hand_at s h = Some t" "r \<in> set (t_live t)"
    and run: "run_at s r = Some run" "unoffered run"
    by (auto simp: offerable_def unoffered_at_def)
  have r: "r \<in> set (b_runs s)" using live_tracked [OF ok h] by simp
  have q: "db_status s r = Some Queued"
    using c r run by (auto simp: cinv_def status_ok_def phase_statuses_def unoffered_def)
  have stay: "cinv {} (if i then upd_hand h (\<lambda>t. t\<lparr>t_queue := insert_second r (t_queue t)\<rparr>) s else s)"
    using c cinv_same_phase [OF same_phase_heap [of "upd_hand h _ s" s]] by simp
  have fail: "cinv {} (settle h r (record_cmd ?E r (Fail code msg) s))" for code msg
    using cinv_settle_record [OF ok c r run(1) fail_settles_status] by simp
  have offered: "cinv {} (offer ?E h r i s)" if cc: "serving (r_agent run) s = Some conn"
    "has_room (provider (c_public_key conn) s)" "env_input_error ?E (r_input_json run) = None" for conn
  proof -
    let ?n = "Suc (r_offer_id run)"
    let ?s = "seat r conn i ?n s"
    have ok': "binv {r} ?s" by (rule binv_seat [OF ok _ r run(1)]) (use run(2) in \<open>auto simp: unoffered_def\<close>)
    have "cinv {r} ?s" unfolding seat_def
      by (rule cinv_same_phase [OF same_phase_heap cinv_upd_exempt [OF cinv_mono [OF c]]]) auto
    moreover have r': "r \<in> set (b_runs ?s)" using r by simp
    moreover obtain x where x: "run_at ?s r = Some x" "r_claimed_by x = None" "r_verdict_open x"
      using run by (auto simp: unoffered_def)
    moreover have "db_status ?s r = Some Queued" using q by simp
    ultimately have c': "cinv {r} (record_cmd ?E r Offer ?s)" "db_status (record_cmd ?E r Offer ?s) r = Some Offering"
      using cinv_record [OF ok', of "{r}" r L Offer] status_after [OF ok', of "{r}" r x Queued L Offer]
      by (simp_all add: next_status_def legal_step_def LEGAL_STATUS_TRANSITIONS_def)
    have "rel_option phase_rel (Some x) (run_at (record_cmd ?E r Offer ?s) r)"
      using record_phase [OF ok', of r L r Offer] unfolding x(1) .
    then have "status_ok (record_cmd ?E r Offer ?s) r"
      using x c'(2) by (cases "run_at (record_cmd ?E r Offer ?s) r")
        (auto simp: status_ok_def phase_statuses_def phase_rel_def)
    then have c'': "cinv {} (record_cmd ?E r Offer ?s)" using c'(1) by (intro cinv_close [of r "{}"]) auto
    have "same_phase (record_cmd ?E r Offer ?s) ((upd_run r (\<lambda>x. x\<lparr>r_handover_task := Some ?n, r_offer_timer := Some ?n\<rparr>)
        (record_cmd ?E r Offer ?s))\<lparr>b_effects := e\<rparr>)" for e
      by (rule same_phase_trans [OF same_phase_upd_run same_phase_heap]) (auto simp: phase_rel_def)
    from cinv_same_phase [OF this c''] show ?thesis using offer_eq [OF run(1) cc, of h i] by (auto simp: Let_def)
  qed
  show ?thesis
    using stay fail offered run(1)
    by (cases "serving (r_agent run) s"; cases "env_input_error ?E (r_input_json run)")
       (auto simp: offer_def [of ?E h r i s] simp del: if_split split: if_splits)
qed

lemma cinv_advance:
  assumes ok: "binv {} s" and c: "cinv {} s"
  shows "cinv {} (advance (make_handlers L) h s)"
proof (cases "hand_at s h")
  case (Some t)
  have shape: "hand_shape s h t" using binv_hand [OF ok Some] by (simp add: hand_ok_def)
  let ?s = "upd_hand h (\<lambda>t. t\<lparr>t_queue := dropWhile (is_settled s) (t_queue t)\<rparr>) s"
  have c': "cinv {} ?s" by (rule cinv_same_phase [OF same_phase_heap c]) simp_all
  have "\<not> is_settled s r" if "r \<in> set (t_queue t)" for r
    using that shape live_unsettled [OF ok Some] unfolding hand_shape_def is_settled_def by (auto split: option.splits)
  then have dw: "dropWhile (is_settled s) (t_queue t) = t_queue t" by (cases "t_queue t") auto
  have "frame s ?s" by (rule frame_upd_hand) (use Some dw in \<open>auto simp: frame_hand_def\<close>)
  then have ok': "binv {} ?s" using ok by (rule binv_frame)
  have t: "hand_at ?s h = Some t" using Some dw by simp
  have offer: "cinv {} (offer (make_handlers L) h r False ?s)"
    if "t_queue t = r # q" "run_at ?s r = Some run" "unoffered run" for r q run
  proof (rule cinv_offer [OF _ c'])
    have "r \<in> set (t_live t)" using that shape by (auto simp: hand_shape_def)
    then show "offerable False h r ?s"
      unfolding offerable_def unoffered_at_def using binv_mono [OF ok'] t that by auto
  qed
  show ?thesis
    unfolding advance_def Let_def t using c' offer by (auto split: list.splits option.splits)
qed (use c in \<open>simp add: advance_def upd_hand_def\<close>)

lemma cinv_join_all:
  assumes "binv {} s" "cinv {} s" "hand_at s h = Some t" "distinct rs" "set rs \<subseteq> set (tl (t_queue t))"
  shows "cinv {} (fold (join_one (make_handlers L) h) rs s)"
  using assms
proof (induction rs arbitrary: s t)
  case (Cons r rs)
  let ?s = "join_one (make_handlers L) h r s"
  have r: "r \<in> set (tl (t_queue t))" using Cons.prems by simp
  from fq.join_one_step [OF Cons.prems(1,3) r] obtain t' where
    t': "binv {} ?s" "hand_at ?s h = Some t'" "set (tl (t_queue t)) - {r} \<subseteq> set (tl (t_queue t'))" by blast
  have "cinv {} (upd_hand h (\<lambda>t. t\<lparr>t_queue := remove1 r (t_queue t)\<rparr>) s)"
    by (rule cinv_same_phase [OF same_phase_heap Cons.prems(2)]) simp_all
  then have "cinv {} ?s" unfolding join_one_def
    by (rule cinv_offer [OF fq.join_offerable [OF Cons.prems(1,3) r]])
  then show ?case using Cons.IH [OF t'(1) _ t'(2)] t'(3) Cons.prems by auto
qed simp

lemma cinv_release_interjections:
  assumes ok: "binv {} s" and c: "cinv {} s"
  shows "cinv {} (release_interjections (make_handlers L) h head_id s)"
proof (cases "hand_at s h")
  case (Some t)
  have "distinct (tl (t_queue t))"
    using binv_hand [OF ok Some] by (simp add: hand_ok_def hand_shape_def distinct_tl)
  then show ?thesis
    using cinv_join_all [OF ok c Some, of "joining_runs t head_id s"] Some
    by (auto simp: release_interjections_def joining_runs_def)
qed (use c in \<open>simp add: release_interjections_def\<close>)

lemma cinv_on_queued:
  assumes ok: "binv {} s" and c: "cinv {} s" and h: "hand_at s h = Some t" "t_inbox t = MQueued r # ms"
  shows "cinv {} (on_queued (make_handlers L) h r (upd_hand h (\<lambda>t. t\<lparr>t_inbox := ms\<rparr>) s))"
proof -
  let ?s = "upd_hand h (\<lambda>u. u\<lparr>t_inbox := ms, t_live := List.insert r (t_live t)\<rparr>) s"
  have eq: "upd_hand h (\<lambda>t. t\<lparr>t_live := List.insert r (t_live t)\<rparr>) (upd_hand h (\<lambda>t. t\<lparr>t_inbox := ms\<rparr>) s) = ?s"
    using h by (simp add: upd_hand_def dput_dput_same)
  have same: "cinv {} (upd_hand h g ?s)" "cinv {} ?s" for g
    by (rule cinv_same_phase [OF same_phase_heap c]; simp)+
  have shape: "hand_shape s h t" and phases: "hand_phases {} s t"
    using binv_hand [OF ok h(1)] by (simp_all add: hand_ok_def)
  have "unoffered_at s r" using phases h(2) by (simp add: hand_phases_def)
  moreover have "r \<notin> set (t_queue t)" using shape h(2) unfolding hand_shape_def by auto
  ultimately have "offerable True h r ?s"
    using fq.binv_read_queued [OF ok h] h by (simp add: offerable_def unoffered_at_def)
  then have "cinv {} (offer (make_handlers L) h r True ?s)" using same(2) by (rule cinv_offer)
  then show ?thesis
    unfolding on_queued_def eq Let_def using same by (auto split: list.splits option.splits prod.splits)
qed

section \<open>The handlers\<close>

lemma run_at_others:
  assumes "q \<noteq> r"
  shows "run_at (record_cmd E q c s) r = run_at s r" "run_at (settle h q s) r = run_at s r"
    "run_at (offer E h q i s) r = run_at s r" "run_at (join_one E h q s) r = run_at s r"
proof -
  show rec: "run_at (record_cmd E q c s) r = run_at s r" for c s
    using assms by (auto simp: record_cmd_def split: option.splits)
  show settle: "run_at (settle h q s) r = run_at s r" for s
    using assms by (auto simp: settle_def forget_def Let_def release_frame_parts split: option.splits)
  have offer: "run_at (offer E h q i s) r = run_at s r" for i s
    using assms by (auto simp: offer_def Let_def rec settle split: option.splits)
  then show "run_at (offer E h q i s) r = run_at s r" .
  show "run_at (join_one E h q s) r = run_at s r" by (simp add: join_one_def offer)
qed

lemma run_release_interjections:
  assumes ok: "binv {} s" and run: "run_at s r = Some run" "r_claimed_by run \<noteq> None"
  shows "run_at (release_interjections E h head_id s) r = Some run"
proof (cases "hand_at s h")
  case (Some t)
  have "r \<notin> set (tl (t_queue t))"
    using binv_hand [OF ok Some] run by (force simp: hand_ok_def hand_phases_def unoffered_at_def unoffered_def)
  then have "r \<notin> set (joining_runs t head_id s)" by (auto simp: joining_runs_def)
  moreover have "run_at (fold (join_one E h) js s) r = run_at s r" if "r \<notin> set js" for js
    using that by (induction js arbitrary: s) (auto simp: run_at_others)
  ultimately show ?thesis using Some run by (simp add: release_interjections_def)
qed (use run in \<open>simp add: release_interjections_def\<close>)

lemma untracked_record: "binv X s \<Longrightarrow> r \<notin> set (b_runs s) \<Longrightarrow> record_cmd E r c s = s"
  using recorded_tracked by (fastforce simp: record_cmd_def)

lemma cinv_record_keep:
  assumes ok: "binv Y s" and c: "cinv {} s" and run: "run_at s r = Some run"
    and keep: "\<And>st. st \<in> phase_statuses run \<Longrightarrow> next_status cmd run st \<in> phase_statuses run"
  shows "cinv {} (record_cmd (make_handlers L) r cmd s)"
proof (cases "r \<in> set (b_runs s)")
  case True
  let ?s = "record_cmd (make_handlers L) r cmd s"
  obtain st where st: "db_status s r = Some st" "st \<in> phase_statuses run"
    using c True run by (auto simp: cinv_def status_ok_def)
  have "rel_option phase_rel (Some run) (run_at ?s r)"
    using record_phase [OF ok, of r L r cmd] unfolding run .
  then have "status_ok ?s r"
    using status_after [OF ok c True run st(1), of L cmd] keep [OF st(2)]
    by (cases "run_at ?s r") (auto simp: status_ok_def phase_rel_statuses)
  moreover have "cinv (insert r {}) ?s" by (rule cinv_record [OF ok c True])
  ultimately show ?thesis by (intro cinv_close [of r "{}"])
qed (use c untracked_record [OF ok] in simp)

lemma cancel_keeps_phase:
  "r_claimed_by run \<noteq> None \<Longrightarrow> st \<in> phase_statuses run \<Longrightarrow> next_status RequestCancel run st \<in> phase_statuses run"
  by (auto simp: phase_statuses_def next_status_def legal_step_def LEGAL_STATUS_TRANSITIONS_def)

lemma cinv_claim:
  assumes ok: "binv {} s" and c: "cinv {} s" and h: "hand_at s h = Some t" "r \<in> set (t_live t)"
    and run: "run_at s r = Some run" "r_offered_to run = Some k" "r_verdict_open run"
  shows "cinv {} (record_cmd (make_handlers L) r Claim
    (upd_run r (\<lambda>x. x\<lparr>r_claimed_by := Some k, r_cancel_notify := r_offered_conn x\<rparr>) (close_verdict r s)))" (is "cinv _ (record_cmd _ _ _ ?s)")
proof -
  have r: "r \<in> set (b_runs s)" using live_tracked [OF ok h] by simp
  have "r_claimed_by run = None" using binv_run_ok [OF ok r _ run(1)] run(3) by (simp add: run_ok_def)
  then have st: "db_status s r = Some Offering"
    using c r run by (auto simp: cinv_def status_ok_def phase_statuses_def)
  have ok1: "binv {} ?s" by (rule fq.binv_claim [OF ok h run(1,2)])
  have c1: "cinv {r} ?s" unfolding close_verdict_def
    by (intro cinv_upd_exempt cinv_mono [OF c]) auto
  obtain x where x: "run_at ?s r = Some x" "r_claimed_by x = Some k" using run by (auto simp: close_verdict_def)
  have r1: "r \<in> set (b_runs ?s)" and st1: "db_status ?s r = Some Offering" using r st by (simp_all add: close_verdict_def)
  let ?t = "record_cmd (make_handlers L) r Claim ?s"
  have "db_status ?t r = Some Running"
    using status_after [OF ok1 c1 r1 x(1) st1, of L Claim]
    by (simp add: next_status_def legal_step_def LEGAL_STATUS_TRANSITIONS_def)
  moreover have "rel_option phase_rel (Some x) (run_at ?t r)"
    using record_phase [OF ok1, of r L r Claim] unfolding x(1) .
  ultimately have "status_ok ?t r"
    using x(2) by (cases "run_at ?t r") (auto simp: status_ok_def phase_statuses_def phase_rel_def)
  moreover have "cinv (insert r {}) ?t" using cinv_record [OF ok1 c1 r1, of L Claim] by simp
  ultimately show ?thesis by (intro cinv_close [of r "{}"])
qed

lemma cinv_on_accepted:
  assumes ok: "binv {} s" and c: "cinv {} s" and h: "hand_at s h = Some t" "r \<in> set (t_live t)"
    and run: "run_at s r = Some run" "r_offered_to run = Some k" "r_verdict_open run"
  shows "cinv {} (on_accepted (make_handlers L) h r k (close_verdict r s))"
proof -
  let ?E = "make_handlers L"
  let ?s1 = "upd_run r (\<lambda>x. x\<lparr>r_claimed_by := Some k, r_cancel_notify := r_offered_conn x\<rparr>) (close_verdict r s)"
  define s2 where "s2 = record_cmd ?E r Claim ?s1"
  have ok1: "binv {} ?s1" by (rule fq.binv_claim [OF ok h run(1,2)])
  have ok2: "binv {} s2" and c2: "cinv {} s2"
    unfolding s2_def using fq.binv_record_cmd [OF ok1] cinv_claim [OF ok c h run] by auto
  obtain x where x: "run_at ?s1 r = Some x" "r_claimed_by x = Some k" using run by (auto simp: close_verdict_def)
  have "rel_option phase_rel (Some x) (run_at s2 r)"
    using record_phase [OF ok1, of r L r Claim] unfolding x(1) s2_def .
  then obtain y where y: "run_at s2 r = Some y" "r_claimed_by y \<noteq> None"
    using x(2) by (cases "run_at s2 r") (auto simp: phase_rel_def)
  have "cinv {} (snd (push r f s2))" for f using c2 by (intro cinv_frame [OF frame_doors(4)]) simp_all
  moreover define s3 where "s3 = (if \<not> r_is_interjection y then release_interjections ?E h r s2 else s2)"
  have s3: "binv {} s3" "cinv {} s3" "run_at s3 r = Some y"
    unfolding s3_def using ok2 c2 y fq.binv_release_interjections cinv_release_interjections
      run_release_interjections [OF ok2 y] by auto
  moreover have "cinv {} (record_cmd ?E r RequestCancel s3)"
    by (rule cinv_record_keep [OF s3 cancel_keeps_phase]) (use y in auto)
  ultimately show ?thesis
    unfolding on_accepted_def Let_def s2_def [symmetric] using y s3
    by (auto simp: s3_def [symmetric] simp del: if_split)
qed

lemma release_close_ok:
  assumes ok: "binv {} s" and c: "cinv {} s" and h: "hand_at s h = Some t" "r \<in> set (t_live t)"
  shows "binv {r} (release r (close_verdict r s))" "cinv {r} (release r (close_verdict r s))"
    "r \<in> set (b_runs (release r (close_verdict r s)))"
proof -
  note close = fq.close_verdict_exempt [OF ok h]
  show "binv {r} (release r (close_verdict r s))" using release_exempt_ok [OF close h(2)] by simp
  have "cinv {r} (close_verdict r s)" unfolding close_verdict_def
    by (intro cinv_upd_exempt cinv_mono [OF c]) auto
  then show "cinv {r} (release r (close_verdict r s))" by (rule cinv_same_phase [OF same_phase_release])
  show "r \<in> set (b_runs (release r (close_verdict r s)))"
    using live_tracked [OF ok h] by (simp add: release_frame_parts close_verdict_def)
qed

text \<open>Fail, or cancel if no one has claimed it: either way the row gets a final status and the run goes.\<close>

lemma cinv_end_record:
  assumes ok: "binv {r} s" and c: "cinv {r} s" and r: "r \<in> set (b_runs s)"
  shows "cinv {} (settle h r (record_cmd (make_handlers L) r (Fail code msg) s))"
    "run_at s r = Some run \<Longrightarrow> r_claimed_by run = None \<Longrightarrow>
      cinv {} (settle h r (record_cmd (make_handlers L) r RequestCancel s))"
proof -
  obtain x where x: "run_at s r = Some x" using tracked_run [OF binv_tracked [OF ok r]] by blast
  show "cinv {} (settle h r (record_cmd (make_handlers L) r (Fail code msg) s))"
    using cinv_settle_record [OF ok c r x fail_settles_status] by simp
  show "cinv {} (settle h r (record_cmd (make_handlers L) r RequestCancel s))"
    if "run_at s r = Some run" "r_claimed_by run = None"
    using cinv_settle_record [OF ok c r that(1) cancel_settles_status [OF that(2)]] by simp
qed

lemma cinv_on_answered:
  assumes ok: "binv {} s" and c: "cinv {} s"
  shows "cinv {} (on_answered (make_handlers L) h r k v s)"
proof (cases "\<exists>run. live_run h r s = Some run \<and> r_verdict_open run \<and> r_offered_to run = Some k")
  case True
  then obtain run t where run: "run_at s r = Some run" "r_verdict_open run" "r_offered_to run = Some k"
    and lr: "live_run h r s = Some run" and h: "hand_at s h = Some t" "r \<in> set (t_live t)"
    by (blast elim: live_runD)
  define s1 where "s1 = release r (close_verdict r s)"
  note rel = release_close_ok [OF ok c h, folded s1_def]
  have r: "r \<in> set (b_runs s)" using live_tracked [OF ok h] by simp
  have unclaimed: "r_claimed_by run = None" using binv_run_ok [OF ok r _ run(1)] run(2) by (simp add: run_ok_def)
  obtain x where x: "run_at s1 r = Some x" "r_claimed_by x = None"
    using run unclaimed by (auto simp: s1_def release_frame_parts close_verdict_def)
  have f: "frame s1 (note_misdeclared k s1)" by (rule frame_note_misdeclared)
  have rel': "binv {r} (note_misdeclared k s1)" "cinv {r} (note_misdeclared k s1)" "r \<in> set (b_runs (note_misdeclared k s1))"
    using binv_frame [OF f rel(1)] cinv_frame [OF f _ rel(2)] frame_fields(1) [OF f] rel(3) by simp_all
  show ?thesis
    unfolding on_answered_def lr Let_def s1_def [symmetric]
    using cinv_end_record [OF rel] cinv_end_record [OF rel'] x cinv_on_accepted [OF ok c h run(1,3,2)] run
    by (auto split: verdict.splits bool.splits)
qed (use c in \<open>auto simp: on_answered_def split: option.splits\<close>)

lemma cinv_record_and_maybe_settle:
  assumes ok: "binv {} s" and c: "cinv {} s" and h: "hand_at s h = Some t" "r \<in> set (t_live t)"
    and run: "run_at s r = Some run" "r_claimed_by run \<noteq> None" and cmd: "cmd = FinishStream \<or> relays cmd"
  shows "cinv {} (record_and_maybe_settle (make_handlers L) h r cmd s)"
proof -
  let ?E = "make_handlers L"
  define s1 where "s1 = record_cmd ?E r cmd s"
  have r: "r \<in> set (b_runs s)" using live_tracked [OF ok h] by simp
  have ok1: "binv {r} s1" unfolding s1_def by (rule binv_mono [OF fq.binv_record_cmd [OF ok]]) simp
  have c1: "cinv {r} s1" unfolding s1_def using cinv_record [OF ok c r] by simp
  have r1: "r \<in> set (b_runs s1)" using r frame_fields(1) [OF fq.frame_record_cmd [OF ok]] by (simp add: s1_def)
  note poison = cinv_end_record(1) [OF ok1 c1 r1]
  have finish: "cinv {} (settle h r s1)" if "cmd = FinishStream"
  proof -
    obtain st where st: "db_status s r = Some st" "st \<in> phase_statuses run"
      using c r run by (auto simp: cinv_def status_ok_def)
    then have "db_status s1 r = Some (next_status FinishStream run st)"
      using status_after [OF ok c r run(1) st(1), of L cmd] that by (simp add: s1_def)
    from cinv_settle [OF ok1 c1 r1 this] finish_settles_status [OF run(2) st(2)] show ?thesis by simp
  qed
  have relay: "cinv {} s1" if "relays cmd"
    unfolding s1_def by (rule cinv_record_keep [OF ok c run(1)]) (use that in \<open>auto simp: relays_def next_status_def\<close>)
  have "has_run s r" using run by (simp add: has_run_def)
  then have "has_run s1 r" by (simp add: s1_def)
  then obtain y where "run_at s1 r = Some y" by (auto simp: has_run_def)
  then show ?thesis
    unfolding record_and_maybe_settle_def Let_def s1_def [symmetric]
    using cmd poison finish relay by (auto simp: relays_def split: option.splits)
qed

lemma cinv_on_said:
  assumes ok: "binv {} s" and c: "cinv {} s" and cmd: "cmd = FinishStream \<or> relays cmd"
  shows "cinv {} (on_said (make_handlers L) h r k cmd s)"
proof (cases "\<exists>run. live_run h r s = Some run \<and> r_claimed_by run = Some k")
  case True
  then obtain run t where lr: "live_run h r s = Some run" "r_claimed_by run = Some k"
    and h: "hand_at s h = Some t" "r \<in> set (t_live t)" "run_at s r = Some run" by (blast elim: live_runD)
  then show ?thesis using cinv_record_and_maybe_settle [OF ok c h] cmd by (simp add: on_said_def)
qed (use c in \<open>auto simp: on_said_def split: option.splits\<close>)

lemma cinv_on_cancel_asked:
  assumes ok: "binv {} s" and c: "cinv {} s"
  shows "cinv {} (on_cancel_asked (make_handlers L) h r s)"
proof (cases "live_run h r s")
  case (Some run)
  then obtain t where h: "hand_at s h = Some t" "r \<in> set (t_live t)" "run_at s r = Some run" by (blast elim: live_runD)
  define s1 where "s1 = upd_run r (\<lambda>x. x\<lparr>r_cancel_requested := True\<rparr>) s"
  have f: "frame s s1" unfolding s1_def by (rule fq.frame_mark)
  have ok1: "binv {} s1" using binv_frame [OF f ok] .
  have c1: "cinv {} s1" by (rule cinv_frame [OF f _ c]) (simp add: s1_def)
  have r1: "r \<in> set (b_runs s1)" using live_tracked [OF ok h(1,2)] by (simp add: s1_def)
  have run1: "run_at s1 r = Some (run\<lparr>r_cancel_requested := True\<rparr>)" using h by (simp add: s1_def)
  have "cinv {} (settle h r (record_cmd (make_handlers L) r RequestCancel s1))" if "r_claimed_by run = None"
    using cinv_end_record(2) [OF binv_mono [OF ok1] cinv_mono [OF c1] r1 run1] that by simp
  moreover have "cinv {} (record_cmd (make_handlers L) r RequestCancel s1)" if "r_claimed_by run \<noteq> None"
    by (rule cinv_record_keep [OF ok1 c1 run1 cancel_keeps_phase]) (use that in auto)
  ultimately show ?thesis unfolding on_cancel_asked_def Some Let_def s1_def [symmetric] using c1 by simp
qed (use c in \<open>simp add: on_cancel_asked_def\<close>)

lemma cinv_on_failed:
  assumes ok: "binv {} s" and c: "cinv {} s"
  shows "cinv {} (on_trusted (make_handlers L) h r (Fail code msg) s)"
proof (cases "live_run h r s")
  case (Some run)
  then obtain t where h: "hand_at s h = Some t" "r \<in> set (t_live t)" "run_at s r = Some run" by (blast elim: live_runD)
  have r: "r \<in> set (b_runs s)" using live_tracked [OF ok h(1,2)] by simp
  have "cinv {} (settle h r (record_cmd (make_handlers L) r (Fail code msg) s1))"
    if f: "frame s s1" and w: "b_world s1 = b_world s" for s1
    by (rule cinv_end_record(1) [OF binv_mono [OF binv_frame [OF f ok]] cinv_mono [OF cinv_frame [OF f w c]]])
       (use r frame_fields(1) [OF f] in auto)
  moreover have "frame s (note_abnormal k e (upd_run r (\<lambda>x. x\<lparr>r_noted_abnormal := True\<rparr>) s))" for k e
    by (rule frame_trans [OF fq.frame_mark(2) frame_note_abnormal])
  ultimately show ?thesis
    unfolding on_trusted_def Some Let_def by (auto split: option.splits)
qed (use c in \<open>simp add: on_trusted_def\<close>)

lemma cinv_on_undelivered: "cinv {} s \<Longrightarrow> cinv {} (on_undelivered h r s)"
  unfolding on_undelivered_def
  by (auto intro!: cinv_frame [OF frame_trans [OF fq.frame_mark(2) frame_note_abnormal]] split: option.splits)

lemma cinv_on_offer_lapsed:
  assumes ok: "binv {} s" and c: "cinv {} s"
  shows "cinv {} (on_offer_lapsed (make_handlers L) h r n s)"
proof (cases "\<exists>run. live_run h r s = Some run \<and> r_verdict_open run \<and> r_offer_id run = n")
  case True
  then obtain run t where lr: "live_run h r s = Some run" and h: "hand_at s h = Some t" "r \<in> set (t_live t)"
    and run: "run_at s r = Some run" and cond: "r_verdict_open run" "r_offer_id run = n"
    by (blast elim: live_runD)
  let ?m = "upd_run r (\<lambda>x. x\<lparr>r_handover_task := None\<rparr>) (close_verdict r s)"
  define s1 where "s1 = (case r_offered_to run of None \<Rightarrow> ?m | Some k \<Rightarrow> note_abnormal k Unanswered ?m)"
  note close = fq.close_verdict_exempt [OF ok h]
  have f: "frame (close_verdict r s) s1"
    unfolding s1_def using fq.frame_mark(3) frame_trans [OF fq.frame_mark(3) frame_note_abnormal] by (auto split: option.splits)
  have w: "b_world s1 = b_world (close_verdict r s)" by (simp add: s1_def split: option.splits)
  have cc: "cinv {r} (close_verdict r s)" unfolding close_verdict_def by (intro cinv_upd_exempt cinv_mono [OF c]) auto
  obtain t' where h': "hand_at s1 h = Some t'" "r \<in> set (t_live t')" using frame_held [OF f close(2) h(2)] by blast
  have "binv {r} s1" by (rule binv_frame [OF f close(1)])
  then have ok2: "binv {r} (release r s1)" using release_exempt_ok [OF _ h', of "{r}"] by simp
  have c2: "cinv {r} (release r s1)" by (rule cinv_same_phase [OF same_phase_release cinv_frame [OF f w cc]])
  have r: "r \<in> set (b_runs s)" using live_tracked [OF ok h] by simp
  then have r2: "r \<in> set (b_runs (release r s1))"
    using frame_fields(1) [OF f] by (simp add: release_frame_parts close_verdict_def)
  have "r_claimed_by run = None" using binv_run_ok [OF ok r _ run] cond(1) by (simp add: run_ok_def)
  moreover obtain x where x: "run_at s1 r = Some x" "phase_rel (run\<lparr>r_verdict_open := False, r_offer_timer := None\<rparr>) x"
    using frame_runD [OF f, of r] run frame_run_phase by (fastforce simp: close_verdict_def)
  ultimately have "\<exists>y. run_at (release r s1) r = Some y \<and> r_claimed_by y = None"
    by (simp add: release_frame_parts phase_rel_def)
  then show ?thesis unfolding on_offer_lapsed_def lr Let_def using cond s1_def cinv_end_record [OF ok2 c2 r2] by auto
qed (use c in \<open>auto simp: on_offer_lapsed_def split: option.splits\<close>)

section \<open>The dispatcher inside funduq\<close>

text \<open>
  Who calls the dispatcher, and how. \<open>rest_of_funduq\<close> is what the other parts may do to the database:
  keep its keys distinct and the status of every run the dispatcher has made an object for. A run is
  queued with its row there, in status queued (\<^verbatim>\<open>Funduq.enqueue_run\<close> after \<^verbatim>\<open>repo.create_run\<close> was
  committed, and the queued rows at start).
\<close>

definition rest_of_funduq :: "world broker \<Rightarrow> world \<Rightarrow> bool" where
  "rest_of_funduq s w \<longleftrightarrow>
     runs_distinct (w_store w) \<and> (\<forall>r. has_run s r \<longrightarrow> status_of (w_store w) r = db_status s r)"

inductive fq_step :: "event_lib \<Rightarrow> world broker \<Rightarrow> world broker \<Rightarrow> bool" for L where
  fq_start: "fq_step L s (start_broker s)"
| fq_stop: "fq_step L s (stop_broker s)"
| fq_enqueue: "\<not> has_run s r \<Longrightarrow> db_status s r = Some Queued \<Longrightarrow>
    enqueue_run r a x input seq adr s = Some s' \<Longrightarrow> fq_step L s s'"
| fq_answer: "fq_step L s (snd (answer_offer r v k s))"
| fq_report: "fq_step L s (snd (report_event r e k s))"
| fq_finish: "fq_step L s (snd (finish_stream r k s))"
| fq_fail: "fq_step L s (snd (push r (Fail code msg) s))"
| fq_undelivered: "fq_step L s (snd (note_undelivered r s))"
| fq_cancel: "fq_step L s (snd (request_cancel r s))"
| fq_register: "fq_step L s (register_provider mapping s)"
| fq_unregister: "fq_step L s (unregister_provider refs s)"
| fq_lapse: "fq_step L s (put_inbox h (MOfferLapsed r n) s)"
| fq_handle: "handle_next (make_handlers L) h s = Some s' \<Longrightarrow> fq_step L s s'"
| fq_sweep: "fq_step L s (sweep_pass n s)"
| fq_subscribe: "fq_step L s (snd (subscribe r s))"
| fq_drain: "drain_step r s = Some (e, s') \<Longrightarrow> fq_step L s s'"
| fq_time: "n \<ge> b_now s \<Longrightarrow> fq_step L s (s\<lparr>b_now := n\<rparr>)"
| fq_world: "rest_of_funduq s w \<Longrightarrow> fq_step L s (s\<lparr>b_world := w\<rparr>)"

inductive fq_reach :: "event_lib \<Rightarrow> world broker \<Rightarrow> bool" for L where
  fq_init: "runs_distinct (w_store w) \<Longrightarrow> fq_reach L (new_broker tolerance now w)"
| fq_next: "fq_reach L s \<Longrightarrow> fq_step L s s' \<Longrightarrow> fq_reach L s'"

lemma fq_step_broker: "fq_step L s s' \<Longrightarrow> broker_step (make_handlers L) s s'"
  by (induction rule: fq_step.induct) (auto intro: broker_step.intros simp: has_run_def)

lemma fq_reach_broker: "fq_reach L s \<Longrightarrow> broker_reach (make_handlers L) s"
  by (induction rule: fq_reach.induct) (auto intro: broker_reach.intros fq_step_broker)

text \<open>The reports in the inboxes are what the doors take: events and ends of stream; what is trusted is a failure.\<close>

definition message_ok :: "message \<Rightarrow> bool" where
  "message_ok m = (case m of MSaid r k c \<Rightarrow> c = FinishStream \<or> relays c | MTrusted r c \<Rightarrow> \<exists>code msg. c = Fail code msg | _ \<Rightarrow> True)"

definition inboxes_ok :: "'w broker \<Rightarrow> bool" where
  "inboxes_ok s \<longleftrightarrow> (\<forall>h t. hand_at s h = Some t \<longrightarrow> list_all message_ok (t_inbox t))"

definition inbox_grow :: "'w broker \<Rightarrow> 'w broker \<Rightarrow> bool" where
  "inbox_grow s s' \<longleftrightarrow> (inboxes_ok s \<longrightarrow> inboxes_ok s')"

lemma inbox_grow_upd_hand:
  "(\<And>t. set (t_inbox (j t)) \<subseteq> set (t_inbox t)) \<Longrightarrow> inbox_grow s (upd_hand h j s)"
  by (auto simp: inbox_grow_def inboxes_ok_def list_all_iff split: if_splits) (metis subsetD)

lemma inbox_grow_put: "message_ok m \<Longrightarrow> inbox_grow s (put_inbox h m s)"
  by (auto simp: inbox_grow_def inboxes_ok_def dput_comm_reads split: if_splits)

interpretation inbox: loose_relation inbox_grow E "\<lambda>_. True" for E
proof
  show "inbox_grow s s''" if "inbox_grow s s'" "inbox_grow s' s''" for s s' s'' :: "'a broker"
    using that by (simp add: inbox_grow_def)
  show "inbox_grow s s'" if "b_hands s' = b_hands s" for s s' :: "'a broker"
    using that by (simp add: inbox_grow_def inboxes_ok_def)
  show "inbox_grow s (record_cmd E r cmd s)" for cmd r and s :: "'a broker"
    by (auto simp: record_cmd_def inbox_grow_def inboxes_ok_def split: option.splits)
  show "inbox_grow s (upd_hand h (\<lambda>t. t\<lparr>t_inbox := tl (t_inbox t)\<rparr>) s)" for h and s :: "'a broker"
    by (rule inbox_grow_upd_hand) (simp add: set_tl_subset)
qed (simp_all add: inbox_grow_upd_hand inbox_grow_put message_ok_def, simp_all add: inbox_grow_def inboxes_ok_def)

lemma inboxes_ok_same: "b_hands s' = b_hands s \<Longrightarrow> inboxes_ok s \<Longrightarrow> inboxes_ok s'"
  by (simp add: inboxes_ok_def)

lemma inboxes_ok_post: "message_ok m \<Longrightarrow> inboxes_ok s \<Longrightarrow> inboxes_ok (snd (post r m s))"
  using inbox_grow_put by (auto simp: post_def inbox_grow_def split: option.splits)

lemma inboxes_ok_enqueue: "enqueue_run r a x input seq adr s = Some s' \<Longrightarrow> inboxes_ok s \<Longrightarrow> inboxes_ok s'"
  by (auto simp: enqueue_run_def thread_handler_for_def Let_def inboxes_ok_def dput_comm_reads message_ok_def
      split: if_splits option.splits prod.splits)

lemma inboxes_ok_register: "inboxes_ok s \<Longrightarrow> inboxes_ok (register_provider mapping s)"
proof -
  assume ok: "inboxes_ok s"
  have "b_hands (fold register_one mapping s) = b_hands s"
    by (induction mapping arbitrary: s) (simp_all add: register_one_parts)
  then have "inboxes_ok (fold register_one mapping s)" using ok by (simp add: inboxes_ok_def)
  moreover have "inbox_grow s' (fold poke_agent refs (s'\<lparr>b_work_to_do := True\<rparr>))" for refs and s' :: "'a broker"
    by (rule inbox.R_trans [OF inbox.R_flags(1) inbox.R_fold]) (rule inbox.R_poke)
  ultimately show ?thesis unfolding register_provider_def inbox_grow_def by blast
qed

lemma inboxes_ok_step:
  assumes "fq_step L s s'" "inboxes_ok s"
  shows "inboxes_ok s'"
  using assms
proof (induction rule: fq_step.induct)
  case (fq_handle h s s')
  obtain t m ms where "hand_at s h = Some t" "t_inbox t = m # ms"
    using fq_handle(1) by (auto simp: handle_next_def split: option.splits if_splits list.splits)
  from inbox.R_handle_next [OF fq_handle(1) this] show ?case using fq_handle(2) by (simp add: inbox_grow_def)
next
  case (fq_sweep s n)
  have "inbox_grow s (snd (expire_queued n s))"
    by (auto simp: expire_queued_def Let_def intro!: inbox.R_fold inbox.R_push)
  then have "inbox_grow s (sweep_pass n s)" unfolding sweep_pass_def
    by (intro inbox.R_trans [OF _ inbox.R_poke(1)] inbox.R_trans [OF _ inbox.R_flags(1)])
  then show ?case using fq_sweep by (simp add: inbox_grow_def)
next
  case (fq_drain r s e s')
  then show ?case
    by (auto simp: drain_step_def intro: inboxes_ok_same split: option.splits list.splits out_item.splits)
next
  case (fq_unregister s refs)
  then show ?case using inbox.R_unregister_provider by (auto simp: inbox_grow_def)
next
  case (fq_lapse s h r n)
  then show ?case using inbox_grow_put [of "MOfferLapsed r n" s h] by (simp add: inbox_grow_def message_ok_def)
next
  case (fq_cancel s r)
  then show ?case unfolding request_cancel_def
    using inboxes_ok_post [of "MCancelAsked r" "upd_run r (\<lambda>r. r\<lparr>r_cancel_requested := True\<rparr>) s"]
      inboxes_ok_same [of "upd_run r (\<lambda>r. r\<lparr>r_cancel_requested := True\<rparr>) s" s] by (simp add: message_ok_def)
qed (auto simp: start_broker_def stop_broker_def subscribe_def answer_offer_def report_event_def finish_stream_def
    push_def note_undelivered_def message_ok_def relays_def
    intro: inboxes_ok_same inboxes_ok_post inboxes_ok_enqueue inboxes_ok_register split: option.splits)

lemma cinv_dispatch:
  assumes ok: "binv {} s" and c: "cinv {} s" and h: "hand_at s h = Some t" "t_inbox t = m # ms" and m: "message_ok m"
  shows "cinv {} (dispatch_message (make_handlers L) h m (upd_hand h (\<lambda>t. t\<lparr>t_inbox := ms\<rparr>) s))"
proof (cases "\<exists>r. m = MQueued r")
  case True
  then show ?thesis using cinv_on_queued [OF ok c h(1)] h(2) by auto
next
  case False
  let ?s = "upd_hand h (\<lambda>t. t\<lparr>t_inbox := ms\<rparr>) s"
  have "queued_ids (m # ms) = queued_ids ms" using False by (cases m) auto
  then have f: "frame s ?s"
    by (intro frame_upd_hand) (use h in \<open>auto simp: frame_hand_def\<close>)
  have ok': "binv {} ?s" by (rule binv_frame [OF f ok])
  have c': "cinv {} ?s" by (rule cinv_frame [OF f _ c]) simp
  show ?thesis
    using False m ok' c'
    by (cases m) (auto simp: message_ok_def cinv_on_answered cinv_on_said cinv_on_failed cinv_on_cancel_asked
        cinv_on_offer_lapsed cinv_on_undelivered)
qed

lemma cinv_leave: "cinv {} s \<Longrightarrow> cinv {} (leave_if_idle h s)"
  by (erule cinv_same_phase [rotated], rule same_phase_heap)
     (simp_all add: leave_if_idle_def Let_def split: option.splits)

lemma cinv_handle_next:
  assumes ok: "binv {} s" and c: "cinv {} s" and i: "inboxes_ok s" and n: "handle_next (make_handlers L) h s = Some s'"
  shows "cinv {} s'"
proof -
  obtain t m ms where t: "hand_at s h = Some t" "t_inbox t = m # ms"
    using n by (auto simp: handle_next_def split: option.splits if_splits list.splits)
  let ?d = "dispatch_message (make_handlers L) h m (upd_hand h (\<lambda>t. t\<lparr>t_inbox := ms\<rparr>) s)"
  have "list_all message_ok (m # ms)" using i t unfolding inboxes_ok_def by metis
  then have "message_ok m" by simp
  then have "cinv {} ?d" by (rule cinv_dispatch [OF ok c t])
  moreover have "binv {} ?d" by (rule fq.binv_dispatch [OF ok t])
  ultimately have "cinv {} (leave_if_idle h (advance (make_handlers L) h ?d))" by (intro cinv_leave cinv_advance)
  then show ?thesis using n t by (simp add: handle_next_def on_message_def split: if_splits)
qed

lemma cinv_enqueue:
  assumes c: "cinv {} s" and fresh: "\<not> has_run s r" and row: "db_status s r = Some Queued"
    and e: "enqueue_run r a x input seq adr s = Some s'"
  shows "cinv {} s'"
proof -
  obtain h s1 where hs: "thread_handler_for x a s = (h, s1)" by fastforce
  have s1: "b_heap s1 = b_heap s" "b_world s1 = b_world s" "b_runs s1 = b_runs s"
    using hs by (auto simp: thread_handler_for_def Let_def split: option.splits if_splits)
  have s': "b_heap s' = dput r (new_run r a x input (b_now s) seq adr) (b_heap s)" "b_world s' = b_world s"
    "set (b_runs s') = insert r (set (b_runs s))"
    using e hs s1 by (auto simp: enqueue_run_def Let_def split: if_splits)
  have "status_ok s' r"
    using row by (simp add: status_ok_def s' phase_statuses_def new_run_def)
  moreover have "status_ok s' q" if "q \<in> set (b_runs s)" "q \<noteq> r" for q
  proof -
    have "status_ok s q" using c that by (simp add: cinv_def)
    then show ?thesis using that(2) by (simp add: status_ok_def s')
  qed
  moreover have "has_run s' q \<longleftrightarrow> q = r \<or> has_run s q" for q by (simp add: has_run_def s')
  ultimately show ?thesis using c row unfolding cinv_def s' by auto
qed

lemma cinv_world: "cinv {} s \<Longrightarrow> binv {} s \<Longrightarrow> rest_of_funduq s w \<Longrightarrow> cinv {} (s\<lparr>b_world := w\<rparr>)"
proof -
  assume c: "cinv {} s" and ok: "binv {} s" and w: "rest_of_funduq s w"
  have has: "has_run s r" if "r \<in> set (b_runs s)" for r
    using tracked_run [OF binv_tracked [OF ok that]] by (auto simp: has_run_def)
  have st: "status_of (w_store w) r = db_status s r" if "has_run s r" for r
    using w that by (simp add: rest_of_funduq_def)
  have "status_ok (s\<lparr>b_world := w\<rparr>) r" if "r \<in> set (b_runs s)" for r
  proof -
    have "status_ok s r" using c that by (simp add: cinv_def)
    then show ?thesis using st [OF has [OF that]] by (simp add: status_ok_def)
  qed
  moreover have "has_run (s\<lparr>b_world := w\<rparr>) r = has_run s r" for r by (simp add: has_run_def)
  ultimately show ?thesis using c w has st unfolding cinv_def by (simp add: rest_of_funduq_def)
qed

lemma world_register_one: "b_world (register_one m s) = b_world s"
  by (simp add: register_one_def Let_def split: prod.splits)

lemma cinv_step:
  assumes "fq_step L s s'" "binv {} s" "cinv {} s" "inboxes_ok s"
  shows "cinv {} s'"
  using assms
proof (induction rule: fq_step.induct)
  case (fq_drain r s e s')
  have "b_runs s' = b_runs s" "b_world s' = b_world s"
    using fq_drain(1) by (auto simp: drain_step_def split: option.splits list.splits out_item.splits)
  moreover have "rel_option phase_rel (run_at s q) (run_at s' q)" for q
    using fq_drain(1) by (cases "run_at s q")
      (auto simp: drain_step_def phase_rel_def split: option.splits list.splits out_item.splits)
  ultimately show ?case using fq_drain(3) by (intro cinv_same_phase [of s s']) (simp_all add: same_phase_def)
next
  case (fq_register s mapping)
  have heap: "b_heap (fold (\<lambda>h. put_inbox h MPoke) hs s) = b_heap s" "b_runs (fold (\<lambda>h. put_inbox h MPoke) hs s) = b_runs s"
    for hs and s :: "world broker" by (induction hs arbitrary: s) simp_all
  have poke: "b_heap (fold poke_agent refs s) = b_heap s" "b_runs (fold poke_agent refs s) = b_runs s"
    "b_world (fold poke_agent refs s) = b_world s" for refs and s :: "world broker"
    by (induction refs arbitrary: s) (simp_all add: poke_agent_def heap world_fold)
  have reg: "b_heap (fold register_one mapping s) = b_heap s" "b_runs (fold register_one mapping s) = b_runs s"
    "b_world (fold register_one mapping s) = b_world s"
    by (induction mapping arbitrary: s) (simp_all add: register_one_parts world_register_one)
  have "same_phase s (register_provider mapping s)"
    by (rule same_phase_heap) (simp_all add: register_provider_def poke reg)
  then show ?case using fq_register(2) by (rule cinv_same_phase)
next
  case (fq_subscribe s r)
  have "same_phase s (upd_run r (\<lambda>x. x\<lparr>r_stream_open := True\<rparr>) s)" by (rule same_phase_upd_run) (simp add: phase_rel_def)
  then show ?case using fq_subscribe(2) cinv_same_phase by (auto simp: subscribe_def split: option.splits)
next
  case (fq_cancel s r)
  then show ?case by - (rule cinv_frame [OF frame_request_cancel], simp_all add: request_cancel_def)
next
  case (fq_start s)
  then show ?case by - (rule cinv_same_phase [OF same_phase_heap], simp_all add: start_broker_def)
next
  case (fq_stop s)
  then show ?case by - (rule cinv_same_phase [OF same_phase_heap], simp_all add: stop_broker_def)
next
  case (fq_lapse s h r n)
  then show ?case by - (rule cinv_frame [OF frame_put_inbox], simp_all)
next
  case (fq_sweep s n)
  then show ?case by - (rule cinv_frame [OF frame_sweep_pass], simp_all)
next
  case (fq_unregister s refs)
  then show ?case by - (rule cinv_frame [OF frame_unregister_provider], simp_all)
next
  case (fq_time n s)
  then show ?case by - (rule cinv_same_phase [OF same_phase_heap], simp_all)
next
  case (fq_answer s r v k)
  then show ?case by - (rule cinv_frame [OF frame_doors(1)], simp_all add: answer_offer_def)
next
  case (fq_report s r e k)
  then show ?case by - (rule cinv_frame [OF frame_doors(2)], simp_all add: report_event_def)
next
  case (fq_finish s r k)
  then show ?case by - (rule cinv_frame [OF frame_doors(3)], simp_all add: finish_stream_def)
next
  case (fq_fail s r code msg)
  then show ?case by - (rule cinv_frame [OF frame_doors(4)], simp_all)
next
  case (fq_undelivered s r)
  then show ?case by - (rule cinv_frame [OF frame_doors(5)], simp_all add: note_undelivered_def)
qed (auto intro: cinv_enqueue cinv_handle_next cinv_world)

lemma fq_reach_inv: "fq_reach L s \<Longrightarrow> binv {} s \<and> cinv {} s \<and> inboxes_ok s"
proof (induction rule: fq_reach.induct)
  case (fq_init w tolerance now)
  then show ?case
    by (simp add: binv_new_broker) (simp add: cinv_def inboxes_ok_def new_broker_def has_run_def)
next
  case (fq_next s s')
  then show ?case
    using fq.binv_step [OF fq_step_broker] cinv_step inboxes_ok_step by blast
qed

text \<open>
  C6. The database says what the dispatcher does. In every state the dispatcher reaches
  inside funduq, the status column of a tracked run is the phase the run is in: queued while it is
  neither offered nor claimed, offering while a verdict is awaited, running or cancelling once it is
  claimed; and every run the dispatcher has let go of has a final status: completed, failed or
  cancelled.
\<close>

theorem database_agrees_with_dispatcher:
  assumes "fq_reach L s" and "run_at s r = Some run"
  shows "if r \<in> set (b_runs s)
    then \<exists>st \<in> phase_statuses run. status_of (w_store (b_world s)) r = Some st
    else \<exists>st \<in> {Completed, Failed, Cancelled}. status_of (w_store (b_world s)) r = Some st"
proof (cases "r \<in> set (b_runs s)")
  case True
  then have "status_ok s r" using fq_reach_inv [OF assms(1)] by (simp add: cinv_def)
  then show ?thesis using True assms(2) by (auto simp: status_ok_def)
next
  case False
  moreover have "has_run s r" using assms(2) by (simp add: has_run_def)
  ultimately show ?thesis using fq_reach_inv [OF assms(1)] by (auto simp: cinv_def settled_status_def)
qed

lemma fq_reach_demo: "fq_reach demo_lib demo_claimed"
proof -
  let ?s0 = "register_provider [(demo_agent, demo_conn)] (start_broker (new_broker (Some 3) 0 demo_world))"
  have s0: "fq_reach demo_lib ?s0"
    by (intro fq_next [OF fq_next [OF fq_init fq_start] fq_register]) code_simp
  have enq: "fq_reach demo_lib (enqueue_demo r x s)"
    if "fq_reach demo_lib s" "\<not> has_run s r" "db_status s r = Some Queued" "b_running s" for r x s
    unfolding enqueue_demo_def
    by (rule fq_next [OF that(1) fq_enqueue [OF that(2,3), where a = demo_agent and x = x and input = JNull and seq = 0 and adr = None]])
       (use that(4) in \<open>auto simp: enqueue_run_def split: prod.splits\<close>)
  have s1: "fq_reach demo_lib (enqueue_demo ''r1'' ''thread_1'' ?s0)"
    by (rule enq [OF s0]) (simp_all add: has_run_def demo_fresh, code_simp+)
  have q: "fq_reach demo_lib demo_queued" unfolding demo_queued_def
    by (rule enq [OF s1]) (simp_all add: has_run_def demo_fresh, code_simp+)
  have turn: "fq_reach demo_lib (turn h s)"
    if "fq_reach demo_lib s" "\<not> Option.is_none (handle_next (make_handlers demo_lib) h s)" for h s
    unfolding turn_def by (rule fq_next [OF that(1) fq_handle [where h = h]]) (use that(2) in \<open>auto simp: Option.is_none_def\<close>)
  have "fq_reach demo_lib demo_offered" unfolding demo_offered_def by (rule turn [OF q]) code_simp
  then have "fq_reach demo_lib demo_waiting" unfolding demo_waiting_def by (rule turn) code_simp
  from fq_next [OF this fq_answer] show ?thesis unfolding demo_claimed_def by (rule turn) code_simp
qed

theorem database_agrees_with_dispatcher_witness:
  "status_of (w_store (b_world demo_claimed)) ''r1'' \<in> {Some Running, Some Cancelling}"
proof -
  have "map_option r_claimed_by (run_at demo_claimed ''r1'') = Some (Some ''aa'')" by code_simp
  then obtain run where run: "run_at demo_claimed ''r1'' = Some run" "r_claimed_by run = Some ''aa''" by auto
  have "''r1'' \<in> set (b_runs demo_claimed)" by code_simp
  then show ?thesis
    using database_agrees_with_dispatcher [OF fq_reach_demo run(1)] run(2) by (simp add: phase_statuses_def)
qed

end
