(* ===== verification/Channel.thy ===== *)
theory Channel
  imports Coupling "HOL-Library.Sublist"
begin

text \<open>
  A run's stream as a channel from the provider that holds the run to the caller who subscribed to it. The pieces it passes through are
  the inbox of the thread handler that owns the run, the handler that reads it, the record, the run's out queue and the
  subscriber's loop. \<open>carried\<close> is what every operation leaves of the channel that is not about the run: another instance of \<open>step_relation\<close>.
  On top of it, whatever the order in which providers report, handlers read, callers drain
  and everything else happens, what the caller gets is what the holder said, in order, none left out and
  nothing added but funduq's own closing error.
\<close>

section \<open>What lies in the channel\<close>

fun voice :: "run_id \<Rightarrow> message \<Rightarrow> (key \<times> command) option" where
  "voice r (MSaid q k c) = (if q = r then Some (k, c) else None)"
| "voice r _ = None"

definition voices_at :: "run_id \<Rightarrow> 'w broker \<Rightarrow> nat \<Rightarrow> (key \<times> command) list" where
  "voices_at r s h = (case hand_at s h of None \<Rightarrow> [] | Some t \<Rightarrow> List.map_filter (voice r) (t_inbox t))"

text \<open>What has been said of a run and not been read: in the inbox of its owner.\<close>

definition unread :: "run_id \<Rightarrow> 'w broker \<Rightarrow> (key \<times> command) list" where
  "unread r s = (case dget (b_run_threads s) r of None \<Rightarrow> [] | Some h \<Rightarrow> voices_at r s h)"

definition out_of :: "run_id \<Rightarrow> 'w broker \<Rightarrow> out_item list" where
  "out_of r s = (case run_at s r of None \<Rightarrow> [] | Some run \<Rightarrow> r_out_queue run)"

fun item_event :: "out_item \<Rightarrow> event option" where
  "item_event (Item e) = Some e"
| "item_event END_OF_STREAM = None"

abbreviation events_of :: "out_item list \<Rightarrow> event list" where
  "events_of \<equiv> List.map_filter item_event"

definition said_by :: "key \<Rightarrow> (key \<times> command) list \<Rightarrow> command list" where
  "said_by k = List.map_filter (\<lambda>(k', c). if k' = k then Some c else None)"

definition accepted_event :: "event_lib \<Rightarrow> command \<Rightarrow> event option" where
  "accepted_event L c = (case c of
     RelayEvent ev \<Rightarrow>
       (if must_validate L ev \<and> \<not> el_valid L ev then None else (case ev of JObj e \<Rightarrow> Some e | _ \<Rightarrow> None))
   | _ \<Rightarrow> None)"

definition heard :: "event_lib \<Rightarrow> command list \<Rightarrow> event list" where
  "heard L = List.map_filter (accepted_event L)"

lemma map_filter_append [simp]: "List.map_filter f (xs @ ys) = List.map_filter f xs @ List.map_filter f ys"
  by (simp add: List.map_filter_def)

lemma map_filter_Cons: "List.map_filter f (x # xs) = (case f x of None \<Rightarrow> [] | Some y \<Rightarrow> [y]) @ List.map_filter f xs"
  by (simp add: List.map_filter_def split: option.splits)

lemma map_filter_Nil [simp]: "List.map_filter f [] = []"
  by (simp add: List.map_filter_def)

lemma in_events_of: "e \<in> set (events_of xs) \<longleftrightarrow> Item e \<in> set xs"
proof (induction xs)
  case (Cons x xs)
  then show ?case by (cases x) (auto simp: map_filter_Cons)
qed simp

lemma events_of_own: "set own \<subseteq> own_items L \<Longrightarrow> e \<in> set (events_of own) \<Longrightarrow> \<exists>m c. e = el_run_error L m c"
  unfolding in_events_of own_items_def by (drule (1) subsetD) auto

section \<open>What a step leaves alone\<close>

definition carried :: "event_lib \<Rightarrow> run_id \<Rightarrow> world broker \<Rightarrow> world broker \<Rightarrow> bool" where
  "carried L r s s' \<longleftrightarrow>
     (\<forall>h. voices_at r s' h = voices_at r s h) \<and>
     (dget (b_run_threads s') r = None \<or> dget (b_run_threads s') r = dget (b_run_threads s) r) \<and>
     (\<forall>run. run_at s r = Some run \<longrightarrow>
        (\<exists>run' own. run_at s' r = Some run' \<and> r_claimed_by run' = r_claimed_by run \<and> (r_settled run \<longrightarrow> r_settled run') \<and>
           r_out_queue run' = r_out_queue run @ own \<and> set own \<subseteq> own_items L \<and> (own \<noteq> [] \<longrightarrow> r_settled run')))"

lemma carried_trans:
  assumes "carried L r s s'" "carried L r s' s''"
  shows "carried L r s s''"
  unfolding carried_def
proof (intro conjI allI impI)
  fix run
  assume "run_at s r = Some run"
  with assms(1) obtain run' own where 1: "run_at s' r = Some run'" "r_claimed_by run' = r_claimed_by run" "r_settled run \<longrightarrow> r_settled run'"
    "r_out_queue run' = r_out_queue run @ own" "set own \<subseteq> own_items L" "own \<noteq> [] \<longrightarrow> r_settled run'" unfolding carried_def by blast
  with assms(2) obtain run'' own' where "run_at s'' r = Some run''" "r_claimed_by run'' = r_claimed_by run'" "r_settled run' \<longrightarrow> r_settled run''"
    "r_out_queue run'' = r_out_queue run' @ own'" "set own' \<subseteq> own_items L" "own' \<noteq> [] \<longrightarrow> r_settled run''" unfolding carried_def by blast
  with 1 show "\<exists>run'' own. run_at s'' r = Some run'' \<and> r_claimed_by run'' = r_claimed_by run \<and> (r_settled run \<longrightarrow> r_settled run'') \<and>
      r_out_queue run'' = r_out_queue run @ own \<and> set own \<subseteq> own_items L \<and> (own \<noteq> [] \<longrightarrow> r_settled run'')"
    by (intro exI [of _ run''] exI [of _ "own @ own'"]) auto
qed (use assms in \<open>auto simp: carried_def\<close>)

lemma carried_heap:
  assumes "\<And>h. voices_at r s' h = voices_at r s h" "run_at s' r = run_at s r"
    "dget (b_run_threads s') r = None \<or> dget (b_run_threads s') r = dget (b_run_threads s) r"
  shows "carried L r s s'"
  using assms unfolding carried_def by (auto intro!: exI [of _ "[]"])

lemma carried_upd_run:
  assumes "tame f"
  shows "carried L r s (upd_run q f s)"
proof -
  have "\<exists>own. r_out_queue (f run) = r_out_queue run @ own \<and> set own \<subseteq> own_items L \<and> (own \<noteq> [] \<longrightarrow> r_settled (f run))" for run
  proof (cases "r_out_queue (f run) = r_out_queue run")
    case False
    then show ?thesis using assms by (intro exI [of _ "[END_OF_STREAM]"]) (auto simp: tame_def own_items_def)
  qed simp
  then show ?thesis using assms by (auto simp: carried_def tame_def voices_at_def)
qed

lemma voices_put_inbox: "voices_at r (put_inbox h m s) h' =
    voices_at r s h' @ (if h' = h \<and> hand_at s h \<noteq> None then (case voice r m of None \<Rightarrow> [] | Some v \<Rightarrow> [v]) else [])"
  by (auto simp: voices_at_def put_inbox_def upd_hand_def map_filter_Cons split: option.splits)

lemma carried_put: "voice r m = None \<Longrightarrow> carried L r s (put_inbox h m s)"
  by (rule carried_heap) (simp_all add: voices_put_inbox)

lemma carried_upd_provider: "carried L r s (upd_provider k g s)"
  by (rule carried_heap) (auto simp: voices_at_def)

interpretation carry: small_relation "carried L r" for L r
proof
  show "carried L r s s''" if "carried L r s s'" "carried L r s' s''" for s s' s'' using that by (rule carried_trans)
  show "carried L r s (upd_hand h j s)" if "\<And>t. t_inbox (j t) = t_inbox t" for s h j
    by (rule carried_heap) (auto simp: voices_at_def upd_hand_def that split: option.splits)
  show "carried L r s s'" if "b_heap s' = b_heap s" "b_hands s' = b_hands s"
    "\<And>q. dget (b_run_threads s') q = None \<or> dget (b_run_threads s') q = dget (b_run_threads s) q" for s s'
    by (rule carried_heap) (use that in \<open>auto simp: voices_at_def\<close>)
qed (simp_all add: carried_upd_run carried_put carried_upd_provider)

section \<open>Recording\<close>

lemma carried_record_other: "q \<noteq> r \<Longrightarrow> carried L r s (record_cmd E q c s)"
  by (rule carried_heap) (simp_all add: run_at_others, auto simp: record_cmd_def voices_at_def split: option.splits)

text \<open>What recording a command does to the run it is for: it adds to the stream, at most one event.\<close>

lemma handle_command_keeps:
  assumes "handle_command L c run w = (run', w')"
  shows "r_claimed_by run' = r_claimed_by run" "c = Offer \<or> c = Claim \<or> c = RequestCancel \<Longrightarrow> r_out_queue run' = r_out_queue run"
proof -
  note defs = handle_offer_def handle_claim_def handle_relay_def relay_accepted_def handle_finish_def
    handle_cancel_def handle_fail_def Let_def kept_def
  show "r_claimed_by run' = r_claimed_by run"
    using assms by (cases c) (auto simp: defs put_out_def rbind_Inr_iff split: if_splits sum.splits json.splits)
  show "c = Offer \<or> c = Claim \<or> c = RequestCancel \<Longrightarrow> r_out_queue run' = r_out_queue run"
    using assms by (auto simp: defs rbind_Inr_iff split: if_splits sum.splits)
qed

lemma handle_command_appends:
  assumes h: "handle_command L c run w = (run', w')"
  shows "\<exists>es. r_out_queue run' = r_out_queue run @ map Item es \<and>
    ((\<forall>ev. c \<noteq> RelayEvent ev) \<longrightarrow> set (map Item es) \<subseteq> own_items L)"
proof -
  from handle_command_recorded [OF h] obtain es where es: "r_out_queue run' = r_out_queue run @ map Item es" "length es \<le> 1"
    by (auto simp: recorded_def)
  have "set (map Item es) \<subseteq> own_items L" if "\<forall>ev. c \<noteq> RelayEvent ev"
  proof -
    note defs = handle_offer_def handle_claim_def handle_finish_def handle_cancel_def handle_fail_def Let_def kept_def
    have own: "Item (el_run_error L m code) \<in> own_items L" for m code by (auto simp: own_items_def)
    have "\<exists>xs. r_out_queue run' = r_out_queue run @ xs \<and> set xs \<subseteq> own_items L"
      using h that own by (cases c) (auto simp: defs put_out_def rbind_Inr_iff split: if_splits sum.splits)
    then show ?thesis using es by auto
  qed
  then show ?thesis using es by blast
qed

lemma record_stream:
  assumes run: "run_at s r = Some run"
  shows "\<exists>run' es. run_at (record_cmd (make_handlers L) r c s) r = Some run' \<and> r_claimed_by run' = r_claimed_by run \<and>
    r_settled run' = r_settled run \<and> r_out_queue run' = r_out_queue run @ map Item es \<and>
    ((\<forall>ev. c \<noteq> RelayEvent ev) \<longrightarrow> set (map Item es) \<subseteq> own_items L) \<and> (c = Offer \<or> c = Claim \<or> c = RequestCancel \<longrightarrow> es = [])"
proof (cases "r \<in> set (b_handlers s)")
  case True
  obtain run' w' where h: "handle_command L c run (b_world s) = (run', w')" by fastforce
  have "run_at (record_cmd (make_handlers L) r c s) r = Some run'" using True run h by (simp add: record_cmd_def make_handlers_def)
  then show ?thesis
    using handle_command_appends [OF h] handle_command_keeps [OF h] handle_command_settled [OF h] by auto
qed (use run in \<open>auto simp: record_cmd_def\<close>)

lemma record_hands [simp]: "voices_at r (record_cmd E q c s) h = voices_at r s h"
  "b_run_threads (record_cmd E q c s) = b_run_threads s"
  by (auto simp: record_cmd_def voices_at_def split: option.splits)

text \<open>Recording and ending: what the stream gets then is funduq's, and the run is settled.\<close>

lemma carried_recorded_last:
  assumes "\<And>ev. q = r \<Longrightarrow> c \<noteq> RelayEvent ev"
  shows "carried L r s (settle h q (record_cmd (make_handlers L) q c s))"
proof (cases "q = r")
  case False
  then show ?thesis by (rule carried_trans [OF carried_record_other carry.R_settle])
next
  case True
  let ?s1 = "record_cmd (make_handlers L) r c s" and ?s2 = "settle h r (record_cmd (make_handlers L) r c s)"
  have st: "carried L r ?s1 ?s2" by (rule carry.R_settle)
  have "\<exists>run' own. run_at ?s2 r = Some run' \<and> r_claimed_by run' = r_claimed_by run \<and> (r_settled run \<longrightarrow> r_settled run') \<and>
      r_out_queue run' = r_out_queue run @ own \<and> set own \<subseteq> own_items L \<and> (own \<noteq> [] \<longrightarrow> r_settled run')"
    if run: "run_at s r = Some run" for run
  proof -
    from record_stream [OF run, of L c] obtain run1 es where 1: "run_at ?s1 r = Some run1" "r_claimed_by run1 = r_claimed_by run"
      "r_out_queue run1 = r_out_queue run @ map Item es" "set (map Item es) \<subseteq> own_items L"
      using assms True by blast
    then obtain run2 own where 2: "run_at ?s2 r = Some run2" "r_claimed_by run2 = r_claimed_by run1"
      "r_out_queue run2 = r_out_queue run1 @ own" "set own \<subseteq> own_items L" using st unfolding carried_def by blast
    have "run_over ?s2 r" by (rule settle_over) (simp add: has_run_def 1(1))
    then have "r_settled run2" using 2(1) by (simp add: run_over_def)
    then show ?thesis using 1 2 by (intro exI [of _ run2] exI [of _ "map Item es @ own"]) auto
  qed
  then show ?thesis using st True unfolding carried_def by auto
qed

interpretation carry: step_relation "carried L r" "make_handlers L" "\<lambda>c. c = Offer \<or> c = Claim \<or> c = RequestCancel" for L r
proof
  show "carried L r s (record_cmd (make_handlers L) q c s)" if "c = Offer \<or> c = Claim \<or> c = RequestCancel" for q c s
  proof (cases "q = r")
    case True
    then show ?thesis using that record_stream [of s r _ L c] unfolding carried_def by fastforce
  qed (rule carried_record_other)
  show "carried L r s (seat q c i n s)" for q c i n s
    unfolding seat_def by (rule carried_trans [OF carried_upd_run carried_upd_provider]) (auto simp: tame_def)
qed (simp_all add: carried_recorded_last)

section \<open>A handler reads\<close>

lemma voices_read:
  assumes "hand_at s h = Some t" "t_inbox t = m # ms"
  shows "voices_at r s h' = (if h' = h then (case voice r m of None \<Rightarrow> [] | Some v \<Rightarrow> [v]) else []) @
    voices_at r (upd_hand h (\<lambda>t. t\<lparr>t_inbox := ms\<rparr>) s) h'"
  using assms by (simp add: voices_at_def map_filter_Cons split: option.splits)

lemma carried_after_record:
  "carried L r (record_cmd (make_handlers L) q c s) (record_and_maybe_settle (make_handlers L) h q c s)"
proof -
  define s1 where "s1 = record_cmd (make_handlers L) q c s"
  show ?thesis unfolding record_and_maybe_settle_def Let_def s1_def [symmetric]
    by (simp add: carry.R_failed carry.R_settle split: option.splits)
qed

lemma carried_record_and_maybe_settle:
  "q \<noteq> r \<Longrightarrow> carried L r s (record_and_maybe_settle (make_handlers L) h q c s)"
  by (rule carried_trans [OF carried_record_other carried_after_record])

lemma carried_claim_other: "q \<noteq> r \<Longrightarrow> carried L r s (on_accepted (make_handlers L) h q k s)"
  by (rule carried_trans [OF carried_heap carry.R_after_claim]) (simp_all add: voices_at_def)

text \<open>A message that says nothing of the run leaves its channel as it is, unless it is the verdict that hands the run over.\<close>

lemma carried_dispatch:
  assumes m: "voice r m = None" "message_ok m"
    and open_verdict: "\<And>k run. m = MAnswered r k (Truth True) \<Longrightarrow> live_run h r s = Some run \<Longrightarrow> \<not> r_verdict_open run"
  shows "carried L r s (dispatch_message (make_handlers L) h m s)"
proof (cases m)
  case (MAnswered q k v)
  show ?thesis
  proof (cases "v = Truth True")
    case True
    have "carried L r s (on_answered (make_handlers L) h q k v s)" if "q \<noteq> r"
    proof -
      have "carried L r s (on_accepted (make_handlers L) h q k (close_verdict q s))"
        unfolding close_verdict_def by (rule carried_trans [OF carried_upd_run carried_claim_other [OF that]]) (simp add: tame_def)
      then show ?thesis using True by (simp add: on_answered_def split: option.splits)
    qed
    moreover have "on_answered (make_handlers L) h r k v s = s" if "q = r"
      using open_verdict [of k] True MAnswered that by (auto simp: on_answered_def split: option.splits)
    ultimately show ?thesis using MAnswered by (cases "q = r") simp_all
  qed (use carry.R_not_accepted MAnswered in simp)
next
  case (MSaid q k c)
  then show ?thesis using m by (auto simp: on_said_def carried_record_and_maybe_settle split: option.splits if_splits)
next
  case (MTrusted q c)
  then show ?thesis using m carry.R_on_trusted by (auto simp: message_ok_def)
qed (simp_all add: carry.R_on_queued carry.R_on_cancel_asked carry.R_on_undelivered carry.R_on_offer_lapsed)

lemma handle_next_parts:
  assumes "handle_next E h s = Some s'"
  obtains t m ms where "hand_at s h = Some t" "t_inbox t = m # ms"
    "s' = leave_if_idle h (advance E h (dispatch_message E h m (upd_hand h (\<lambda>t. t\<lparr>t_inbox := ms\<rparr>) s)))"
  using assms by (auto simp: handle_next_def on_message_def split: option.splits if_splits list.splits)

lemma carried_rest: "carried L r s (leave_if_idle h (advance (make_handlers L) h s))"
  by (rule carried_trans [OF carry.R_advance carry.R_leave])

section \<open>One step, seen at the channel\<close>

text \<open>What a carried step comes to for a run that is still tracked after it: the channel is as it was.\<close>

lemma carried_run:
  assumes c: "carried L r s s'" and run: "run_at s r = Some run" and ok: "binv {} s'"
  shows "\<exists>run' own. run_at s' r = Some run' \<and> r_claimed_by run' = r_claimed_by run \<and>
    r_out_queue run' = r_out_queue run @ own \<and> set own \<subseteq> own_items L \<and>
    (r \<in> set (b_runs s') \<longrightarrow> own = [] \<and> unread r s' = unread r s)"
proof -
  from c run obtain run' own where 1: "run_at s' r = Some run'" "r_claimed_by run' = r_claimed_by run"
    "r_out_queue run' = r_out_queue run @ own" "set own \<subseteq> own_items L" "own \<noteq> [] \<longrightarrow> r_settled run'" unfolding carried_def by blast
  have "own = [] \<and> unread r s' = unread r s" if "r \<in> set (b_runs s')"
  proof -
    have "tracked_ok s' r" using binv_tracked [OF ok that] .
    then have "\<not> r_settled run'" "dget (b_run_threads s') r \<noteq> None" using 1(1) by (auto simp: tracked_ok_def)
    then show ?thesis using 1(5) c by (auto simp: unread_def carried_def)
  qed
  then show ?thesis using 1 by blast
qed

lemma carried_register: "carried L r s (register_provider mapping s)"
proof -
  have one: "carried L r s (register_one m s)" for m and s :: "world broker"
    by (rule carried_heap) (auto simp: register_one_parts voices_at_def)
  have "carried L r s (fold register_one mapping s)" by (rule carry.R_fold) (rule one)
  then show ?thesis unfolding register_provider_def
    by (rule carried_trans [OF _ carried_trans [OF carry.R_flags(1) carry.R_fold]]) (rule carry.R_poke)
qed

lemma carried_enqueue:
  assumes "enqueue_run q a x input seq adr s = Some s'" "q \<noteq> r"
  shows "carried L r s s'"
proof -
  obtain h s1 where h: "thread_handler_for x a s = (h, s1)" by fastforce
  have 1: "carried L r s s1"
    by (rule carried_heap) (use h in \<open>auto simp: thread_handler_for_def Let_def voices_at_def next_hand_fresh split: option.splits if_splits\<close>)
  let ?s2 = "s1\<lparr>b_heap := dput q (new_run q a x input (b_now s) seq adr) (b_heap s1),
    b_runs := (if q \<in> set (b_runs s1) then b_runs s1 else b_runs s1 @ [q]),
    b_run_threads := dput q h (b_run_threads s1), b_handlers := List.insert q (b_handlers s1)\<rparr>"
  have "carried L r s1 ?s2" by (rule carried_heap) (use assms(2) in \<open>auto simp: voices_at_def\<close>)
  moreover have "s' = put_inbox h (MQueued q) ?s2" using assms(1) h by (auto simp: enqueue_run_def Let_def split: if_splits)
  ultimately show ?thesis using carried_trans [OF 1 carried_trans [OF _ carried_put [of r "MQueued q"]]] by simp
qed

lemma carried_post: "voice r m = None \<Longrightarrow> carried L r s (snd (post q m s))"
  by (auto simp: post_def carried_put split: option.splits)

lemma carried_drain_other:
  assumes "drain_step q s = Some (e, s')" "q \<noteq> r"
  shows "carried L r s s'"
  by (rule carried_heap) (use assms in \<open>auto simp: drain_step_def voices_at_def split: option.splits list.splits out_item.splits\<close>)

lemma carried_sweep: "carried L r s (sweep_pass n s)"
proof -
  have "carried L r s (snd (expire_queued n s))" by (auto simp: expire_queued_def Let_def intro!: carry.R_fold carry.R_push)
  then show ?thesis unfolding sweep_pass_def
    by (intro carried_trans [OF _ carry.R_poke(1)] carried_trans [OF _ carry.R_flags(1)])
qed

text \<open>A step of the dispatcher is a handler's, or a report about the run, or its subscriber's, or it leaves the channel alone.\<close>

lemma step_at_channel:
  assumes "fq_step L s s'" and fresh: "\<And>a x input seq adr. enqueue_run r a x input seq adr s = Some s' \<Longrightarrow> has_run s r"
  shows "(\<exists>h. handle_next (make_handlers L) h s = Some s') \<or> (\<exists>e k. s' = snd (report_event r e k s)) \<or>
    (\<exists>k. s' = snd (finish_stream r k s)) \<or> (\<exists>e. drain_step r s = Some (e, s')) \<or> carried L r s s'"
  using assms(1)
proof (cases rule: fq_step.cases)
  case (fq_enqueue q a x input seq adr)
  then have "q \<noteq> r" using fresh by auto
  then show ?thesis using carried_enqueue fq_enqueue by blast
next
  case (fq_report q e k)
  then show ?thesis by (cases "q = r") (auto simp: report_event_def carried_post)
next
  case (fq_finish q k)
  then show ?thesis by (cases "q = r") (auto simp: finish_stream_def carried_post)
next
  case (fq_drain q e)
  then show ?thesis by (cases "q = r") (auto intro: carried_drain_other)
next
  case (fq_cancel q)
  have "carried L r s (snd (request_cancel q s))"
    using carried_trans [OF carried_upd_run carried_post [of r "MCancelAsked q"]] by (auto simp: request_cancel_def tame_def)
  then show ?thesis using fq_cancel by simp
next
  case (fq_subscribe q)
  have "carried L r s (snd (subscribe q s))" by (auto simp: subscribe_def tame_def intro!: carried_upd_run split: option.splits)
  then show ?thesis using fq_subscribe by simp
next
  case fq_start
  then show ?thesis using carry.R_same [of s' s] by (simp add: start_broker_def)
next
  case fq_stop
  then show ?thesis using carry.R_same [of s' s] by (simp add: stop_broker_def)
qed (simp_all add: answer_offer_def push_def note_undelivered_def carried_post carried_put carried_register carry.R_unregister_provider
    carried_sweep carry.R_flags, blast)

text \<open>A reported event the run's record takes is put in the stream, and nothing else of a report is.\<close>

lemma relay_stream:
  assumes ok: "binv {} s" and c: "cinv {} s" and r: "r \<in> set (b_runs s)" and run: "run_at s r = Some run"
  shows "\<exists>run'. run_at (record_cmd (make_handlers L) r (RelayEvent ev) s) r = Some run' \<and> r_claimed_by run' = r_claimed_by run \<and>
    r_out_queue run' = r_out_queue run @ map Item (heard L [RelayEvent ev])"
proof -
  let ?w = "b_world s"
  have h: "r \<in> set (b_handlers s)" "r_run_id run = r" using binv_tracked [OF ok r] run by (auto simp: tracked_ok_def)
  have row: "db_status s r \<noteq> None" "runs_distinct (w_store ?w)" using c r by (auto simp: cinv_def)
  obtain run' w' where hc: "handle_command L (RelayEvent ev) run ?w = (run', w')" by fastforce
  have at: "run_at (record_cmd (make_handlers L) r (RelayEvent ev) s) r = Some run'"
    using h run hc by (simp add: record_cmd_def make_handlers_def)
  have "r_out_queue run' = r_out_queue run @ [Item e]" if "relay_accepted e run ?w = (run', w')" for e
  proof -
    have "\<exists>st. append_run_event (w_store ?w) (w_now ?w) r (r_seq run + 1) e = Inr st"
      using append_keeps_status [OF _ row(2), of r] row(1) by blast
    then show ?thesis using that h(2)
      by (cases "event_type e = JStr ''RUN_FINISHED''"; cases "event_type e = JStr ''RUN_ERROR''")
         (auto simp: relay_accepted_def Let_def kept_def put_out_def)
  qed
  then have "r_out_queue run' = r_out_queue run @ map Item (heard L [RelayEvent ev])"
    using hc by (auto simp: handle_relay_def heard_def accepted_event_def map_filter_Cons split: if_splits json.splits)
  then show ?thesis using at handle_command_keeps(1) [OF hc] by blast
qed

text \<open>What a step does to the channel of a run a provider holds: some of what the holder said was heard, and funduq may have ended the run.\<close>

definition passes :: "event_lib \<Rightarrow> run_id \<Rightarrow> key \<Rightarrow> world broker \<Rightarrow> command list \<Rightarrow> world broker \<Rightarrow> bool" where
  "passes L r k s cmds s' \<longleftrightarrow>
     (\<exists>run run' own. run_at s r = Some run \<and> run_at s' r = Some run' \<and> r_claimed_by run' = Some k \<and>
        r_out_queue run' = r_out_queue run @ map Item (heard L cmds) @ own \<and> set own \<subseteq> own_items L \<and>
        prefix cmds (said_by k (unread r s)) \<and> length cmds \<le> 1 \<and>
        (r \<in> set (b_runs s') \<longrightarrow> own = [] \<and> FinishStream \<notin> set cmds \<and>
           said_by k (unread r s) = cmds @ said_by k (unread r s')))"

lemma passes_carried:
  assumes "carried L r s s'" "run_at s r = Some run" "r_claimed_by run = Some k" "binv {} s'"
  shows "passes L r k s [] s'"
  using carried_run [OF assms(1,2,4)] assms(2,3) by (auto simp: passes_def heard_def)

lemma heard_Nil [simp]: "heard L [] = []" "heard L [FinishStream] = []"
  by (simp_all add: heard_def map_filter_Cons accepted_event_def)

lemma said_by_Cons: "said_by k ((k', c) # xs) = (if k' = k then [c] else []) @ said_by k xs"
  by (simp add: said_by_def map_filter_Cons)

lemma first_message_ok: "inboxes_ok s \<Longrightarrow> hand_at s h = Some t \<Longrightarrow> t_inbox t = m # ms \<Longrightarrow> message_ok m"
  unfolding inboxes_ok_def by fastforce

lemma passes_heard:
  assumes reach: "fq_reach L s" and owner: "dget (b_run_threads s) r = Some h" and t: "hand_at s h = Some t" "t_inbox t = MSaid r k c # ms"
    and run: "r \<in> set (b_runs s)" "run_at s r = Some run" "r_claimed_by run = Some k" "r \<in> set (t_live t)"
    and s': "handle_next (make_handlers L) h s = Some s'" and ok': "binv {} s'"
  shows "passes L r k s [c] s'"
proof -
  let ?E = "make_handlers L"
  define s1 where "s1 = upd_hand h (\<lambda>t. t\<lparr>t_inbox := ms\<rparr>) s"
  define s2 where "s2 = record_cmd ?E r c s1"
  have inv: "binv {} s" "cinv {} s" "inboxes_ok s" using fq_reach_inv [OF reach] by simp_all
  have "frame s s1" unfolding s1_def by (intro frame_upd_hand) (use t in \<open>auto simp: frame_hand_def\<close>)
  then have ok1: "binv {} s1" "cinv {} s1" using binv_frame cinv_frame inv(1,2) by (blast, auto simp: s1_def)
  have c: "c = FinishStream \<or> (\<exists>ev. c = RelayEvent ev)"
    using first_message_ok [OF inv(3) t] by (simp add: message_ok_def relays_def)
  have live: "live_run h r s1 = Some run" using t run by (simp add: live_run_def s1_def)
  have d: "dispatch_message ?E h (MSaid r k c) s1 = record_and_maybe_settle ?E h r c s1"
    using live run(3) by (simp add: on_said_def)
  then have after: "carried L r s2 s'"
    using s' t carried_trans [OF carried_after_record carried_rest]
    by (auto simp: handle_next_def on_message_def s1_def s2_def split: if_splits)
  have unread: "unread r s = (k, c) # unread r s2" "unread r s1 = unread r s2"
    using voices_read [OF t, of r] owner by (simp_all add: unread_def s1_def s2_def)
  have run1: "run_at s1 r = Some run" "r \<in> set (b_runs s1)" using run by (simp_all add: s1_def)
  have "\<exists>run2 own. run_at s2 r = Some run2 \<and> r_claimed_by run2 = Some k \<and>
      r_out_queue run2 = r_out_queue run @ map Item (heard L [c]) @ own \<and> set own \<subseteq> own_items L \<and> (c \<noteq> FinishStream \<longrightarrow> own = [])"
  proof (cases "c = FinishStream")
    case True
    then show ?thesis using record_stream [OF run1(1), of L c] run(3) unfolding s2_def by auto
  next
    case False
    then obtain ev where "c = RelayEvent ev" using c by blast
    then show ?thesis using relay_stream [OF ok1 run1(2,1), of L ev] run(3) unfolding s2_def by auto
  qed
  then obtain run2 own where 2: "run_at s2 r = Some run2" "r_claimed_by run2 = Some k"
    "r_out_queue run2 = r_out_queue run @ map Item (heard L [c]) @ own" "set own \<subseteq> own_items L" "c \<noteq> FinishStream \<longrightarrow> own = []"
    by blast
  from carried_run [OF after 2(1) ok'] obtain run' own' where 3: "run_at s' r = Some run'" "r_claimed_by run' = Some k"
    "r_out_queue run' = r_out_queue run2 @ own'" "set own' \<subseteq> own_items L" "r \<in> set (b_runs s') \<longrightarrow> own' = [] \<and> unread r s' = unread r s2"
    using 2(2) by auto
  have "r \<notin> set (b_runs s')" if "c = FinishStream"
  proof -
    have "run_over (record_and_maybe_settle ?E h r c s1) r" unfolding that by (rule finish_settles) (simp add: has_run_def run1)
    moreover have "still_over (record_and_maybe_settle ?E h r c s1) s'"
      using s' t d over.R_trans [OF over.R_advance over.R_leave]
      by (auto simp: handle_next_def on_message_def s1_def split: if_splits)
    ultimately have "r_settled run'" using 3(1) unfolding run_over_def still_over_def by fastforce
    then show ?thesis using tracked_run [OF binv_tracked [OF ok', of r]] 3(1) by auto
  qed
  then show ?thesis
    unfolding passes_def unread(1) said_by_Cons using 2 3 run(2) by (intro exI [of _ run] exI [of _ run'] exI [of _ "own @ own'"]) auto
qed

lemma passes_read:
  assumes reach: "fq_reach L s" and s': "handle_next (make_handlers L) h s = Some s'"
    and run: "r \<in> set (b_runs s)" "run_at s r = Some run" "r_claimed_by run = Some k"
  shows "\<exists>cmds. passes L r k s cmds s'"
proof -
  let ?E = "make_handlers L"
  have inv: "binv {} s" "inboxes_ok s" using fq_reach_inv [OF reach] by simp_all
  have ok': "binv {} s'" using fq_reach_inv [OF fq_next [OF reach fq_handle [OF s']]] by simp
  from s' obtain t m ms where t: "hand_at s h = Some t" "t_inbox t = m # ms"
    "s' = leave_if_idle h (advance ?E h (dispatch_message ?E h m (upd_hand h (\<lambda>t. t\<lparr>t_inbox := ms\<rparr>) s)))"
    by (rule handle_next_parts)
  define s1 where "s1 = upd_hand h (\<lambda>t. t\<lparr>t_inbox := ms\<rparr>) s"
  have m: "message_ok m" using first_message_ok [OF inv(2) t(1,2)] .
  from binv_tracked [OF inv(1) run(1)] obtain h0 t0 where owner: "dget (b_run_threads s) r = Some h0" "hand_at s h0 = Some t0"
    "r \<in> set (t_live t0) \<or> r \<in> set (queued_ids (t_inbox t0))" unfolding tracked_ok_def by blast
  have "r \<notin> set (queued_ids (t_inbox t0))"
    using binv_hand [OF inv(1) owner(2)] run by (force simp: hand_ok_def hand_phases_def unoffered_at_def unoffered_def)
  then have live: "r \<in> set (t_live t0)" using owner(3) by blast
  have closed: "\<not> r_verdict_open run" using binv_run_ok [OF inv(1) run(1) _ run(2)] run(3) by (simp add: run_ok_def)
  have run1: "run_at s1 r = Some run" using run by (simp add: s1_def)
  consider (heard) c where "m = MSaid r k c" "h = h0" | (silent) "carried L r s1 s'" "said_by k (unread r s) = said_by k (unread r s1)"
  proof (cases "voice r m = None")
    case True
    have "carried L r s1 (dispatch_message ?E h m s1)"
      by (rule carried_dispatch [OF True m]) (use run1 closed in \<open>auto elim!: live_runD\<close>)
    then have "carried L r s1 s'" unfolding t(3) s1_def [symmetric] by (rule carried_trans [OF _ carried_rest])
    moreover have "unread r s = unread r s1" using voices_read [OF t(1,2), of r] True owner(1) by (simp add: unread_def s1_def)
    ultimately show ?thesis using silent by simp
  next
    case False
    then obtain k' c where v: "m = MSaid r k' c" by (cases m) (auto split: if_splits)
    have "live_run h r s1 = None" if "h \<noteq> h0"
      using live_tracked [OF inv(1) t(1), of r] owner(1) t(1) that by (auto simp: live_run_def s1_def)
    then have "dispatch_message ?E h m s1 = s1" if "h \<noteq> h0 \<or> k' \<noteq> k"
      using that v run1 run(3) by (cases "live_run h r s1") (auto simp: on_said_def elim!: live_runD)
    then have "carried L r s1 s'" if "h \<noteq> h0 \<or> k' \<noteq> k" using that carried_rest unfolding t(3) s1_def [symmetric] by metis
    moreover have "said_by k (unread r s) = said_by k (unread r s1)" if "h \<noteq> h0 \<or> k' \<noteq> k"
      using voices_read [OF t(1,2), of r h0] owner(1) that v by (auto simp: unread_def s1_def said_by_Cons)
    ultimately show ?thesis using heard silent v by (cases "h \<noteq> h0 \<or> k' \<noteq> k") auto
  qed
  then show ?thesis
  proof cases
    case (heard c)
    then show ?thesis using passes_heard [OF reach owner(1) owner(2)] t run live s' ok' owner(2) by auto
  next
    case silent
    from passes_carried [OF silent(1) run1 run(3) ok'] have "passes L r k s [] s'"
      using run(2) run1 silent(2) by (simp add: passes_def)
    then show ?thesis by blast
  qed
qed

section \<open>Executions, seen at the channel\<close>

text \<open>
  What a step is for the run: a provider's report about it, its subscriber's turn, or anything else, in which nobody reports on
  the run and nobody takes from its stream.
\<close>

datatype act = Reports key command | Receives "event option" | Elsewhere

definition unspoken :: "run_id \<Rightarrow> world broker \<Rightarrow> world broker \<Rightarrow> bool" where
  "unspoken r s s' \<longleftrightarrow> (\<forall>h. suffix (voices_at r s' h) (voices_at r s h))"

definition undrained :: "run_id \<Rightarrow> world broker \<Rightarrow> world broker \<Rightarrow> bool" where
  "undrained r s s' \<longleftrightarrow> prefix (out_of r s) (out_of r s')"

inductive fq_act :: "event_lib \<Rightarrow> run_id \<Rightarrow> act \<Rightarrow> world broker \<Rightarrow> world broker \<Rightarrow> bool" for L r where
  act_report: "fq_act L r (Reports k (RelayEvent ev)) s (snd (report_event r ev k s))"
| act_finish: "fq_act L r (Reports k FinishStream) s (snd (finish_stream r k s))"
| act_receive: "drain_step r s = Some (e, s') \<Longrightarrow> fq_act L r (Receives e) s s'"
| act_elsewhere: "fq_step L s s' \<Longrightarrow> unspoken r s s' \<Longrightarrow> undrained r s s' \<Longrightarrow> fq_act L r Elsewhere s s'"

inductive fq_acts :: "event_lib \<Rightarrow> run_id \<Rightarrow> world broker \<Rightarrow> act list \<Rightarrow> world broker \<Rightarrow> bool" for L r s0 where
  acts_none: "fq_acts L r s0 [] s0"
| acts_more: "fq_acts L r s0 as s \<Longrightarrow> fq_act L r a s s' \<Longrightarrow> fq_acts L r s0 (as @ [a]) s'"

definition reported :: "key \<Rightarrow> act list \<Rightarrow> command list" where
  "reported k = List.map_filter (\<lambda>a. case a of Reports k' c \<Rightarrow> if k' = k then Some c else None | _ \<Rightarrow> None)"

definition received :: "act list \<Rightarrow> event list" where
  "received = List.map_filter (\<lambda>a. case a of Receives e \<Rightarrow> e | _ \<Rightarrow> None)"

lemma fq_act_step: "fq_act L r a s s' \<Longrightarrow> fq_step L s s'"
  by (induction rule: fq_act.induct) (auto intro: fq_step.intros)

text \<open>Every execution is one of these.\<close>

lemma carried_flows: "carried L r s s' \<Longrightarrow> unspoken r s s' \<and> undrained r s s'"
  by (cases "run_at s r") (auto simp: carried_def unspoken_def undrained_def out_of_def)

lemma flows_trans:
  "unspoken r s s' \<and> undrained r s s' \<Longrightarrow> unspoken r s' s'' \<and> undrained r s' s'' \<Longrightarrow> unspoken r s s'' \<and> undrained r s s''"
  unfolding unspoken_def undrained_def using suffix_order.trans prefix_order.trans by blast

lemma flows_read:
  assumes "handle_next (make_handlers L) h s = Some s'" "inboxes_ok s"
  shows "unspoken r s s' \<and> undrained r s s'"
proof -
  let ?E = "make_handlers L"
  from assms(1) obtain t m ms where t: "hand_at s h = Some t" "t_inbox t = m # ms"
    "s' = leave_if_idle h (advance ?E h (dispatch_message ?E h m (upd_hand h (\<lambda>t. t\<lparr>t_inbox := ms\<rparr>) s)))"
    by (rule handle_next_parts)
  define s1 where "s1 = upd_hand h (\<lambda>t. t\<lparr>t_inbox := ms\<rparr>) s"
  have "unspoken r s s1 \<and> undrained r s s1"
    using voices_read [OF t(1,2), of r] by (auto simp: unspoken_def undrained_def out_of_def s1_def suffix_def)
  moreover have "unspoken r s1 (dispatch_message ?E h m s1) \<and> undrained r s1 (dispatch_message ?E h m s1)"
  proof (cases "(\<exists>k c. m = MSaid r k c) \<or> (\<exists>k. m = MAnswered r k (Truth True))")
    case False
    then have "carried L r s1 (dispatch_message ?E h m s1)"
      by (intro carried_dispatch first_message_ok [OF assms(2) t(1,2)]) (cases m; auto)+
    then show ?thesis by (rule carried_flows)
  next
    case True
    then show ?thesis
    proof (elim disjE exE)
      fix k c
      assume m: "m = MSaid r k c"
      have "unspoken r s1 (record_and_maybe_settle ?E h r c s1) \<and> undrained r s1 (record_and_maybe_settle ?E h r c s1)"
        if "run_at s1 r = Some run" for run
      proof (rule flows_trans [OF _ carried_flows [OF carried_after_record]])
        show "unspoken r s1 (record_cmd ?E r c s1) \<and> undrained r s1 (record_cmd ?E r c s1)"
          using record_stream [OF that, of L c] that by (auto simp: unspoken_def undrained_def out_of_def)
      qed
      then show ?thesis using m by (auto simp: on_said_def unspoken_def undrained_def split: option.splits elim!: live_runD)
    next
      fix k
      assume m: "m = MAnswered r k (Truth True)"
      let ?s2 = "close_verdict r s1" and ?f = "\<lambda>x. x\<lparr>r_claimed_by := Some k, r_cancel_notify := r_offered_conn x\<rparr>"
      have "carried L r s1 ?s2" unfolding close_verdict_def by (rule carried_upd_run) (simp add: tame_def)
      moreover have "unspoken r ?s2 (upd_run r ?f ?s2) \<and> undrained r ?s2 (upd_run r ?f ?s2)"
        by (auto simp: unspoken_def undrained_def out_of_def voices_at_def split: option.splits)
      ultimately have "unspoken r s1 (on_accepted ?E h r k ?s2) \<and> undrained r s1 (on_accepted ?E h r k ?s2)"
        using flows_trans carried_flows carry.R_after_claim by blast
      then show ?thesis using m by (auto simp: on_answered_def unspoken_def undrained_def Let_def split: option.splits)
    qed
  qed
  ultimately show ?thesis unfolding t(3) s1_def [symmetric] using flows_trans carried_flows [OF carried_rest] by blast
qed

lemma voices_queued: "b_hands s2 = b_hands s1 \<Longrightarrow> voices_at r (put_inbox h1 (MQueued q) s2) h = voices_at r s1 h"
  unfolding voices_put_inbox by (simp add: voices_at_def)

lemma enqueue_voices: "enqueue_run q a x input seq adr s = Some s' \<Longrightarrow> voices_at r s' h = voices_at r s h"
proof -
  assume e: "enqueue_run q a x input seq adr s = Some s'"
  obtain h1 s1 where h1: "thread_handler_for x a s = (h1, s1)" by fastforce
  have "voices_at r s1 h = voices_at r s h"
    using h1 by (auto simp: thread_handler_for_def Let_def voices_at_def next_hand_fresh split: option.splits if_splits)
  moreover have "s' = put_inbox h1 (MQueued q) (s1\<lparr>b_heap := dput q (new_run q a x input (b_now s) seq adr) (b_heap s1),
    b_runs := (if q \<in> set (b_runs s1) then b_runs s1 else b_runs s1 @ [q]),
    b_run_threads := dput q h1 (b_run_threads s1), b_handlers := List.insert q (b_handlers s1)\<rparr>)"
    using e h1 by (auto simp: enqueue_run_def Let_def split: if_splits)
  ultimately show ?thesis by (simp add: voices_queued [of _ s1])
qed

lemma step_is_act:
  assumes "fq_reach L s" "fq_step L s s'"
  shows "\<exists>a. fq_act L r a s s'"
proof (cases "\<exists>a x input seq adr. enqueue_run r a x input seq adr s = Some s' \<and> \<not> has_run s r")
  case True
  then have "unspoken r s s' \<and> undrained r s s'"
    by (auto simp: unspoken_def undrained_def out_of_def has_run_def enqueue_voices)
  then show ?thesis using act_elsewhere [OF assms(2)] by blast
next
  case False
  then have "(\<exists>h. handle_next (make_handlers L) h s = Some s') \<or> (\<exists>e k. s' = snd (report_event r e k s)) \<or>
    (\<exists>k. s' = snd (finish_stream r k s)) \<or> (\<exists>e. drain_step r s = Some (e, s')) \<or> carried L r s s'"
    by (intro step_at_channel [OF assms(2)]) blast
  then show ?thesis
    using flows_read fq_reach_inv [OF assms(1)] carried_flows act_elsewhere [OF assms(2)] fq_act.intros(1-3) by metis
qed

lemma executions_are_acts: "(fq_step L)\<^sup>*\<^sup>* s0 s \<Longrightarrow> fq_reach L s0 \<Longrightarrow> fq_reach L s \<and> (\<exists>as. fq_acts L r s0 as s)"
proof (induction rule: rtranclp_induct)
  case base
  then show ?case using acts_none by blast
next
  case (step s s')
  then obtain as where "fq_reach L s" "fq_acts L r s0 as s" by blast
  moreover from this(1) obtain a where "fq_act L r a s s'" using step_is_act step.hyps(2) by blast
  ultimately show ?case using acts_more fq_next step.hyps(2) by blast
qed

lemma fq_acts_reach: "fq_acts L r s0 as s \<Longrightarrow> fq_reach L s0 \<Longrightarrow> fq_reach L s"
  by (induction rule: fq_acts.induct) (auto intro: fq_next fq_act_step)

section \<open>The acts of a run that is held\<close>

lemma out_of_drain:
  assumes "drain_step r s = Some (e, s')"
  shows "events_of (out_of r s) = (case e of None \<Rightarrow> [] | Some x \<Rightarrow> [x]) @ events_of (out_of r s')"
    "b_runs s' = b_runs s" "unread r s' = unread r s" "map_option r_claimed_by (run_at s' r) = map_option r_claimed_by (run_at s r)"
    "length (out_of r s') < length (out_of r s)"
  using assms by (auto simp: drain_step_def out_of_def unread_def voices_at_def map_filter_Cons split: option.splits list.splits out_item.splits)

lemma spoken:
  assumes "s' = snd (post r (MSaid r k c) s)"
  shows "out_of r s' = out_of r s" "b_runs s' = b_runs s" "run_at s' r = run_at s r"
    "binv {} s \<Longrightarrow> r \<in> set (b_runs s) \<Longrightarrow> unread r s' = unread r s @ [(k, c)]"
proof -
  show "out_of r s' = out_of r s" "b_runs s' = b_runs s" "run_at s' r = run_at s r"
    using assms by (auto simp: post_def out_of_def split: option.splits)
  assume "binv {} s" "r \<in> set (b_runs s)"
  then obtain h t where "dget (b_run_threads s) r = Some h" "hand_at s h = Some t" using binv_tracked unfolding tracked_ok_def by blast
  then show "unread r s' = unread r s @ [(k, c)]" using assms by (simp add: unread_def post_def voices_put_inbox)
qed

text \<open>A run that is no longer tracked gets nothing more said in its stream.\<close>

lemma untracked_act:
  assumes reach: "fq_reach L s" and r: "r \<notin> set (b_runs s)" "run_at s r = Some run" and act: "fq_act L r Elsewhere s s'"
  shows "\<exists>own. out_of r s' = out_of r s @ own \<and> set own \<subseteq> own_items L"
proof -
  let ?E = "make_handlers L"
  have inv: "binv {} s" "inboxes_ok s" using fq_reach_inv [OF reach] by simp_all
  from act have st: "fq_step L s s'" "undrained r s s'" by (auto elim: fq_act.cases)
  have no: "live_run h r x = None" if "b_hands x = b_hands s" for h x
    using that live_tracked [OF inv(1)] r(1) by (auto simp: live_run_def split: option.splits)
  have "\<exists>s1. out_of r s1 = out_of r s \<and> run_at s1 r = Some run \<and> carried L r s1 s'" if "handle_next ?E h s = Some s'" for h
  proof -
    from that obtain t m ms where t: "hand_at s h = Some t" "t_inbox t = m # ms"
      "s' = leave_if_idle h (advance ?E h (dispatch_message ?E h m (upd_hand h (\<lambda>t. t\<lparr>t_inbox := ms\<rparr>) s)))"
      by (rule handle_next_parts)
    define s1 where "s1 = upd_hand h (\<lambda>t. t\<lparr>t_inbox := ms\<rparr>) s"
    have no: "live_run h r s1 = None"
      using live_tracked [OF inv(1) t(1)] r(1) t(1) by (auto simp: live_run_def s1_def)
    have "carried L r s1 (dispatch_message ?E h m s1)"
    proof (cases "voice r m = None")
      case True
      show ?thesis by (rule carried_dispatch [OF True first_message_ok [OF inv(2) t(1,2)]]) (use no in auto)
    next
      case False
      then have "dispatch_message ?E h m s1 = s1" using no by (cases m) (auto simp: on_said_def split: if_splits)
      then show ?thesis by simp
    qed
    then have "carried L r s1 s'" unfolding t(3) s1_def [symmetric] by (rule carried_trans [OF _ carried_rest])
    then show ?thesis using r(2) by (intro exI [of _ s1]) (simp add: s1_def out_of_def)
  qed
  moreover have "\<exists>s1. out_of r s1 = out_of r s \<and> run_at s1 r = Some run \<and> carried L r s1 s'" if "carried L r s s'"
    using that r(2) by blast
  moreover have "\<exists>own. out_of r s' = out_of r s @ own \<and> set own \<subseteq> own_items L"
    if "carried L r s1 s'" "run_at s1 r = Some run" "out_of r s1 = out_of r s" for s1
    using that unfolding carried_def by (fastforce simp: out_of_def)
  moreover have "out_of r s' = out_of r s" if "s' = snd (report_event r e k s) \<or> s' = snd (finish_stream r k s)" for e k
    using that by (auto simp: report_event_def finish_stream_def spoken(1) [OF refl])
  moreover have "\<not> (\<exists>e. drain_step r s = Some (e, s'))"
    using st(2) out_of_drain(5) [of r s] prefix_length_le unfolding undrained_def by fastforce
  moreover have "has_run s r" using r(2) by (simp add: has_run_def)
  ultimately show ?thesis
    using step_at_channel [OF st(1), of r] by (metis append_Nil2 empty_set empty_subsetI)
qed

text \<open>An act on a run that is held, as the channel sees it.\<close>

definition relayed ::
  "event_lib \<Rightarrow> run_id \<Rightarrow> key \<Rightarrow> world broker \<Rightarrow> act list \<Rightarrow> command list \<Rightarrow> event list \<Rightarrow> command list \<Rightarrow> world broker \<Rightarrow> bool" where
  "relayed L r k s as cmds own rest s' \<longleftrightarrow>
     received as @ events_of (out_of r s') = events_of (out_of r s) @ heard L cmds @ own \<and>
     cmds @ rest = said_by k (unread r s) @ reported k as \<and>
     (\<forall>e \<in> set own. \<exists>m c. e = el_run_error L m c) \<and> FinishStream \<notin> set (butlast cmds) \<and>
     (r \<in> set (b_runs s') \<longrightarrow> own = [] \<and> rest = said_by k (unread r s') \<and> FinishStream \<notin> set cmds)"

lemma events_of_Item [simp]: "events_of (map Item es) = es"
  by (induction es) (simp_all add: map_filter_Cons)

lemma held_passes:
  assumes "passes L r k s cmds s'"
  shows "\<exists>own rest run'. relayed L r k s [Elsewhere] cmds own rest s' \<and> length cmds \<le> 1 \<and>
    run_at s' r = Some run' \<and> r_claimed_by run' = Some k"
proof -
  from assms obtain run run' own rest where p: "run_at s r = Some run" "run_at s' r = Some run'" "r_claimed_by run' = Some k"
    "r_out_queue run' = r_out_queue run @ map Item (heard L cmds) @ own" "set own \<subseteq> own_items L"
    "said_by k (unread r s) = cmds @ rest" "length cmds \<le> 1"
    "r \<in> set (b_runs s') \<longrightarrow> own = [] \<and> FinishStream \<notin> set cmds \<and> cmds @ rest = cmds @ said_by k (unread r s')"
    unfolding passes_def by (auto elim!: prefixE)
  have "butlast cmds = []" using p(7) by (cases cmds) auto
  then have "relayed L r k s [Elsewhere] cmds (events_of own) rest s'"
    using p events_of_own [OF p(5)] by (auto simp: relayed_def out_of_def received_def reported_def map_filter_Cons)
  then show ?thesis using p by blast
qed

lemma held_act:
  assumes reach: "fq_reach L s" and run: "r \<in> set (b_runs s)" "run_at s r = Some run" "r_claimed_by run = Some k"
    and act: "fq_act L r a s s'"
  shows "\<exists>cmds own rest run'. relayed L r k s [a] cmds own rest s' \<and> length cmds \<le> 1 \<and> run_at s' r = Some run' \<and> r_claimed_by run' = Some k"
  using act
proof cases
  case (act_report k' ev)
  have ok: "binv {} s" using fq_reach_inv [OF reach] by simp
  note sp = spoken [OF act_report(2) [unfolded report_event_def]]
  have "relayed L r k s [a] [] [] (said_by k (unread r s')) s'"
    using sp(1) sp(4) [OF ok run(1)] act_report(1)
    by (simp add: relayed_def received_def reported_def map_filter_Cons said_by_def)
  then show ?thesis using sp(3) run by (intro exI [of _ "[]"] exI) auto
next
  case (act_finish k')
  have ok: "binv {} s" using fq_reach_inv [OF reach] by simp
  note sp = spoken [OF act_finish(2) [unfolded finish_stream_def]]
  have "relayed L r k s [a] [] [] (said_by k (unread r s')) s'"
    using sp(1) sp(4) [OF ok run(1)] act_finish(1)
    by (simp add: relayed_def received_def reported_def map_filter_Cons said_by_def)
  then show ?thesis using sp(3) run by (intro exI [of _ "[]"] exI) auto
next
  case (act_receive e)
  note d = out_of_drain [OF act_receive(2)]
  have "relayed L r k s [a] [] [] (said_by k (unread r s')) s'"
    using d(1,3) act_receive(1) by (simp add: relayed_def received_def reported_def map_filter_Cons split: option.splits)
  moreover have "\<exists>run'. run_at s' r = Some run' \<and> r_claimed_by run' = Some k" using d(4) run by (cases "run_at s' r") auto
  ultimately show ?thesis by (metis le0 list.size(3))
next
  case act_elsewhere
  have ok: "binv {} s" "binv {} s'" using fq_reach_inv reach fq_next [OF reach act_elsewhere(2)] by blast+
  have "\<not> (\<exists>e. drain_step r s = Some (e, s'))"
    using act_elsewhere(4) out_of_drain(5) [of r s] prefix_length_le unfolding undrained_def by fastforce
  moreover have "\<not> (s' = snd (post r (MSaid r k' c) s))" for k' c
  proof
    assume post: "s' = snd (post r (MSaid r k' c) s)"
    from binv_tracked [OF ok(1) run(1)] obtain h t where h: "dget (b_run_threads s) r = Some h" "hand_at s h = Some t"
      unfolding tracked_ok_def by blast
    then have "voices_at r s' h = voices_at r s h @ [(k', c)]" using post by (simp add: post_def voices_put_inbox)
    moreover have "suffix (voices_at r s' h) (voices_at r s h)" using act_elsewhere(3) by (simp add: unspoken_def)
    ultimately show False using suffix_length_le by fastforce
  qed
  moreover have "has_run s r" using run by (simp add: has_run_def)
  ultimately have "(\<exists>h. handle_next (make_handlers L) h s = Some s') \<or> carried L r s s'"
    using step_at_channel [OF act_elsewhere(2), of r] unfolding report_event_def finish_stream_def by blast
  then have "\<exists>cmds. passes L r k s cmds s'"
    using passes_read [OF reach _ run] passes_carried [OF _ run(2,3) ok(2)] by blast
  then show ?thesis using held_passes act_elsewhere(1) by blast
qed

text \<open>A run that is over stays over, and its stream gets no more of what is said.\<close>

lemma untracked_stays:
  assumes reach: "fq_reach L s" and r: "r \<notin> set (b_runs s)" "run_at s r = Some run" and st: "fq_step L s s'"
  shows "r \<notin> set (b_runs s') \<and> has_run s' r"
proof -
  have over: "r_settled run" using fq_reach_inv [OF reach] r by (simp add: binv_def forgotten_ok_def stream_closed_def)
  have "run_over s' r"
    using fq_step_broker [OF st]
  proof (cases rule: over.R_step)
    case (1 mapping)
    have "carried L r s s'" unfolding 1 by (rule carried_register)
    then show ?thesis using r(2) over unfolding carried_def run_over_def by blast
  next
    case (2 q a x input seq adr)
    then have "q \<noteq> r" using r(2) by auto
    then have "carried L r s s'" using carried_enqueue 2(2) by blast
    then show ?thesis using r(2) over unfolding carried_def run_over_def by blast
  qed (use r(2) over in \<open>auto simp: still_over_def run_over_def\<close>)
  then show ?thesis
    using fq_reach_inv [OF fq_next [OF reach st]] tracked_run binv_tracked by (fastforce simp: run_over_def has_run_def)
qed

lemma over_act:
  assumes reach: "fq_reach L s" and r: "r \<notin> set (b_runs s)" "run_at s r = Some run" and act: "fq_act L r a s s'"
    and so_far: "relayed L r k s0 as cmds own rest s"
  shows "\<exists>own rest. relayed L r k s0 (as @ [a]) cmds own rest s' \<and> r \<notin> set (b_runs s') \<and> has_run s' r"
proof -
  have st: "fq_step L s s'" using act by (rule fq_act_step)
  have "\<exists>own'. received [a] @ events_of (out_of r s') = events_of (out_of r s) @ own' \<and> (\<forall>e \<in> set own'. \<exists>m c. e = el_run_error L m c)"
  proof (cases a)
    case (Receives e)
    then have "drain_step r s = Some (e, s')" using act by (auto elim: fq_act.cases)
    from out_of_drain(1) [OF this] show ?thesis using Receives by (intro exI [of _ "[]"]) (simp add: received_def map_filter_Cons split: option.splits)
  next
    case Elsewhere
    then obtain own' where "out_of r s' = out_of r s @ own'" "set own' \<subseteq> own_items L" using untracked_act [OF reach r] act by blast
    then show ?thesis using Elsewhere events_of_own by (intro exI [of _ "events_of own'"]) (auto simp: received_def map_filter_Cons)
  next
    case (Reports k' c)
    then have "s' = snd (post r (MSaid r k' c) s)" using act by (auto simp: report_event_def finish_stream_def elim: fq_act.cases)
    from spoken(1) [OF this] show ?thesis using Reports by (intro exI [of _ "[]"]) (simp add: received_def map_filter_Cons)
  qed
  then obtain own' where own': "received [a] @ events_of (out_of r s') = events_of (out_of r s) @ own'"
    "\<forall>e \<in> set own'. \<exists>m c. e = el_run_error L m c" by blast
  have "received (as @ [a]) = received as @ received [a]" "reported k (as @ [a]) = reported k as @ reported k [a]"
    by (simp_all add: received_def reported_def)
  then have "relayed L r k s0 (as @ [a]) cmds (own @ own') (rest @ reported k [a]) s'"
    using so_far own' untracked_stays [OF reach r st] unfolding relayed_def by auto
  then show ?thesis using untracked_stays [OF reach r st] by blast
qed

lemma relayed_more:
  assumes "relayed L r k s0 as cmds own rest s" "r \<in> set (b_runs s)" "relayed L r k s [a] cmds' own' rest' s'" "length cmds' \<le> 1"
  shows "relayed L r k s0 (as @ [a]) (cmds @ cmds') own' rest' s'"
proof -
  have old: "own = []" "rest = said_by k (unread r s)" "FinishStream \<notin> set cmds" using assms(1,2) by (simp_all add: relayed_def)
  have "received (as @ [a]) = received as @ received [a]" "reported k (as @ [a]) = reported k as @ reported k [a]"
    "heard L (cmds @ cmds') = heard L cmds @ heard L cmds'"
    by (simp_all add: received_def reported_def heard_def)
  moreover have "FinishStream \<notin> set (butlast (cmds @ cmds'))" using old(3) assms(4) by (cases cmds') (auto dest: in_set_butlastD)
  ultimately show ?thesis using assms(1,3) old by (simp add: relayed_def)
qed

lemma acts_relayed:
  assumes "fq_reach L s0" "fq_acts L r s0 as s"
    and "r \<in> set (b_runs s0)" "run_at s0 r = Some run0" "r_claimed_by run0 = Some k"
  shows "\<exists>cmds own rest run. relayed L r k s0 as cmds own rest s \<and> run_at s r = Some run \<and>
    (r \<in> set (b_runs s) \<longrightarrow> r_claimed_by run = Some k)"
  using assms(2)
proof (induction rule: fq_acts.induct)
  case acts_none
  have "relayed L r k s0 [] [] [] (said_by k (unread r s0)) s0" by (simp add: relayed_def received_def reported_def)
  then show ?case using assms(4,5) by blast
next
  case (acts_more as s a s')
  then obtain cmds own rest run where ih: "relayed L r k s0 as cmds own rest s" "run_at s r = Some run"
    "r \<in> set (b_runs s) \<longrightarrow> r_claimed_by run = Some k" by blast
  have reach: "fq_reach L s" using fq_acts_reach [OF acts_more(1) assms(1)] .
  show ?case
  proof (cases "r \<in> set (b_runs s)")
    case True
    from held_act [OF reach True ih(2) ih(3) [rule_format, OF True] acts_more(2)] show ?thesis using relayed_more [OF ih(1) True] by blast
  next
    case False
    then show ?thesis using over_act [OF reach False ih(2) acts_more(2) ih(1)] by (auto simp: has_run_def)
  qed
qed

text \<open>
  C2. A run's stream is a channel. Take any execution of the dispatcher that begins where a provider \<open>k\<close> holds the run, whatever
  else happens in it and in whatever order. What the caller receives, with what is waiting in its stream, is what was in
  the stream before, then the well-formed events among the first \<open>cmds\<close> of what \<open>k\<close> said about the run (what lay unread in the inbox, then its reports in
  their order), then error events of funduq's own. While the run goes on, funduq adds nothing and the rest of what \<open>k\<close> said is still waiting
  to be read: nothing is lost, repeated, reordered or taken from anyone else. Nothing said after \<open>k\<close>'s end of
  stream gets through.
\<close>

theorem stream_is_a_channel:
  assumes "fq_reach L s0" "fq_acts L r s0 as s"
    and "r \<in> set (b_runs s0)" "run_at s0 r = Some run0" "r_claimed_by run0 = Some k"
  shows "\<exists>cmds own rest.
    received as @ events_of (out_of r s) = events_of (out_of r s0) @ heard L cmds @ own \<and>
    cmds @ rest = said_by k (unread r s0) @ reported k as \<and>
    (\<forall>e \<in> set own. \<exists>m c. e = el_run_error L m c) \<and> FinishStream \<notin> set (butlast cmds) \<and>
    (r \<in> set (b_runs s) \<longrightarrow> own = [] \<and> rest = said_by k (unread r s) \<and> FinishStream \<notin> set cmds)"
  using acts_relayed [OF assms] unfolding relayed_def by blast

definition demo_drained :: "world broker" where
  "demo_drained = snd (the (drain_step ''r1'' demo_heard))"

lemma demo_act:
  "fq_act demo_lib ''r1'' (Reports ''aa'' (RelayEvent (JObj demo_event))) demo_claimed demo_said"
  "fq_act demo_lib ''r1'' Elsewhere demo_said demo_heard"
  "fq_act demo_lib ''r1'' (Receives (Some demo_event)) demo_heard demo_drained"
proof -
  show said: "fq_act demo_lib ''r1'' (Reports ''aa'' (RelayEvent (JObj demo_event))) demo_claimed demo_said"
    unfolding demo_said_def by (rule act_report)
  have "\<not> Option.is_none (handle_next (make_handlers demo_lib) 1 demo_said)" by code_simp
  then have n: "handle_next (make_handlers demo_lib) 1 demo_said = Some demo_heard" by (auto simp: demo_heard_def turn_def Option.is_none_def)
  have "fq_reach demo_lib demo_said" using fq_next [OF fq_reach_demo fq_act_step [OF said]] .
  then show "fq_act demo_lib ''r1'' Elsewhere demo_said demo_heard"
    using flows_read [OF n] fq_reach_inv act_elsewhere [OF fq_handle [OF n]] by blast
  have "map_option fst (drain_step ''r1'' demo_heard) = Some (Some demo_event)" by code_simp
  then show "fq_act demo_lib ''r1'' (Receives (Some demo_event)) demo_heard demo_drained"
    by (intro act_receive) (auto simp: demo_drained_def)
qed

lemma demo_acts:
  "fq_acts demo_lib ''r1'' demo_claimed [Reports ''aa'' (RelayEvent (JObj demo_event)), Elsewhere, Receives (Some demo_event)] demo_drained"
  using acts_more [OF acts_more [OF acts_more [OF acts_none demo_act(1)] demo_act(2)] demo_act(3)] by simp

lemma demo_held: "\<exists>run. ''r1'' \<in> set (b_runs demo_claimed) \<and> run_at demo_claimed ''r1'' = Some run \<and> r_claimed_by run = Some ''aa''"
proof -
  have "''r1'' \<in> set (b_runs demo_claimed)" "map_option r_claimed_by (run_at demo_claimed ''r1'') = Some (Some ''aa'')" by code_simp+
  then show ?thesis by auto
qed

lemma demo_quiet: "''r1'' \<in> set (b_runs demo_drained)" "out_of ''r1'' demo_claimed = []" "out_of ''r1'' demo_drained = []"
  "said_by ''aa'' (unread ''r1'' demo_claimed) = []"
  by code_simp+

theorem stream_is_a_channel_witness:
  "\<exists>cmds rest. [demo_event] = heard demo_lib cmds \<and> cmds @ rest = [RelayEvent (JObj demo_event)]"
proof -
  obtain run where run: "''r1'' \<in> set (b_runs demo_claimed)" "run_at demo_claimed ''r1'' = Some run" "r_claimed_by run = Some ''aa''"
    using demo_held by blast
  show ?thesis
    using stream_is_a_channel [OF fq_reach_demo demo_acts run] demo_quiet by (auto simp: received_def reported_def map_filter_Cons)
qed

end
