(* ===== verification/Registry.thy ===== *)
theory Registry
  imports Run_Store Payloads
begin

text \<open>
  Who is registered (\<^verbatim>\<open>funduq/repo.py\<close>, the operations on \<^verbatim>\<open>providers\<close>, \<^verbatim>\<open>agents\<close> and
  \<^verbatim>\<open>llm_providers\<close>): upserts keyed by the tables' primary keys, the roster lists a caller is
  shown, and deletion guarded by the foreign keys. The locale \<open>registry\<close> states what an upsert
  promises a later lookup; both registering operations interpret it. SHA-256 is a parameter.
\<close>

section \<open>Upserts on keyed tables\<close>

definition fetch :: "('r \<Rightarrow> 'k) \<Rightarrow> 'k \<Rightarrow> 'r list \<Rightarrow> 'r option" where
  "fetch key k rows = find (\<lambda>r. key r = k) rows"

text \<open>\<^verbatim>\<open>INSERT ... ON CONFLICT (key) DO UPDATE\<close>: \<open>f\<close> is the update of the row that is there.\<close>

definition upsert :: "('r \<Rightarrow> 'k) \<Rightarrow> 'r \<Rightarrow> ('r \<Rightarrow> 'r) \<Rightarrow> 'r list \<Rightarrow> 'r list" where
  "upsert key new f rows =
     (if fetch key (key new) rows = None then rows @ [new]
      else map (\<lambda>r. if key r = key new then f r else r) rows)"

lemma fetch_append: "fetch key k (rows @ rows') =
  (case fetch key k rows of None \<Rightarrow> fetch key k rows' | Some r \<Rightarrow> Some r)"
  by (induction rows) (auto simp: fetch_def)

lemma fetch_single: "fetch key k [r] = (if key r = k then Some r else None)"
  by (simp add: fetch_def)

lemma fetch_map_where:
  assumes "\<And>r. P r \<Longrightarrow> key (f r) = key r"
  shows "fetch key k (map (\<lambda>r. if P r then f r else r) rows) =
    map_option (\<lambda>r. if P r then f r else r) (fetch key k rows)"
  using assms by (induction rows) (auto simp: fetch_def)

lemma fetch_key: "fetch key k rows = Some r \<Longrightarrow> key r = k"
  by (auto simp: fetch_def find_Some_iff)

lemma fetch_upsert:
  assumes "\<And>r. key r = key new \<Longrightarrow> key (f r) = key new"
  shows "fetch key k (upsert key new f rows) =
    (if k = key new then Some (case fetch key k rows of None \<Rightarrow> new | Some r \<Rightarrow> f r)
     else fetch key k rows)"
proof (cases "fetch key (key new) rows")
  case None
  then show ?thesis by (auto simp: upsert_def fetch_append fetch_single split: option.splits)
next
  case (Some r)
  have "fetch key k (map (\<lambda>r. if key r = key new then f r else r) rows) =
      map_option (\<lambda>r. if key r = key new then f r else r) (fetch key k rows)"
    by (rule fetch_map_where) (simp add: assms)
  then show ?thesis using Some
    by (cases "fetch key k rows") (auto simp: upsert_def dest: fetch_key)
qed

section \<open>Providers\<close>

definition get_provider :: "store \<Rightarrow> key \<Rightarrow> provider_row option" where
  "get_provider s k = fetch pr_public_key k (providers s)"

text \<open>A conflict on the key does nothing; one on the fingerprint's unique constraint is refused.\<close>

definition ensure_provider ::
  "(string \<Rightarrow> string) \<Rightarrow> time \<Rightarrow> store \<Rightarrow> key \<Rightarrow> (repo_error, store) res" where
  "ensure_provider sha256_hex now s public_key =
     (case provider_fingerprint sha256_hex public_key of
        None \<Rightarrow> Inl (BadShape ValueError)
      | Some fp \<Rightarrow>
          if get_provider s public_key \<noteq> None then Inr s
          else if list_ex (\<lambda>p. pr_fingerprint p = fp) (providers s) then Inl ProviderFingerprintTaken
          else Inr (s\<lparr>providers := providers s @
            [\<lparr>pr_public_key = public_key, pr_fingerprint = fp, pr_display_name = None,
              pr_updated_at = now\<rparr>]\<rparr>))"

definition set_provider_name :: "time \<Rightarrow> store \<Rightarrow> key \<Rightarrow> string \<Rightarrow> store" where
  "set_provider_name now s public_key display_name =
     s\<lparr>providers := map (\<lambda>p. if pr_public_key p = public_key
        then p\<lparr>pr_display_name := Some display_name, pr_updated_at := now\<rparr> else p) (providers s)\<rparr>"

section \<open>Agents\<close>

text \<open>\<^verbatim>\<open>shapes.Registration\<close>.\<close>

record registration =
  rg_name :: string
  rg_description :: string
  rg_agent_card_extra :: "(string, json) dict"
  rg_metadata :: json
  rg_takes_interjections :: bool

definition INTERJECTION_EXTENSION_URI :: string where
  "INTERJECTION_EXTENSION_URI = ''https://github.com/hukaichun/funduq/ext/interjection/v1''"

text \<open>\<^verbatim>\<open>{**base, **extra}\<close>.\<close>

definition dict_merge :: "(string, json) dict \<Rightarrow> (string, json) dict \<Rightarrow> (string, json) dict" where
  "dict_merge base extra = fold (\<lambda>(k, v). dput k v) extra base"

definition agent_card_of :: "registration \<Rightarrow> (repo_error, (string, json) dict) res" where
  "agent_card_of a =
     (let agent_card = dict_merge [(''name'', JStr (rg_name a)), (''description'', JStr (rg_description a))]
                   (rg_agent_card_extra a) in
      if \<not> rg_takes_interjections a then Inr agent_card
      else case py_iter (case dget agent_card ''extensions'' of None \<Rightarrow> JArr [] | Some v \<Rightarrow> v) of
             Inl e \<Rightarrow> Inl (BadShape e)
           | Inr declared \<Rightarrow>
               let uri = JStr INTERJECTION_EXTENSION_URI in
               Inr (dput ''extensions''
                 (JArr (if uri \<in> set declared then declared else declared @ [uri])) agent_card))"

definition ag_key :: "agent_row \<Rightarrow> key \<times> string" where
  "ag_key r = (ag_provider_key r, ag_name r)"

definition upsert_agent ::
  "time \<Rightarrow> key \<Rightarrow> string \<Rightarrow> (string, json) dict \<Rightarrow> json \<Rightarrow> store \<Rightarrow> store" where
  "upsert_agent now public_key name agent_card metadata s =
     s\<lparr>agents := upsert ag_key
        \<lparr>ag_provider_key = public_key, ag_name = name, ag_agent_card = agent_card,
         ag_metadata = metadata, ag_joined_at = now, ag_last_seen_at = now\<rparr>
        (\<lambda>r. r\<lparr>ag_agent_card := agent_card, ag_metadata := metadata, ag_last_seen_at := now\<rparr>) (agents s)\<rparr>"

definition register_agent ::
  "time \<Rightarrow> key \<Rightarrow> registration \<Rightarrow> (string, agent_ref) dict \<times> store \<Rightarrow>
   (repo_error, (string, agent_ref) dict \<times> store) res" where
  "register_agent now public_key a = (\<lambda>(registered, s).
     rbind (agent_card_of a) (\<lambda>agent_card.
       Inr (dput (rg_name a) \<lparr>ar_provider_key = public_key, ar_name = rg_name a\<rparr> registered,
            upsert_agent now public_key (rg_name a) agent_card (rg_metadata a) s)))"

definition register_agents ::
  "(string \<Rightarrow> string) \<Rightarrow> time \<Rightarrow> store \<Rightarrow> key \<Rightarrow> registration list \<Rightarrow> string option \<Rightarrow>
   (repo_error, (string, agent_ref) dict \<times> store) res" where
  "register_agents sha256_hex now s public_key agents_batch provider_name =
     rbind (ensure_provider sha256_hex now s public_key) (\<lambda>s.
       mfold (register_agent now public_key) agents_batch
         ([], case provider_name of None \<Rightarrow> s | Some n \<Rightarrow> set_provider_name now s public_key n))"

definition get_agent_names_for_provider :: "store \<Rightarrow> key \<Rightarrow> string set" where
  "get_agent_names_for_provider s provider_key =
     set (map ag_name (filter (\<lambda>r. ag_provider_key r = provider_key) (agents s)))"

definition touch_agents :: "time \<Rightarrow> store \<Rightarrow> key \<Rightarrow> string list \<Rightarrow> store" where
  "touch_agents now s provider_key names =
     (if names = [] then s
      else s\<lparr>agents := map (\<lambda>r. if ag_provider_key r = provider_key \<and> ag_name r \<in> set names
         then r\<lparr>ag_last_seen_at := now\<rparr> else r) (agents s)\<rparr>)"

definition get_agent :: "store \<Rightarrow> agent_ref \<Rightarrow> agent_row option" where
  "get_agent s a = fetch ag_key (ar_provider_key a, ar_name a) (agents s)"

text \<open>The outer join gives an agent its provider's fingerprint, when the provider is there.\<close>

definition fingerprint_of :: "store \<Rightarrow> key \<Rightarrow> string option" where
  "fingerprint_of s k = map_option pr_fingerprint (get_provider s k)"

definition resolve_agent :: "store \<Rightarrow> string \<Rightarrow> string \<Rightarrow> agent_row option" where
  "resolve_agent s provider name =
     find (\<lambda>r. (ag_provider_key r = provider \<or> fingerprint_of s (ag_provider_key r) = Some provider)
               \<and> ag_name r = name) (agents s)"

text \<open>\<^verbatim>\<open>models.AgentSummary\<close>; pydantic refuses a description that is no string and skills that are no list of objects.\<close>

record agent_summary =
  as_provider_key :: key
  as_name :: string
  as_description :: string
  as_skills :: "json list"
  as_joined_at :: time
  as_last_seen_at :: time
  as_online :: bool
  as_provider_name :: "string option"

definition display_name_of :: "store \<Rightarrow> key \<Rightarrow> string option" where
  "display_name_of s k = (case get_provider s k of None \<Rightarrow> None | Some p \<Rightarrow> pr_display_name p)"

definition agent_summary_of :: "store \<Rightarrow> agent_row \<Rightarrow> (repo_error, agent_summary) res" where
  "agent_summary_of s r =
     (case (case dget (ag_agent_card r) ''description'' of None \<Rightarrow> JStr [] | Some v \<Rightarrow> v,
            case dget (ag_agent_card r) ''skills'' of None \<Rightarrow> JArr [] | Some v \<Rightarrow> v) of
        (JStr description, JArr skills) \<Rightarrow>
          if list_all jis_dict skills then
            Inr \<lparr>as_provider_key = ag_provider_key r, as_name = ag_name r, as_description = description,
              as_skills = skills, as_joined_at = ag_joined_at r, as_last_seen_at = ag_last_seen_at r,
              as_online = False, as_provider_name = display_name_of s (ag_provider_key r)\<rparr>
          else Inl (BadShape ValueError)
      | _ \<Rightarrow> Inl (BadShape ValueError))"

fun mmap :: "('a \<Rightarrow> ('e, 'b) res) \<Rightarrow> 'a list \<Rightarrow> ('e, 'b list) res" where
  "mmap f [] = Inr []"
| "mmap f (x # xs) = rbind (f x) (\<lambda>y. rbind (mmap f xs) (\<lambda>ys. Inr (y # ys)))"

definition list_agents :: "time \<Rightarrow> int \<Rightarrow> store \<Rightarrow> (repo_error, agent_summary list) res" where
  "list_agents now stale_hidden_window_seconds s =
     mmap (agent_summary_of s)
       (sort_key ag_name
         (filter (\<lambda>r. ag_last_seen_at r \<ge> now - stale_hidden_window_seconds) (agents s)))"

definition count_threads_for_agent :: "store \<Rightarrow> agent_ref \<Rightarrow> nat" where
  "count_threads_for_agent s a =
     length (filter (\<lambda>t. th_provider_key t = ar_provider_key a \<and> th_agent_name t = ar_name a) (threads s))"

definition count_runs_for_agent :: "store \<Rightarrow> agent_ref \<Rightarrow> run_status list option \<Rightarrow> nat" where
  "count_runs_for_agent s a statuses =
     length (filter (\<lambda>r. rr_provider_key r = ar_provider_key a \<and> rr_agent_name r = ar_name a \<and>
       (case statuses of None \<Rightarrow> True | Some sts \<Rightarrow> rr_status r \<in> set sts)) (runs s))"

text \<open>
  \<^verbatim>\<open>DELETE\<close> from \<^verbatim>\<open>agents\<close> as the database executes it: the foreign keys \<^verbatim>\<open>fk_threads_agent\<close> and \<^verbatim>\<open>fk_runs_agent\<close> the schema declares
  refuse to delete a row that a thread or a run names. The result is the number of rows deleted.
\<close>

definition delete_agent_rows :: "store \<Rightarrow> (agent_row \<Rightarrow> bool) \<Rightarrow> (repo_error, nat \<times> store) res" where
  "delete_agent_rows s where_clause =
     (let gone = map ag_key (filter where_clause (agents s)) in
      if list_ex (\<lambda>t. (th_provider_key t, th_agent_name t) \<in> set gone) (threads s) \<or>
         list_ex (\<lambda>r. (rr_provider_key r, rr_agent_name r) \<in> set gone) (runs s)
      then Inl IntegrityError
      else Inr (length gone, s\<lparr>agents := filter (\<lambda>r. \<not> where_clause r) (agents s)\<rparr>))"

definition delete_agent :: "store \<Rightarrow> agent_ref \<Rightarrow> (repo_error, bool \<times> store) res" where
  "delete_agent s a =
     rbind (delete_agent_rows s (\<lambda>r. ag_provider_key r = ar_provider_key a \<and> ag_name r = ar_name a)) (\<lambda>(rowcount, s).
       Inr (rowcount > 0, s))"

section \<open>LLM offerings\<close>

definition ll_key :: "llm_row \<Rightarrow> key \<times> string" where
  "ll_key r = (ll_provider_key r, ll_name r)"

definition upsert_llm :: "time \<Rightarrow> key \<Rightarrow> json \<Rightarrow> string \<Rightarrow> store \<Rightarrow> store" where
  "upsert_llm now public_key metadata name s =
     s\<lparr>llm_providers := upsert ll_key
        \<lparr>ll_provider_key = public_key, ll_name = name, ll_metadata = metadata,
         ll_joined_at = now, ll_last_seen_at = now\<rparr>
        (\<lambda>r. r\<lparr>ll_metadata := metadata, ll_last_seen_at := now\<rparr>) (llm_providers s)\<rparr>"

definition register_llm_providers ::
  "(string \<Rightarrow> string) \<Rightarrow> time \<Rightarrow> store \<Rightarrow> key \<Rightarrow> string list \<Rightarrow> json \<Rightarrow>
   (repo_error, (string, llm_ref) dict \<times> store) res" where
  "register_llm_providers sha256_hex now s public_key names metadata =
     rbind (ensure_provider sha256_hex now s public_key) (\<lambda>s.
       Inr (fold (\<lambda>n. dput n \<lparr>lr_provider_key = public_key, lr_name = n\<rparr>) names [],
            fold (upsert_llm now public_key (jor metadata (JObj []))) names s))"

definition get_llm_provider :: "store \<Rightarrow> llm_ref \<Rightarrow> llm_row option" where
  "get_llm_provider s ref = fetch ll_key (lr_provider_key ref, lr_name ref) (llm_providers s)"

definition touch_llm_providers :: "time \<Rightarrow> store \<Rightarrow> key \<Rightarrow> string list \<Rightarrow> store" where
  "touch_llm_providers now s provider_key names =
     (if names = [] then s
      else s\<lparr>llm_providers := map (\<lambda>r. if ll_provider_key r = provider_key \<and> ll_name r \<in> set names
         then r\<lparr>ll_last_seen_at := now\<rparr> else r) (llm_providers s)\<rparr>)"

record llm_summary =
  ls_provider_key :: key
  ls_name :: string
  ls_metadata :: json
  ls_joined_at :: time
  ls_last_seen_at :: time
  ls_online :: bool
  ls_provider_name :: "string option"

definition list_llm_providers :: "time \<Rightarrow> int \<Rightarrow> store \<Rightarrow> llm_summary list" where
  "list_llm_providers now stale_hidden_window_seconds s =
     map (\<lambda>r. \<lparr>ls_provider_key = ll_provider_key r, ls_name = ll_name r, ls_metadata = ll_metadata r,
            ls_joined_at = ll_joined_at r, ls_last_seen_at = ll_last_seen_at r, ls_online = False,
            ls_provider_name = display_name_of s (ll_provider_key r)\<rparr>)
       (sort_key ll_name
         (filter (\<lambda>r. ll_last_seen_at r \<ge> now - stale_hidden_window_seconds) (llm_providers s)))"

definition delete_llm_provider :: "store \<Rightarrow> llm_ref \<Rightarrow> bool \<times> store" where
  "delete_llm_provider s ref =
     (let is_row = (\<lambda>r. ll_key r = (lr_provider_key ref, lr_name ref)) in
      (list_ex is_row (llm_providers s), s\<lparr>llm_providers := filter (\<lambda>r. \<not> is_row r) (llm_providers s)\<rparr>))"


section \<open>What an upsert promises\<close>

text \<open>
  A registry: \<open>put b\<close> writes the entry named \<open>name b\<close>, as \<open>fresh b\<close> when it is new and as the
  refreshed old one when it is not, and touches no other entry.
\<close>

locale registry =
  fixes look :: "'s \<Rightarrow> 'n \<Rightarrow> 'v option"
    and put :: "'b \<Rightarrow> 's \<Rightarrow> 's"
    and name :: "'b \<Rightarrow> 'n"
    and fresh :: "'b \<Rightarrow> 'v"
    and refresh :: "'b \<Rightarrow> 'v \<Rightarrow> 'v"
  assumes look_put: "look (put b s) n =
    (if n = name b then Some (case look s n of None \<Rightarrow> fresh b | Some v \<Rightarrow> refresh b v) else look s n)"
    and refresh_fresh: "refresh b (fresh b) = fresh b"
    and refresh_refresh: "refresh b (refresh b v) = refresh b v"
begin

lemma look_put_all_other: "n \<notin> name ` set bs \<Longrightarrow> look (fold put bs s) n = look s n"
  by (induction bs arbitrary: s) (simp_all add: look_put)

lemma look_put_all_in:
  "distinct (map name bs) \<Longrightarrow> b \<in> set bs \<Longrightarrow> look (fold put bs s) (name b) =
     Some (case look s (name b) of None \<Rightarrow> fresh b | Some v \<Rightarrow> refresh b v)"
proof (induction bs arbitrary: s)
  case (Cons c bs)
  then show ?case
  proof (cases "b = c")
    case True
    from Cons.prems show ?thesis unfolding True by (simp add: look_put_all_other look_put)
  next
    case False
    with Cons.prems have "name b \<noteq> name c" by (auto simp: image_iff)
    with False Cons show ?thesis by (simp add: look_put)
  qed
qed simp

lemma put_again: "look (put b (put b s)) = look (put b s)"
  by (rule ext) (simp add: look_put refresh_fresh refresh_refresh split: option.splits)

lemma look_put_mono: "look s n \<noteq> None \<Longrightarrow> look (fold put bs s) n \<noteq> None"
  by (induction bs arbitrary: s) (simp_all add: look_put)

end

type_synonym agent_entry = "agent_ref \<times> (string, json) dict \<times> json"

definition put_agent :: "time \<Rightarrow> agent_entry \<Rightarrow> store \<Rightarrow> store" where
  "put_agent now = (\<lambda>(a, c, m). upsert_agent now (ar_provider_key a) (ar_name a) c m)"

definition new_agent_row :: "time \<Rightarrow> agent_entry \<Rightarrow> agent_row" where
  "new_agent_row now = (\<lambda>(a, c, m). \<lparr>ag_provider_key = ar_provider_key a, ag_name = ar_name a,
     ag_agent_card = c, ag_metadata = m, ag_joined_at = now, ag_last_seen_at = now\<rparr>)"

definition refreshed_agent_row :: "time \<Rightarrow> agent_entry \<Rightarrow> agent_row \<Rightarrow> agent_row" where
  "refreshed_agent_row now = (\<lambda>(a, c, m) r.
     r\<lparr>ag_agent_card := c, ag_metadata := m, ag_last_seen_at := now\<rparr>)"

lemma get_agent_upsert:
  "get_agent (upsert_agent now pk n c m s) a =
     (if a = \<lparr>ar_provider_key = pk, ar_name = n\<rparr>
      then Some (case get_agent s a of
          None \<Rightarrow> new_agent_row now (a, c, m) | Some r \<Rightarrow> refreshed_agent_row now (a, c, m) r)
      else get_agent s a)"
proof -
  have iff: "(ar_provider_key a, ar_name a) = (pk, n) \<longleftrightarrow> a = \<lparr>ar_provider_key = pk, ar_name = n\<rparr>"
    by (cases a) auto
  define new where "new = \<lparr>ag_provider_key = pk, ag_name = n, ag_agent_card = c, ag_metadata = m,
    ag_joined_at = now, ag_last_seen_at = now\<rparr>"
  define f :: "agent_row \<Rightarrow> agent_row"
    where "f = (\<lambda>r. r\<lparr>ag_agent_card := c, ag_metadata := m, ag_last_seen_at := now\<rparr>)"
  have key: "ag_key new = (pk, n)" "ag_key (f r) = ag_key r" for r
    by (simp_all add: ag_key_def new_def f_def)
  have "get_agent (upsert_agent now pk n c m s) a =
      fetch ag_key (ar_provider_key a, ar_name a) (upsert ag_key new f (agents s))"
    by (simp add: get_agent_def upsert_agent_def new_def f_def)
  also have "\<dots> = (if (ar_provider_key a, ar_name a) = (pk, n)
      then Some (case get_agent s a of None \<Rightarrow> new | Some r \<Rightarrow> f r) else get_agent s a)"
    by (subst fetch_upsert) (simp_all only: key get_agent_def)
  finally show ?thesis
    unfolding iff by (auto simp: new_def f_def new_agent_row_def refreshed_agent_row_def split: option.splits)
qed

interpretation ag: registry get_agent "put_agent now" fst "new_agent_row now" "refreshed_agent_row now"
  for now
proof unfold_locales
  show "get_agent (put_agent now b s) n = (if n = fst b
      then Some (case get_agent s n of None \<Rightarrow> new_agent_row now b | Some v \<Rightarrow> refreshed_agent_row now b v)
      else get_agent s n)" for b s n
    by (cases b) (auto simp: put_agent_def get_agent_upsert split: option.splits)
qed (simp_all add: new_agent_row_def refreshed_agent_row_def split: prod.splits)

definition put_llm :: "time \<Rightarrow> llm_ref \<times> json \<Rightarrow> store \<Rightarrow> store" where
  "put_llm now = (\<lambda>(ref, m). upsert_llm now (lr_provider_key ref) m (lr_name ref))"

lemma get_llm_provider_upsert:
  "get_llm_provider (upsert_llm now pk m n s) ref =
     (if ref = \<lparr>lr_provider_key = pk, lr_name = n\<rparr>
      then Some (case get_llm_provider s ref of
          None \<Rightarrow> \<lparr>ll_provider_key = pk, ll_name = n, ll_metadata = m, ll_joined_at = now, ll_last_seen_at = now\<rparr>
        | Some r \<Rightarrow> r\<lparr>ll_metadata := m, ll_last_seen_at := now\<rparr>)
      else get_llm_provider s ref)"
proof -
  have iff: "(lr_provider_key ref, lr_name ref) = (pk, n) \<longleftrightarrow> ref = \<lparr>lr_provider_key = pk, lr_name = n\<rparr>"
    by (cases ref) auto
  define new where "new = \<lparr>ll_provider_key = pk, ll_name = n, ll_metadata = m,
    ll_joined_at = now, ll_last_seen_at = now\<rparr>"
  define f :: "llm_row \<Rightarrow> llm_row" where "f = (\<lambda>r. r\<lparr>ll_metadata := m, ll_last_seen_at := now\<rparr>)"
  have key: "ll_key new = (pk, n)" "ll_key (f r) = ll_key r" for r
    by (simp_all add: ll_key_def new_def f_def)
  have "get_llm_provider (upsert_llm now pk m n s) ref =
      fetch ll_key (lr_provider_key ref, lr_name ref) (upsert ll_key new f (llm_providers s))"
    by (simp add: get_llm_provider_def upsert_llm_def new_def f_def)
  also have "\<dots> = (if (lr_provider_key ref, lr_name ref) = (pk, n)
      then Some (case get_llm_provider s ref of None \<Rightarrow> new | Some r \<Rightarrow> f r) else get_llm_provider s ref)"
    by (subst fetch_upsert) (simp_all only: key get_llm_provider_def)
  finally show ?thesis unfolding iff by (auto simp: new_def f_def split: option.splits)
qed

interpretation llm: registry get_llm_provider "put_llm now" fst
  "\<lambda>(ref, m). \<lparr>ll_provider_key = lr_provider_key ref, ll_name = lr_name ref, ll_metadata = m,
     ll_joined_at = now, ll_last_seen_at = now\<rparr>"
  "\<lambda>(ref, m) r. r\<lparr>ll_metadata := m, ll_last_seen_at := now\<rparr>"
  for now
proof unfold_locales
  show "get_llm_provider (put_llm now b s) n = (if n = fst b
      then Some (case get_llm_provider s n of
          None \<Rightarrow> (case b of (ref, m) \<Rightarrow> \<lparr>ll_provider_key = lr_provider_key ref, ll_name = lr_name ref,
             ll_metadata = m, ll_joined_at = now, ll_last_seen_at = now\<rparr>)
        | Some v \<Rightarrow> (case b of (ref, m) \<Rightarrow> \<lambda>r. r\<lparr>ll_metadata := m, ll_last_seen_at := now\<rparr>) v)
      else get_llm_provider s n)" for b s n
    by (cases b) (auto simp: put_llm_def get_llm_provider_upsert split: option.splits)
qed (simp_all split: prod.splits)


section \<open>The registry as it stands\<close>

text \<open>
  The constraints the schema declares on the three tables: primary keys, the unique fingerprint,
  and the foreign keys from agents and offerings to providers.
\<close>

definition registry_ok :: "(string \<Rightarrow> string) \<Rightarrow> store \<Rightarrow> bool" where
  "registry_ok H s \<longleftrightarrow>
     distinct (map pr_public_key (providers s)) \<and> distinct (map pr_fingerprint (providers s)) \<and>
     (\<forall>p \<in> set (providers s). provider_fingerprint H (pr_public_key p) = Some (pr_fingerprint p)) \<and>
     distinct (map ag_key (agents s)) \<and>
     (\<forall>r \<in> set (agents s). ag_provider_key r \<in> pr_public_key ` set (providers s)) \<and>
     distinct (map ll_key (llm_providers s)) \<and>
     (\<forall>r \<in> set (llm_providers s). ll_provider_key r \<in> pr_public_key ` set (providers s))"

lemma fetch_None_iff: "fetch key k rows = None \<longleftrightarrow> k \<notin> key ` set rows"
  by (auto simp: fetch_def find_None_iff)

lemma fetch_Some_in: "fetch key k rows = Some r \<Longrightarrow> r \<in> set rows"
  unfolding fetch_def using find_Some_in by fast

lemma fetch_SomeD: "fetch key k rows = Some r \<Longrightarrow> r \<in> set rows \<and> key r = k"
  using fetch_Some_in fetch_key by fast

lemma fetch_unique: "distinct (map key rows) \<Longrightarrow> r \<in> set rows \<Longrightarrow> fetch key (key r) rows = Some r"
proof (induction rows)
  case (Cons x rows)
  then show ?case by (cases "x = r") (auto simp: fetch_def)
qed simp

lemma map_key_upsert:
  assumes "\<And>r. key r = key new \<Longrightarrow> key (f r) = key new"
  shows "map key (upsert key new f rows) =
    (if key new \<in> key ` set rows then map key rows else map key rows @ [key new])"
  using assms by (auto simp: upsert_def fetch_None_iff)

lemma providers_upsert [simp]:
  "providers (upsert_agent now pk n c m s) = providers s" "llm_providers (upsert_agent now pk n c m s) = llm_providers s"
  "providers (upsert_llm now pk j n s) = providers s" "agents (upsert_llm now pk j n s) = agents s"
  by (simp_all add: upsert_agent_def upsert_llm_def)

lemma upsert_agent_keys:
  "map ag_key (agents (upsert_agent now pk n c m s)) =
     (if (pk, n) \<in> ag_key ` set (agents s) then map ag_key (agents s) else map ag_key (agents s) @ [(pk, n)])"
  using map_key_upsert [of ag_key "\<lparr>ag_provider_key = pk, ag_name = n, ag_agent_card = c, ag_metadata = m,
      ag_joined_at = now, ag_last_seen_at = now\<rparr>"
      "\<lambda>r. r\<lparr>ag_agent_card := c, ag_metadata := m, ag_last_seen_at := now\<rparr>" "agents s"]
  by (simp add: upsert_agent_def ag_key_def [abs_def])

lemma upsert_llm_keys:
  "map ll_key (llm_providers (upsert_llm now pk j n s)) =
     (if (pk, n) \<in> ll_key ` set (llm_providers s) then map ll_key (llm_providers s)
      else map ll_key (llm_providers s) @ [(pk, n)])"
  using map_key_upsert [of ll_key "\<lparr>ll_provider_key = pk, ll_name = n, ll_metadata = j,
      ll_joined_at = now, ll_last_seen_at = now\<rparr>"
      "\<lambda>r. r\<lparr>ll_metadata := j, ll_last_seen_at := now\<rparr>" "llm_providers s"]
  by (simp add: upsert_llm_def ll_key_def [abs_def])

text \<open>The foreign keys only look at the key columns.\<close>

lemma registry_ok_alt:
  "registry_ok H s \<longleftrightarrow>
     distinct (map pr_public_key (providers s)) \<and> distinct (map pr_fingerprint (providers s)) \<and>
     (\<forall>p \<in> set (providers s). provider_fingerprint H (pr_public_key p) = Some (pr_fingerprint p)) \<and>
     distinct (map ag_key (agents s)) \<and>
     fst ` set (map ag_key (agents s)) \<subseteq> set (map pr_public_key (providers s)) \<and>
     distinct (map ll_key (llm_providers s)) \<and>
     fst ` set (map ll_key (llm_providers s)) \<subseteq> set (map pr_public_key (providers s))"
  by (simp add: registry_ok_def ag_key_def ll_key_def image_image image_subset_iff)

lemma upsert_agent_registry_ok:
  "registry_ok H s \<Longrightarrow> pk \<in> pr_public_key ` set (providers s) \<Longrightarrow> registry_ok H (upsert_agent now pk n c m s)"
  unfolding registry_ok_alt upsert_agent_keys by auto

lemma upsert_llm_registry_ok:
  "registry_ok H s \<Longrightarrow> pk \<in> pr_public_key ` set (providers s) \<Longrightarrow> registry_ok H (upsert_llm now pk j n s)"
  unfolding registry_ok_alt upsert_llm_keys by auto

lemma ensure_provider_registry_ok:
  assumes "registry_ok H s" "ensure_provider H now s pk = Inr s'"
  shows "registry_ok H s' \<and> pk \<in> pr_public_key ` set (providers s') \<and> agents s' = agents s \<and>
    llm_providers s' = llm_providers s"
  using assms
  by (auto simp: ensure_provider_def registry_ok_def get_provider_def fetch_None_iff list_ex_iff image_iff
      split: option.splits if_splits)

lemma set_provider_name_registry_ok:
  "registry_ok H s \<Longrightarrow> registry_ok H (set_provider_name now s pk n) \<and>
     pr_public_key ` set (providers (set_provider_name now s pk n)) = pr_public_key ` set (providers s)"
proof -
  assume ok: "registry_ok H s"
  define f where "f p = (if pr_public_key p = pk
    then p\<lparr>pr_display_name := Some n, pr_updated_at := now\<rparr> else p)" for p :: provider_row
  have prov: "providers (set_provider_name now s pk n) = map f (providers s)"
    by (simp add: set_provider_name_def f_def)
  have keep: "pr_public_key (f p) = pr_public_key p" "pr_fingerprint (f p) = pr_fingerprint p" for p
    by (simp_all add: f_def)
  have comps: "pr_public_key \<circ> f = pr_public_key" "pr_fingerprint \<circ> f = pr_fingerprint"
    using keep by (simp_all add: fun_eq_iff)
  then show ?thesis using ok unfolding registry_ok_alt prov
    by (auto simp: keep set_provider_name_def image_image)
qed

text \<open>Every operation that writes the three tables.\<close>

inductive registry_step :: "(string \<Rightarrow> string) \<Rightarrow> store \<Rightarrow> store \<Rightarrow> bool" for H where
  register_agents: "register_agents H now s pk batch name = Inr (refs, s') \<Longrightarrow> registry_step H s s'"
| register_llms: "register_llm_providers H now s pk names metadata = Inr (lrefs, s') \<Longrightarrow> registry_step H s s'"
| touch_agents: "registry_step H s (touch_agents now s pk names)"
| touch_llms: "registry_step H s (touch_llm_providers now s pk names)"
| delete_agent: "delete_agent s a = Inr (found, s') \<Longrightarrow> registry_step H s s'"
| delete_llm: "delete_llm_provider s ref = (found, s') \<Longrightarrow> registry_step H s s'"

inductive registry_reach :: "(string \<Rightarrow> string) \<Rightarrow> store \<Rightarrow> bool" for H where
  empty: "providers s = [] \<Longrightarrow> agents s = [] \<Longrightarrow> llm_providers s = [] \<Longrightarrow> registry_reach H s"
| step: "registry_reach H s \<Longrightarrow> registry_step H s s' \<Longrightarrow> registry_reach H s'"

lemma register_agents_registry_ok:
  assumes "registry_ok H s" "register_agents H now s pk batch name = Inr (refs, s')"
  shows "registry_ok H s'"
proof -
  from assms(2) obtain s1 where s1: "ensure_provider H now s pk = Inr s1"
    by (auto simp: register_agents_def rbind_Inr_iff)
  define s2 where "s2 = (case name of None \<Rightarrow> s1 | Some n \<Rightarrow> set_provider_name now s1 pk n)"
  have ok2: "registry_ok H s2 \<and> pk \<in> pr_public_key ` set (providers s2)"
    using ensure_provider_registry_ok [OF assms(1) s1] set_provider_name_registry_ok [of H s1 now pk]
    by (auto simp: s2_def split: option.splits)
  have "mfold (register_agent now pk) batch ([], s2) = Inr (refs, s')"
    using assms(2) s1 by (simp add: register_agents_def s2_def)
  then have "registry_ok H (snd (refs, s')) \<and> pk \<in> pr_public_key ` set (providers (snd (refs, s')))"
    by (rule mfold_invariant [where P = "\<lambda>x. registry_ok H (snd x) \<and> pk \<in> pr_public_key ` set (providers (snd x))"])
       (use ok2 in \<open>auto simp: register_agent_def rbind_Inr_iff upsert_agent_registry_ok split: prod.splits\<close>)
  then show ?thesis by simp
qed

lemma register_llm_registry_ok:
  assumes "registry_ok H s" "register_llm_providers H now s pk names j = Inr (refs, s')"
  shows "registry_ok H s'"
proof -
  from assms(2) obtain s1 where s1: "ensure_provider H now s pk = Inr s1"
    and s': "s' = fold (upsert_llm now pk (jor j (JObj []))) names s1"
    by (auto simp: register_llm_providers_def rbind_Inr_iff)
  have "registry_ok H t \<and> pk \<in> pr_public_key ` set (providers t) \<Longrightarrow>
      registry_ok H (fold (upsert_llm now pk v) names t)" for t v
    by (induction names arbitrary: t) (simp_all add: upsert_llm_registry_ok)
  then show ?thesis unfolding s' using ensure_provider_registry_ok [OF assms(1) s1] by blast
qed

lemma touch_agents_keys: "map ag_key (agents (touch_agents now s pk names)) = map ag_key (agents s)"
  by (simp add: touch_agents_def ag_key_def)

lemma touch_llm_keys:
  "map ll_key (llm_providers (touch_llm_providers now s pk names)) = map ll_key (llm_providers s)"
  by (simp add: touch_llm_providers_def ll_key_def)

lemma touch_frame [simp]:
  "providers (touch_agents now s pk names) = providers s"
  "llm_providers (touch_agents now s pk names) = llm_providers s"
  "providers (touch_llm_providers now s pk names) = providers s"
  "agents (touch_llm_providers now s pk names) = agents s"
  by (simp_all add: touch_agents_def touch_llm_providers_def)

lemma delete_agent_eq:
  "delete_agent s a =
     (let is_row = (\<lambda>r. ag_key r = (ar_provider_key a, ar_name a)) in
      if get_agent s a \<noteq> None \<and> (count_threads_for_agent s a > 0 \<or> count_runs_for_agent s a None > 0)
      then Inl IntegrityError
      else Inr (list_ex is_row (agents s), s\<lparr>agents := filter (\<lambda>r. \<not> is_row r) (agents s)\<rparr>))"
proof -
  let ?k = "(ar_provider_key a, ar_name a)"
  have w: "(\<lambda>r. ag_provider_key r = ar_provider_key a \<and> ag_name r = ar_name a) = (\<lambda>r. ag_key r = ?k)"
    by (simp add: ag_key_def fun_eq_iff)
  have gone: "x \<in> set (map ag_key (filter (\<lambda>r. ag_key r = ?k) (agents s))) \<longleftrightarrow> x = ?k \<and> get_agent s a \<noteq> None" for x
    by (auto simp: get_agent_def fetch_None_iff image_iff intro: sym)
  have "list_ex (\<lambda>t. (th_provider_key t, th_agent_name t) = ?k) (threads s) = (count_threads_for_agent s a > 0)"
    "list_ex (\<lambda>r. (rr_provider_key r, rr_agent_name r) = ?k) (runs s) = (count_runs_for_agent s a None > 0)"
    "list_ex (\<lambda>r. ag_key r = ?k) (agents s) = (length (filter (\<lambda>r. ag_key r = ?k) (agents s)) > 0)"
    by (auto simp: count_threads_for_agent_def count_runs_for_agent_def rr_agent_def list_ex_iff filter_empty_conv)
  then show ?thesis
    unfolding delete_agent_def delete_agent_rows_def w gone Let_def by (auto simp: list_ex_iff)
qed

lemma registry_step_ok: "registry_step H s s' \<Longrightarrow> registry_ok H s \<Longrightarrow> registry_ok H s'"
proof (induction rule: registry_step.induct)
  case (delete_agent s a found s')
  then show ?case
    by (auto simp: delete_agent_eq registry_ok_def Let_def distinct_map_filter split: if_splits)
next
  case (delete_llm s ref found s')
  then show ?case by (auto simp: delete_llm_provider_def registry_ok_def Let_def distinct_map_filter)
next
  case (touch_agents s now pk names)
  then show ?case unfolding registry_ok_alt touch_agents_keys by simp
next
  case (touch_llms s now pk names)
  then show ?case unfolding registry_ok_alt touch_llm_keys by simp
qed (blast intro: register_agents_registry_ok register_llm_registry_ok)+

lemma registry_reach_ok: "registry_reach H s \<Longrightarrow> registry_ok H s"
proof (induction rule: registry_reach.induct)
  case (empty s)
  then show ?case by (simp add: registry_ok_def)
next
  case (step s s')
  then show ?case using registry_step_ok by blast
qed


section \<open>Registering, resolving and listing\<close>

text \<open>A batch that registers is the fold of its upserts.\<close>

definition entry_of :: "key \<Rightarrow> registration \<Rightarrow> (string, json) dict \<Rightarrow> agent_entry" where
  "entry_of pk a c = (\<lparr>ar_provider_key = pk, ar_name = rg_name a\<rparr>, c, rg_metadata a)"

definition card_or_empty :: "registration \<Rightarrow> (string, json) dict" where
  "card_or_empty a = (case agent_card_of a of Inl e \<Rightarrow> [] | Inr c \<Rightarrow> c)"

lemma register_agent_Inr_iff:
  "register_agent now pk a (reg, s) = Inr x \<longleftrightarrow> (\<exists>c. agent_card_of a = Inr c \<and>
     x = (dput (rg_name a) \<lparr>ar_provider_key = pk, ar_name = rg_name a\<rparr> reg,
          upsert_agent now pk (rg_name a) c (rg_metadata a) s))"
  by (auto simp: register_agent_def rbind_Inr_iff)

lemma register_batch_fold:
  "mfold (register_agent now pk) batch (reg, s) = Inr (reg', s') \<Longrightarrow>
     s' = fold (put_agent now) (map (\<lambda>a. entry_of pk a (card_or_empty a)) batch) s \<and>
     (\<forall>a \<in> set batch. agent_card_of a = Inr (card_or_empty a))"
proof (induction batch arbitrary: reg s)
  case (Cons a batch)
  from Cons.prems obtain c where c: "agent_card_of a = Inr c"
    and "mfold (register_agent now pk) batch
      (dput (rg_name a) \<lparr>ar_provider_key = pk, ar_name = rg_name a\<rparr> reg,
       upsert_agent now pk (rg_name a) c (rg_metadata a) s) = Inr (reg', s')"
    by (auto simp: register_agent_Inr_iff rbind_Inr_iff)
  from Cons.IH [OF this(2)] c show ?case
    by (simp add: put_agent_def entry_of_def card_or_empty_def)
qed simp

lemma get_agent_provider_frame: "agents s = agents s' \<Longrightarrow> get_agent s = get_agent s'"
  by (simp add: get_agent_def fun_eq_iff)

lemma register_agents_fold:
  assumes "register_agents H now s pk batch name = Inr (refs, s')"
  obtains s2 where "agents s2 = agents s"
    "s' = fold (put_agent now) (map (\<lambda>a. entry_of pk a (card_or_empty a)) batch) s2"
    "\<forall>a \<in> set batch. agent_card_of a = Inr (card_or_empty a)"
proof -
  from assms obtain s1 where s1: "ensure_provider H now s pk = Inr s1"
    by (auto simp: register_agents_def rbind_Inr_iff)
  define s2 where "s2 = (case name of None \<Rightarrow> s1 | Some n \<Rightarrow> set_provider_name now s1 pk n)"
  have "agents s1 = agents s"
    using s1 by (auto simp: ensure_provider_def split: option.splits if_splits)
  then have a2: "agents s2 = agents s" by (simp add: s2_def set_provider_name_def split: option.splits)
  from assms s1 have "mfold (register_agent now pk) batch ([], s2) = Inr (refs, s')"
    by (simp add: register_agents_def s2_def)
  from register_batch_fold [OF this] a2 that show ?thesis by blast
qed

text \<open>
  Registering a batch of differently named agents writes exactly their records: each gets the
  card built from its registration and is seen now, keeping the moment it first joined, and every
  other agent's record, of this provider or another, is what it was.
\<close>

theorem registration_writes_its_batch:
  assumes "register_agents H now s pk batch provider_name = Inr (refs, s')"
    and "distinct (map rg_name batch)"
  shows "get_agent s' ref =
    (case find (\<lambda>a. ref = \<lparr>ar_provider_key = pk, ar_name = rg_name a\<rparr>) batch of
       None \<Rightarrow> get_agent s ref
     | Some a \<Rightarrow> Some \<lparr>ag_provider_key = pk, ag_name = rg_name a, ag_agent_card = card_or_empty a,
         ag_metadata = rg_metadata a,
         ag_joined_at = (case get_agent s ref of None \<Rightarrow> now | Some r \<Rightarrow> ag_joined_at r),
         ag_last_seen_at = now\<rparr>)"
proof -
  obtain s2 where a2: "agents s2 = agents s"
    and s': "s' = fold (put_agent now) (map (\<lambda>a. entry_of pk a (card_or_empty a)) batch) s2"
    by (rule register_agents_fold [OF assms(1)])
  let ?es = "map (\<lambda>a. entry_of pk a (card_or_empty a)) batch"
  have look: "get_agent s2 = get_agent s" by (rule get_agent_provider_frame [OF a2])
  have "distinct (map (\<lambda>a. \<lparr>ar_provider_key = pk, ar_name = rg_name a\<rparr>) batch)"
    using assms(2) by (auto simp: distinct_map inj_on_def)
  then have dist: "distinct (map fst ?es)" by (simp add: entry_of_def comp_def)
  show ?thesis
  proof (cases "find (\<lambda>a. ref = \<lparr>ar_provider_key = pk, ar_name = rg_name a\<rparr>) batch")
    case None
    then have "ref \<notin> fst ` set ?es" by (auto simp: find_None_iff entry_of_def)
    from ag.look_put_all_other [OF this, of now s2] show ?thesis unfolding s' using None look by simp
  next
    case (Some a)
    then have a: "a \<in> set batch" and ref: "ref = \<lparr>ar_provider_key = pk, ar_name = rg_name a\<rparr>"
      by (auto dest: find_Some_in)
    have "entry_of pk a (card_or_empty a) \<in> set ?es" using a by simp
    from ag.look_put_all_in [OF dist this, of now s2] have
      "get_agent s' ref = Some (case get_agent s ref of None \<Rightarrow> new_agent_row now (entry_of pk a (card_or_empty a))
         | Some v \<Rightarrow> refreshed_agent_row now (entry_of pk a (card_or_empty a)) v)"
      unfolding s' look by (simp add: entry_of_def ref)
    note got = this
    have keyed: "ag_provider_key r = pk \<and> ag_name r = rg_name a" if "get_agent s ref = Some r" for r
      using fetch_key [of ag_key, OF that [unfolded get_agent_def]] by (simp add: ref ag_key_def)
    show ?thesis
    proof (cases "get_agent s ref")
      case None
      with got Some show ?thesis by (simp add: new_agent_row_def entry_of_def)
    next
      case old: (Some r)
      with got Some keyed [OF old] show ?thesis
        by (cases r) (simp add: refreshed_agent_row_def entry_of_def)
    qed
  qed
qed

lemma find_cong: "(\<And>x. x \<in> set xs \<Longrightarrow> P x = Q x) \<Longrightarrow> find P xs = find Q xs"
  by (induction xs) auto

lemma fingerprint_of_iff:
  assumes "registry_ok H s"
  shows "fingerprint_of s k = Some fp \<longleftrightarrow> (\<exists>p \<in> set (providers s). pr_public_key p = k \<and> pr_fingerprint p = fp)"
proof -
  have "distinct (map pr_public_key (providers s))" using assms by (simp add: registry_ok_def)
  then show ?thesis
    by (auto simp: fingerprint_of_def get_provider_def fetch_unique dest!: fetch_SomeD [of pr_public_key])
qed


definition presentable :: "agent_row \<Rightarrow> bool" where
  "presentable r \<longleftrightarrow>
     (case dget (ag_agent_card r) ''description'' of None \<Rightarrow> True | Some v \<Rightarrow> jis_str v) \<and>
     (case dget (ag_agent_card r) ''skills'' of
        None \<Rightarrow> True | Some v \<Rightarrow> (\<exists>xs. v = JArr xs \<and> list_all jis_dict xs))"

lemma agent_summary_of_iff: "(\<exists>x. agent_summary_of s r = Inr x) \<longleftrightarrow> presentable r"
  by (auto simp: agent_summary_of_def presentable_def jis_str_def split: option.splits json.splits)

lemma mmap_Inr_iff: "(\<exists>ys. mmap f xs = Inr ys) \<longleftrightarrow> (\<forall>x \<in> set xs. \<exists>y. f x = Inr y)"
  by (induction xs) (auto simp: rbind_Inr_iff)

text \<open>
  The roster is listed as a whole or not at all: \<open>list_agents\<close> answers iff every agent seen
  within the window has a card whose description is a string and whose skills are a list of objects,
  and otherwise it raises for every reader.
\<close>

theorem list_agents_all_or_nothing:
  "(\<exists>out. list_agents now window s = Inr out) \<longleftrightarrow>
   (\<forall>r. r \<in> set (agents s) \<and> ag_last_seen_at r \<ge> now - window \<longrightarrow> presentable r)"
  by (auto simp: list_agents_def mmap_Inr_iff agent_summary_of_iff)


definition demo_registry :: "provider_row list \<Rightarrow> agent_row list \<Rightarrow> store" where
  "demo_registry ps as = \<lparr>providers = ps, agents = as, llm_providers = [], threads = [], runs = [],
     thread_messages = [], run_events = []\<rparr>"

definition demo_registration :: "string \<Rightarrow> (string, json) dict \<Rightarrow> registration" where
  "demo_registration n extra = \<lparr>rg_name = n, rg_description = ''d'', rg_agent_card_extra = extra,
     rg_metadata = JObj [], rg_takes_interjections = True\<rparr>"

definition demo_registered :: store where
  "demo_registered =
     (case register_agents demo_digest 7 (demo_registry [] []) ''ab'' [demo_registration ''x'' []] None of
        Inl e \<Rightarrow> demo_registry [] [] | Inr (refs, s) \<Rightarrow> s)"

lemma demo_registered_reach: "registry_reach demo_digest demo_registered"
proof -
  let ?r = "register_agents demo_digest 7 (demo_registry [] []) ''ab'' [demo_registration ''x'' []] None"
  have "\<not> isl ?r" by code_simp
  then obtain refs s where r: "?r = Inr (refs, s)" by (cases ?r) auto
  have "registry_reach demo_digest (demo_registry [] [])"
    by (rule registry_reach.empty) (simp_all add: demo_registry_def)
  then have "registry_reach demo_digest s" using r by (blast intro: registry_reach.step registry_step.register_agents)
  then show ?thesis by (simp add: demo_registered_def r)
qed

theorem registration_writes_its_batch_witness:
  "\<exists>refs s'. register_agents demo_digest 9 demo_registered ''ab'' [demo_registration ''x'' []] None = Inr (refs, s')
     \<and> map_option (\<lambda>r. (ag_joined_at r, ag_last_seen_at r)) (get_agent s' \<lparr>ar_provider_key = ''ab'', ar_name = ''x''\<rparr>)
       = Some (7, 9)"
proof -
  let ?r = "register_agents demo_digest 9 demo_registered ''ab'' [demo_registration ''x'' []] None"
  let ?a = "\<lparr>ar_provider_key = ''ab'', ar_name = ''x''\<rparr>"
  have "\<not> isl ?r" by code_simp
  then obtain refs s' where r: "?r = Inr (refs, s')" by (cases ?r) auto
  have "map_option ag_joined_at (get_agent demo_registered ?a) = Some 7" by code_simp
  then obtain old where "get_agent demo_registered ?a = Some old" "ag_joined_at old = 7" by auto
  with registration_writes_its_batch [OF r, of ?a] have
    "map_option (\<lambda>r. (ag_joined_at r, ag_last_seen_at r)) (get_agent s' ?a) = Some (7, 9)"
    by (simp add: demo_registration_def)
  with r show ?thesis by blast
qed


definition demo_unpresentable :: store where
  "demo_unpresentable =
     (case register_agents demo_digest 8 demo_registered ''ab''
         [demo_registration ''y'' [(''skills'', JStr ''none'')]] None of
        Inl e \<Rightarrow> demo_registered | Inr (refs, s) \<Rightarrow> s)"

theorem list_agents_all_or_nothing_witness:
  "length (agents demo_unpresentable) = 2 \<and> \<not> (\<exists>out. list_agents 10 60 demo_unpresentable = Inr out)"
proof -
  let ?r = "hd (tl (agents demo_unpresentable))"
  have two: "length (agents demo_unpresentable) = 2" and seen: "ag_last_seen_at ?r = 8"
    and card: "map_option jis_str (dget (ag_agent_card ?r) ''skills'') = Some True" by code_simp+
  have "?r \<in> set (agents demo_unpresentable)"
    using two by (cases "agents demo_unpresentable"; cases "tl (agents demo_unpresentable)") auto
  moreover have "\<not> presentable ?r" using card by (auto simp: presentable_def jis_str_def)
  ultimately show ?thesis using two seen unfolding list_agents_all_or_nothing by fastforce
qed

end
