(* ===== verification/Props.thy ===== *)
theory Props
  imports Registry
begin

text \<open>
  What funduq says under \<^verbatim>\<open>forwardedProps.funduq\<close>: the shape of that entry
  (\<^verbatim>\<open>funduq_contract/shapes.py\<close>) and how it is written into the caller's bag
  (\<^verbatim>\<open>funduq/props.py\<close>). The lemmas show that the key is funduq's alone: a reader gets back what
  funduq wrote and never the caller's value under it, and every other key is relayed as sent.
\<close>

section \<open>The shape\<close>

definition OBSERVED_METADATA_KEY :: string where "OBSERVED_METADATA_KEY = ''funduq''"

text \<open>\<^verbatim>\<open>FunduqProps\<close>; the KYOK entry holds one string, its token.\<close>

record funduq_props =
  fp_kyok :: "string option"
  fp_addressed_run_id :: "run_id option"
  fp_actor_chain :: "string list option"

definition no_props :: funduq_props where
  "no_props = \<lparr>fp_kyok = None, fp_addressed_run_id = None, fp_actor_chain = None\<rparr>"

text \<open>
  A pydantic field that may be given by alias or by name: the alias wins. \<open>alias_key\<close> is the key
  the value was found under; a model that forbids extra fields refuses every other key.
\<close>

definition alias_key :: "string \<Rightarrow> string \<Rightarrow> event \<Rightarrow> string" where
  "alias_key alias field d = (if dget d alias \<noteq> None then alias else field)"

fun opt_str_value :: "json \<Rightarrow> string option option" where
  "opt_str_value JNull = Some None"
| "opt_str_value (JStr x) = Some (Some x)"
| "opt_str_value _ = None"

definition kyok_value :: "json \<Rightarrow> string option option" where
  "kyok_value v =
     (case v of
        JNull \<Rightarrow> Some None
      | JObj [(k, JStr token)] \<Rightarrow> if k = ''token'' then Some (Some token) else None
      | _ \<Rightarrow> None)"

definition chain_value :: "json \<Rightarrow> string list option option" where
  "chain_value v =
     (case v of
        JNull \<Rightarrow> Some None
      | JArr xs \<Rightarrow> if list_all jis_str xs then Some (Some (map jstr xs)) else None
      | _ \<Rightarrow> None)"

definition validate_props :: "event \<Rightarrow> funduq_props option" where
  "validate_props d =
     (let ka = alias_key ''addressedRunId'' ''addressed_run_id'' d;
          kc = alias_key ''actorChain'' ''actor_chain'' d in
      if \<not> set (dkeys d) \<subseteq> {''kyok'', ka, kc} then None
      else case (kyok_value (dget_j ''kyok'' d), opt_str_value (dget_j ka d), chain_value (dget_j kc d)) of
             (Some k, Some a, Some c) \<Rightarrow> Some \<lparr>fp_kyok = k, fp_addressed_run_id = a, fp_actor_chain = c\<rparr>
           | _ \<Rightarrow> None)"

definition funduq_props_of :: "json \<Rightarrow> funduq_props" where
  "funduq_props_of forwarded_props =
     (case jget OBSERVED_METADATA_KEY forwarded_props of
        JObj ours \<Rightarrow> (case validate_props ours of None \<Rightarrow> no_props | Some p \<Rightarrow> p)
      | _ \<Rightarrow> no_props)"

text \<open>\<^verbatim>\<open>model_dump(by_alias=True, exclude_none=True)\<close>.\<close>

definition dump_props :: "funduq_props \<Rightarrow> event" where
  "dump_props p =
     (case fp_kyok p of None \<Rightarrow> [] | Some t \<Rightarrow> [(''kyok'', JObj [(''token'', JStr t)])]) @
     (case fp_addressed_run_id p of None \<Rightarrow> [] | Some r \<Rightarrow> [(''addressedRunId'', JStr r)]) @
     (case fp_actor_chain p of None \<Rightarrow> [] | Some c \<Rightarrow> [(''actorChain'', JArr (map JStr c))])"

section \<open>Writing the bag\<close>

definition ADDRESSED_RUN_METADATA_KEY :: string where
  "ADDRESSED_RUN_METADATA_KEY = INTERJECTION_EXTENSION_URI @ ''/addressedRunId''"

definition RESERVED_METADATA_KEYS :: "string list" where
  "RESERVED_METADATA_KEYS = [OBSERVED_METADATA_KEY]"

definition observed :: "event \<Rightarrow> event" where
  "observed given = [(OBSERVED_METADATA_KEY, JObj (filter (\<lambda>(k, v). v \<noteq> JNull) given))]"

definition without_ours :: "event \<Rightarrow> event" where
  "without_ours d = filter (\<lambda>(k, v). k \<noteq> OBSERVED_METADATA_KEY) d"

text \<open>\<open>kyok_token\<close> is the token issued for the run when the caller opted in (\<^verbatim>\<open>kyok_forwarded_props\<close>).\<close>

definition build_forwarded_props ::
  "string option \<Rightarrow> json \<Rightarrow> string list option \<Rightarrow> run_id option \<Rightarrow> json" where
  "build_forwarded_props kyok_token caller_forwarded_props actor_chain addressed_run_id =
     (let ours = dump_props \<lparr>fp_kyok = kyok_token, fp_addressed_run_id = addressed_run_id,
                   fp_actor_chain = (if actor_chain = Some [] then None else actor_chain)\<rparr> in
      case caller_forwarded_props of
        JObj d \<Rightarrow>
          if ours \<noteq> [] then JObj (dput OBSERVED_METADATA_KEY (JObj ours) (without_ours d))
          else JObj (without_ours d)
      | _ \<Rightarrow> if ours \<noteq> [] then JObj [(OBSERVED_METADATA_KEY, JObj ours)] else caller_forwarded_props)"

definition read_kyok_forwarded_props :: "json \<Rightarrow> string option" where
  "read_kyok_forwarded_props forwarded_props = fp_kyok (funduq_props_of forwarded_props)"

section \<open>What a reader finds\<close>

lemma jstr_JStr [simp]: "jstr (JStr x) = x"
  by (simp add: jstr_def)

lemma jis_str_JStr [simp]: "jis_str (JStr x)"
  by (simp add: jis_str_def)

lemma validate_dump_props: "validate_props (dump_props p) = Some p"
proof -
  obtain k a c where p: "p = \<lparr>fp_kyok = k, fp_addressed_run_id = a, fp_actor_chain = c\<rparr>" by (cases p) auto
  show ?thesis
    by (cases k; cases a; cases c)
       (simp_all add: p validate_props_def dump_props_def alias_key_def Let_def dget_j_def kyok_value_def
          chain_value_def comp_def list_all_iff)
qed

lemma dget_without_ours:
  "dget (without_ours d) k = (if k = OBSERVED_METADATA_KEY then None else dget d k)"
  by (induction d) (auto simp: without_ours_def)

lemma without_ours_dput: "without_ours (dput OBSERVED_METADATA_KEY v (without_ours d)) = without_ours d"
proof -
  have "dget (without_ours d) OBSERVED_METADATA_KEY = None" by (simp add: dget_without_ours)
  from dput_new [OF this] show ?thesis by (simp add: without_ours_def)
qed

lemma without_ours_idem [simp]: "without_ours (without_ours d) = without_ours d"
  by (simp add: without_ours_def)

text \<open>
  The key under which funduq speaks is funduq's. Whatever bag the caller sent, an agent that
  reads \<^verbatim>\<open>forwardedProps.funduq\<close> of the delivered input finds exactly what funduq put there, the KYOK
  token, the interjection target and the chain (an empty chain is none), nothing of the caller's; and
  the rest of the bag is the caller's, as sent and in the order it was sent.
\<close>

theorem funduq_key_is_funduqs:
  "funduq_props_of (build_forwarded_props kyok (JObj bag) chain addressed) =
     \<lparr>fp_kyok = kyok, fp_addressed_run_id = addressed,
      fp_actor_chain = (if chain = Some [] then None else chain)\<rparr> \<and>
   (\<exists>out. build_forwarded_props kyok (JObj bag) chain addressed = JObj out \<and>
     without_ours out = without_ours bag)"
proof -
  let ?p = "\<lparr>fp_kyok = kyok, fp_addressed_run_id = addressed,
      fp_actor_chain = (if chain = Some [] then None else chain)\<rparr>"
  show ?thesis
  proof (cases "dump_props ?p = []")
    case True
    then have "?p = no_props"
      by (auto simp: dump_props_def no_props_def split: option.splits if_splits)
    then show ?thesis using True
      by (simp add: build_forwarded_props_def Let_def funduq_props_of_def dget_without_ours)
  next
    case False
    then show ?thesis
      by (simp add: build_forwarded_props_def Let_def funduq_props_of_def dget_without_ours validate_dump_props
          without_ours_dput)
  qed
qed

end
