(* ===== verification/Kyok.thy ===== *)
theory Kyok
  imports Props
begin

text \<open>
  Bring-your-own-key completions: the live table of a roster (\<^verbatim>\<open>funduq/live_roster.py\<close>), the token
  that names a run, the opt-in a caller declares and the relay's bindings (\<^verbatim>\<open>funduq/kyok.py\<close>).
  HMAC-SHA256 and the base64/JSON text of a token's body are the fields of \<open>token_codec\<close>; the
  clock is an argument. The lemmas show that a token reads back as what it was issued for until it
  expires and that nothing without funduq's signature reads back at all.
\<close>

section \<open>The live table\<close>

record ('r, 'c) live_roster =
  lv_links :: "('r, 'c) dict"
  lv_counter_names :: "string list"
  lv_counters :: "(key, (string, nat) dict) dict"

definition new_live_roster :: "string list \<Rightarrow> ('r, 'c) live_roster" where
  "new_live_roster counter_names = \<lparr>lv_links = [], lv_counter_names = counter_names, lv_counters = []\<rparr>"

definition live_attach :: "('r, 'c) dict \<Rightarrow> ('r, 'c) live_roster \<Rightarrow> ('r, 'c) live_roster" where
  "live_attach mapping t = t\<lparr>lv_links := fold (\<lambda>(r, c). dput r c) mapping (lv_links t)\<rparr>"

definition live_withdraw :: "'r list \<Rightarrow> ('r, 'c) live_roster \<Rightarrow> ('r, 'c) live_roster" where
  "live_withdraw refs t = t\<lparr>lv_links := fold dpop refs (lv_links t)\<rparr>"

definition live_serving :: "'r \<Rightarrow> ('r, 'c) live_roster \<Rightarrow> 'c option" where
  "live_serving ref t = dget (lv_links t) ref"

definition live_served_by :: "('r \<Rightarrow> key) \<Rightarrow> key \<Rightarrow> ('r, 'c) live_roster \<Rightarrow> 'r list" where
  "live_served_by provider_key public_key t = filter (\<lambda>r. provider_key r = public_key) (dkeys (lv_links t))"

definition live_note :: "key \<Rightarrow> string \<Rightarrow> ('r, 'c) live_roster \<Rightarrow> (py_error, ('r, 'c) live_roster) res" where
  "live_note public_key counter t =
     (if counter \<notin> set (lv_counter_names t) then Inl ValueError
      else
        let bucket = (case dget (lv_counters t) public_key of
                        None \<Rightarrow> map (\<lambda>n. (n, 0)) (lv_counter_names t) | Some b \<Rightarrow> b)
        in case dget bucket counter of
             None \<Rightarrow> Inl (KeyError counter)
           | Some n \<Rightarrow> Inr (t\<lparr>lv_counters := dput public_key (dput counter (Suc n) bucket) (lv_counters t)\<rparr>))"

definition live_count :: "key \<Rightarrow> string \<Rightarrow> ('r, 'c) live_roster \<Rightarrow> nat" where
  "live_count public_key counter t =
     (case dget (lv_counters t) public_key of
        None \<Rightarrow> 0 | Some b \<Rightarrow> (case dget b counter of None \<Rightarrow> 0 | Some n \<Rightarrow> n))"

section \<open>Tokens\<close>

record token_codec =
  tc_hmac_hex :: "string \<Rightarrow> string \<Rightarrow> string"
  tc_encode :: "event \<Rightarrow> string"
  tc_decode :: "string \<Rightarrow> json option"

definition KYOK_TOKEN_TTL_SECONDS :: int where "KYOK_TOKEN_TTL_SECONDS = 3600"

record kyok_token =
  kt_run_id :: run_id
  kt_agent :: agent_ref

definition token_claims :: "rat \<Rightarrow> run_id \<Rightarrow> agent_ref \<Rightarrow> event" where
  "token_claims now run_id agent =
     [(''runId'', JStr run_id), (''providerKey'', JStr (ar_provider_key agent)),
      (''agentName'', JStr (ar_name agent)), (''exp'', JNum (of_int (\<lfloor>now\<rfloor> + KYOK_TOKEN_TTL_SECONDS)))]"

definition issue_kyok_token :: "token_codec \<Rightarrow> rat \<Rightarrow> run_id \<Rightarrow> agent_ref \<Rightarrow> string \<Rightarrow> string" where
  "issue_kyok_token C now run_id agent signing_secret =
     (let body = tc_encode C (token_claims now run_id agent)
      in body @ CHR ''.'' # tc_hmac_hex C signing_secret body)"

text \<open>\<^verbatim>\<open>token.split(".", 1)\<close> into two: \<^term>\<open>None\<close> when there is no dot.\<close>

definition split_token :: "string \<Rightarrow> (string \<times> string) option" where
  "split_token token =
     (case dropWhile (\<lambda>c. c \<noteq> CHR ''.'') token of
        [] \<Rightarrow> None
      | _ # signature \<Rightarrow> Some (takeWhile (\<lambda>c. c \<noteq> CHR ''.'') token, signature))"

text \<open>\<^verbatim>\<open>exp < time.time()\<close>: defined on numbers only.\<close>

fun expired :: "rat \<Rightarrow> json \<Rightarrow> (py_error, bool) res" where
  "expired now (JNum e) = Inr (e < now)"
| "expired now (JBool b) = Inr ((if b then 1 else 0) < now)"
| "expired now _ = Inl TypeError"

definition is_ascii :: "string \<Rightarrow> bool" where
  "is_ascii x = list_all (\<lambda>c. of_char c < (128 :: nat)) x"

text \<open>
  \<^verbatim>\<open>hmac.compare_digest\<close> on two strings raises TypeError unless both are ASCII; a body that decodes
  to something other than a dict makes \<^verbatim>\<open>.get\<close> raise.
\<close>

definition verify_kyok_token ::
  "token_codec \<Rightarrow> rat \<Rightarrow> string \<Rightarrow> string \<Rightarrow> (py_error, kyok_token option) res" where
  "verify_kyok_token C now token signing_secret =
     (case split_token token of
        None \<Rightarrow> Inr None
      | Some (body, signature) \<Rightarrow>
          let expected = tc_hmac_hex C signing_secret body in
          if \<not> (is_ascii expected \<and> is_ascii signature) then Inl TypeError
          else if expected \<noteq> signature then Inr None
          else case tc_decode C body of
            None \<Rightarrow> Inr None
          | Some (JObj payload) \<Rightarrow>
              rbind (expired now (case dget payload ''exp'' of None \<Rightarrow> JNum 0 | Some e \<Rightarrow> e)) (\<lambda>gone.
                if gone then Inr None
                else case (dget_j ''runId'' payload, dget_j ''providerKey'' payload, dget_j ''agentName'' payload) of
                  (JStr r, JStr k, JStr n) \<Rightarrow>
                    Inr (Some \<lparr>kt_run_id = r, kt_agent = \<lparr>ar_provider_key = k, ar_name = n\<rparr>\<rparr>)
                | _ \<Rightarrow> Inr None)
          | Some _ \<Rightarrow> Inl AttributeError)"

section \<open>The opt-in\<close>

text \<open>\<^verbatim>\<open>KyokOptIn\<close>; unknown fields are allowed and kept by pydantic, and nothing reads them.\<close>

record kyok_opt_in =
  ko_llm_provider :: "llm_ref option"
  ko_context :: json

definition llm_ref_value :: "json \<Rightarrow> llm_ref option option" where
  "llm_ref_value v =
     (case v of
        JNull \<Rightarrow> Some None
      | JObj d \<Rightarrow>
          (case (dget_j ''provider_key'' d, dget_j ''name'' d) of
             (JStr k, JStr n) \<Rightarrow> Some (Some \<lparr>lr_provider_key = k, lr_name = n\<rparr>)
           | _ \<Rightarrow> None)
      | _ \<Rightarrow> None)"

definition parse_kyok_opt_in :: "event \<Rightarrow> kyok_opt_in option" where
  "parse_kyok_opt_in metadata =
     (case dget_j ''kyok'' metadata of
        JObj raw \<Rightarrow>
          (let target = dget_j ''llmProvider'' raw;
               raw = (if jis_dict target
                      then dput ''llmProvider'' (JObj [(''provider_key'', jget ''providerKey'' target),
                                                      (''name'', jget ''name'' target)]) raw
                      else raw)
           in case llm_ref_value (dget_j (alias_key ''llmProvider'' ''llm_provider'' raw) raw) of
                None \<Rightarrow> None
              | Some ref \<Rightarrow> Some \<lparr>ko_llm_provider = ref, ko_context = dget_j ''context'' raw\<rparr>)
      | _ \<Rightarrow> None)"

section \<open>The relay\<close>

record kyok_binding =
  kb_llm_provider :: llm_ref
  kb_context :: json
  kb_actor_chain :: "string list option"

text \<open>A link serving LLM offerings; equality of two links is the identity of the object.\<close>

record llm_conn =
  lc_id :: nat
  lc_public_key :: key

record kyok_relay =
  kr_bindings :: "(run_id, kyok_binding) dict"
  kr_live :: "(llm_ref, llm_conn) live_roster"

definition new_kyok_relay :: kyok_relay where
  "new_kyok_relay = \<lparr>kr_bindings = [], kr_live = new_live_roster [''completions'', ''refused'', ''failed'']\<rparr>"

definition bind_run :: "run_id \<Rightarrow> kyok_binding \<Rightarrow> kyok_relay \<Rightarrow> kyok_relay" where
  "bind_run run_id binding k = k\<lparr>kr_bindings := dput run_id binding (kr_bindings k)\<rparr>"

definition binding_for :: "run_id \<Rightarrow> kyok_relay \<Rightarrow> kyok_binding option" where
  "binding_for run_id k = dget (kr_bindings k) run_id"

definition discard :: "run_id \<Rightarrow> kyok_relay \<Rightarrow> kyok_relay" where
  "discard run_id k = k\<lparr>kr_bindings := dpop run_id (kr_bindings k)\<rparr>"

definition relay_attach :: "(llm_ref, llm_conn) dict \<Rightarrow> kyok_relay \<Rightarrow> kyok_relay" where
  "relay_attach mapping k = k\<lparr>kr_live := live_attach mapping (kr_live k)\<rparr>"

definition relay_withdraw :: "llm_ref list \<Rightarrow> kyok_relay \<Rightarrow> kyok_relay" where
  "relay_withdraw refs k = k\<lparr>kr_live := live_withdraw refs (kr_live k)\<rparr>"

definition relay_serving :: "llm_ref \<Rightarrow> kyok_relay \<Rightarrow> llm_conn option" where
  "relay_serving ref k = live_serving ref (kr_live k)"

definition relay_served_by :: "key \<Rightarrow> kyok_relay \<Rightarrow> llm_ref list" where
  "relay_served_by public_key k = live_served_by lr_provider_key public_key (kr_live k)"

definition bound_runs :: "llm_ref \<Rightarrow> kyok_relay \<Rightarrow> nat" where
  "bound_runs ref k = length (filter (\<lambda>b. kb_llm_provider b = ref) (dvalues (kr_bindings k)))"

definition note_outcome :: "key \<Rightarrow> string \<Rightarrow> kyok_relay \<Rightarrow> (py_error, kyok_relay) res" where
  "note_outcome public_key outcome k =
     rbind (live_note public_key outcome (kr_live k)) (\<lambda>t. Inr (k\<lparr>kr_live := t\<rparr>))"

section \<open>Facts\<close>

lemma split_token_joined:
  assumes "CHR ''.'' \<notin> set body"
  shows "split_token (body @ CHR ''.'' # signature) = Some (body, signature)"
proof -
  have "\<forall>c \<in> set body. c \<noteq> CHR ''.''" using assms by auto
  then show ?thesis by (simp add: split_token_def dropWhile_append takeWhile_append)
qed

lemma split_token_Some: "split_token token = Some (body, signature) \<Longrightarrow> token = body @ CHR ''.'' # signature"
proof -
  assume s: "split_token token = Some (body, signature)"
  then obtain c where c: "dropWhile (\<lambda>c. c \<noteq> CHR ''.'') token = c # signature"
    and b: "body = takeWhile (\<lambda>c. c \<noteq> CHR ''.'') token" by (auto simp: split_token_def split: list.splits)
  have "c = CHR ''.''" using c by (simp add: dropWhile_eq_Cons_conv)
  with c b show ?thesis using takeWhile_dropWhile_id [of "\<lambda>c. c \<noteq> CHR ''.''" token] by simp
qed

lemma live_attach_get: "dget (lv_links (live_attach mapping t)) r =
   (case dget (rev mapping) r of None \<Rightarrow> dget (lv_links t) r | Some c \<Rightarrow> Some c)"
proof -
  have "dget (fold (\<lambda>(r, c). dput r c) m d) r = (case dget (rev m) r of None \<Rightarrow> dget d r | Some c \<Rightarrow> Some c)" for m d
    by (induction m arbitrary: d) (auto simp: map_add_def split: option.splits)
  then show ?thesis by (simp add: live_attach_def)
qed

lemma live_withdraw_get: "dget (lv_links (live_withdraw refs t)) r = (if r \<in> set refs then None else dget (lv_links t) r)"
  by (simp add: live_withdraw_def alist_dict.pop_all_get)

lemma verify_kyok_token_signed:
  assumes "verify_kyok_token C now token secret = Inr (Some t)"
  obtains body payload where "token = body @ CHR ''.'' # tc_hmac_hex C secret body" "tc_decode C body = Some (JObj payload)"
    "dget_j ''runId'' payload = JStr (kt_run_id t)" "dget_j ''providerKey'' payload = JStr (ar_provider_key (kt_agent t))"
    "dget_j ''agentName'' payload = JStr (ar_name (kt_agent t))"
    "expired now (case dget payload ''exp'' of None \<Rightarrow> JNum 0 | Some e \<Rightarrow> e) = Inr False"
proof -
  from assms obtain body sig where s: "split_token token = Some (body, sig)"
    by (auto simp: verify_kyok_token_def split: option.splits)
  with assms obtain payload where p: "tc_hmac_hex C secret body = sig" "tc_decode C body = Some (JObj payload)"
    by (auto simp: verify_kyok_token_def Let_def split: option.splits json.splits if_splits)
  with assms s have "rbind (expired now (case dget payload ''exp'' of None \<Rightarrow> JNum 0 | Some e \<Rightarrow> e)) (\<lambda>gone.
      if gone then Inr None
      else case (dget_j ''runId'' payload, dget_j ''providerKey'' payload, dget_j ''agentName'' payload) of
        (JStr r, JStr k, JStr n) \<Rightarrow> Inr (Some \<lparr>kt_run_id = r, kt_agent = \<lparr>ar_provider_key = k, ar_name = n\<rparr>\<rparr>)
      | _ \<Rightarrow> Inr None) = Inr (Some t)"
    by (simp add: verify_kyok_token_def Let_def split: if_splits)
  then show ?thesis
    using that [OF _ p(2)] split_token_Some [OF s] p(1)
    by (auto simp: rbind_Inr_iff split: if_splits json.splits)
qed

section \<open>Properties\<close>

text \<open>
  C35. A KYOK token reads back as the run and agent it was issued for, by the holder of the secret,
  until it expires an hour later, and as nothing afterwards.
\<close>

theorem kyok_token_round_trip:
  fixes C now run_id agent
  defines "body \<equiv> tc_encode C (token_claims now run_id agent)"
  assumes dumps_loads: "tc_decode C body = Some (JObj (token_claims now run_id agent))"
    and base64_alphabet: "CHR ''.'' \<notin> set body"
    and hexdigest: "is_ascii (tc_hmac_hex C secret body)"
  shows "verify_kyok_token C later (issue_kyok_token C now run_id agent secret) secret =
    Inr (if later \<le> of_int (\<lfloor>now\<rfloor> + 3600) then Some \<lparr>kt_run_id = run_id, kt_agent = agent\<rparr> else None)"
proof -
  have "expired later (JNum (of_int (\<lfloor>now\<rfloor> + 3600))) = Inr (\<not> later \<le> of_int (\<lfloor>now\<rfloor> + 3600))" by auto
  then show ?thesis
    using split_token_joined [OF base64_alphabet] dumps_loads hexdigest
    by (simp add: verify_kyok_token_def issue_kyok_token_def body_def [symmetric] Let_def)
       (simp add: token_claims_def dget_j_def KYOK_TOKEN_TTL_SECONDS_def)
qed

definition demo_codec :: token_codec where
  "demo_codec = \<lparr>tc_hmac_hex = (\<lambda>secret body. ''mac''), tc_encode = (\<lambda>d. ''body''),
     tc_decode = (\<lambda>b. Some (JObj (token_claims 0 ''r1'' \<lparr>ar_provider_key = ''aa'', ar_name = ''n''\<rparr>)))\<rparr>"

lemma kyok_token_round_trip_witness:
  "verify_kyok_token demo_codec 3600 (issue_kyok_token demo_codec 0 ''r1'' \<lparr>ar_provider_key = ''aa'', ar_name = ''n''\<rparr> ''s'') ''s'' =
     Inr (Some \<lparr>kt_run_id = ''r1'', kt_agent = \<lparr>ar_provider_key = ''aa'', ar_name = ''n''\<rparr>\<rparr>) \<and>
   verify_kyok_token demo_codec 3601 (issue_kyok_token demo_codec 0 ''r1'' \<lparr>ar_provider_key = ''aa'', ar_name = ''n''\<rparr> ''s'') ''s'' =
     Inr None"
  using kyok_token_round_trip [of demo_codec 0 "''r1''" "\<lparr>ar_provider_key = ''aa'', ar_name = ''n''\<rparr>" "''s''" 3600]
    kyok_token_round_trip [of demo_codec 0 "''r1''" "\<lparr>ar_provider_key = ''aa'', ar_name = ''n''\<rparr>" "''s''" 3601]
  by (simp add: demo_codec_def is_ascii_def)

text \<open>A token whose signature part is not ASCII makes the comparison raise, where any other forged token reads as None.\<close>

lemma non_ascii_token_raises:
  "verify_kyok_token C now (''b.'' @ [CHR 0xE9]) secret = Inl TypeError"
  by (simp add: verify_kyok_token_def split_token_def is_ascii_def Let_def)

end
