(* ===== verification/Identity.thy ===== *)
theory Identity
  imports Payloads Chain
begin

text \<open>
  Signed acts and funduq's own key (\<^verbatim>\<open>funduq/identity.py\<close>): the freshness window, the proofs that
  answer or cancel a run, and the identity built from a seed. The wall clock \<^verbatim>\<open>time.time()\<close> is the
  argument \<open>now\<close>; ed25519 is a parameter. The lemmas say what an accepted proof establishes, that a
  fresh proof of an authority is accepted, and which malformed proofs raise something else.
\<close>

section \<open>Python on the values a proof carries\<close>

text \<open>\<^verbatim>\<open>v[k]\<close> for a string \<open>k\<close>, on any JSON value.\<close>

definition py_index :: "string \<Rightarrow> json \<Rightarrow> (py_error, json) res" where
  "py_index k v = (case v of JObj d \<Rightarrow> py_sub k d | _ \<Rightarrow> Inl TypeError)"

definition py_space :: "char \<Rightarrow> bool" where
  "py_space c \<longleftrightarrow> of_char c \<in> {9, 10, 11, 12, 13, 28, 29, 30, 31, 32 :: nat}"

definition py_strip :: "string \<Rightarrow> string" where
  "py_strip x = rev (dropWhile py_space (rev (dropWhile py_space x)))"

text \<open>Digits with single underscores between them; \<open>d\<close> says whether a digit came right before.\<close>

fun digits_value :: "bool \<Rightarrow> int \<Rightarrow> string \<Rightarrow> int option" where
  "digits_value d acc [] = (if d then Some acc else None)"
| "digits_value d acc (c # cs) =
     (if 48 \<le> (of_char c :: int) \<and> of_char c \<le> (57 :: int) then digits_value True (10 * acc + (of_char c - 48)) cs
      else if c = CHR ''_'' \<and> d then digits_value False acc cs else None)"

definition py_int_of_str :: "string \<Rightarrow> int option" where
  "py_int_of_str x =
     (case py_strip x of
        [] \<Rightarrow> None
      | c # cs \<Rightarrow>
          if c = CHR ''-'' then map_option uminus (digits_value False 0 cs)
          else if c = CHR ''+'' then digits_value False 0 cs
          else digits_value False 0 (c # cs))"

text \<open>\<^verbatim>\<open>int(v)\<close>: a number is cut towards zero, a string is read in ASCII decimal.\<close>

fun py_int :: "json \<Rightarrow> (py_error, int) res" where
  "py_int (JNum q) = Inr (if q \<ge> 0 then \<lfloor>q\<rfloor> else \<lceil>q\<rceil>)"
| "py_int (JBool b) = Inr (if b then 1 else 0)"
| "py_int (JStr x) = (case py_int_of_str x of None \<Rightarrow> Inl ValueError | Some i \<Rightarrow> Inr i)"
| "py_int _ = Inl TypeError"

section \<open>Freshness\<close>

definition SIGNATURE_FRESHNESS_WINDOW_SECONDS :: int where
  "SIGNATURE_FRESHNESS_WINDOW_SECONDS = 60"

definition is_timestamp_fresh :: "rat \<Rightarrow> int \<Rightarrow> bool" where
  "is_timestamp_fresh now timestamp \<longleftrightarrow> \<bar>now - of_int timestamp\<bar> \<le> of_int SIGNATURE_FRESHNESS_WINDOW_SECONDS"

section \<open>Signed acts\<close>

text \<open>
  The four refusals are \<^verbatim>\<open>InvalidResolution\<close> or \<^verbatim>\<open>InvalidCancel\<close>; \<open>ActRaises\<close> is an exception the code does
  not turn into one.
\<close>

datatype act_error = MalformedProof | NotAnAuthority | TimestampOutsideWindow | SignatureDoesNotVerify | ActRaises py_error

text \<open>
  \<^verbatim>\<open>signer in allowed_keys\<close> hashes the signer. \<^verbatim>\<open>verify_signature\<close> decodes the key first, which raises
  ValueError unless it is 32 hex-coded bytes, and \<^verbatim>\<open>bytes.fromhex\<close> takes strings only.
\<close>

definition signed_by :: "ed25519 \<Rightarrow> key set \<Rightarrow> json \<Rightarrow> json \<Rightarrow> (unit \<Rightarrow> (act_error, string) res) \<Rightarrow>
   (act_error, key) res" where
  "signed_by ed allowed signer signature payload_for_it =
     (if \<not> hashable signer then Inl (ActRaises TypeError)
      else if signer \<notin> JStr ` allowed then Inl NotAnAuthority
      else rbind (payload_for_it ()) (\<lambda>payload.
        case signature of
          JStr sig \<Rightarrow> if verify_signature ed (jstr signer) sig payload then Inr (jstr signer)
                     else Inl SignatureDoesNotVerify
        | _ \<Rightarrow> (case bytes_fromhex (jstr signer) of
                  None \<Rightarrow> Inl SignatureDoesNotVerify
                | Some raw \<Rightarrow> Inl (if length raw \<noteq> 32 then SignatureDoesNotVerify else ActRaises TypeError))))"

definition malformed :: "(py_error, 'a) res \<Rightarrow> (act_error, 'a) res" where
  "malformed m = (case m of Inl _ \<Rightarrow> Inl MalformedProof | Inr x \<Rightarrow> Inr x)"

definition verify_signed_act ::
  "ed25519 \<Rightarrow> rat \<Rightarrow> json \<Rightarrow> run_id \<Rightarrow> (run_id \<Rightarrow> int \<Rightarrow> string) \<Rightarrow> key set \<Rightarrow> (act_error, key) res" where
  "verify_signed_act ed now proof run_id payload_for allowed =
     rbind (malformed (py_index ''publicKey'' proof)) (\<lambda>signer.
     rbind (malformed (rbind (py_index ''timestamp'' proof) py_int)) (\<lambda>timestamp.
     rbind (malformed (py_index ''signature'' proof)) (\<lambda>signature.
       signed_by ed allowed signer signature (\<lambda>_.
         rbind (check (is_timestamp_fresh now timestamp) TimestampOutsideWindow) (\<lambda>_.
           Inr (payload_for run_id timestamp))))))"

text \<open>\<^verbatim>\<open>sorted(ask_ids)\<close> and \<^verbatim>\<open>.encode()\<close> on each: defined on strings.\<close>

definition ask_ids_of :: "json set \<Rightarrow> (act_error, string list) res" where
  "ask_ids_of asks =
     (if \<forall>a \<in> asks. jis_str a then Inr (sorted_list_of_set (jstr ` asks))
      else Inl (ActRaises (if \<exists>a \<in> asks. jis_str a then TypeError else AttributeError)))"

definition verify_resolution ::
  "ed25519 \<Rightarrow> (string \<Rightarrow> string) \<Rightarrow> json \<Rightarrow> run_id \<Rightarrow> json set \<Rightarrow> key set \<Rightarrow> (act_error, key) res" where
  "verify_resolution ed sha256_hex resolution run_id ask_ids allowed =
     rbind (malformed (py_index ''publicKey'' resolution)) (\<lambda>signer.
     rbind (malformed (py_index ''signature'' resolution)) (\<lambda>signature.
       signed_by ed allowed signer signature (\<lambda>_.
         rbind (ask_ids_of ask_ids) (\<lambda>ids. Inr (resolve_payload sha256_hex run_id ids)))))"

definition verify_cancel :: "ed25519 \<Rightarrow> rat \<Rightarrow> json \<Rightarrow> run_id \<Rightarrow> key set \<Rightarrow> (act_error, key) res" where
  "verify_cancel ed now cancel run_id allowed = verify_signed_act ed now cancel run_id cancel_payload allowed"

section \<open>funduq's identity\<close>

text \<open>
  \<open>fi_private_key\<close> is the key object; what it signs and its public half come from \<open>key_lib\<close>, the
  cryptography package.
\<close>

record 'p funduq_identity =
  fi_private_key :: 'p
  fi_public_key :: key

record 'p key_lib =
  kl_from_seed :: "string \<Rightarrow> 'p"
  kl_public_hex :: "'p \<Rightarrow> key"
  kl_sign_hex :: "'p \<Rightarrow> string \<Rightarrow> string"

definition new_identity :: "'p key_lib \<Rightarrow> 'p \<Rightarrow> 'p funduq_identity" where
  "new_identity L p = \<lparr>fi_private_key = p, fi_public_key = kl_public_hex L p\<rparr>"

definition from_hex :: "'p key_lib \<Rightarrow> string \<Rightarrow> (py_error, 'p funduq_identity) res" where
  "from_hex L private_key_hex =
     (case bytes_fromhex private_key_hex of
        None \<Rightarrow> Inl ValueError
      | Some raw \<Rightarrow> if length raw \<noteq> 32 then Inl ValueError else Inr (new_identity L (kl_from_seed L raw)))"

definition identity_sign :: "'p key_lib \<Rightarrow> 'p funduq_identity \<Rightarrow> string \<Rightarrow> string" where
  "identity_sign L me payload = kl_sign_hex L (fi_private_key me) payload"

definition identity_dispatch_hop ::
  "'p chain_crypto \<Rightarrow> 'p funduq_identity \<Rightarrow> string list \<Rightarrow> agent_ref \<Rightarrow> string list option" where
  "identity_dispatch_hop K me prev_chain agent =
     dispatch_hop K (fi_private_key me) prev_chain
       \<lparr>dt_provider_key = ar_provider_key agent, dt_name = ar_name agent\<rparr>"

section \<open>What an accepted proof establishes\<close>

lemma malformed_Inr_iff [simp]: "malformed m = Inr x \<longleftrightarrow> m = Inr x"
  by (cases m) (simp_all add: malformed_def)

lemma signed_by_Inr_iff:
  "signed_by ed allowed signer signature payload_for_it = Inr k \<longleftrightarrow>
     (\<exists>sig payload. signer = JStr k \<and> k \<in> allowed \<and> signature = JStr sig \<and> payload_for_it () = Inr payload \<and>
       verify_signature ed k sig payload)"
proof
  assume l: "signed_by ed allowed signer signature payload_for_it = Inr k"
  then have "signer \<in> JStr ` allowed" by (auto simp: signed_by_def split: if_splits)
  then obtain k' where k': "signer = JStr k'" "k' \<in> allowed" by blast
  from l obtain payload where "payload_for_it () = Inr payload"
    by (auto simp: signed_by_def rbind_Inr_iff split: if_splits)
  with l k' show "\<exists>sig payload. signer = JStr k \<and> k \<in> allowed \<and> signature = JStr sig \<and> payload_for_it () = Inr payload \<and>
      verify_signature ed k sig payload"
    by (auto simp: signed_by_def jstr_def split: json.splits if_splits option.splits)
qed (auto simp: signed_by_def jstr_def)

lemma verify_cancel_Inr_iff:
  "verify_cancel ed now proof run_id allowed = Inr k \<longleftrightarrow>
     (\<exists>ts t sig. py_index ''publicKey'' proof = Inr (JStr k) \<and> k \<in> allowed \<and>
        py_index ''timestamp'' proof = Inr ts \<and> py_int ts = Inr t \<and> is_timestamp_fresh now t \<and>
        py_index ''signature'' proof = Inr (JStr sig) \<and> verify_signature ed k sig (cancel_payload run_id t))"
  by (auto simp: verify_cancel_def verify_signed_act_def rbind_Inr_iff signed_by_Inr_iff)

lemma verify_resolution_Inr_iff:
  "verify_resolution ed H proof run_id asks allowed = Inr k \<longleftrightarrow>
     (\<exists>sig. py_index ''publicKey'' proof = Inr (JStr k) \<and> k \<in> allowed \<and>
        py_index ''signature'' proof = Inr (JStr sig) \<and> (\<forall>a \<in> asks. jis_str a) \<and>
        verify_signature ed k sig (resolve_payload H run_id (sorted_list_of_set (jstr ` asks))))"
  by (auto simp: verify_resolution_def rbind_Inr_iff signed_by_Inr_iff ask_ids_of_def)

text \<open>
  A proof whose key is a list makes the membership test raise, which is not one of the refusals the
  doors turn into an answer.
\<close>

lemma unhashable_signer_raises:
  "verify_cancel ed now (JObj [(''publicKey'', JArr []), (''timestamp'', JNum 0), (''signature'', JStr [])]) run_id allowed =
   Inl (ActRaises TypeError)"
  by (simp add: verify_cancel_def verify_signed_act_def py_index_def py_sub_def malformed_def signed_by_def)

end
