(* ===== verification/Rosters.thy ===== *)
theory Rosters
  imports Kyok Identity Coupling
begin

text \<open>
  Links and rosters (\<^verbatim>\<open>funduq/core.py\<close>: tickets, \<^verbatim>\<open>_Roster\<close> and its two vocabularies). The abstract methods
  of \<^verbatim>\<open>_Roster\<close> are the fields of \<open>roster\<close>, and \<open>agent_roster\<close> and \<open>llm_roster\<close> its two instances: agents live
  in the broker, model offerings in the KYOK relay. Randomness (\<^verbatim>\<open>secrets.token_hex\<close>) is passed in.
  \<^verbatim>\<open>register\<close> and \<^verbatim>\<open>delete_agent\<close> await the database between their checks and their effects, so each is a sequence of
  definitions, one per stretch without an await, and the whole call is their composition when nothing else runs in between.

  The locale \<open>live_table\<close> states what \<^verbatim>\<open>_Roster\<close> relies on; its lemmas are proved once and hold for both
  rosters. They show that a ticket opens one link for its own key, that a link opens only on a proof,
  and that what is served is served on an open link, or one that closed while it was registering.
\<close>

section \<open>The facade's state\<close>

datatype roster_change = RosterChanged | LlmRosterChanged

record 'p facade =
  fq_broker :: "world broker"
  fq_relay :: kyok_relay
  fq_identity :: "'p funduq_identity"
  fq_agent_open :: "(key, conn list) dict"
  fq_llm_open :: "(key, llm_conn list) dict"
  fq_tickets :: "(string, key \<times> rat) dict"
  fq_clock :: rat
  fq_started :: bool
  fq_roster_changes :: "roster_change list"

abbreviation fq_store :: "'p facade \<Rightarrow> store" where
  "fq_store s \<equiv> w_store (b_world (fq_broker s))"

definition set_store :: "store \<Rightarrow> 'p facade \<Rightarrow> 'p facade" where
  "set_store d s = s\<lparr>fq_broker := (fq_broker s)\<lparr>b_world := (b_world (fq_broker s))\<lparr>w_store := d\<rparr>\<rparr>\<rparr>"

datatype link_error =
    InvalidRegistration
  | NothingToServe
  | AgentNotFound
  | AgentInUse
  | LlmProviderNotFound
  | LlmOfferingInUse
  | SignerRefused
  | ConfirmRefused
  | LinkRepo repo_error

section \<open>Tickets\<close>

definition issue_ticket :: "string \<Rightarrow> key \<Rightarrow> 'p facade \<Rightarrow> 'p facade" where
  "issue_ticket ticket public_key s =
     s\<lparr>fq_tickets := dput ticket (public_key, fq_clock s)
       (filter (\<lambda>(t, issued). fq_clock s - snd issued \<le> of_int SIGNATURE_FRESHNESS_WINDOW_SECONDS) (fq_tickets s))\<rparr>"

definition claim_ticket :: "string \<Rightarrow> key \<Rightarrow> 'p facade \<Rightarrow> bool \<times> 'p facade" where
  "claim_ticket ticket public_key s =
     (case dget (fq_tickets s) ticket of
        None \<Rightarrow> (False, s)
      | Some issued \<Rightarrow>
          if fst issued \<noteq> public_key then (False, s)
          else (fq_clock s - snd issued \<le> of_int SIGNATURE_FRESHNESS_WINDOW_SECONDS,
                s\<lparr>fq_tickets := dpop ticket (fq_tickets s)\<rparr>))"

section \<open>One roster, two vocabularies\<close>

record ('s, 'r, 'c) roster =
  ro_key :: "'c \<Rightarrow> key"
  ro_ref :: "key \<Rightarrow> string \<Rightarrow> 'r"
  ro_served_by :: "key \<Rightarrow> 's \<Rightarrow> 'r list"
  ro_live :: "'r \<Rightarrow> 's \<Rightarrow> 'c option"
  ro_write_live :: "('r, 'c) dict \<Rightarrow> 's \<Rightarrow> 's"
  ro_withdraw :: "'r list \<Rightarrow> 's \<Rightarrow> 's"
  ro_touch :: "key \<Rightarrow> string list \<Rightarrow> 's \<Rightarrow> 's"
  ro_changed :: "'s \<Rightarrow> 's"
  ro_open :: "'s \<Rightarrow> (key, 'c list) dict"
  ro_set_open :: "(key, 'c list) dict \<Rightarrow> 's \<Rightarrow> 's"

definition links_of :: "('s, 'r, 'c) roster \<Rightarrow> key \<Rightarrow> 's \<Rightarrow> 'c list" where
  "links_of R public_key s = (case dget (ro_open R s) public_key of None \<Rightarrow> [] | Some cs \<Rightarrow> cs)"

definition require_open :: "('s, 'r, 'c) roster \<Rightarrow> 'c \<Rightarrow> 's \<Rightarrow> (link_error, unit) res" where
  "require_open R c s = check (c \<in> set (links_of R (ro_key R c) s)) InvalidRegistration"

text \<open>
  What a connection object brings to \<^verbatim>\<open>open\<close>: its own signer, if it has one, and its check of funduq's
  answer; both may raise (\<^term>\<open>None\<close> and \<^term>\<open>False\<close>).
\<close>

record connecting =
  cg_sign_connect :: "(key \<Rightarrow> string \<Rightarrow> string \<Rightarrow> string option) option"
  cg_confirm :: "string \<Rightarrow> string \<Rightarrow> string \<Rightarrow> bool"

text \<open>The proof half of \<^verbatim>\<open>open\<close>: with a signer and no proof given, funduq mints the ticket itself.\<close>

definition connect_proof ::
  "key \<Rightarrow> connecting \<Rightarrow> string \<times> string \<Rightarrow> string option \<Rightarrow> string option \<Rightarrow> string option \<Rightarrow> 'p facade \<Rightarrow>
   (string option \<times> string option \<times> string option) \<times> 'p facade" where
  "connect_proof public_key cg minted ticket provider_nonce proof s =
     (case (proof, cg_sign_connect cg) of
        (None, Some sign) \<Rightarrow>
          ((Some (fst minted), Some (snd minted),
            sign (fi_public_key (fq_identity s)) (fst minted) (snd minted)),
           issue_ticket (fst minted) public_key s)
      | _ \<Rightarrow> ((ticket, provider_nonce, proof), s))"

definition open_link ::
  "'p key_lib \<Rightarrow> ed25519 \<Rightarrow> ('p facade, 'r, 'c) roster \<Rightarrow> 'c \<Rightarrow> connecting \<Rightarrow> string \<times> string \<Rightarrow>
   string option \<Rightarrow> string option \<Rightarrow> string option \<Rightarrow> 'p facade \<Rightarrow> (link_error, string) res \<times> 'p facade" where
  "open_link L ed R c cg minted ticket provider_nonce proof s =
     (case connect_proof (ro_key R c) cg minted ticket provider_nonce proof s of
        ((ticket, provider_nonce, None), s) \<Rightarrow>
          (Inl (if proof = None \<and> cg_sign_connect cg \<noteq> None then SignerRefused else InvalidRegistration), s)
      | ((None, provider_nonce, Some proof), s) \<Rightarrow> (Inl InvalidRegistration, s)
      | ((Some ticket, provider_nonce, Some proof), s) \<Rightarrow>
          (let (claimed, s) = claim_ticket ticket (ro_key R c) s;
               nonce = (case provider_nonce of None \<Rightarrow> [] | Some n \<Rightarrow> n)
           in if \<not> claimed then (Inl InvalidRegistration, s)
              else if \<not> verify_signature ed (ro_key R c) proof
                        (provider_connect_payload (fi_public_key (fq_identity s)) ticket nonce)
              then (Inl InvalidRegistration, s)
              else let answer = identity_sign L (fq_identity s) (funduq_connect_payload ticket nonce) in
                if \<not> cg_confirm cg ticket nonce answer then (Inl ConfirmRefused, s)
                else (Inr answer,
                      ro_set_open R (dput (ro_key R c) (links_of R (ro_key R c) s @ [c]) (ro_open R s)) s)))"

text \<open>Before the first await: the link is open and there is something to serve.\<close>

definition register_admit :: "('s, 'r, 'c) roster \<Rightarrow> 'c \<Rightarrow> string list \<Rightarrow> 's \<Rightarrow> (link_error, unit) res" where
  "register_admit R c names s = rbind (require_open R c s) (\<lambda>_. check (names \<noteq> []) NothingToServe)"

definition withdrawn_by :: "('s, 'r, 'c) roster \<Rightarrow> 'c \<Rightarrow> 'r list \<Rightarrow> 's \<Rightarrow> 'r list" where
  "withdrawn_by R c keep s =
     filter (\<lambda>ref. ro_live R ref s = Some c \<and> ref \<notin> set keep) (ro_served_by R (ro_key R c) s)"

text \<open>When \<^verbatim>\<open>store\<close> has committed: what the link no longer offers is withdrawn and the rest published.\<close>

definition register_live :: "('s, 'r, 'c) roster \<Rightarrow> 'c \<Rightarrow> string list \<Rightarrow> 's \<Rightarrow> 's" where
  "register_live R c registered s =
     (let keep = map (ro_ref R (ro_key R c)) registered;
          withdrawn = withdrawn_by R c keep s;
          s = (if withdrawn \<noteq> [] then ro_withdraw R withdrawn s else s)
      in ro_write_live R (map (\<lambda>ref. (ref, c)) keep) s)"

text \<open>The second session, and the announcement.\<close>

definition register_touch :: "('s, 'r, 'c) roster \<Rightarrow> 'c \<Rightarrow> string list \<Rightarrow> 's \<Rightarrow> 's" where
  "register_touch R c registered s = ro_changed R (ro_touch R (ro_key R c) registered s)"

definition register_names ::
  "('s, 'r, 'c) roster \<Rightarrow> 'c \<Rightarrow> string list \<Rightarrow> ('s \<Rightarrow> (link_error, string list \<times> 's) res) \<Rightarrow> 's \<Rightarrow>
   (link_error, string list \<times> 's) res" where
  "register_names R c names store s =
     rbind (register_admit R c names s) (\<lambda>_.
     rbind (store s) (\<lambda>(registered, s).
       Inr (registered, register_touch R c registered (register_live R c registered s))))"

definition take_offline :: "('s, 'r, 'c) roster \<Rightarrow> 'c \<Rightarrow> string \<Rightarrow> 's \<Rightarrow> 's" where
  "take_offline R c name s =
     (let ref = ro_ref R (ro_key R c) name
      in if ro_live R ref s = Some c then ro_withdraw R [ref] s else s)"

definition close_link :: "('s, 'r, 'c) roster \<Rightarrow> key \<Rightarrow> 'c \<Rightarrow> 's \<Rightarrow> 's" where
  "close_link R public_key c s =
     (let links = links_of R public_key s
      in if c \<in> set links
         then ro_set_open R (if remove1 c links = [] then dpop public_key (ro_open R s)
                             else dput public_key (remove1 c links) (ro_open R s)) s
         else s)"

definition detach :: "('s, 'r, 'c) roster \<Rightarrow> key \<Rightarrow> 'c \<Rightarrow> 's \<Rightarrow> 's" where
  "detach R public_key c s =
     (let s = close_link R public_key c s;
          attached = filter (\<lambda>r. ro_live R r s = Some c) (ro_served_by R public_key s)
      in if attached = [] then s else ro_changed R (ro_withdraw R attached s))"

definition detach_all :: "('s, 'r, 'c) roster \<Rightarrow> key \<Rightarrow> 's \<Rightarrow> 's" where
  "detach_all R public_key s =
     (let s = ro_set_open R (dpop public_key (ro_open R s)) s;
          attached = ro_served_by R public_key s
      in if attached = [] then s else ro_changed R (ro_withdraw R attached s))"

section \<open>The two rosters\<close>

definition agent_roster :: "('p facade, agent_ref, conn) roster" where
  "agent_roster =
     \<lparr>ro_key = c_public_key,
      ro_ref = (\<lambda>k n. \<lparr>ar_provider_key = k, ar_name = n\<rparr>),
      ro_served_by = (\<lambda>k s. agents_served_by k (fq_broker s)),
      ro_live = (\<lambda>ref s. serving ref (fq_broker s)),
      ro_write_live = (\<lambda>m s. s\<lparr>fq_broker := register_provider m (fq_broker s)\<rparr>),
      ro_withdraw = (\<lambda>refs s. s\<lparr>fq_broker := unregister_provider refs (fq_broker s)\<rparr>),
      ro_touch = (\<lambda>k names s. set_store (touch_agents (w_now (b_world (fq_broker s))) (fq_store s) k names) s),
      ro_changed = (\<lambda>s. s\<lparr>fq_roster_changes := fq_roster_changes s @ [RosterChanged]\<rparr>),
      ro_open = fq_agent_open,
      ro_set_open = (\<lambda>d s. s\<lparr>fq_agent_open := d\<rparr>)\<rparr>"

definition llm_roster :: "('p facade, llm_ref, llm_conn) roster" where
  "llm_roster =
     \<lparr>ro_key = lc_public_key,
      ro_ref = (\<lambda>k n. \<lparr>lr_provider_key = k, lr_name = n\<rparr>),
      ro_served_by = (\<lambda>k s. relay_served_by k (fq_relay s)),
      ro_live = (\<lambda>ref s. relay_serving ref (fq_relay s)),
      ro_write_live = (\<lambda>m s. s\<lparr>fq_relay := relay_attach m (fq_relay s)\<rparr>),
      ro_withdraw = (\<lambda>refs s. s\<lparr>fq_relay := relay_withdraw refs (fq_relay s)\<rparr>),
      ro_touch = (\<lambda>k names s. set_store (touch_llm_providers (w_now (b_world (fq_broker s))) (fq_store s) k names) s),
      ro_changed = (\<lambda>s. s\<lparr>fq_roster_changes := fq_roster_changes s @ [LlmRosterChanged]\<rparr>),
      ro_open = fq_llm_open,
      ro_set_open = (\<lambda>d s. s\<lparr>fq_llm_open := d\<rparr>)\<rparr>"

section \<open>The facade's doors for providers\<close>

definition store_agents ::
  "(string \<Rightarrow> string) \<Rightarrow> key \<Rightarrow> registration list \<Rightarrow> string option \<Rightarrow> 'p facade \<Rightarrow> (link_error, string list \<times> 'p facade) res" where
  "store_agents sha256_hex public_key batch provider_name s =
     (case register_agents sha256_hex (w_now (b_world (fq_broker s))) (fq_store s) public_key batch provider_name of
        Inl e \<Rightarrow> Inl (LinkRepo e)
      | Inr (registered, d) \<Rightarrow> Inr (dkeys registered, set_store d s))"

definition store_llms ::
  "(string \<Rightarrow> string) \<Rightarrow> key \<Rightarrow> string list \<Rightarrow> json \<Rightarrow> 'p facade \<Rightarrow> (link_error, string list \<times> 'p facade) res" where
  "store_llms sha256_hex public_key names metadata s =
     (case register_llm_providers sha256_hex (w_now (b_world (fq_broker s))) (fq_store s) public_key names metadata of
        Inl e \<Rightarrow> Inl (LinkRepo e)
      | Inr (registered, d) \<Rightarrow> Inr (dkeys registered, set_store d s))"

text \<open>\<open>takes name\<close> is \<^verbatim>\<open>connection.takes_interjections(name)\<close>: the declaration is the connection's, never the author's.\<close>

definition fq_register_agents ::
  "(string \<Rightarrow> string) \<Rightarrow> (string \<Rightarrow> bool) \<Rightarrow> conn \<Rightarrow> registration list \<Rightarrow> string option \<Rightarrow> 'p facade \<Rightarrow>
   (link_error, string list \<times> 'p facade) res" where
  "fq_register_agents sha256_hex takes c agents_batch provider_name s =
     register_names agent_roster c (map rg_name agents_batch)
       (store_agents sha256_hex (c_public_key c)
         (map (\<lambda>a. a\<lparr>rg_takes_interjections := takes (rg_name a)\<rparr>) agents_batch) provider_name) s"

definition fq_register_llm_providers ::
  "(string \<Rightarrow> string) \<Rightarrow> llm_conn \<Rightarrow> string list \<Rightarrow> json \<Rightarrow> 'p facade \<Rightarrow> (link_error, string list \<times> 'p facade) res" where
  "fq_register_llm_providers sha256_hex c names metadata s =
     register_names llm_roster c names (store_llms sha256_hex (lc_public_key c) names metadata) s"

text \<open>
  A delete takes the name offline before it deletes the row, and awaits the database before and after that. Its reads are the
  \<^verbatim>\<open>SELECT\<close>s of one session and are taken together; the row is deleted later, in whatever state funduq is in by then.
\<close>

definition delete_agent_vet :: "conn \<Rightarrow> string \<Rightarrow> 'p facade \<Rightarrow> (link_error, unit) res \<times> 'p facade" where
  "delete_agent_vet c name s =
     (let agent = \<lparr>ar_provider_key = c_public_key c, ar_name = name\<rparr> in
      if get_agent (fq_store s) agent = None then (Inl AgentNotFound, s)
      else if count_threads_for_agent (fq_store s) agent \<noteq> 0 \<or> count_runs_for_agent (fq_store s) agent None \<noteq> 0
      then (Inl AgentInUse, s)
      else (Inr (), take_offline agent_roster c name s))"

definition delete_agent_remove :: "conn \<Rightarrow> string \<Rightarrow> 'p facade \<Rightarrow> (link_error, unit) res \<times> 'p facade" where
  "delete_agent_remove c name s =
     (case delete_agent (fq_store s) \<lparr>ar_provider_key = c_public_key c, ar_name = name\<rparr> of
        Inl e \<Rightarrow> (Inl (LinkRepo e), s)
      | Inr (_, d) \<Rightarrow> (Inr (), ro_changed agent_roster (set_store d s)))"

definition fq_delete_agent :: "conn \<Rightarrow> string \<Rightarrow> 'p facade \<Rightarrow> (link_error, unit) res \<times> 'p facade" where
  "fq_delete_agent c name s =
     (case require_open agent_roster c s of
        Inl e \<Rightarrow> (Inl e, s)
      | Inr _ \<Rightarrow>
          (case delete_agent_vet c name s of
             (Inl e, s) \<Rightarrow> (Inl e, s)
           | (Inr _, s) \<Rightarrow> delete_agent_remove c name s))"

definition delete_llm_vet :: "llm_conn \<Rightarrow> string \<Rightarrow> 'p facade \<Rightarrow> (link_error, unit) res \<times> 'p facade" where
  "delete_llm_vet c name s =
     (let ref = \<lparr>lr_provider_key = lc_public_key c, lr_name = name\<rparr> in
      if get_llm_provider (fq_store s) ref = None then (Inl LlmProviderNotFound, s)
      else if bound_runs ref (fq_relay s) \<noteq> 0 then (Inl LlmOfferingInUse, s)
      else (Inr (), take_offline llm_roster c name s))"

definition delete_llm_remove :: "llm_conn \<Rightarrow> string \<Rightarrow> 'p facade \<Rightarrow> 'p facade" where
  "delete_llm_remove c name s =
     ro_changed llm_roster
       (set_store (snd (delete_llm_provider (fq_store s) \<lparr>lr_provider_key = lc_public_key c, lr_name = name\<rparr>)) s)"

definition fq_delete_llm_offering :: "llm_conn \<Rightarrow> string \<Rightarrow> 'p facade \<Rightarrow> (link_error, unit) res \<times> 'p facade" where
  "fq_delete_llm_offering c name s =
     (case require_open llm_roster c s of
        Inl e \<Rightarrow> (Inl e, s)
      | Inr _ \<Rightarrow>
          (case delete_llm_vet c name s of
             (Inl e, s) \<Rightarrow> (Inl e, s)
           | (Inr _, s) \<Rightarrow> (Inr (), delete_llm_remove c name s)))"

definition detach_all_for :: "key \<Rightarrow> 'p facade \<Rightarrow> 'p facade" where
  "detach_all_for public_key s = detach_all llm_roster public_key (detach_all agent_roster public_key s)"

section \<open>What a roster relies on\<close>

text \<open>
  \<open>ok\<close> is the table's own invariant. Writing live names of a link never moves another key's names, but may
  put every live name of its own key on that link, as the broker's table does: it keeps one
  connection per key.
\<close>

locale live_table =
  fixes R :: "('s, 'r, 'c) roster" and ok :: "'s \<Rightarrow> bool" and ref_key :: "'r \<Rightarrow> key"
  assumes ref_key: "ref_key (ro_ref R k n) = k"
    and served_by: "ok s \<Longrightarrow> r \<in> set (ro_served_by R k s) \<longleftrightarrow> ro_live R r s \<noteq> None \<and> ref_key r = k"
    and live_key: "ok s \<Longrightarrow> ro_live R r s = Some c \<Longrightarrow> ro_key R c = ref_key r"
    and live_withdraw: "ok s \<Longrightarrow> ro_live R r (ro_withdraw R rs s) = (if r \<in> set rs then None else ro_live R r s)"
    and live_write_in: "ok s \<Longrightarrow> \<forall>r \<in> set rs. ref_key r = ro_key R c \<Longrightarrow> r \<in> set rs \<Longrightarrow>
      ro_live R r (ro_write_live R (map (\<lambda>ref. (ref, c)) rs) s) = Some c"
    and live_write_out: "ok s \<Longrightarrow> \<forall>r \<in> set rs. ref_key r = ro_key R c \<Longrightarrow> r \<notin> set rs \<Longrightarrow>
      ro_live R r (ro_write_live R (map (\<lambda>ref. (ref, c)) rs) s) = ro_live R r s \<or>
      ro_live R r s \<noteq> None \<and> ref_key r = ro_key R c \<and> ro_live R r (ro_write_live R (map (\<lambda>ref. (ref, c)) rs) s) = Some c"
    and ok_withdraw: "ok s \<Longrightarrow> ok (ro_withdraw R rs s)"
    and ok_write: "ok s \<Longrightarrow> \<forall>r \<in> set rs. ref_key r = ro_key R c \<Longrightarrow> ok (ro_write_live R (map (\<lambda>ref. (ref, c)) rs) s)"
    and ok_frame: "ok s \<Longrightarrow> ok (ro_touch R k ns s)" "ok s \<Longrightarrow> ok (ro_changed R s)" "ok s \<Longrightarrow> ok (ro_set_open R d s)"
    and live_frame: "ro_live R r (ro_touch R k ns s) = ro_live R r s" "ro_live R r (ro_changed R s) = ro_live R r s"
      "ro_live R r (ro_set_open R d s) = ro_live R r s"
    and open_frame: "ro_open R (ro_touch R k ns s) = ro_open R s" "ro_open R (ro_changed R s) = ro_open R s"
      "ro_open R (ro_withdraw R rs s) = ro_open R s" "ro_open R (ro_write_live R m s) = ro_open R s"
    and open_set: "ro_open R (ro_set_open R d s) = d"
begin

text \<open>What is served is served on an open link of its own key, or on one of the links in \<open>X\<close>.\<close>

definition on_known_link :: "'c set \<Rightarrow> 's \<Rightarrow> bool" where
  "on_known_link X s \<longleftrightarrow> (\<forall>r c. ro_live R r s = Some c \<longrightarrow> c \<in> set (links_of R (ref_key r) s) \<union> X)"

lemma on_known_linkD: "on_known_link X s \<Longrightarrow> ro_live R r s = Some c \<Longrightarrow> c \<in> set (links_of R (ref_key r) s) \<union> X"
  unfolding on_known_link_def by blast

lemma on_known_link_mono: "on_known_link X s \<Longrightarrow> X \<subseteq> Y \<Longrightarrow> on_known_link Y s"
  by (auto simp: on_known_link_def)

lemma links_set: "links_of R k (ro_set_open R d s) = (case dget d k of None \<Rightarrow> [] | Some cs \<Rightarrow> cs)"
  by (simp add: links_of_def open_set)

lemma links_frame [simp]:
  "links_of R k (ro_touch R k' ns s) = links_of R k s" "links_of R k (ro_changed R s) = links_of R k s"
  "links_of R k (ro_withdraw R rs s) = links_of R k s" "links_of R k (ro_write_live R m s) = links_of R k s"
  by (simp_all add: links_of_def open_frame)

lemma publish_live:
  fixes c registered s
  defines "keep \<equiv> map (ro_ref R (ro_key R c)) registered"
  assumes "ok s"
  shows "ok (register_live R c registered s)"
    and "links_of R k (register_live R c registered s) = links_of R k s"
    and "r \<in> set keep \<Longrightarrow> ro_live R r (register_live R c registered s) = Some c"
    and "r \<notin> set keep \<Longrightarrow> ro_live R r (register_live R c registered s) = ro_live R r s \<or>
      ro_live R r s \<noteq> None \<and> ref_key r = ro_key R c \<and> ro_live R r s \<noteq> Some c \<and> ro_live R r (register_live R c registered s) = Some c \<or>
      ro_live R r s = Some c \<and> ro_live R r (register_live R c registered s) = None"
proof -
  let ?w = "withdrawn_by R c keep s" and ?m = "map (\<lambda>ref. (ref, c)) keep"
  let ?s1 = "if ?w \<noteq> [] then ro_withdraw R ?w s else s"
  have eq: "register_live R c registered s = ro_write_live R ?m ?s1"
    by (simp add: register_live_def keep_def Let_def)
  have keys: "\<forall>r \<in> set keep. ref_key r = ro_key R c" by (auto simp: keep_def ref_key)
  have ok1: "ok ?s1" using assms(2) ok_withdraw by simp
  have w: "r \<in> set ?w \<longleftrightarrow> ro_live R r s = Some c \<and> r \<notin> set keep" for r
    using served_by [OF assms(2)] live_key [OF assms(2)] by (auto simp: withdrawn_by_def)
  have live1: "ro_live R r ?s1 = (if ro_live R r s = Some c \<and> r \<notin> set keep then None else ro_live R r s)" for r
    using live_withdraw [OF assms(2)] w by (auto simp: w [symmetric])
  show "ok (register_live R c registered s)" unfolding eq by (intro ok_write ok1 keys)
  show "links_of R k (register_live R c registered s) = links_of R k s" by (simp add: eq)
  show "r \<in> set keep \<Longrightarrow> ro_live R r (register_live R c registered s) = Some c"
    unfolding eq by (rule live_write_in [OF ok1 keys])
  show "ro_live R r (register_live R c registered s) = ro_live R r s \<or>
      ro_live R r s \<noteq> None \<and> ref_key r = ro_key R c \<and> ro_live R r s \<noteq> Some c \<and> ro_live R r (register_live R c registered s) = Some c \<or>
      ro_live R r s = Some c \<and> ro_live R r (register_live R c registered s) = None" if "r \<notin> set keep"
    using live_write_out [OF ok1 keys that] that unfolding eq live1 by (auto split: if_splits)
qed

lemma publish_on_known_link:
  assumes "ok s" "on_known_link X s" "c \<in> set (links_of R (ro_key R c) s) \<union> X"
  shows "on_known_link X (register_live R c registered s)"
  unfolding on_known_link_def publish_live(2) [OF assms(1)]
proof (intro allI impI)
  fix r c' assume l: "ro_live R r (register_live R c registered s) = Some c'"
  show "c' \<in> set (links_of R (ref_key r) s) \<union> X"
  proof (cases "r \<in> set (map (ro_ref R (ro_key R c)) registered)")
    case True
    then show ?thesis using publish_live(3) [OF assms(1) True] l assms(3) by (auto simp: ref_key)
  next
    case False
    then show ?thesis using publish_live(4) [OF assms(1) False] l assms(3) on_known_linkD [OF assms(2), of r c'] by auto
  qed
qed

lemma touch_on_known_link:
  "ok s \<Longrightarrow> ok (register_touch R c ns s)" "on_known_link X (register_touch R c ns s) = on_known_link X s"
  "links_of R k (register_touch R c ns s) = links_of R k s"
  by (simp_all add: register_touch_def on_known_link_def live_frame ok_frame)

lemma withdraw_on_known_link: "ok s \<Longrightarrow> on_known_link X s \<Longrightarrow> on_known_link X (ro_withdraw R rs s)"
  by (simp add: on_known_link_def live_withdraw)

lemma changed_on_known_link: "on_known_link X (ro_changed R s) = on_known_link X s"
  by (simp add: on_known_link_def live_frame)

lemma take_offline_on_known_link:
  assumes "ok s" "on_known_link X s"
  shows "ok (take_offline R c name s) \<and> on_known_link X (take_offline R c name s)"
  using assms by (simp add: take_offline_def Let_def ok_withdraw withdraw_on_known_link)

lemma detach_live:
  assumes "ok s"
  shows "ok (detach R k c s)"
    and "ro_live R r (detach R k c s) = (if ro_live R r s = Some c \<and> ref_key r = k then None else ro_live R r s)"
    and "links_of R k' (detach R k c s) = (if k' = k then remove1 c (links_of R k s) else links_of R k' s)"
proof -
  let ?s1 = "close_link R k c s"
  let ?a = "filter (\<lambda>r. ro_live R r ?s1 = Some c) (ro_served_by R k ?s1)"
  have eq: "detach R k c s = (if ?a = [] then ?s1 else ro_changed R (ro_withdraw R ?a ?s1))"
    by (simp add: detach_def Let_def)
  have ok1: "ok ?s1" using assms by (simp add: close_link_def Let_def ok_frame)
  have live1: "ro_live R r ?s1 = ro_live R r s" for r by (simp add: close_link_def Let_def live_frame)
  have a: "r \<in> set ?a \<longleftrightarrow> ro_live R r s = Some c \<and> ref_key r = k" for r
    using served_by [OF ok1] by (auto simp: live1)
  have links1: "links_of R k' ?s1 = (if k' = k then remove1 c (links_of R k s) else links_of R k' s)" for k'
    by (auto simp: close_link_def Let_def links_set remove1_idem)
      (simp_all add: links_of_def)
  show "ok (detach R k c s)" using ok1 by (simp add: eq ok_frame ok_withdraw)
  show "ro_live R r (detach R k c s) = (if ro_live R r s = Some c \<and> ref_key r = k then None else ro_live R r s)"
  proof (cases "?a = []")
    case True
    then show ?thesis using a [of r] by (auto simp: eq live1)
  next
    case False
    then show ?thesis using a [of r] live_withdraw [OF ok1, of r ?a] by (simp add: eq live_frame live1)
  qed
  show "links_of R k' (detach R k c s) = (if k' = k then remove1 c (links_of R k s) else links_of R k' s)"
    by (simp add: eq links1)
qed

lemma detach_on_known_link:
  assumes "ok s" "on_known_link X s"
  shows "on_known_link X (detach R k c s)"
  unfolding on_known_link_def detach_live [OF assms(1)]
proof (intro allI impI)
  fix r c' assume "(if ro_live R r s = Some c \<and> ref_key r = k then None else ro_live R r s) = Some c'"
  then have "ro_live R r s = Some c'" "ref_key r = k \<longrightarrow> c' \<noteq> c" by (auto split: if_splits)
  then show "c' \<in> set (if ref_key r = k then remove1 c (links_of R k s) else links_of R (ref_key r) s) \<union> X"
    using on_known_linkD [OF assms(2), of r c'] by auto
qed

lemma detach_all_live:
  assumes "ok s"
  shows "ok (detach_all R k s)"
    and "ro_live R r (detach_all R k s) = (if ref_key r = k then None else ro_live R r s)"
    and "links_of R k' (detach_all R k s) = (if k' = k then [] else links_of R k' s)"
proof -
  let ?s1 = "ro_set_open R (dpop k (ro_open R s)) s"
  let ?a = "ro_served_by R k ?s1"
  have eq: "detach_all R k s = (if ?a = [] then ?s1 else ro_changed R (ro_withdraw R ?a ?s1))"
    by (simp add: detach_all_def Let_def)
  have ok1: "ok ?s1" using assms by (simp add: ok_frame)
  have a: "r \<in> set ?a \<longleftrightarrow> ro_live R r s \<noteq> None \<and> ref_key r = k" for r
    using served_by [OF ok1] by (simp add: live_frame)
  show "ok (detach_all R k s)" using ok1 by (simp add: eq ok_frame ok_withdraw)
  show "ro_live R r (detach_all R k s) = (if ref_key r = k then None else ro_live R r s)"
  proof (cases "?a = []")
    case True
    then show ?thesis using a [of r] by (auto simp: eq live_frame)
  next
    case False
    then show ?thesis using a [of r] live_withdraw [OF ok1, of r ?a] by (auto simp: eq live_frame)
  qed
  show "links_of R k' (detach_all R k s) = (if k' = k then [] else links_of R k' s)"
    by (auto simp: eq links_set) (simp_all add: links_of_def)
qed

lemma detach_all_on_known_link:
  assumes "ok s" "on_known_link X s"
  shows "on_known_link X (detach_all R k s)"
  unfolding on_known_link_def detach_all_live [OF assms(1)]
  using on_known_linkD [OF assms(2)] by (auto split: if_splits)

end

section \<open>The broker's table\<close>

definition agent_table_ok :: "'p facade \<Rightarrow> bool" where
  "agent_table_ok s \<longleftrightarrow> distinct (dkeys (b_serving (fq_broker s))) \<and>
     (\<forall>a k. dget (b_serving (fq_broker s)) a = Some k \<longrightarrow> k = ar_provider_key a \<and>
        (\<exists>p c. prov_at (fq_broker s) k = Some p \<and> p_connection p = Some c \<and> c_public_key c = k))"

definition conn_at :: "'w broker \<Rightarrow> key \<Rightarrow> conn option" where
  "conn_at b k = (case prov_at b k of None \<Rightarrow> None | Some p \<Rightarrow> p_connection p)"

lemma serving_conn_at: "serving a b = (case dget (b_serving b) a of None \<Rightarrow> None | Some k \<Rightarrow> conn_at b k)"
  by (simp add: serving_def conn_at_def split: option.splits)

lemma agent_table_ok_alt:
  "agent_table_ok s \<longleftrightarrow> distinct (dkeys (b_serving (fq_broker s))) \<and>
     (\<forall>a k. dget (b_serving (fq_broker s)) a = Some k \<longrightarrow> k = ar_provider_key a \<and>
        (\<exists>c. conn_at (fq_broker s) k = Some c \<and> c_public_key c = k))"
proof -
  have "(\<exists>c. conn_at b k = Some c \<and> P c) \<longleftrightarrow> (\<exists>p c. prov_at b k = Some p \<and> p_connection p = Some c \<and> P c)" for P k and b :: "world broker"
    by (simp add: conn_at_def split: option.splits)
  then show ?thesis by (simp add: agent_table_ok_def)
qed

lemma agent_tableD:
  assumes "agent_table_ok s" "dget (b_serving (fq_broker s)) r = Some k"
  shows "k = ar_provider_key r" "\<exists>c. conn_at (fq_broker s) k = Some c \<and> c_public_key c = k"
  using assms unfolding agent_table_ok_alt by blast+

lemma table_fold_put_inbox:
  "b_serving (fold (\<lambda>h. put_inbox h m) hs b) = b_serving b \<and> b_providers (fold (\<lambda>h. put_inbox h m) hs b) = b_providers b"
  by (induction hs arbitrary: b) simp_all

lemma table_poke_agent: "b_serving (poke_agent a b) = b_serving b" "b_providers (poke_agent a b) = b_providers b"
  by (simp_all add: poke_agent_def table_fold_put_inbox)

lemma table_fold_poke:
  "b_serving (fold poke_agent as b) = b_serving b \<and> b_providers (fold poke_agent as b) = b_providers b"
  by (induction as arbitrary: b) (simp_all add: table_poke_agent)

lemma table_push: "b_serving (snd (push r c b)) = b_serving b" "b_providers (snd (push r c b)) = b_providers b"
  by (auto simp: push_def post_def split: option.splits)

lemma table_fail_held: "b_serving (fail_held_runs ref b) = b_serving b" "b_providers (fail_held_runs ref b) = b_providers b"
proof -
  have "b_serving (fold (\<lambda>r s. case run_at s r of None \<Rightarrow> s | Some run \<Rightarrow>
      if r_agent run \<noteq> ref \<or> r_claimed_by run = None then s
      else snd (push r (Fail ''provider_left_holding_it'' None) s)) rs b) = b_serving b \<and>
    b_providers (fold (\<lambda>r s. case run_at s r of None \<Rightarrow> s | Some run \<Rightarrow>
      if r_agent run \<noteq> ref \<or> r_claimed_by run = None then s
      else snd (push r (Fail ''provider_left_holding_it'' None) s)) rs b) = b_providers b" for rs
    by (induction rs arbitrary: b) (simp_all add: table_push split: option.splits)
  then show "b_serving (fail_held_runs ref b) = b_serving b" "b_providers (fail_held_runs ref b) = b_providers b"
    by (simp_all add: fail_held_runs_def)
qed

lemma conn_at_cong: "b_providers b' = b_providers b \<Longrightarrow> conn_at b' = conn_at b"
  by (simp add: conn_at_def fun_eq_iff)

lemma unregister_table:
  "dget (b_serving (unregister_provider refs b)) a = (if a \<in> set refs then None else dget (b_serving b) a)"
  "b_providers (unregister_provider refs b) = b_providers b"
  "distinct (dkeys (b_serving b)) \<Longrightarrow> distinct (dkeys (b_serving (unregister_provider refs b)))"
proof -
  have one: "dget (b_serving (unregister_one ref b)) a = (if a = ref then None else dget (b_serving b) a)"
    "b_providers (unregister_one ref b) = b_providers b"
    "distinct (dkeys (b_serving b)) \<Longrightarrow> distinct (dkeys (b_serving (unregister_one ref b)))" for ref a and b :: "'a broker"
    by (auto simp: unregister_one_def table_poke_agent table_fail_held distinct_keys_dpop)
  show "dget (b_serving (unregister_provider refs b)) a = (if a \<in> set refs then None else dget (b_serving b) a)"
    unfolding unregister_provider_def by (induction refs arbitrary: b) (simp_all add: one)
  show "b_providers (unregister_provider refs b) = b_providers b"
    unfolding unregister_provider_def by (induction refs arbitrary: b) (simp_all add: one)
  show "distinct (dkeys (b_serving b)) \<Longrightarrow> distinct (dkeys (b_serving (unregister_provider refs b)))"
    unfolding unregister_provider_def by (induction refs arbitrary: b) (simp_all add: one)
qed

lemma register_table:
  fixes rs c b
  defines "b' \<equiv> register_provider (map (\<lambda>ref. (ref, c)) rs) b"
  shows "dget (b_serving b') a = (if a \<in> set rs then Some (c_public_key c) else dget (b_serving b) a)"
    and "conn_at b' k = (if rs \<noteq> [] \<and> k = c_public_key c then Some c else conn_at b k)"
    and "distinct (dkeys (b_serving b)) \<Longrightarrow> distinct (dkeys (b_serving b'))"
proof -
  have one: "b_serving (register_one (r, c) b) = dput r (c_public_key c) (b_serving b)"
    "conn_at (register_one (r, c) b) k = (if k = c_public_key c then Some c else conn_at b k)" for r k and b :: "'a broker"
    by (simp_all add: register_one_def Let_def conn_at_def upd_provider_def)
  have all: "dget (b_serving (fold register_one (map (\<lambda>ref. (ref, c)) rs) b)) a =
      (if a \<in> set rs then Some (c_public_key c) else dget (b_serving b) a) \<and>
    conn_at (fold register_one (map (\<lambda>ref. (ref, c)) rs) b) k = (if rs \<noteq> [] \<and> k = c_public_key c then Some c else conn_at b k) \<and>
    (distinct (dkeys (b_serving b)) \<longrightarrow> distinct (dkeys (b_serving (fold register_one (map (\<lambda>ref. (ref, c)) rs) b))))" for rs a k
    by (induction rs arbitrary: b) (auto simp: one distinct_keys_dput)
  have eq: "b_serving b' = b_serving (fold register_one (map (\<lambda>ref. (ref, c)) rs) b)"
    "conn_at b' = conn_at (fold register_one (map (\<lambda>ref. (ref, c)) rs) b)"
    by (simp_all add: b'_def register_provider_def table_fold_poke conn_at_def fun_eq_iff)
  show "dget (b_serving b') a = (if a \<in> set rs then Some (c_public_key c) else dget (b_serving b) a)"
    and "conn_at b' k = (if rs \<noteq> [] \<and> k = c_public_key c then Some c else conn_at b k)"
    and "distinct (dkeys (b_serving b)) \<Longrightarrow> distinct (dkeys (b_serving b'))"
    using all unfolding eq by simp_all
qed

lemma set_store_fields [simp]:
  "serving a (fq_broker (set_store d s)) = serving a (fq_broker s)" "fq_relay (set_store d s) = fq_relay s"
  "fq_agent_open (set_store d s) = fq_agent_open s" "fq_llm_open (set_store d s) = fq_llm_open s"
  "agent_table_ok (set_store d s) = agent_table_ok s"
  by (simp_all add: set_store_def serving_def agent_table_ok_def split: option.splits)

interpretation agents_table: live_table agent_roster agent_table_ok ar_provider_key
proof
  note R = agent_roster_def roster.simps
  fix s :: "'p facade" and r k c rs
  show "ar_provider_key (ro_ref agent_roster k n) = k" for n by (simp add: agent_roster_def)
  show "r \<in> set (ro_served_by agent_roster k s) \<longleftrightarrow> ro_live agent_roster r s \<noteq> None \<and> ar_provider_key r = k"
    if ok: "agent_table_ok s"
  proof -
    have "r \<in> set (agents_served_by k (fq_broker s)) \<longleftrightarrow> dget (b_serving (fq_broker s)) r = Some k"
      using ok by (auto simp: agents_served_by_def agent_table_ok_def image_iff intro!: bexI [of _ "(r, k)"])
    then show ?thesis
      using agent_tableD [OF ok, of r]
      by (cases "dget (b_serving (fq_broker s)) r") (auto simp: agent_roster_def serving_conn_at)
  qed
  show "ro_key agent_roster c = ar_provider_key r" if "agent_table_ok s" "ro_live agent_roster r s = Some c"
    using that agent_tableD [OF that(1), of r]
    by (cases "dget (b_serving (fq_broker s)) r") (auto simp: agent_roster_def serving_conn_at)
  show "ro_live agent_roster r (ro_withdraw agent_roster rs s) = (if r \<in> set rs then None else ro_live agent_roster r s)"
    by (simp add: agent_roster_def serving_conn_at unregister_table conn_at_cong [OF unregister_table(2)] split: option.splits)
  show "ro_live agent_roster r (ro_write_live agent_roster (map (\<lambda>ref. (ref, c)) rs) s) = Some c" if "r \<in> set rs"
    using that by (auto simp: agent_roster_def serving_conn_at register_table)
  show "ro_live agent_roster r (ro_write_live agent_roster (map (\<lambda>ref. (ref, c)) rs) s) = ro_live agent_roster r s \<or>
      ro_live agent_roster r s \<noteq> None \<and> ar_provider_key r = ro_key agent_roster c \<and>
      ro_live agent_roster r (ro_write_live agent_roster (map (\<lambda>ref. (ref, c)) rs) s) = Some c"
    if "agent_table_ok s" "r \<notin> set rs"
    using that(2) agent_tableD [OF that(1), of r]
    by (cases "dget (b_serving (fq_broker s)) r") (auto simp: agent_roster_def serving_conn_at register_table)
  show "agent_table_ok (ro_withdraw agent_roster rs s)" if "agent_table_ok s"
    using that unfolding agent_table_ok_alt
    by (auto simp: agent_roster_def unregister_table conn_at_cong [OF unregister_table(2)])
  show "agent_table_ok (ro_write_live agent_roster (map (\<lambda>ref. (ref, c)) rs) s)"
    if "agent_table_ok s" "\<forall>r \<in> set rs. ar_provider_key r = ro_key agent_roster c"
    using that unfolding agent_table_ok_alt by (auto simp: agent_roster_def register_table)
qed (simp_all add: agent_roster_def agent_table_ok_def set_store_def serving_def split: option.splits)

definition llm_table_ok :: "'p facade \<Rightarrow> bool" where
  "llm_table_ok s \<longleftrightarrow> (\<forall>r c. relay_serving r (fq_relay s) = Some c \<longrightarrow> lc_public_key c = lr_provider_key r)"

interpretation llms_table: live_table llm_roster llm_table_ok lr_provider_key
proof
  fix s :: "'p facade" and r k c rs
  have att: "relay_serving r (relay_attach (map (\<lambda>ref. (ref, c)) rs) k) = (if r \<in> set rs then Some c else relay_serving r k)" for r c rs k
  proof -
    have "dget (rev (map (\<lambda>ref. (ref, c)) rs)) r = (if r \<in> set rs then Some c else None)"
      by (simp add: rev_map map_of_map_restrict restrict_map_def)
    then show ?thesis by (simp add: relay_serving_def relay_attach_def live_serving_def live_attach_get)
  qed
  have wd: "relay_serving r (relay_withdraw rs k) = (if r \<in> set rs then None else relay_serving r k)" for r rs k
    by (simp add: relay_serving_def relay_withdraw_def live_serving_def live_withdraw_get)
  show "lr_provider_key (ro_ref llm_roster k n) = k" for n by (simp add: llm_roster_def)
  show "r \<in> set (ro_served_by llm_roster k s) \<longleftrightarrow> ro_live llm_roster r s \<noteq> None \<and> lr_provider_key r = k"
    by (auto simp: llm_roster_def relay_served_by_def live_served_by_def relay_serving_def live_serving_def dget_None_keys)
  show "ro_live llm_roster r (ro_withdraw llm_roster rs s) = (if r \<in> set rs then None else ro_live llm_roster r s)"
    by (simp add: llm_roster_def wd)
  show "ro_live llm_roster r (ro_write_live llm_roster (map (\<lambda>ref. (ref, c)) rs) s) = Some c" if "r \<in> set rs"
    using that by (simp add: llm_roster_def att)
  show "ro_live llm_roster r (ro_write_live llm_roster (map (\<lambda>ref. (ref, c)) rs) s) = ro_live llm_roster r s \<or>
      ro_live llm_roster r s \<noteq> None \<and> lr_provider_key r = ro_key llm_roster c \<and>
      ro_live llm_roster r (ro_write_live llm_roster (map (\<lambda>ref. (ref, c)) rs) s) = Some c" if "r \<notin> set rs"
    using that by (simp add: llm_roster_def att)
  show "llm_table_ok (ro_withdraw llm_roster rs s)" if "llm_table_ok s"
    using that by (auto simp: llm_table_ok_def llm_roster_def wd)
  show "llm_table_ok (ro_write_live llm_roster (map (\<lambda>ref. (ref, c)) rs) s)"
    if "llm_table_ok s" "\<forall>r \<in> set rs. lr_provider_key r = ro_key llm_roster c"
    using that by (auto simp: llm_table_ok_def llm_roster_def att)
qed (simp_all add: llm_roster_def set_store_def llm_table_ok_def)

section \<open>Reachable rosters\<close>

text \<open>
  Calls in any order and interleaved at their awaits. A registration under way is remembered with the link it was made on: it was
  admitted and its \<^verbatim>\<open>store\<close> is still to run, it is stored and not yet published, or it is live and not yet touched. A link found
  closed while one of its registrations is under way is remembered too: nothing looks at it again.
\<close>

datatype ('c, 's) registering =
    Admitted 'c "'s \<Rightarrow> (link_error, string list \<times> 's) res"
  | Stored 'c "string list"
  | Live 'c "string list"

fun registrant :: "('c, 's) registering \<Rightarrow> 'c" where
  "registrant (Admitted c store) = c"
| "registrant (Stored c ns) = c"
| "registrant (Live c ns) = c"

record 'p hosting =
  ho_funduq :: "'p facade"
  ho_agents :: "(conn, 'p facade) registering list"
  ho_llms :: "(llm_conn, 'p facade) registering list"
  ho_closed :: "conn set"
  ho_llms_closed :: "llm_conn set"

definition found_closed :: "('s, 'r, 'c) roster \<Rightarrow> ('c, 's) registering list \<Rightarrow> 's \<Rightarrow> 'c set" where
  "found_closed R under_way s = {c \<in> registrant ` set under_way. c \<notin> set (links_of R (ro_key R c) s)}"

text \<open>funduq moves on to \<open>s\<close>.\<close>

definition moved :: "'p facade \<Rightarrow> 'p hosting \<Rightarrow> 'p hosting" where
  "moved s h = h\<lparr>ho_funduq := s,
     ho_closed := ho_closed h \<union> found_closed agent_roster (ho_agents h) s,
     ho_llms_closed := ho_llms_closed h \<union> found_closed llm_roster (ho_llms h) s\<rparr>"

text \<open>
  Everything else: the dispatcher withdraws agents of a provider it no longer trusts, and whatever funduq does besides leaves
  rosters and links alone.
\<close>

definition same_rosters :: "'p facade \<Rightarrow> 'p facade \<Rightarrow> bool" where
  "same_rosters s s' \<longleftrightarrow> b_serving (fq_broker s') = b_serving (fq_broker s) \<and> conn_at (fq_broker s') = conn_at (fq_broker s) \<and>
     fq_agent_open s' = fq_agent_open s \<and> kr_live (fq_relay s') = kr_live (fq_relay s) \<and> fq_llm_open s' = fq_llm_open s"

inductive links_reach :: "'p key_lib \<Rightarrow> ed25519 \<Rightarrow> (string \<Rightarrow> string) \<Rightarrow> 'p hosting \<Rightarrow> bool" for L ed H where
  fresh: "b_serving (fq_broker s) = [] \<Longrightarrow> lv_links (kr_live (fq_relay s)) = [] \<Longrightarrow>
    links_reach L ed H \<lparr>ho_funduq = s, ho_agents = [], ho_llms = [], ho_closed = {}, ho_llms_closed = {}\<rparr>"
| open_agent: "links_reach L ed H h \<Longrightarrow> links_reach L ed H (moved (snd (open_link L ed agent_roster c cg minted t n pf (ho_funduq h))) h)"
| open_llm: "links_reach L ed H h \<Longrightarrow> links_reach L ed H (moved (snd (open_link L ed llm_roster lc cg minted t n pf (ho_funduq h))) h)"
| admitted: "links_reach L ed H h \<Longrightarrow> register_admit agent_roster c (map rg_name batch) (ho_funduq h) = Inr () \<Longrightarrow>
    links_reach L ed H (h\<lparr>ho_agents := Admitted c (store_agents H (c_public_key c) batch name) # ho_agents h\<rparr>)"
| stored: "links_reach L ed H h \<Longrightarrow> Admitted c store \<in> set (ho_agents h) \<Longrightarrow> store (ho_funduq h) = Inr (ns, s') \<Longrightarrow>
    links_reach L ed H (moved s' (h\<lparr>ho_agents := Stored c ns # remove1 (Admitted c store) (ho_agents h)\<rparr>))"
| live: "links_reach L ed H h \<Longrightarrow> Stored c ns \<in> set (ho_agents h) \<Longrightarrow>
    links_reach L ed H (moved (register_live agent_roster c ns (ho_funduq h)) (h\<lparr>ho_agents := Live c ns # remove1 (Stored c ns) (ho_agents h)\<rparr>))"
| touched: "links_reach L ed H h \<Longrightarrow> Live c ns \<in> set (ho_agents h) \<Longrightarrow>
    links_reach L ed H (moved (register_touch agent_roster c ns (ho_funduq h)) (h\<lparr>ho_agents := remove1 (Live c ns) (ho_agents h)\<rparr>))"
| given_up: "links_reach L ed H h \<Longrightarrow> links_reach L ed H (h\<lparr>ho_agents := remove1 g (ho_agents h)\<rparr>)"
| admitted_llm: "links_reach L ed H h \<Longrightarrow> register_admit llm_roster lc names (ho_funduq h) = Inr () \<Longrightarrow>
    links_reach L ed H (h\<lparr>ho_llms := Admitted lc (store_llms H (lc_public_key lc) names md) # ho_llms h\<rparr>)"
| stored_llm: "links_reach L ed H h \<Longrightarrow> Admitted lc store \<in> set (ho_llms h) \<Longrightarrow> store (ho_funduq h) = Inr (ns, s') \<Longrightarrow>
    links_reach L ed H (moved s' (h\<lparr>ho_llms := Stored lc ns # remove1 (Admitted lc store) (ho_llms h)\<rparr>))"
| live_llm: "links_reach L ed H h \<Longrightarrow> Stored lc ns \<in> set (ho_llms h) \<Longrightarrow>
    links_reach L ed H (moved (register_live llm_roster lc ns (ho_funduq h)) (h\<lparr>ho_llms := Live lc ns # remove1 (Stored lc ns) (ho_llms h)\<rparr>))"
| touched_llm: "links_reach L ed H h \<Longrightarrow> Live lc ns \<in> set (ho_llms h) \<Longrightarrow>
    links_reach L ed H (moved (register_touch llm_roster lc ns (ho_funduq h)) (h\<lparr>ho_llms := remove1 (Live lc ns) (ho_llms h)\<rparr>))"
| given_up_llm: "links_reach L ed H h \<Longrightarrow> links_reach L ed H (h\<lparr>ho_llms := remove1 lg (ho_llms h)\<rparr>)"
| delete_vetted: "links_reach L ed H h \<Longrightarrow> links_reach L ed H (moved (snd (delete_agent_vet c name' (ho_funduq h))) h)"
| delete_removed: "links_reach L ed H h \<Longrightarrow> links_reach L ed H (moved (snd (delete_agent_remove c name' (ho_funduq h))) h)"
| delete_llm_vetted: "links_reach L ed H h \<Longrightarrow> links_reach L ed H (moved (snd (delete_llm_vet lc name' (ho_funduq h))) h)"
| delete_llm_removed: "links_reach L ed H h \<Longrightarrow> links_reach L ed H (moved (delete_llm_remove lc name' (ho_funduq h)) h)"
| detach_agent: "links_reach L ed H h \<Longrightarrow> links_reach L ed H (moved (detach agent_roster k c (ho_funduq h)) h)"
| detach_llm: "links_reach L ed H h \<Longrightarrow> links_reach L ed H (moved (detach llm_roster k lc (ho_funduq h)) h)"
| detach_key: "links_reach L ed H h \<Longrightarrow> links_reach L ed H (moved (detach_all_for k (ho_funduq h)) h)"
| distrust: "links_reach L ed H h \<Longrightarrow> links_reach L ed H (moved (ro_withdraw agent_roster refs (ho_funduq h)) h)"
| elsewhere: "links_reach L ed H h \<Longrightarrow> same_rosters (ho_funduq h) s' \<Longrightarrow> links_reach L ed H (moved s' h)"

definition agent_side :: "conn set \<Rightarrow> 'p facade \<Rightarrow> bool" where
  "agent_side X s \<longleftrightarrow> agent_table_ok s \<and> agents_table.on_known_link X s"

definition llm_side :: "llm_conn set \<Rightarrow> 'p facade \<Rightarrow> bool" where
  "llm_side X s \<longleftrightarrow> llm_table_ok s \<and> llms_table.on_known_link X s"

lemma agent_side_cong:
  assumes "b_serving (fq_broker s') = b_serving (fq_broker s)" "conn_at (fq_broker s') = conn_at (fq_broker s)"
    "fq_agent_open s' = fq_agent_open s"
  shows "agent_side X s' = agent_side X s"
proof -
  have "serving r (fq_broker s') = serving r (fq_broker s)" for r using assms(1,2) by (simp add: serving_conn_at split: option.splits)
  moreover have "links_of agent_roster k s' = links_of agent_roster k s" for k
    using assms(3) by (simp add: links_of_def agent_roster_def)
  ultimately show ?thesis
    unfolding agent_side_def agents_table.on_known_link_def agent_table_ok_alt assms(1,2) by (simp add: agent_roster_def)
qed

lemma llm_side_cong:
  assumes "kr_live (fq_relay s') = kr_live (fq_relay s)" "fq_llm_open s' = fq_llm_open s"
  shows "llm_side X s' = llm_side X s"
proof -
  have "links_of llm_roster k s' = links_of llm_roster k s" for k using assms(2) by (simp add: links_of_def llm_roster_def)
  then show ?thesis unfolding llm_side_def llms_table.on_known_link_def
    by (simp add: llm_table_ok_def llm_roster_def relay_serving_def assms)
qed

text \<open>Each roster's operations leave the other one alone.\<close>

lemma agent_roster_frame [simp]:
  "kr_live (fq_relay (ro_write_live agent_roster m s)) = kr_live (fq_relay s)" "fq_llm_open (ro_write_live agent_roster m s) = fq_llm_open s"
  "kr_live (fq_relay (ro_withdraw agent_roster rs s)) = kr_live (fq_relay s)" "fq_llm_open (ro_withdraw agent_roster rs s) = fq_llm_open s"
  "kr_live (fq_relay (ro_touch agent_roster k ns s)) = kr_live (fq_relay s)" "fq_llm_open (ro_touch agent_roster k ns s) = fq_llm_open s"
  "kr_live (fq_relay (ro_changed agent_roster s)) = kr_live (fq_relay s)" "fq_llm_open (ro_changed agent_roster s) = fq_llm_open s"
  "kr_live (fq_relay (ro_set_open agent_roster d s)) = kr_live (fq_relay s)" "fq_llm_open (ro_set_open agent_roster d s) = fq_llm_open s"
  by (simp_all add: agent_roster_def)

definition same_agents :: "'p facade \<Rightarrow> 'p facade \<Rightarrow> bool" where
  "same_agents s s' \<longleftrightarrow> b_serving (fq_broker s') = b_serving (fq_broker s) \<and> conn_at (fq_broker s') = conn_at (fq_broker s) \<and>
     fq_agent_open s' = fq_agent_open s"

lemma same_agents_refl [simp]: "same_agents s s"
  by (simp add: same_agents_def)

lemma llm_roster_frame [simp]:
  "same_agents a (ro_write_live llm_roster m s) = same_agents a s" "same_agents a (ro_withdraw llm_roster rs s) = same_agents a s"
  "same_agents a (ro_touch llm_roster k ns s) = same_agents a s" "same_agents a (ro_changed llm_roster s) = same_agents a s"
  "same_agents a (ro_set_open llm_roster d s) = same_agents a s" "same_agents a (set_store d' s) = same_agents a s"
  by (simp_all add: llm_roster_def set_store_def same_agents_def conn_at_def fun_eq_iff)

lemma same_agents_side: "same_agents s s' \<Longrightarrow> agent_side X s' = agent_side X s"
  by (rule agent_side_cong) (simp_all add: same_agents_def)

lemma agent_ops_llm_side:
  "llm_side Y (register_live agent_roster c ns s) = llm_side Y s" "llm_side Y (register_touch agent_roster c ns s) = llm_side Y s"
  "llm_side Y (take_offline agent_roster c name s) = llm_side Y s"
  "llm_side Y (detach agent_roster k c s) = llm_side Y s" "llm_side Y (detach_all agent_roster k s) = llm_side Y s"
  "llm_side Y (ro_withdraw agent_roster rs s) = llm_side Y s" "llm_side Y (ro_changed agent_roster s) = llm_side Y s"
  by (rule llm_side_cong; simp add: register_live_def register_touch_def take_offline_def detach_def detach_all_def close_link_def Let_def)+

lemma llm_ops_agent_side:
  "agent_side X (register_live llm_roster c ns s) = agent_side X s" "agent_side X (register_touch llm_roster c ns s) = agent_side X s"
  "agent_side X (take_offline llm_roster c name s) = agent_side X s"
  "agent_side X (detach llm_roster k c s) = agent_side X s" "agent_side X (detach_all llm_roster k s) = agent_side X s"
  "agent_side X (ro_changed llm_roster s) = agent_side X s"
  by (rule same_agents_side; simp add: register_live_def register_touch_def take_offline_def detach_def detach_all_def close_link_def Let_def)+

lemma store_side [simp]: "agent_side X (set_store d s) = agent_side X s" "llm_side Y (set_store d s) = llm_side Y s"
  by (rule same_agents_side; simp) (rule llm_side_cong; simp)

lemma ticket_side [simp]: "agent_side X (s\<lparr>fq_tickets := T\<rparr>) = agent_side X s" "llm_side Y (s\<lparr>fq_tickets := T\<rparr>) = llm_side Y s"
  by (rule agent_side_cong; simp) (rule llm_side_cong; simp)

lemma open_link_cases:
  obtains (closed) T e where "open_link L ed R c cg minted t n pf s = (Inl e, s\<lparr>fq_tickets := T\<rparr>)"
  | (opened) T answer where "open_link L ed R c cg minted t n pf s = (Inr answer,
      ro_set_open R (dput (ro_key R c) (links_of R (ro_key R c) (s\<lparr>fq_tickets := T\<rparr>) @ [c]) (ro_open R (s\<lparr>fq_tickets := T\<rparr>)))
        (s\<lparr>fq_tickets := T\<rparr>))"
proof -
  have "\<exists>T. snd (connect_proof (ro_key R c) cg minted t n pf s) = s\<lparr>fq_tickets := T\<rparr>"
  proof (cases "pf = None \<and> cg_sign_connect cg \<noteq> None")
    case True
    then show ?thesis by (auto simp: connect_proof_def issue_ticket_def)
  next
    case False
    then have "snd (connect_proof (ro_key R c) cg minted t n pf s) = s\<lparr>fq_tickets := fq_tickets s\<rparr>"
      by (auto simp: connect_proof_def split: option.splits)
    then show ?thesis by blast
  qed
  then obtain t' n' pf' T1 where cp: "connect_proof (ro_key R c) cg minted t n pf s = ((t', n', pf'), s\<lparr>fq_tickets := T1\<rparr>)"
    by (metis prod.collapse)
  have "\<exists>T. snd (claim_ticket (the t') (ro_key R c) (s\<lparr>fq_tickets := T1\<rparr>)) = s\<lparr>fq_tickets := T\<rparr>"
    by (auto simp: claim_ticket_def split: option.splits)
  then obtain b T2 where cl: "claim_ticket (the t') (ro_key R c) (s\<lparr>fq_tickets := T1\<rparr>) = (b, s\<lparr>fq_tickets := T2\<rparr>)"
    by (metis prod.collapse)
  show ?thesis
  proof (cases "t' = None \<or> pf' = None")
    case True
    then have "\<exists>e. open_link L ed R c cg minted t n pf s = (Inl e, s\<lparr>fq_tickets := T1\<rparr>)"
      using cp by (auto simp: open_link_def split: option.splits)
    then show ?thesis using closed by blast
  next
    case False
    then obtain t1 p1 where tp: "t' = Some t1" "pf' = Some p1" by auto
    note cl = cl [unfolded tp option.sel]
    show ?thesis
      by (cases "open_link L ed R c cg minted t n pf s")
        (use closed opened cp cl tp in \<open>auto simp: open_link_def Let_def split: if_splits\<close>)
  qed
qed

lemma open_on_open_link:
  "agent_side X s \<Longrightarrow> agent_side X (snd (open_link L ed agent_roster c cg minted t n pf s))"
  "llm_side Y s \<Longrightarrow> llm_side Y (snd (open_link L ed agent_roster c cg minted t n pf s))"
  "llm_side Y s \<Longrightarrow> llm_side Y (snd (open_link L ed llm_roster lc cg minted t n pf s))"
  "agent_side X s \<Longrightarrow> agent_side X (snd (open_link L ed llm_roster lc cg minted t n pf s))"
proof -
  have a: "agent_side X (ro_set_open agent_roster (dput k (links_of agent_roster k s @ [c]) (ro_open agent_roster s)) s)"
    if "agent_side X s" for k s
    using that unfolding agent_side_def
    by (auto simp: agents_table.on_known_link_def agents_table.live_frame agents_table.links_set agents_table.ok_frame)
       (auto simp: links_of_def)
  have l: "llm_side Y (ro_set_open llm_roster (dput k (links_of llm_roster k s @ [lc]) (ro_open llm_roster s)) s)"
    if "llm_side Y s" for k s
  proof -
    have "llm_table_ok (ro_set_open llm_roster d s)" for d using that by (simp add: llm_side_def llms_table.ok_frame)
    then show ?thesis using that unfolding llm_side_def
      by (auto simp: llms_table.on_known_link_def llms_table.live_frame llms_table.links_set)
         (auto simp: links_of_def)
  qed
  have al: "llm_side Y (ro_set_open agent_roster d s) = llm_side Y s" for d s by (rule llm_side_cong) simp_all
  have la: "agent_side X (ro_set_open llm_roster d s) = agent_side X s" for d s
    by (rule same_agents_side) simp
  show "agent_side X s \<Longrightarrow> agent_side X (snd (open_link L ed agent_roster c cg minted t n pf s))"
    by (cases rule: open_link_cases [of L ed agent_roster c cg minted t n pf s]) (simp_all add: a)
  show "llm_side Y s \<Longrightarrow> llm_side Y (snd (open_link L ed agent_roster c cg minted t n pf s))"
    by (cases rule: open_link_cases [of L ed agent_roster c cg minted t n pf s]) (simp_all add: al)
  show "llm_side Y s \<Longrightarrow> llm_side Y (snd (open_link L ed llm_roster lc cg minted t n pf s))"
    by (cases rule: open_link_cases [of L ed llm_roster lc cg minted t n pf s]) (simp_all add: l)
  show "agent_side X s \<Longrightarrow> agent_side X (snd (open_link L ed llm_roster lc cg minted t n pf s))"
    by (cases rule: open_link_cases [of L ed llm_roster lc cg minted t n pf s]) (simp_all add: la)
qed

lemma sides_mono: "agent_side X s \<Longrightarrow> X \<subseteq> Y \<Longrightarrow> agent_side Y s" "llm_side Z s \<Longrightarrow> Z \<subseteq> V \<Longrightarrow> llm_side V s"
  using agents_table.on_known_link_mono llms_table.on_known_link_mono by (auto simp: agent_side_def llm_side_def)

text \<open>What the operations of one roster do to its own side.\<close>

lemma agent_ops_side:
  assumes "agent_side X s"
  shows "c \<in> set (links_of agent_roster (c_public_key c) s) \<union> X \<Longrightarrow> agent_side X (register_live agent_roster c ns s)"
    "agent_side X (register_touch agent_roster c ns s)" "agent_side X (take_offline agent_roster c name s)"
    "agent_side X (ro_changed agent_roster s)" "agent_side X (detach agent_roster k c s)" "agent_side X (detach_all agent_roster k s)"
    "agent_side X (ro_withdraw agent_roster refs s)"
proof -
  note s = assms [unfolded agent_side_def]
  have key: "ro_key agent_roster = c_public_key" by (simp add: agent_roster_def)
  show "c \<in> set (links_of agent_roster (c_public_key c) s) \<union> X \<Longrightarrow> agent_side X (register_live agent_roster c ns s)"
    using s agents_table.publish_live(1) [of s] agents_table.publish_on_known_link [of s X c] by (simp add: agent_side_def key)
  show "agent_side X (register_touch agent_roster c ns s)"
    using s agents_table.touch_on_known_link(1) [of s] by (simp add: agent_side_def agents_table.touch_on_known_link(2))
  show "agent_side X (take_offline agent_roster c name s)"
    using s agents_table.take_offline_on_known_link [of s X] by (simp add: agent_side_def)
  show "agent_side X (ro_changed agent_roster s)"
    using s agents_table.ok_frame(2) [of s] by (simp add: agent_side_def agents_table.changed_on_known_link)
  show "agent_side X (detach agent_roster k c s)"
    using s agents_table.detach_live(1) [of s] agents_table.detach_on_known_link [of s X] by (simp add: agent_side_def)
  show "agent_side X (detach_all agent_roster k s)"
    using s agents_table.detach_all_live(1) [of s] agents_table.detach_all_on_known_link [of s X] by (simp add: agent_side_def)
  show "agent_side X (ro_withdraw agent_roster refs s)"
    using s agents_table.ok_withdraw [of s] agents_table.withdraw_on_known_link [of s X] by (simp add: agent_side_def)
qed

lemma llm_ops_side:
  assumes "llm_side X s"
  shows "c \<in> set (links_of llm_roster (lc_public_key c) s) \<union> X \<Longrightarrow> llm_side X (register_live llm_roster c ns s)"
    "llm_side X (register_touch llm_roster c ns s)" "llm_side X (take_offline llm_roster c name s)"
    "llm_side X (ro_changed llm_roster s)" "llm_side X (detach llm_roster k c s)" "llm_side X (detach_all llm_roster k s)"
proof -
  note s = assms [unfolded llm_side_def]
  have key: "ro_key llm_roster = lc_public_key" by (simp add: llm_roster_def)
  show "c \<in> set (links_of llm_roster (lc_public_key c) s) \<union> X \<Longrightarrow> llm_side X (register_live llm_roster c ns s)"
    using s llms_table.publish_live(1) [of s] llms_table.publish_on_known_link [of s X c] by (simp add: llm_side_def key)
  show "llm_side X (register_touch llm_roster c ns s)"
    using s llms_table.touch_on_known_link(1) [of s] by (simp add: llm_side_def llms_table.touch_on_known_link(2))
  show "llm_side X (take_offline llm_roster c name s)"
    using s llms_table.take_offline_on_known_link [of s X] by (simp add: llm_side_def)
  show "llm_side X (ro_changed llm_roster s)"
    using s llms_table.ok_frame(2) [of s] by (simp add: llm_side_def llms_table.changed_on_known_link)
  show "llm_side X (detach llm_roster k c s)"
    using s llms_table.detach_live(1) [of s] llms_table.detach_on_known_link [of s X] by (simp add: llm_side_def)
  show "llm_side X (detach_all llm_roster k s)"
    using s llms_table.detach_all_live(1) [of s] llms_table.detach_all_on_known_link [of s X] by (simp add: llm_side_def)
qed

lemma delete_side:
  assumes "agent_side X s" "llm_side Y s"
  shows "agent_side X (snd (delete_agent_vet c name s)) \<and> llm_side Y (snd (delete_agent_vet c name s))"
    "agent_side X (snd (delete_agent_remove c name s)) \<and> llm_side Y (snd (delete_agent_remove c name s))"
    "agent_side X (snd (delete_llm_vet lc name s)) \<and> llm_side Y (snd (delete_llm_vet lc name s))"
    "agent_side X (delete_llm_remove lc name s) \<and> llm_side Y (delete_llm_remove lc name s)"
proof -
  show "agent_side X (snd (delete_agent_vet c name s)) \<and> llm_side Y (snd (delete_agent_vet c name s))"
    using assms agent_ops_side(3) [OF assms(1)] by (simp add: delete_agent_vet_def Let_def agent_ops_llm_side)
  show "agent_side X (snd (delete_agent_remove c name s)) \<and> llm_side Y (snd (delete_agent_remove c name s))"
    using assms agent_ops_side(4) [of X "set_store _ s"] by (simp add: delete_agent_remove_def agent_ops_llm_side split: sum.splits)
  show "agent_side X (snd (delete_llm_vet lc name s)) \<and> llm_side Y (snd (delete_llm_vet lc name s))"
    using assms llm_ops_side(3) [OF assms(2)] by (simp add: delete_llm_vet_def Let_def llm_ops_agent_side)
  show "agent_side X (delete_llm_remove lc name s) \<and> llm_side Y (delete_llm_remove lc name s)"
    using assms llm_ops_side(4) [of Y "set_store _ s"] by (simp add: delete_llm_remove_def llm_ops_agent_side)
qed

text \<open>
  What holds of every host: both sides, with the links found closed; a registration under way is on an open link or on one of
  those; and a pending \<^verbatim>\<open>store\<close> writes the database only.
\<close>

definition stores_only :: "('c, 'p facade) registering \<Rightarrow> bool" where
  "stores_only g \<longleftrightarrow> (\<forall>c store s ns s'. g = Admitted c store \<longrightarrow> store s = Inr (ns, s') \<longrightarrow> (\<exists>d. s' = set_store d s))"

definition host_ok :: "'p hosting \<Rightarrow> bool" where
  "host_ok h \<longleftrightarrow> agent_side (ho_closed h) (ho_funduq h) \<and> llm_side (ho_llms_closed h) (ho_funduq h) \<and>
     (\<forall>g \<in> set (ho_agents h). stores_only g \<and> registrant g \<in> set (links_of agent_roster (c_public_key (registrant g)) (ho_funduq h)) \<union> ho_closed h) \<and>
     (\<forall>g \<in> set (ho_llms h). stores_only g \<and> registrant g \<in> set (links_of llm_roster (lc_public_key (registrant g)) (ho_funduq h)) \<union> ho_llms_closed h)"

lemma host_okD:
  assumes "host_ok h"
  shows "agent_side (ho_closed h) (ho_funduq h)" "llm_side (ho_llms_closed h) (ho_funduq h)"
    "g \<in> set (ho_agents h) \<Longrightarrow> stores_only g"
    "g \<in> set (ho_agents h) \<Longrightarrow> registrant g \<in> set (links_of agent_roster (c_public_key (registrant g)) (ho_funduq h)) \<union> ho_closed h"
    "lg \<in> set (ho_llms h) \<Longrightarrow> stores_only lg"
    "lg \<in> set (ho_llms h) \<Longrightarrow> registrant lg \<in> set (links_of llm_roster (lc_public_key (registrant lg)) (ho_funduq h)) \<union> ho_llms_closed h"
  using assms unfolding host_ok_def by blast+

lemma moved_ok:
  assumes "agent_side (ho_closed h) s" "llm_side (ho_llms_closed h) s" "\<forall>g \<in> set (ho_agents h). stores_only g" "\<forall>g \<in> set (ho_llms h). stores_only g"
  shows "host_ok (moved s h)"
proof -
  have "agent_side (ho_closed (moved s h)) s" "llm_side (ho_llms_closed (moved s h)) s"
    by (rule sides_mono(1) [OF assms(1)] sides_mono(2) [OF assms(2)], simp add: moved_def)+
  then show ?thesis
    using assms(3,4) by (auto simp: host_ok_def moved_def found_closed_def agent_roster_def llm_roster_def)
qed

lemma stores_only_simps [simp]: "stores_only (Stored c ns)" "stores_only (Live c ns)"
  by (simp_all add: stores_only_def)

lemma store_agents_only: "stores_only (Admitted c (store_agents H k batch name))" "stores_only (Admitted lc (store_llms H k names md))"
  by (auto simp: stores_only_def store_agents_def store_llms_def split: sum.splits)

lemma stored_side:
  assumes "stores_only (Admitted c store)" "store s = Inr (ns, s')" "agent_side X s" "llm_side Y s"
  shows "agent_side X s'" "llm_side Y s'"
proof -
  obtain d where "s' = set_store d s" using assms(1,2) unfolding stores_only_def by blast
  then show "agent_side X s'" "llm_side Y s'" using assms(3,4) by simp_all
qed

lemma host_ok_agents:
  assumes "host_ok h" "\<And>g. g \<in> set gs \<Longrightarrow> g \<notin> set (ho_agents h) \<Longrightarrow>
    stores_only g \<and> registrant g \<in> set (links_of agent_roster (c_public_key (registrant g)) (ho_funduq h)) \<union> ho_closed h"
  shows "host_ok (h\<lparr>ho_agents := gs\<rparr>)"
  using assms unfolding host_ok_def by auto

lemma host_ok_llms:
  assumes "host_ok h" "\<And>g. g \<in> set gs \<Longrightarrow> g \<notin> set (ho_llms h) \<Longrightarrow>
    stores_only g \<and> registrant g \<in> set (links_of llm_roster (lc_public_key (registrant g)) (ho_funduq h)) \<union> ho_llms_closed h"
  shows "host_ok (h\<lparr>ho_llms := gs\<rparr>)"
  using assms unfolding host_ok_def by auto

lemma admitted_open: "register_admit R c names s = Inr () \<Longrightarrow> c \<in> set (links_of R (ro_key R c) s)"
  by (auto simp: register_admit_def require_open_def rbind_Inr_iff split: if_splits)

lemma links_reach_ok: "links_reach L ed H h \<Longrightarrow> host_ok h"
proof (induction rule: links_reach.induct)
  case (fresh s)
  then have "agent_side {} s" "llm_side {} s"
    unfolding agent_side_def llm_side_def agents_table.on_known_link_def llms_table.on_known_link_def
    by (simp_all add: agent_table_ok_def llm_table_ok_def agent_roster_def llm_roster_def serving_def relay_serving_def live_serving_def)
  then show ?case by (simp add: host_ok_def)
next
  case (open_agent h c cg minted t n pf)
  then show ?case using host_okD(1,2,3,5) [OF open_agent.IH] by (intro moved_ok open_on_open_link) auto
next
  case (open_llm h lc cg minted t n pf)
  then show ?case using host_okD(1,2,3,5) [OF open_llm.IH] by (intro moved_ok open_on_open_link) auto
next
  case (admitted h c batch name)
  then show ?case using admitted_open [OF admitted.hyps(2)] store_agents_only(1)
    by (intro host_ok_agents) (auto simp: agent_roster_def)
next
  case (admitted_llm h lc names md)
  then show ?case using admitted_open [OF admitted_llm.hyps(2)] store_agents_only(2)
    by (intro host_ok_llms) (auto simp: llm_roster_def)
next
  case (stored h c store ns s')
  note d = host_okD [OF stored.IH]
  from stored_side [OF d(3) [OF stored.hyps(2)] stored.hyps(3) d(1,2)] d(3,5) show ?case
    by (intro moved_ok) (auto dest: set_remove1_subset [THEN subsetD])
next
  case (stored_llm h lc store ns s')
  note d = host_okD [OF stored_llm.IH]
  from stored_side [OF d(5) [OF stored_llm.hyps(2)] stored_llm.hyps(3) d(1,2)] d(3,5) show ?case
    by (intro moved_ok) (auto dest: set_remove1_subset [THEN subsetD])
next
  case (live h c ns)
  note d = host_okD [OF live.IH]
  from agent_ops_side(1) [OF d(1)] d(4) [OF live.hyps(2)] d(2,3,5) show ?case
    by (intro moved_ok) (auto simp: agent_ops_llm_side dest: set_remove1_subset [THEN subsetD])
next
  case (live_llm h lc ns)
  note d = host_okD [OF live_llm.IH]
  from llm_ops_side(1) [OF d(2)] d(6) [OF live_llm.hyps(2)] d(1,3,5) show ?case
    by (intro moved_ok) (auto simp: llm_ops_agent_side dest: set_remove1_subset [THEN subsetD])
next
  case (touched h c ns)
  note d = host_okD [OF touched.IH]
  from agent_ops_side(2) [OF d(1)] d(2,3,5) show ?case
    by (intro moved_ok) (auto simp: agent_ops_llm_side dest: set_remove1_subset [THEN subsetD])
next
  case (touched_llm h lc ns)
  note d = host_okD [OF touched_llm.IH]
  from llm_ops_side(2) [OF d(2)] d(1,3,5) show ?case
    by (intro moved_ok) (auto simp: llm_ops_agent_side dest: set_remove1_subset [THEN subsetD])
next
  case (given_up h g)
  then show ?case by (intro host_ok_agents) (auto dest: set_remove1_subset [THEN subsetD])
next
  case (given_up_llm h lg)
  then show ?case by (intro host_ok_llms) (auto dest: set_remove1_subset [THEN subsetD])
next
  case (delete_vetted h c name')
  note d = host_okD [OF delete_vetted.IH]
  from delete_side(1) [OF d(1,2)] d(3,5) show ?case by (intro moved_ok) auto
next
  case (delete_removed h c name')
  note d = host_okD [OF delete_removed.IH]
  from delete_side(2) [OF d(1,2)] d(3,5) show ?case by (intro moved_ok) auto
next
  case (delete_llm_vetted h lc name')
  note d = host_okD [OF delete_llm_vetted.IH]
  from delete_side(3) [OF d(1,2)] d(3,5) show ?case by (intro moved_ok) auto
next
  case (delete_llm_removed h lc name')
  note d = host_okD [OF delete_llm_removed.IH]
  from delete_side(4) [OF d(1,2)] d(3,5) show ?case by (intro moved_ok) auto
next
  case (detach_agent h k c)
  note d = host_okD [OF detach_agent.IH]
  from agent_ops_side(5) [OF d(1)] d(2,3,5) show ?case by (intro moved_ok) (auto simp: agent_ops_llm_side)
next
  case (detach_llm h k lc)
  note d = host_okD [OF detach_llm.IH]
  from llm_ops_side(5) [OF d(2)] d(1,3,5) show ?case by (intro moved_ok) (auto simp: llm_ops_agent_side)
next
  case (detach_key h k)
  note d = host_okD [OF detach_key.IH]
  have "llm_side (ho_llms_closed h) (detach_all agent_roster k (ho_funduq h))" using d(2) by (simp add: agent_ops_llm_side)
  from llm_ops_side(6) [OF this] agent_ops_side(6) [OF d(1)] d(3,5) show ?case
    unfolding detach_all_for_def by (intro moved_ok) (auto simp: llm_ops_agent_side)
next
  case (distrust h refs)
  note d = host_okD [OF distrust.IH]
  from agent_ops_side(7) [OF d(1)] d(2,3,5) show ?case by (intro moved_ok) (auto simp: agent_ops_llm_side)
next
  case (elsewhere h s')
  note d = host_okD [OF elsewhere.IH]
  show ?case using d elsewhere.hyps(2) agent_side_cong [of s' "ho_funduq h"] llm_side_cong [of s' "ho_funduq h"]
    by (intro moved_ok) (auto simp: same_rosters_def)
qed

section \<open>Properties\<close>


text \<open>
  What opening a link takes: a proof by key \<open>k\<close> over this funduq's key, a ticket and a nonce. The proof is the caller's, over a live
  ticket issued to \<open>k\<close>; or the link's own signer gives it, over a ticket funduq mints for \<open>k\<close> there and then. Either way the ticket
  is gone afterwards.
\<close>

definition proven :: "ed25519 \<Rightarrow> key \<Rightarrow> connecting \<Rightarrow> string \<times> string \<Rightarrow> string option \<Rightarrow> string option \<Rightarrow> string option \<Rightarrow>
  'p facade \<Rightarrow> 'p facade \<Rightarrow> bool" where
  "proven ed k cg minted ticket nonce proof s s' \<longleftrightarrow> (\<exists>t n pf.
     (case proof of
        Some p \<Rightarrow> pf = p \<and> ticket = Some t \<and> n = (case nonce of None \<Rightarrow> [] | Some x \<Rightarrow> x) \<and>
          (\<exists>issued. dget (fq_tickets s) t = Some (k, issued) \<and> fq_clock s - issued \<le> 60)
      | None \<Rightarrow> (t, n) = minted \<and> (\<exists>sign. cg_sign_connect cg = Some sign \<and> sign (fi_public_key (fq_identity s)) t n = Some pf)) \<and>
     verify_signature ed k pf (provider_connect_payload (fi_public_key (fq_identity s)) t n) \<and>
     dget (fq_tickets s') t = None)"

lemma claim_ticket_claimed:
  "claim_ticket t k s = (True, s') \<longleftrightarrow>
     (\<exists>issued. dget (fq_tickets s) t = Some (k, issued) \<and> fq_clock s - issued \<le> 60 \<and> s' = s\<lparr>fq_tickets := dpop t (fq_tickets s)\<rparr>)"
  by (auto simp: claim_ticket_def SIGNATURE_FRESHNESS_WINDOW_SECONDS_def split: option.splits if_splits)

lemma open_link_proven:
  assumes "open_link L ed R c cg minted ticket nonce proof s = (Inr answer, s')"
  shows "\<exists>T. proven ed (ro_key R c) cg minted ticket nonce proof s (s\<lparr>fq_tickets := T\<rparr>) \<and>
    s' = ro_set_open R (dput (ro_key R c) (links_of R (ro_key R c) (s\<lparr>fq_tickets := T\<rparr>) @ [c]) (ro_open R (s\<lparr>fq_tickets := T\<rparr>)))
       (s\<lparr>fq_tickets := T\<rparr>)"
proof -
  let ?k = "ro_key R c"
  obtain t n pf s0 where cp: "connect_proof ?k cg minted ticket nonce proof s = ((Some t, n, Some pf), s0)"
    using assms by (auto simp: open_link_def split: prod.splits option.splits)
  let ?n = "case n of None \<Rightarrow> [] | Some x \<Rightarrow> x"
  obtain b s1 where cl: "claim_ticket t ?k s0 = (b, s1)" by fastforce
  from assms cp cl have b: "b" and v: "verify_signature ed ?k pf (provider_connect_payload (fi_public_key (fq_identity s1)) t ?n)"
    and s': "s' = ro_set_open R (dput ?k (links_of R ?k s1 @ [c]) (ro_open R s1)) s1"
    by (auto simp: open_link_def Let_def split: if_splits)
  from cl b obtain issued where i: "dget (fq_tickets s0) t = Some (?k, issued)" "fq_clock s0 - issued \<le> 60"
    "s1 = s0\<lparr>fq_tickets := dpop t (fq_tickets s0)\<rparr>" using claim_ticket_claimed [of t ?k s0 s1] by auto
  have s1: "s1 = s\<lparr>fq_tickets := dpop t (fq_tickets s0)\<rparr>"
    using cp i(3) by (auto simp: connect_proof_def issue_ticket_def split: option.splits)
  have "proven ed ?k cg minted ticket nonce proof s s1"
    unfolding proven_def
  proof (rule exI [of _ t], rule exI [of _ ?n], rule exI [of _ pf], intro conjI)
    show "case proof of
        Some p \<Rightarrow> pf = p \<and> ticket = Some t \<and> ?n = (case nonce of None \<Rightarrow> [] | Some x \<Rightarrow> x) \<and>
          (\<exists>issued. dget (fq_tickets s) t = Some (?k, issued) \<and> fq_clock s - issued \<le> 60)
      | None \<Rightarrow> (t, ?n) = minted \<and> (\<exists>sign. cg_sign_connect cg = Some sign \<and> sign (fi_public_key (fq_identity s)) t ?n = Some pf)"
      using cp i(1,2) by (auto simp: connect_proof_def split: option.splits)
    show "verify_signature ed ?k pf (provider_connect_payload (fi_public_key (fq_identity s)) t ?n)" using v s1 by simp
    show "dget (fq_tickets s1) t = None" using s1 by simp
  qed
  with s' s1 show ?thesis by blast
qed

lemma ro_keys: "ro_key agent_roster = c_public_key" "ro_key llm_roster = lc_public_key"
  by (simp_all add: agent_roster_def llm_roster_def)

text \<open>
  C39. A link opens only for whoever proves its key, on either roster and whichever side gives the proof: the proof is a signature of
  that key over this funduq's key, a nonce and a ticket that was live and issued to that key, which is spent by it. A link that opens
  is added to its key's links and nothing else; a call that raises opens none.
\<close>

theorem link_opens_on_its_ticket:
  "(open_link L ed agent_roster c cg minted ticket nonce given s = (result, s') \<longrightarrow>
      (if isl result then fq_agent_open s' = fq_agent_open s
       else proven ed (c_public_key c) cg minted ticket nonce given s s' \<and>
         fq_agent_open s' = dput (c_public_key c) (links_of agent_roster (c_public_key c) s @ [c]) (fq_agent_open s)) \<and>
      fq_llm_open s' = fq_llm_open s \<and> fq_broker s' = fq_broker s \<and> fq_relay s' = fq_relay s) \<and>
   (open_link L ed llm_roster lc cg minted ticket nonce given s = (result, s') \<longrightarrow>
      (if isl result then fq_llm_open s' = fq_llm_open s
       else proven ed (lc_public_key lc) cg minted ticket nonce given s s' \<and>
         fq_llm_open s' = dput (lc_public_key lc) (links_of llm_roster (lc_public_key lc) s @ [lc]) (fq_llm_open s)) \<and>
      fq_agent_open s' = fq_agent_open s \<and> fq_broker s' = fq_broker s \<and> fq_relay s' = fq_relay s)"
proof ((rule conjI; rule impI), goal_cases)
  case 1
  show ?case
  proof (cases result)
    case (Inl e)
    then show ?thesis using 1 by (cases rule: open_link_cases [of L ed agent_roster c cg minted ticket nonce given s]) auto
  next
    case (Inr answer)
    obtain T where "proven ed (c_public_key c) cg minted ticket nonce given s (s\<lparr>fq_tickets := T\<rparr>)"
      and s': "s' = ro_set_open agent_roster (dput (c_public_key c) (links_of agent_roster (c_public_key c) (s\<lparr>fq_tickets := T\<rparr>) @ [c])
        (ro_open agent_roster (s\<lparr>fq_tickets := T\<rparr>))) (s\<lparr>fq_tickets := T\<rparr>)"
      using open_link_proven [OF 1 [unfolded Inr], unfolded ro_keys] by blast
    then show ?thesis using Inr by (simp add: agent_roster_def links_of_def proven_def)
  qed
next
  case 2
  show ?case
  proof (cases result)
    case (Inl e)
    then show ?thesis using 2 by (cases rule: open_link_cases [of L ed llm_roster lc cg minted ticket nonce given s]) auto
  next
    case (Inr answer)
    obtain T where "proven ed (lc_public_key lc) cg minted ticket nonce given s (s\<lparr>fq_tickets := T\<rparr>)"
      and s': "s' = ro_set_open llm_roster (dput (lc_public_key lc) (links_of llm_roster (lc_public_key lc) (s\<lparr>fq_tickets := T\<rparr>) @ [lc])
        (ro_open llm_roster (s\<lparr>fq_tickets := T\<rparr>))) (s\<lparr>fq_tickets := T\<rparr>)"
      using open_link_proven [OF 2 [unfolded Inr], unfolded ro_keys] by blast
    then show ?thesis using Inr by (simp add: llm_roster_def links_of_def proven_def)
  qed
qed

lemma changed_fields:
  "serving a (fq_broker (ro_changed agent_roster x)) = serving a (fq_broker x)"
  "fq_store (ro_changed agent_roster x) = fq_store x" "fq_store (set_store d x) = d"
  by (simp_all add: agent_roster_def set_store_def)

lemma take_offline_agent:
  fixes c name
  defines "a \<equiv> \<lparr>ar_provider_key = c_public_key c, ar_name = name\<rparr>"
  shows "serving b (fq_broker (take_offline agent_roster c name s)) =
      (if b = a \<and> serving a (fq_broker s) = Some c then None else serving b (fq_broker s))"
    and "fq_store (take_offline agent_roster c name s) = fq_store s"
  by (auto simp: take_offline_def agent_roster_def a_def Let_def serving_conn_at unregister_table
      conn_at_cong [OF unregister_table(2)] split: option.splits)


section \<open>A scenario\<close>

definition demo_facade :: "nat facade" where
  "demo_facade = \<lparr>fq_broker = start_broker (new_broker None 0 \<lparr>w_store = demo_registry [] [], w_now = 0, w_changes = [], w_asked = []\<rparr>),
     fq_relay = new_kyok_relay, fq_identity = \<lparr>fi_private_key = 0, fi_public_key = ''ff''\<rparr>, fq_agent_open = [], fq_llm_open = [],
     fq_tickets = [], fq_clock = 0, fq_started = True, fq_roster_changes = []\<rparr>"

definition demo_keys :: "nat key_lib" where
  "demo_keys = \<lparr>kl_from_seed = (\<lambda>x. 0), kl_public_hex = (\<lambda>p. ''ff''), kl_sign_hex = (\<lambda>p x. ''00'')\<rparr>"

definition demo_ed :: ed25519 where "demo_ed = (\<lambda>k sig p. True)"

definition demo_sha :: "string \<Rightarrow> string" where "demo_sha x = x"

definition demo_c :: "nat \<Rightarrow> conn" where "demo_c n = \<lparr>c_id = n, c_public_key = ''ab'', c_max_concurrent_runs = None\<rparr>"

definition demo_signer :: connecting where
  "demo_signer = \<lparr>cg_sign_connect = None, cg_confirm = (\<lambda>t n a. True)\<rparr>"

definition demo_open :: "nat \<Rightarrow> nat facade \<Rightarrow> nat facade" where
  "demo_open n s = snd (open_link demo_keys demo_ed agent_roster (demo_c n) demo_signer ([], []) (Some ''t'') None (Some ''00'')
     (issue_ticket ''t'' ''ab'' s))"

definition demo_register :: "nat \<Rightarrow> string \<Rightarrow> nat facade \<Rightarrow> nat facade" where
  "demo_register n name s =
     (case fq_register_agents demo_sha (\<lambda>_. False) (demo_c n) [demo_registration name []] None s of
        Inl e \<Rightarrow> s | Inr (ns, s') \<Rightarrow> s')"

text \<open>A host on which nothing is under way, and a registration nothing interleaves with.\<close>

definition calm :: "'p facade \<Rightarrow> 'p hosting" where
  "calm s = \<lparr>ho_funduq = s, ho_agents = [], ho_llms = [], ho_closed = {}, ho_llms_closed = {}\<rparr>"

lemma moved_calm [simp]: "moved s' (calm s) = calm s'"
  by (simp add: moved_def calm_def found_closed_def)

lemma moved_under_way:
  "c \<in> set (links_of agent_roster (c_public_key c) s') \<Longrightarrow> registrant g = c \<Longrightarrow>
   moved s' ((calm s)\<lparr>ho_agents := [g]\<rparr>) = (calm s')\<lparr>ho_agents := [g]\<rparr>"
  by (simp add: moved_def calm_def found_closed_def agent_roster_def)

lemma register_uninterrupted:
  assumes "links_reach L ed H (calm s)" "fq_register_agents H takes c batch name s = Inr (ns, s')"
  shows "links_reach L ed H (calm s')"
proof -
  let ?batch = "map (\<lambda>a. a\<lparr>rg_takes_interjections := takes (rg_name a)\<rparr>) batch"
  let ?store = "store_agents H (c_public_key c) ?batch name"
  have names: "map rg_name ?batch = map rg_name batch" by simp
  from assms(2) obtain d where admit: "register_admit agent_roster c (map rg_name ?batch) s = Inr ()"
    and d: "?store s = Inr (ns, set_store d s)" and s': "s' = register_touch agent_roster c ns (register_live agent_roster c ns (set_store d s))"
    unfolding names by (auto simp: fq_register_agents_def register_names_def rbind_Inr_iff store_agents_def split: sum.splits)
  have "c \<in> set (links_of agent_roster (c_public_key c) s)" using admitted_open [OF admit] by (simp add: agent_roster_def)
  then have o: "c \<in> set (links_of agent_roster (c_public_key c) (set_store d s))"
    "c \<in> set (links_of agent_roster (c_public_key c) (register_live agent_roster c ns (set_store d s)))"
    by (simp_all add: links_of_def agent_roster_def register_live_def Let_def)
  from links_reach.admitted [OF assms(1), of c ?batch name] admit
  have 1: "links_reach L ed H ((calm s)\<lparr>ho_agents := [Admitted c ?store]\<rparr>)" by (simp add: calm_def)
  from links_reach.stored [OF 1, of c ?store ns "set_store d s"] d moved_under_way [OF o(1), of "Stored c ns"]
  have 2: "links_reach L ed H ((calm (set_store d s))\<lparr>ho_agents := [Stored c ns]\<rparr>)" by (simp add: calm_def)
  from links_reach.live [OF 2, of c ns] moved_under_way [OF o(2), of "Live c ns"]
  have 3: "links_reach L ed H ((calm (register_live agent_roster c ns (set_store d s)))\<lparr>ho_agents := [Live c ns]\<rparr>)"
    by (simp add: calm_def)
  from links_reach.touched [OF 3, of c ns] show ?thesis by (simp add: calm_def s' moved_def found_closed_def)
qed

lemma demo_reach:
  "links_reach demo_keys demo_ed demo_sha (calm demo_facade)"
  "links_reach demo_keys demo_ed demo_sha (calm s) \<Longrightarrow> links_reach demo_keys demo_ed demo_sha (calm (demo_open n s))"
  "links_reach demo_keys demo_ed demo_sha (calm s) \<Longrightarrow> links_reach demo_keys demo_ed demo_sha (calm (demo_register n name s))"
proof -
  show "links_reach demo_keys demo_ed demo_sha (calm demo_facade)"
    unfolding calm_def
    by (rule links_reach.fresh) (simp_all add: demo_facade_def start_broker_def new_broker_def new_kyok_relay_def new_live_roster_def)
  show "links_reach demo_keys demo_ed demo_sha (calm (demo_open n s))" if r: "links_reach demo_keys demo_ed demo_sha (calm s)"
  proof -
    have "same_rosters s (issue_ticket ''t'' ''ab'' s)" by (simp add: same_rosters_def issue_ticket_def)
    with links_reach.elsewhere [OF r, of "issue_ticket ''t'' ''ab'' s"]
    have "links_reach demo_keys demo_ed demo_sha (calm (issue_ticket ''t'' ''ab'' s))" by (simp add: calm_def moved_def found_closed_def)
    from links_reach.open_agent [OF this] show ?thesis unfolding demo_open_def moved_calm by (simp add: calm_def)
  qed
  show "links_reach demo_keys demo_ed demo_sha (calm (demo_register n name s))" if "links_reach demo_keys demo_ed demo_sha (calm s)"
    using that unfolding demo_register_def by (auto intro: register_uninterrupted split: sum.splits)
qed

abbreviation demo_x :: agent_ref where "demo_x \<equiv> \<lparr>ar_provider_key = ''ab'', ar_name = ''x''\<rparr>"


lemma link_opens_on_its_ticket_witness:
  "proven demo_ed ''ab'' demo_signer ([], []) (Some ''t'') None (Some ''00'') (issue_ticket ''t'' ''ab'' demo_facade) (demo_open 0 demo_facade)"
proof -
  let ?r = "open_link demo_keys demo_ed agent_roster (demo_c 0) demo_signer ([], []) (Some ''t'') None (Some ''00'')
     (issue_ticket ''t'' ''ab'' demo_facade)"
  have r: "\<not> isl (fst ?r)" by code_simp
  have "?r = (fst ?r, demo_open 0 demo_facade)" by (simp add: demo_open_def)
  with link_opens_on_its_ticket [where c = "demo_c 0" and L = demo_keys and ed = demo_ed] r show ?thesis by (metis conn.select_convs(2) demo_c_def)
qed


text \<open>
  Behaviours the documentation does not foresee. Two links of one key: registering on the second moves the
  names of the first to it, so that closing the first leaves its name online, served by a link
  that never offered it. And a link that closes while its registration waits for the database is
  published all the same.
\<close>

lemma second_link_takes_over_the_first:
  "serving demo_x (fq_broker (detach agent_roster ''ab'' (demo_c 0)
     (demo_register 1 ''y'' (demo_open 1 (demo_register 0 ''x'' (demo_open 0 demo_facade)))))) = Some (demo_c 1)"
  by code_simp

lemma closed_link_is_published:
  "serving demo_x (fq_broker (register_live agent_roster (demo_c 0) [''x'']
     (detach agent_roster ''ab'' (demo_c 0) (demo_open 0 demo_facade)))) = Some (demo_c 0) \<and>
   require_open agent_roster (demo_c 0) (detach agent_roster ''ab'' (demo_c 0) (demo_open 0 demo_facade)) = Inl InvalidRegistration"
  by code_simp

text \<open>
  Deleting an agent on a link that is open but does not serve it removes the record of a name that stays online. And a thread made
  while a delete waits for the database makes the delete fail after its name went offline.
\<close>

definition demo_two_links :: "nat facade" where
  "demo_two_links = demo_register 1 ''x'' (demo_open 1 (demo_open 0 demo_facade))"

lemma deleted_agent_stays_served:
  "fst (fq_delete_agent (demo_c 0) ''x'' demo_two_links) = Inr () \<and>
   get_agent (fq_store (snd (fq_delete_agent (demo_c 0) ''x'' demo_two_links))) demo_x = None \<and>
   serving demo_x (fq_broker (snd (fq_delete_agent (demo_c 0) ''x'' demo_two_links))) = Some (demo_c 1)"
  by code_simp

lemma late_thread_leaves_the_name_offline:
  defines "s \<equiv> snd (delete_agent_vet (demo_c 0) ''x'' (demo_register 0 ''x'' (demo_open 0 demo_facade)))"
  defines "s' \<equiv> set_store ((fq_store s)\<lparr>threads := [\<lparr>th_thread_id = ''t1'', th_provider_key = ''ab'', th_agent_name = ''x'',
     th_parent_thread_id = None, th_head_key = None, th_metadata = JNull, th_created_at = 0, th_last_activity_at = 0\<rparr>]\<rparr>) s"
  shows "fst (delete_agent_remove (demo_c 0) ''x'' s') = Inl (LinkRepo IntegrityError) \<and>
    serving demo_x (fq_broker (snd (delete_agent_remove (demo_c 0) ''x'' s'))) = None \<and>
    get_agent (fq_store (snd (delete_agent_remove (demo_c 0) ''x'' s'))) demo_x \<noteq> None"
  unfolding s_def s'_def by (intro conjI; code_simp)

end
