(* ===== verification/Runtime_Inv.thy ===== *)
theory Runtime_Inv
  imports Runtime
begin

text \<open>
  What every state of the provider's runtime keeps, and the proofs that each step keeps it: tasks and
  the in-flight table name each other, a lane is busy or parked, lane runs stay within the declared
  concurrency, and a run waits in one place. \<open>X\<close> is the set of lanes that are between two runs, which a
  step leaves empty.
\<close>

section \<open>The invariant\<close>

abbreviation run_ids_of :: "lane \<Rightarrow> run_id list" where
  "run_ids_of l \<equiv> map dr_run_id (ln_queue l)"

definition tasks_ok :: "runtime \<Rightarrow> bool" where
  "tasks_ok st \<longleftrightarrow> distinct (dkeys (rt_tasks st)) \<and> distinct (dkeys (rt_in_flight st)) \<and>
     (\<forall>n tk. dget (rt_tasks st) n = Some tk \<longrightarrow>
        n < rt_next_task st \<and> dget (rt_in_flight st) (tk_run_id tk) = Some n) \<and>
     (\<forall>r n. dget (rt_in_flight st) r = Some n \<longrightarrow> (\<exists>tk. dget (rt_tasks st) n = Some tk \<and> tk_run_id tk = r))"

definition lane_task :: "runtime \<Rightarrow> string \<Rightarrow> run_id \<Rightarrow> bool" where
  "lane_task st k r \<longleftrightarrow> (\<exists>n tk. dget (rt_tasks st) n = Some tk \<and> tk_run_id tk = r \<and> tk_lane tk = Some k)"

definition lane_ok :: "string set \<Rightarrow> runtime \<Rightarrow> string \<Rightarrow> lane \<Rightarrow> bool" where
  "lane_ok X st k l \<longleftrightarrow>
     (if k \<in> X then ln_active l = None \<and> \<not> ln_parked l
      else case ln_active l of
             None \<Rightarrow> ln_parked l \<and> ln_queue l \<noteq> []
           | Some r \<Rightarrow> \<not> ln_parked l \<and> lane_task st k r)"

definition lanes_ok :: "string set \<Rightarrow> runtime \<Rightarrow> bool" where
  "lanes_ok X st \<longleftrightarrow> (\<forall>k l. dget (rt_lanes st) k = Some l \<longrightarrow> lane_ok X st k l) \<and>
     (\<forall>k r. lane_task st k r \<longrightarrow> (\<exists>l. dget (rt_lanes st) k = Some l \<and> ln_active l = Some r))"

definition parked_ok :: "runtime \<Rightarrow> bool" where
  "parked_ok st \<longleftrightarrow> distinct (rt_parked st) \<and>
     (\<forall>k. k \<in> set (rt_parked st) \<longleftrightarrow> (\<exists>l. dget (rt_lanes st) k = Some l \<and> ln_parked l))"

definition lane_tasks :: "runtime \<Rightarrow> nat" where
  "lane_tasks st = length (filter (\<lambda>(n, tk). tk_lane tk \<noteq> None) (rt_tasks st))"

definition slots_ok :: "runtime \<Rightarrow> bool" where
  "slots_ok st \<longleftrightarrow> (case rt_max_concurrent_runs st of
     None \<Rightarrow> True | Some m \<Rightarrow> lane_tasks st = 0 \<or> int (lane_tasks st) \<le> m)"

definition lane_ids :: "runtime \<Rightarrow> string \<Rightarrow> run_id list" where
  "lane_ids st k = (case dget (rt_lanes st) k of None \<Rightarrow> [] | Some l \<Rightarrow> run_ids_of l)"

definition waiting :: "runtime \<Rightarrow> run_id \<Rightarrow> bool" where
  "waiting st r \<longleftrightarrow> (\<exists>k. r \<in> set (lane_ids st k))"

definition waits_ok :: "runtime \<Rightarrow> bool" where
  "waits_ok st \<longleftrightarrow>
     (\<forall>r. waiting st r \<longleftrightarrow> dget (rt_queued st) r \<noteq> None \<or> r \<in> set (rt_dropped st)) \<and>
     (\<forall>r. r \<in> set (rt_dropped st) \<longrightarrow> dget (rt_queued st) r = None) \<and>
     (\<forall>k. distinct (lane_ids st k)) \<and>
     (\<forall>k k' r. r \<in> set (lane_ids st k) \<and> r \<in> set (lane_ids st k') \<longrightarrow> k = k') \<and>
     (\<forall>r. waiting st r \<longrightarrow> dget (rt_in_flight st) r = None)"

definition rinv :: "string set \<Rightarrow> runtime \<Rightarrow> bool" where
  "rinv X st \<longleftrightarrow> tasks_ok st \<and> lanes_ok X st \<and> parked_ok st \<and> slots_ok st \<and> waits_ok st"

lemma waits_okD:
  assumes "waits_ok st"
  shows "waiting st r \<longleftrightarrow> dget (rt_queued st) r \<noteq> None \<or> r \<in> set (rt_dropped st)"
    and "r \<in> set (rt_dropped st) \<Longrightarrow> dget (rt_queued st) r = None"
    and "distinct (lane_ids st k)"
    and "r \<in> set (lane_ids st k) \<Longrightarrow> r \<in> set (lane_ids st k') \<Longrightarrow> k = k'"
    and "waiting st r \<Longrightarrow> dget (rt_in_flight st) r = None"
  using assms unfolding waits_ok_def by blast+

lemma rinvD:
  assumes "rinv X st"
  shows "tasks_ok st" "lanes_ok X st" "parked_ok st" "slots_ok st" "waits_ok st"
  using assms by (simp_all add: rinv_def)

lemma tasks_ok_cong:
  "rt_tasks st' = rt_tasks st \<Longrightarrow> rt_in_flight st' = rt_in_flight st \<Longrightarrow> rt_next_task st' = rt_next_task st \<Longrightarrow>
   tasks_ok st' = tasks_ok st"
  by (simp add: tasks_ok_def)

lemma slots_ok_cong:
  "rt_tasks st' = rt_tasks st \<Longrightarrow> rt_max_concurrent_runs st' = rt_max_concurrent_runs st \<Longrightarrow>
   slots_ok st' = slots_ok st"
  by (simp add: slots_ok_def lane_tasks_def split: option.splits)

lemma lane_task_cong: "rt_tasks st' = rt_tasks st \<Longrightarrow> lane_task st' = lane_task st"
  by (simp add: lane_task_def fun_eq_iff)

text \<open>
  Steps change one lane at a time. \<open>other_lanes k\<close> says every other lane is as it was; the part of the
  invariant about lanes, about parking and about waiting then only has to be shown for lane \<open>k\<close>.
\<close>

definition other_lanes :: "string \<Rightarrow> runtime \<Rightarrow> runtime \<Rightarrow> bool" where
  "other_lanes k st st' \<longleftrightarrow> (\<forall>k'. k' \<noteq> k \<longrightarrow> dget (rt_lanes st') k' = dget (rt_lanes st) k')"

lemma other_lanesD: "other_lanes k st st' \<Longrightarrow> k' \<noteq> k \<Longrightarrow> dget (rt_lanes st') k' = dget (rt_lanes st) k'"
  by (simp add: other_lanes_def)

lemma lanes_ok_change:
  assumes ok: "lanes_ok X st" and others: "other_lanes k st st'"
    and tasks: "\<And>k'. k' \<noteq> k \<Longrightarrow> lane_task st' k' = lane_task st k'"
    and exempt: "\<And>k'. k' \<noteq> k \<Longrightarrow> k' \<in> X' \<longleftrightarrow> k' \<in> X"
    and lane: "\<And>l. dget (rt_lanes st') k = Some l \<Longrightarrow> lane_ok X' st' k l"
    and task: "\<And>r. lane_task st' k r \<Longrightarrow> \<exists>l. dget (rt_lanes st') k = Some l \<and> ln_active l = Some r"
  shows "lanes_ok X' st'"
  unfolding lanes_ok_def
proof (intro conjI allI impI)
  fix k' l assume l: "dget (rt_lanes st') k' = Some l"
  show "lane_ok X' st' k' l"
  proof (cases "k' = k")
    case False
    then have "lane_ok X st k' l"
      using ok l other_lanesD [OF others] by (simp add: lanes_ok_def)
    then show ?thesis using False tasks exempt by (simp add: lane_ok_def split: option.splits)
  qed (use l lane in simp)
next
  fix k' r assume r: "lane_task st' k' r"
  show "\<exists>l. dget (rt_lanes st') k' = Some l \<and> ln_active l = Some r"
  proof (cases "k' = k")
    case False
    then show ?thesis using ok r tasks other_lanesD [OF others] by (simp add: lanes_ok_def)
  qed (use r task in simp)
qed

lemma parked_ok_change:
  assumes ok: "parked_ok st" and others: "other_lanes k st st'" and dist: "distinct (rt_parked st')"
    and same: "\<And>k'. k' \<noteq> k \<Longrightarrow> k' \<in> set (rt_parked st') \<longleftrightarrow> k' \<in> set (rt_parked st)"
    and lane: "k \<in> set (rt_parked st') \<longleftrightarrow> (\<exists>l. dget (rt_lanes st') k = Some l \<and> ln_parked l)"
  shows "parked_ok st'"
  unfolding parked_ok_def
proof (intro conjI allI dist)
  fix k' show "k' \<in> set (rt_parked st') \<longleftrightarrow> (\<exists>l. dget (rt_lanes st') k' = Some l \<and> ln_parked l)"
  proof (cases "k' = k")
    case False
    then show ?thesis using ok same other_lanesD [OF others] by (simp add: parked_ok_def)
  qed (use lane in simp)
qed

definition elsewhere :: "runtime \<Rightarrow> string \<Rightarrow> run_id \<Rightarrow> bool" where
  "elsewhere st k r \<longleftrightarrow> (\<exists>k'. k' \<noteq> k \<and> r \<in> set (lane_ids st k'))"

lemma waiting_lane_ids: "waiting st r \<longleftrightarrow> r \<in> set (lane_ids st k) \<or> elsewhere st k r"
  unfolding waiting_def elsewhere_def by metis

lemma waits_ok_apart: "waits_ok st \<Longrightarrow> r \<in> set (lane_ids st k) \<Longrightarrow> \<not> elsewhere st k r"
  unfolding elsewhere_def using waits_okD(4) by blast

lemma other_lanes_ids: "other_lanes k st st' \<Longrightarrow> k' \<noteq> k \<Longrightarrow> lane_ids st' k' = lane_ids st k'"
  by (simp add: lane_ids_def other_lanesD)

lemma other_lanes_elsewhere: "other_lanes k st st' \<Longrightarrow> elsewhere st' k = elsewhere st k"
proof -
  assume others: "other_lanes k st st'"
  have "(k' \<noteq> k \<and> r \<in> set (lane_ids st' k')) = (k' \<noteq> k \<and> r \<in> set (lane_ids st k'))" for k' r
    using other_lanes_ids [OF others, of k'] by (cases "k' = k") simp_all
  then show ?thesis by (simp add: elsewhere_def fun_eq_iff)
qed

lemma waits_ok_same:
  assumes "waits_ok st" "lane_ids st' = lane_ids st" "rt_queued st' = rt_queued st"
    "rt_dropped st' = rt_dropped st" "rt_in_flight st' = rt_in_flight st"
  shows "waits_ok st'"
  using assms by (simp add: waits_ok_def waiting_def)

lemma waits_ok_change:
  assumes w: "waits_ok st" and others: "other_lanes k st st'"
    and dist: "distinct (lane_ids st' k)"
    and apart: "\<And>r. r \<in> set (lane_ids st' k) \<Longrightarrow> \<not> elsewhere st k r"
    and queued: "\<And>r. dget (rt_queued st') r \<noteq> None \<or> r \<in> set (rt_dropped st') \<longleftrightarrow>
      r \<in> set (lane_ids st' k) \<or> elsewhere st k r"
    and dropped: "\<And>r. r \<in> set (rt_dropped st') \<Longrightarrow> dget (rt_queued st') r = None"
    and flight: "\<And>r. r \<in> set (lane_ids st' k) \<or> elsewhere st k r \<Longrightarrow> dget (rt_in_flight st') r = None"
  shows "waits_ok st'"
  unfolding waits_ok_def
proof (intro conjI allI impI)
  have wait: "waiting st' r \<longleftrightarrow> r \<in> set (lane_ids st' k) \<or> elsewhere st k r" for r
    using waiting_lane_ids [of st' r k] other_lanes_elsewhere [OF others] by simp
  show "waiting st' r \<longleftrightarrow> dget (rt_queued st') r \<noteq> None \<or> r \<in> set (rt_dropped st')" for r
    by (simp only: wait queued)
  show "distinct (lane_ids st' k')" for k'
    using dist waits_okD(3) [OF w] other_lanes_ids [OF others] by (cases "k' = k") auto
  show "waiting st' r \<Longrightarrow> dget (rt_in_flight st') r = None" for r
    unfolding wait by (rule flight)
  fix k1 k2 r assume r: "r \<in> set (lane_ids st' k1) \<and> r \<in> set (lane_ids st' k2)"
  show "k1 = k2"
  proof (cases "k1 = k \<or> k2 = k")
    case True
    then show ?thesis using r apart [of r] other_lanes_elsewhere [OF others] unfolding elsewhere_def by metis
  next
    case False
    then show ?thesis using r waits_okD(4) [OF w, of r k1 k2] other_lanes_ids [OF others] by simp
  qed
qed (rule dropped)

text \<open>No lane waits while a slot is free.\<close>

definition slots_used :: "runtime \<Rightarrow> bool" where
  "slots_used st \<longleftrightarrow> rt_parked st = [] \<or> \<not> slot_free st"

section \<open>Dropping, parking, starting\<close>

lemma skip_dropped_shape:
  "distinct (map dr_run_id q) \<Longrightarrow> \<exists>sk q'. q = sk @ q' \<and> dr_run_id ` set sk \<subseteq> set (rt_dropped st) \<and>
     (q' \<noteq> [] \<longrightarrow> dr_run_id (hd q') \<notin> set (rt_dropped st)) \<and>
     skip_dropped q st = (q', st\<lparr>rt_queued := fold dpop (map dr_run_id sk) (rt_queued st),
       rt_dropped := filter (\<lambda>r. r \<notin> dr_run_id ` set sk) (rt_dropped st)\<rparr>)"
proof (induction q arbitrary: st)
  case Nil
  then show ?case by simp
next
  case (Cons run q)
  show ?case
  proof (cases "dr_run_id run \<in> set (rt_dropped st)")
    case False
    then show ?thesis by (intro exI [of _ "[]"] exI [of _ "run # q"]) simp
  next
    case True
    define st1 where "st1 = st\<lparr>rt_queued := dpop (dr_run_id run) (rt_queued st),
      rt_dropped := removeAll (dr_run_id run) (rt_dropped st)\<rparr>"
    from Cons.IH [of st1] Cons.prems obtain sk q' where ih: "q = sk @ q'"
      "dr_run_id ` set sk \<subseteq> set (rt_dropped st1)" "q' \<noteq> [] \<longrightarrow> dr_run_id (hd q') \<notin> set (rt_dropped st1)"
      "skip_dropped q st1 = (q', st1\<lparr>rt_queued := fold dpop (map dr_run_id sk) (rt_queued st1),
       rt_dropped := filter (\<lambda>r. r \<notin> dr_run_id ` set sk) (rt_dropped st1)\<rparr>)" by auto
    have "q' \<noteq> [] \<Longrightarrow> dr_run_id (hd q') \<noteq> dr_run_id run"
      using Cons.prems ih(1) by (cases q') auto
    with ih(3) have hd: "q' \<noteq> [] \<longrightarrow> dr_run_id (hd q') \<notin> set (rt_dropped st)" by (simp add: st1_def)
    have "filter (\<lambda>r. r \<notin> dr_run_id ` set sk) (removeAll (dr_run_id run) xs) =
        filter (\<lambda>r. r \<notin> dr_run_id ` set (run # sk)) xs" for xs
      by (induction xs) auto
    then have "skip_dropped (run # q) st = (q', st\<lparr>rt_queued := fold dpop (map dr_run_id (run # sk)) (rt_queued st),
       rt_dropped := filter (\<lambda>r. r \<notin> dr_run_id ` set (run # sk)) (rt_dropped st)\<rparr>)"
      using True ih(4) by (simp add: st1_def)
    moreover have "dr_run_id ` set (run # sk) \<subseteq> set (rt_dropped st)"
      using ih(2) True by (simp add: st1_def subset_iff)
    moreover have "run # q = (run # sk) @ q'" using ih(1) by simp
    ultimately show ?thesis using hd by blast
  qed
qed

text \<open>The state \<open>lane_next\<close> works on once the cancelled head of the queue is gone.\<close>

definition skipped :: "string \<Rightarrow> lane \<Rightarrow> delivered_run list \<Rightarrow> delivered_run list \<Rightarrow> runtime \<Rightarrow> runtime" where
  "skipped k l sk q st =
     st\<lparr>rt_queued := fold dpop (map dr_run_id sk) (rt_queued st),
        rt_dropped := filter (\<lambda>r. r \<notin> dr_run_id ` set sk) (rt_dropped st),
        rt_lanes := dput k (l\<lparr>ln_queue := q\<rparr>) (rt_lanes st)\<rparr>"

lemma lanes_ok_cong:
  "rt_lanes st' = rt_lanes st \<Longrightarrow> lane_task st' = lane_task st \<Longrightarrow> lanes_ok X st' = lanes_ok X st"
proof -
  assume eq: "rt_lanes st' = rt_lanes st" "lane_task st' = lane_task st"
  then have "lane_ok X st' k l = lane_ok X st k l" for k l by (simp add: lane_ok_def split: option.splits)
  with eq show ?thesis by (simp add: lanes_ok_def)
qed

lemma lane_task_lane:
  "lanes_ok X st \<Longrightarrow> lane_task st k r \<Longrightarrow> \<exists>l. dget (rt_lanes st) k = Some l \<and> ln_active l = Some r"
  by (simp add: lanes_ok_def)

lemma idle_lane:
  assumes "rinv X st" "k \<in> X" "dget (rt_lanes st) k = Some l"
  shows "ln_active l = None" "\<not> ln_parked l" "k \<notin> set (rt_parked st)" "\<not> lane_task st k r"
proof -
  show a: "ln_active l = None" and "\<not> ln_parked l"
    using rinvD(2) [OF assms(1)] assms(2,3) by (auto simp: lanes_ok_def lane_ok_def)
  then show "k \<notin> set (rt_parked st)" using rinvD(3) [OF assms(1)] assms(3) by (simp add: parked_ok_def)
  show "\<not> lane_task st k r"
  proof
    assume "lane_task st k r"
    from lane_task_lane [OF rinvD(2) [OF assms(1)] this]
    obtain m where "dget (rt_lanes st) k = Some m" "ln_active m = Some r" by blast
    with assms(3) a show False by simp
  qed
qed

lemma skipped_rinv:
  assumes inv: "rinv {k} st" and l: "dget (rt_lanes st) k = Some l" and q: "ln_queue l = sk @ q"
    and sk: "dr_run_id ` set sk \<subseteq> set (rt_dropped st)"
  shows "rinv {k} (skipped k l sk q st)"
proof -
  let ?st = "skipped k l sk q st"
  note idle = idle_lane [OF inv _ l, simplified]
  note w = rinvD(5) [OF inv]
  have others: "other_lanes k st ?st" by (simp add: other_lanes_def skipped_def)
  have ids: "lane_ids ?st k = map dr_run_id q" "lane_ids st k = map dr_run_id sk @ map dr_run_id q"
    using l q by (simp_all add: lane_ids_def skipped_def)
  have dist: "distinct (map dr_run_id sk @ map dr_run_id q)" using waits_okD(3) [OF w, of k] by (simp add: ids)
  have queued: "dget (rt_queued ?st) r = (if r \<in> dr_run_id ` set sk then None else dget (rt_queued st) r)" for r
    unfolding skipped_def by (simp add: alist_dict.pop_all_get)
  have "waits_ok ?st"
  proof (rule waits_ok_change [OF w others])
    fix r
    note at = waits_okD(1) [OF w, of r] waits_okD(2) [OF w, of r] waiting_lane_ids [of st r k] waits_ok_apart [OF w, of r k]
    show "dget (rt_queued ?st) r \<noteq> None \<or> r \<in> set (rt_dropped ?st) \<longleftrightarrow> r \<in> set (lane_ids ?st k) \<or> elsewhere st k r"
      using at dist sk unfolding queued ids by (auto simp: skipped_def)
    show "r \<in> set (rt_dropped ?st) \<Longrightarrow> dget (rt_queued ?st) r = None"
      using at(2) queued by (simp add: skipped_def)
    show "r \<in> set (lane_ids ?st k) \<Longrightarrow> \<not> elsewhere st k r" using at(4) by (simp add: ids)
    show "r \<in> set (lane_ids ?st k) \<or> elsewhere st k r \<Longrightarrow> dget (rt_in_flight ?st) r = None"
      using at(3) waits_okD(5) [OF w, of r] unfolding ids by (auto simp: skipped_def)
  qed (use dist in \<open>simp add: ids\<close>)
  moreover have "tasks_ok ?st" "slots_ok ?st"
    using rinvD(1,4) [OF inv] tasks_ok_cong [of ?st st] slots_ok_cong [of ?st st] by (simp_all add: skipped_def)
  moreover have "parked_ok ?st"
    using rinvD(3) [OF inv] idle by (intro parked_ok_change [OF _ others]) (auto simp: skipped_def parked_ok_def)
  moreover have "lanes_ok {k} ?st"
    using idle lane_task_cong [of ?st st]
    by (intro lanes_ok_change [OF rinvD(2) [OF inv] others]) (auto simp: skipped_def lane_ok_def)
  ultimately show ?thesis by (simp add: rinv_def)
qed

lemma retire_rinv:
  assumes inv: "rinv {k} st" and l: "dget (rt_lanes st) k = Some l" "ln_queue l = []"
    and st': "st' = st\<lparr>rt_lanes := lanes\<rparr>" and lanes: "\<And>k'. dget lanes k' = (if k' = k then None else dget (rt_lanes st) k')"
  shows "rinv {} st'"
proof -
  note idle = idle_lane [OF inv _ l(1), simplified]
  note w = rinvD(5) [OF inv]
  have others: "other_lanes k st st'" by (simp add: other_lanes_def st' lanes)
  have "lane_ids st' k' = lane_ids st k'" for k' using l by (simp add: lane_ids_def st' lanes)
  then have "waits_ok st'" by (intro waits_ok_same [OF w]) (simp_all add: fun_eq_iff st')
  moreover have "tasks_ok st'" "slots_ok st'"
    using rinvD(1,4) [OF inv] tasks_ok_cong [of st' st] slots_ok_cong [of st' st] by (simp_all add: st')
  moreover have "parked_ok st'"
    using rinvD(3) [OF inv] idle by (intro parked_ok_change [OF _ others]) (auto simp: st' lanes parked_ok_def)
  moreover have "lanes_ok {} st'"
    using idle lane_task_cong [of st' st]
    by (intro lanes_ok_change [OF rinvD(2) [OF inv] others]) (auto simp: st' lanes)
  ultimately show ?thesis by (simp add: rinv_def)
qed

lemma park_rinv:
  assumes inv: "rinv {k} st" and l: "dget (rt_lanes st) k = Some l" "ln_queue l \<noteq> []"
    and st': "st' = st\<lparr>rt_lanes := lanes, rt_parked := rt_parked st @ [k]\<rparr>"
    and lanes: "\<And>k'. dget lanes k' = (if k' = k then Some (l\<lparr>ln_parked := True\<rparr>) else dget (rt_lanes st) k')"
  shows "rinv {} st'"
proof -
  note idle = idle_lane [OF inv _ l(1), simplified]
  note w = rinvD(5) [OF inv]
  have others: "other_lanes k st st'" by (simp add: other_lanes_def st' lanes)
  have "lane_ids st' k' = lane_ids st k'" for k' using l by (simp add: lane_ids_def st' lanes)
  then have "waits_ok st'" by (intro waits_ok_same [OF w]) (simp_all add: fun_eq_iff st')
  moreover have "tasks_ok st'" "slots_ok st'"
    using rinvD(1,4) [OF inv] tasks_ok_cong [of st' st] slots_ok_cong [of st' st] by (simp_all add: st')
  moreover have "parked_ok st'"
    using rinvD(3) [OF inv] idle by (intro parked_ok_change [OF _ others]) (auto simp: st' lanes parked_ok_def)
  moreover have "lanes_ok {} st'"
    using idle lane_task_cong [of st' st] l(2)
    by (intro lanes_ok_change [OF rinvD(2) [OF inv] others]) (auto simp: st' lanes lane_ok_def)
  ultimately show ?thesis by (simp add: rinv_def)
qed


lemma start_run_fields [simp]:
  "rt_lanes (start_run run lk st) = rt_lanes st" "rt_queued (start_run run lk st) = rt_queued st"
  "rt_parked (start_run run lk st) = rt_parked st" "rt_dropped (start_run run lk st) = rt_dropped st"
  "rt_output (start_run run lk st) = rt_output st" "rt_running (start_run run lk st) = rt_running st"
  "rt_max_concurrent_runs (start_run run lk st) = rt_max_concurrent_runs st"
  "rt_max_queued_runs (start_run run lk st) = rt_max_queued_runs st"
  "dget (rt_in_flight (start_run run lk st)) r =
     (if r = dr_run_id run then Some (rt_next_task st) else dget (rt_in_flight st) r)"
  by (simp_all add: start_run_def)

lemma start_run_tasks_ok:
  assumes ok: "tasks_ok st" and new: "dget (rt_in_flight st) (dr_run_id run) = None"
  shows "tasks_ok (start_run run lk st)"
proof -
  have fresh: "dget (rt_tasks st) (rt_next_task st) = None"
    using ok unfolding tasks_ok_def by (metis less_irrefl not_None_eq)
  have keep: "tk_run_id tk \<noteq> dr_run_id run" if "dget (rt_tasks st) n = Some tk" for n tk
    using ok that new unfolding tasks_ok_def by (metis option.distinct(1))
  have in_keep: "n \<noteq> rt_next_task st" if "dget (rt_in_flight st) r = Some n" for r n
    using ok that fresh unfolding tasks_ok_def by (metis option.distinct(1))
  have "distinct (dkeys (rt_tasks (start_run run lk st)))" "distinct (dkeys (rt_in_flight (start_run run lk st)))"
    using ok by (simp_all add: start_run_def tasks_ok_def distinct_keys_dput)
  then show ?thesis
    using ok keep in_keep unfolding tasks_ok_def by (auto simp: start_run_def less_SucI split: if_splits)
qed

lemma start_run_lane_task:
  assumes "tasks_ok st"
  shows "lane_task (start_run run lk st) k r \<longleftrightarrow> lane_task st k r \<or> lk = Some k \<and> r = dr_run_id run"
proof -
  have "dget (rt_tasks st) (rt_next_task st) = None"
    using assms unfolding tasks_ok_def by (metis less_irrefl not_None_eq)
  note fresh = this
  let ?tk = "\<lparr>tk_run_id = dr_run_id run, tk_lane = lk, tk_phase = Spawned, tk_cancelled = False\<rparr>"
  have get: "dget (rt_tasks (start_run run lk st)) n = (if n = rt_next_task st then Some ?tk else dget (rt_tasks st) n)" for n
    by (simp add: start_run_def)
  show ?thesis
  proof
    assume "lane_task (start_run run lk st) k r"
    then show "lane_task st k r \<or> lk = Some k \<and> r = dr_run_id run"
      unfolding lane_task_def get by (auto split: if_splits)
  next
    assume "lane_task st k r \<or> lk = Some k \<and> r = dr_run_id run"
    then show "lane_task (start_run run lk st) k r"
    proof
      assume "lane_task st k r"
      then obtain n tk where "dget (rt_tasks st) n = Some tk" "tk_run_id tk = r" "tk_lane tk = Some k"
        by (auto simp: lane_task_def)
      moreover from this fresh have "n \<noteq> rt_next_task st" by auto
      ultimately show ?thesis unfolding lane_task_def get by (intro exI [of _ n] exI [of _ tk]) simp
    next
      assume "lk = Some k \<and> r = dr_run_id run"
      then show ?thesis unfolding lane_task_def get by (intro exI [of _ "rt_next_task st"] exI [of _ ?tk]) simp
    qed
  qed
qed

lemma start_run_lane_tasks:
  assumes "tasks_ok st"
  shows "lane_tasks (start_run run lk st) = lane_tasks st + (if lk = None then 0 else 1)"
proof -
  have "dget (rt_tasks st) (rt_next_task st) = None"
    using assms unfolding tasks_ok_def by (metis less_irrefl not_None_eq)
  then show ?thesis by (simp add: lane_tasks_def start_run_def dput_new)
qed

text \<open>As many tasks as runs in flight, so lane runs are at most those.\<close>

lemma tasks_in_flight_length:
  assumes "tasks_ok st"
  shows "length (rt_tasks st) = length (rt_in_flight st)"
proof -
  define f where "f = (\<lambda>n. tk_run_id (the (dget (rt_tasks st) n)))"
  have "bij_betw f (set (dkeys (rt_tasks st))) (set (dkeys (rt_in_flight st)))"
    unfolding bij_betw_def
  proof
    show "inj_on f (set (dkeys (rt_tasks st)))"
    proof (rule inj_onI)
      fix m n assume mn: "m \<in> set (dkeys (rt_tasks st))" "n \<in> set (dkeys (rt_tasks st))" "f m = f n"
      then obtain a b where "dget (rt_tasks st) m = Some a" "dget (rt_tasks st) n = Some b"
        by (metis dget_None_keys not_None_eq)
      with mn assms show "m = n" unfolding tasks_ok_def f_def by (metis option.inject option.sel)
    qed
    show "f ` set (dkeys (rt_tasks st)) = set (dkeys (rt_in_flight st))"
    proof (rule set_eqI)
      fix r
      have keys: "n \<in> set (dkeys (rt_tasks st)) \<longleftrightarrow> (\<exists>tk. dget (rt_tasks st) n = Some tk)" for n
        using dget_None_keys [of "rt_tasks st" n] by (cases "dget (rt_tasks st) n") simp_all
      have "r \<in> f ` set (dkeys (rt_tasks st)) \<longleftrightarrow> (\<exists>n tk. dget (rt_tasks st) n = Some tk \<and> tk_run_id tk = r)"
        unfolding image_iff Bex_def keys f_def by fastforce
      also have "\<dots> \<longleftrightarrow> dget (rt_in_flight st) r \<noteq> None"
        using assms unfolding tasks_ok_def by (metis not_None_eq)
      also have "\<dots> \<longleftrightarrow> r \<in> set (dkeys (rt_in_flight st))" by (simp only: dget_None_keys not_not)
      finally show "r \<in> f ` set (dkeys (rt_tasks st)) \<longleftrightarrow> r \<in> set (dkeys (rt_in_flight st))" .
    qed
  qed
  then have "card (set (dkeys (rt_tasks st))) = card (set (dkeys (rt_in_flight st)))" by (rule bij_betw_same_card)
  then show ?thesis using assms unfolding tasks_ok_def by (metis distinct_card length_map)
qed

lemma lane_tasks_le: "tasks_ok st \<Longrightarrow> lane_tasks st \<le> length (rt_in_flight st)"
  unfolding lane_tasks_def using tasks_in_flight_length [of st] by (metis length_filter_le)


text \<open>Lane \<open>k\<close>, between two runs, starts its next one in a free slot.\<close>

lemma start_rinv:
  assumes inv: "rinv {k} st" and l: "dget (rt_lanes st) k = Some l" "ln_queue l = run # q"
    and live: "dr_run_id run \<notin> set (rt_dropped st)" and free: "slot_free st"
    and st1: "st1 = st\<lparr>rt_queued := dpop (dr_run_id run) (rt_queued st), rt_lanes := lanes\<rparr>"
    and lanes: "\<And>k'. dget lanes k' = (if k' = k then Some (l\<lparr>ln_queue := q, ln_active := Some (dr_run_id run)\<rparr>)
      else dget (rt_lanes st) k')"
  shows "rinv {} (start_run run (Some k) st1)"
proof -
  let ?st = "start_run run (Some k) st1"
  note idle = idle_lane [OF inv _ l(1), simplified]
  note w = rinvD(5) [OF inv]
  have ids: "lane_ids st k = dr_run_id run # map dr_run_id q" "lane_ids ?st k = map dr_run_id q"
    using l by (simp_all add: lane_ids_def st1 lanes)
  have dist: "dr_run_id run \<notin> set (map dr_run_id q)" "distinct (map dr_run_id q)"
    using waits_okD(3) [OF w, of k] by (simp_all add: ids)
  have "waiting st (dr_run_id run)" unfolding waiting_lane_ids [of st _ k] by (simp add: ids)
  then have new: "dget (rt_in_flight st) (dr_run_id run) = None" by (rule waits_okD(5) [OF w])
  have alone: "\<not> elsewhere st k (dr_run_id run)" by (rule waits_ok_apart [OF w]) (simp add: ids)
  have ok1: "tasks_ok st1" using rinvD(1) [OF inv] tasks_ok_cong [of st1 st] by (simp add: st1)
  have others: "other_lanes k st ?st" by (simp add: other_lanes_def st1 lanes)
  have flight: "dget (rt_in_flight ?st) r = (if r = dr_run_id run then Some (rt_next_task st) else dget (rt_in_flight st) r)" for r
    by (simp add: st1)
  have "waits_ok ?st"
  proof (rule waits_ok_change [OF w others])
    fix r
    note at = waits_okD(1) [OF w, of r] waits_okD(2) [OF w, of r] waiting_lane_ids [of st r k] waits_ok_apart [OF w, of r k]
    show "dget (rt_queued ?st) r \<noteq> None \<or> r \<in> set (rt_dropped ?st) \<longleftrightarrow> r \<in> set (lane_ids ?st k) \<or> elsewhere st k r"
      using at dist alone live unfolding ids by (auto simp: st1)
    show "r \<in> set (rt_dropped ?st) \<Longrightarrow> dget (rt_queued ?st) r = None" using at(2) by (simp add: st1)
    show "r \<in> set (lane_ids ?st k) \<Longrightarrow> \<not> elsewhere st k r" using at(4) by (simp add: ids)
    show "r \<in> set (lane_ids ?st k) \<or> elsewhere st k r \<Longrightarrow> dget (rt_in_flight ?st) r = None"
      using at(3) waits_okD(5) [OF w, of r] alone dist unfolding ids flight by auto
  qed (use dist in \<open>simp add: ids\<close>)
  moreover have "tasks_ok ?st" using new by (intro start_run_tasks_ok [OF ok1]) (simp add: st1)
  moreover have "slots_ok ?st"
  proof -
    have "lane_tasks st1 \<le> length (rt_in_flight st)" using lane_tasks_le [OF ok1] by (simp add: st1)
    moreover have "rt_max_concurrent_runs st1 = rt_max_concurrent_runs st" by (simp add: st1)
    ultimately show ?thesis using free
      by (simp add: slots_ok_def start_run_lane_tasks [OF ok1] slot_free_def split: option.splits)
  qed
  moreover have "parked_ok ?st"
    using rinvD(3) [OF inv] idle
    by (intro parked_ok_change [OF _ others]) (auto simp: st1 lanes parked_ok_def)
  moreover have "lanes_ok {} ?st"
  proof (rule lanes_ok_change [OF rinvD(2) [OF inv] others])
    have t1: "lane_task st1 = lane_task st" by (rule lane_task_cong) (simp add: st1)
    show "lane_task ?st k' = lane_task st k'" if "k' \<noteq> k" for k'
      using that t1 by (simp add: fun_eq_iff start_run_lane_task [OF ok1])
    have at: "lane_task ?st k r \<longleftrightarrow> r = dr_run_id run" for r
      using t1 idle(4) by (simp add: start_run_lane_task [OF ok1])
    have lane: "dget (rt_lanes ?st) k = Some (l\<lparr>ln_queue := q, ln_active := Some (dr_run_id run)\<rparr>)"
      by (simp add: st1 lanes)
    show "lane_ok {} ?st k m" if "dget (rt_lanes ?st) k = Some m" for m
    proof -
      have m: "m = l\<lparr>ln_queue := q, ln_active := Some (dr_run_id run)\<rparr>" using that lane by simp
      show ?thesis using idle(2) by (simp add: m lane_ok_def at)
    qed
    show "\<exists>m. dget (rt_lanes ?st) k = Some m \<and> ln_active m = Some r" if "lane_task ?st k r" for r
      using that lane by (simp add: at del: start_run_fields)
  qed simp
  ultimately show ?thesis by (simp add: rinv_def)
qed

lemma lane_next_rinv:
  assumes inv: "rinv {k} st"
  shows "rinv {} (lane_next k st)"
proof (cases "dget (rt_lanes st) k")
  case None
  then have "lanes_ok {} st"
    using lane_task_lane [OF rinvD(2) [OF inv], of k]
    by (intro lanes_ok_change [OF rinvD(2) [OF inv], of k]) (auto simp: other_lanes_def)
  then show ?thesis using inv None by (simp add: lane_next_def rinv_def)
next
  case (Some l)
  have "distinct (map dr_run_id (ln_queue l))"
    using waits_okD(3) [OF rinvD(5) [OF inv], of k] Some by (simp add: lane_ids_def)
  from skip_dropped_shape [OF this, of st] obtain sk q where q: "ln_queue l = sk @ q"
    "dr_run_id ` set sk \<subseteq> set (rt_dropped st)" "q \<noteq> [] \<longrightarrow> dr_run_id (hd q) \<notin> set (rt_dropped st)"
    "skip_dropped (ln_queue l) st = (q, st\<lparr>rt_queued := fold dpop (map dr_run_id sk) (rt_queued st),
       rt_dropped := filter (\<lambda>r. r \<notin> dr_run_id ` set sk) (rt_dropped st)\<rparr>)" by blast
  let ?st = "skipped k l sk q st"
  have inv1: "rinv {k} ?st" by (rule skipped_rinv [OF inv Some q(1,2)])
  have l1: "dget (rt_lanes ?st) k = Some (l\<lparr>ln_queue := q\<rparr>)" by (simp add: skipped_def)
  have unparked: "\<not> ln_parked l" using idle_lane(2) [OF inv _ Some] by simp
  have free: "slot_free ?st = slot_free st" by (rule slot_free_cong) (simp_all add: skipped_def)
  have free1: "slot_free (st\<lparr>rt_queued := a, rt_dropped := b\<rparr>) = slot_free st" for a b
    by (rule slot_free_cong) simp_all
  show ?thesis
  proof (cases q)
    case Nil
    have eq: "lane_next k st = ?st\<lparr>rt_lanes := dpop k (rt_lanes st)\<rparr>"
      using Some q(4) Nil by (simp add: lane_next_def skipped_def)
    show ?thesis by (rule retire_rinv [OF inv1 l1 _ eq]) (simp_all add: Nil skipped_def)
  next
    case (Cons run q')
    show ?thesis
    proof (cases "slot_free st")
      case True
      have eq: "lane_next k st = start_run run (Some k) (?st\<lparr>rt_queued := dpop (dr_run_id run) (rt_queued ?st),
          rt_lanes := dput k (l\<lparr>ln_queue := q', ln_active := Some (dr_run_id run)\<rparr>) (rt_lanes st)\<rparr>)"
        using Some q(4) Cons True by (simp add: lane_next_def skipped_def free1)
      have "dr_run_id run \<notin> set (rt_dropped ?st)" using q(3) Cons by (simp add: skipped_def)
      then show ?thesis unfolding eq using True free
        by (intro start_rinv [where q = q', OF inv1 l1 _ _ _ refl]) (simp_all add: Cons skipped_def)
    next
      case False
      have eq: "lane_next k st = ?st\<lparr>rt_lanes := dput k (l\<lparr>ln_queue := q, ln_parked := True\<rparr>) (rt_lanes st),
          rt_parked := rt_parked ?st @ [k]\<rparr>"
        using Some q(4) Cons False unparked by (simp add: lane_next_def skipped_def free1)
      show ?thesis by (rule park_rinv [OF inv1 l1 _ eq]) (simp_all add: Cons skipped_def)
    qed
  qed
qed


section \<open>Every step keeps it\<close>

lemma unpark_between:
  assumes inv: "rinv {} (st\<lparr>rt_parked := k # ps\<rparr>)"
  obtains l where "dget (rt_lanes st) k = Some l"
    "rinv {k} (st\<lparr>rt_parked := ps, rt_lanes := dput k (l\<lparr>ln_parked := False\<rparr>) (rt_lanes st)\<rparr>)"
proof -
  let ?old = "st\<lparr>rt_parked := k # ps\<rparr>"
  from rinvD(3) [OF inv] obtain l where l: "dget (rt_lanes st) k = Some l" "ln_parked l"
    and dist: "distinct ps" "k \<notin> set ps" by (auto simp: parked_ok_def)
  have "lane_ok {} ?old k l" using rinvD(2) [OF inv] l by (simp add: lanes_ok_def)
  with l have act: "ln_active l = None" by (simp add: lane_ok_def split: option.splits)
  let ?st = "st\<lparr>rt_parked := ps, rt_lanes := dput k (l\<lparr>ln_parked := False\<rparr>) (rt_lanes st)\<rparr>"
  have others: "other_lanes k ?old ?st" by (simp add: other_lanes_def)
  have "rinv {k} ?st"
    unfolding rinv_def
  proof (intro conjI)
    show "tasks_ok ?st" by (rule tasks_ok_cong [THEN iffD2, OF _ _ _ rinvD(1) [OF inv]]) simp_all
    show "slots_ok ?st" by (rule slots_ok_cong [THEN iffD2, OF _ _ rinvD(4) [OF inv]]) simp_all
    show "parked_ok ?st"
      using dist by (intro parked_ok_change [OF rinvD(3) [OF inv] others]) simp_all
    have ids: "lane_ids ?st k' = lane_ids ?old k'" for k' using l by (simp add: lane_ids_def)
    show "waits_ok ?st" by (rule waits_ok_same [OF rinvD(5) [OF inv]]) (simp_all add: fun_eq_iff ids)
    have t: "lane_task ?st = lane_task ?old" by (rule lane_task_cong) simp
    show "lanes_ok {k} ?st"
      using lane_task_lane [OF rinvD(2) [OF inv], of k] act l
      by (intro lanes_ok_change [OF rinvD(2) [OF inv] others]) (auto simp: t lane_ok_def)
  qed
  with l(1) show ?thesis by (rule that)
qed

lemma unpark_rinv:
  assumes "rinv {} (st\<lparr>rt_parked := k # ps\<rparr>)"
  shows "rinv {} (unpark k (st\<lparr>rt_parked := ps\<rparr>))"
  by (rule unpark_between [OF assms]) (simp add: unpark_def lane_next_rinv)

lemma kick_parked_rinv:
  "rinv {} st \<Longrightarrow> rinv {} (kick_parked st) \<and> slots_used (kick_parked st)"
proof (induction st rule: kick_parked.induct)
  case (1 st)
  show ?case
  proof (cases "rt_parked st \<noteq> [] \<and> slot_free st")
    case True
    then obtain k ps where ps: "rt_parked st = k # ps" by (cases "rt_parked st") auto
    then have "st\<lparr>rt_parked := k # ps\<rparr> = st" by (intro runtime.equality) simp_all
    then have "rinv {} (st\<lparr>rt_parked := k # ps\<rparr>)" using "1.prems" by simp
    from unpark_rinv [OF this] "1.IH" [OF True] show ?thesis
      using True ps by (subst (1 2) kick_parked.simps) simp
  next
    case False
    then show ?thesis using "1.prems" by (subst (1 2) kick_parked.simps) (auto simp: slots_used_def)
  qed
qed

text \<open>Every id the runtime has somewhere; a run it has never accepted has a fresh one.\<close>

definition known :: "runtime \<Rightarrow> run_id \<Rightarrow> bool" where
  "known st r \<longleftrightarrow> waiting st r \<or> dget (rt_in_flight st) r \<noteq> None"

lemma enqueue_lane_rinv:
  assumes inv: "rinv X st" and X: "X \<subseteq> {k}" and new: "\<not> known st (dr_run_id run)"
    and st': "st' = st\<lparr>rt_lanes := lanes, rt_queued := dput (dr_run_id run) k (rt_queued st)\<rparr>"
    and lanes: "\<And>k'. dget lanes k' = (if k' = k then Some l' else dget (rt_lanes st) k')"
    and ids: "run_ids_of l' = lane_ids st k @ [dr_run_id run]"
    and ok: "lane_ok X' st' k l'" and X': "X' \<subseteq> {k}"
    and park: "ln_parked l' \<longleftrightarrow> k \<in> set (rt_parked st)"
    and act: "\<And>r. lane_task st k r \<Longrightarrow> ln_active l' = Some r"
  shows "rinv X' st'"
  unfolding rinv_def
proof (intro conjI)
  note w = rinvD(5) [OF inv]
  have others: "other_lanes k st st'" by (simp add: other_lanes_def st' lanes)
  have lane: "dget (rt_lanes st') k = Some l'" by (simp add: st' lanes)
  then have ids': "lane_ids st' k = lane_ids st k @ [dr_run_id run]" using ids by (simp add: lane_ids_def [of st'])
  have not: "\<not> waiting st (dr_run_id run)" "dget (rt_in_flight st) (dr_run_id run) = None"
    using new by (auto simp: known_def)
  have not': "dr_run_id run \<notin> set (lane_ids st k)" "\<not> elsewhere st k (dr_run_id run)"
    using not(1) unfolding waiting_lane_ids [of st _ k] by auto
  show "tasks_ok st'" "slots_ok st'"
    using rinvD(1,4) [OF inv] tasks_ok_cong [of st' st] slots_ok_cong [of st' st] by (simp_all add: st')
  show "parked_ok st'"
    using rinvD(3) [OF inv] park
    by (intro parked_ok_change [OF _ others]) (auto simp: st' lanes parked_ok_def)
  have t: "lane_task st' = lane_task st" by (rule lane_task_cong) (simp add: st')
  show "lanes_ok X' st'"
  proof (rule lanes_ok_change [OF rinvD(2) [OF inv] others])
    show "k' \<noteq> k \<Longrightarrow> k' \<in> X' \<longleftrightarrow> k' \<in> X" for k' using X X' by auto
    show "dget (rt_lanes st') k = Some m \<Longrightarrow> lane_ok X' st' k m" for m using lane ok by simp
    show "lane_task st' k r \<Longrightarrow> \<exists>m. dget (rt_lanes st') k = Some m \<and> ln_active m = Some r" for r
      using lane act by (simp add: t)
  qed (simp add: t)
  show "waits_ok st'"
  proof (rule waits_ok_change [OF w others])
    fix r
    note at = waits_okD(1) [OF w, of r] waits_okD(2) [OF w, of r] waiting_lane_ids [of st r k] waits_ok_apart [OF w, of r k]
    show "dget (rt_queued st') r \<noteq> None \<or> r \<in> set (rt_dropped st') \<longleftrightarrow> r \<in> set (lane_ids st' k) \<or> elsewhere st k r"
      using at unfolding ids' by (auto simp: st')
    show "r \<in> set (rt_dropped st') \<Longrightarrow> dget (rt_queued st') r = None"
      using at(1,2) not(1) by (auto simp: st')
    show "r \<in> set (lane_ids st' k) \<Longrightarrow> \<not> elsewhere st k r" using at(4) not'(2) unfolding ids' by auto
    show "r \<in> set (lane_ids st' k) \<or> elsewhere st k r \<Longrightarrow> dget (rt_in_flight st') r = None"
      using at(3) waits_okD(5) [OF w, of r] not(2) unfolding ids' by (auto simp: st')
    show "distinct (lane_ids st' k)" using waits_okD(3) [OF w, of k] not'(1) unfolding ids' by simp
  qed
qed


definition rt_ok :: "runtime \<Rightarrow> bool" where
  "rt_ok st \<longleftrightarrow> rinv {} st \<and> slots_used st"

text \<open>Starting an interjection adds a task and no lane changes; it can only take a slot.\<close>

lemma start_interjection_ok:
  assumes ok: "rt_ok st" and new: "\<not> known st (dr_run_id run)"
  shows "rt_ok (start_run run None st)"
proof -
  let ?st = "start_run run None st"
  have inv: "rinv {} st" and used: "slots_used st" using ok by (simp_all add: rt_ok_def)
  have not: "\<not> waiting st (dr_run_id run)" "dget (rt_in_flight st) (dr_run_id run) = None"
    using new by (auto simp: known_def)
  note t = rinvD(1) [OF inv]
  have lt: "lane_task ?st = lane_task st" by (simp add: fun_eq_iff start_run_lane_task [OF t])
  have ids: "lane_ids ?st = lane_ids st" by (simp add: fun_eq_iff lane_ids_def)
  have "rinv {} ?st"
    unfolding rinv_def
  proof (intro conjI)
    show "tasks_ok ?st" by (rule start_run_tasks_ok [OF t not(2)])
    show "lanes_ok {} ?st" by (rule lanes_ok_cong [THEN iffD2, OF _ lt rinvD(2) [OF inv]]) simp
    show "parked_ok ?st" using rinvD(3) [OF inv] by (simp add: parked_ok_def)
    show "slots_ok ?st" using rinvD(4) [OF inv] by (simp add: slots_ok_def start_run_lane_tasks [OF t] split: option.splits)
    show "waits_ok ?st"
      using rinvD(5) [OF inv] not(1) unfolding waits_ok_def waiting_def ids by auto
  qed
  moreover have "slot_free ?st \<Longrightarrow> slot_free st"
    using not(2) by (auto simp: slot_free_def start_run_def dput_new split: option.splits)
  ultimately show ?thesis using used by (auto simp: rt_ok_def slots_used_def)
qed

lemma lane_next_slots_used: "slots_used st \<Longrightarrow> slots_used (lane_next k st)"
proof -
  assume used: "slots_used st"
  have "slot_free (lane_next k st) \<Longrightarrow> slot_free st"
  proof (cases "dget (rt_lanes st) k")
    case None
    then show "slot_free (lane_next k st) \<Longrightarrow> slot_free st" by (simp add: lane_next_def)
  next
    case (Some l)
    obtain q st' where sk: "skip_dropped (ln_queue l) st = (q, st')" by fastforce
    note keep = skip_dropped_keeps [OF sk]
    have "slot_free st' = slot_free st" using keep by (intro slot_free_cong) auto
    then show "slot_free (lane_next k st) \<Longrightarrow> slot_free st"
      using Some sk keep by (cases q) (auto simp: lane_next_def slot_free_def split: option.splits if_splits)
  qed
  then show ?thesis using used lane_next_parked [of k st] by (auto simp: slots_used_def)
qed

lemma deliver_fresh_between:
  assumes ok: "rt_ok st" and new: "\<not> known st (dr_run_id run)" and None: "dget (rt_lanes st) k = None"
  shows "rinv {k} (st\<lparr>rt_lanes := dput k (new_lane\<lparr>ln_queue := [run]\<rparr>) (rt_lanes st),
      rt_queued := dput (dr_run_id run) k (rt_queued st)\<rparr>)"
proof -
  have inv: "rinv {} st" using ok by (simp add: rt_ok_def)
  show ?thesis
  proof (rule enqueue_lane_rinv [OF inv _ new refl, of k _ "new_lane\<lparr>ln_queue := [run]\<rparr>"])
    show "run_ids_of (new_lane\<lparr>ln_queue := [run]\<rparr>) = lane_ids st k @ [dr_run_id run]"
      using None by (simp add: lane_ids_def)
    show "ln_parked (new_lane\<lparr>ln_queue := [run]\<rparr>) \<longleftrightarrow> k \<in> set (rt_parked st)"
      using rinvD(3) [OF inv] None by (simp add: parked_ok_def new_lane_def)
    show "ln_active (new_lane\<lparr>ln_queue := [run]\<rparr>) = Some r" if "lane_task st k r" for r
      using lane_task_lane [OF rinvD(2) [OF inv] that] None by simp
  qed (simp_all add: lane_ok_def new_lane_def)
qed

lemma rt_deliver_ok:
  assumes ok: "rt_ok st" and new: "\<not> known st (dr_run_id run)"
  shows "rt_ok (snd (rt_deliver hook run st))"
proof -
  have inv: "rinv {} st" and used: "slots_used st" using ok by (simp_all add: rt_ok_def)
  define k where "k = (if dr_thread_id run \<noteq> [] then dr_thread_id run else dr_run_id run)"
  show ?thesis
  proof (cases "dget (rt_lanes st) k")
    case None
    let ?st = "st\<lparr>rt_lanes := dput k (new_lane\<lparr>ln_queue := [run]\<rparr>) (rt_lanes st),
      rt_queued := dput (dr_run_id run) k (rt_queued st)\<rparr>"
    have "rinv {k} ?st" by (rule deliver_fresh_between [OF ok new None])
    then have "rinv {} (lane_next k ?st)" by (rule lane_next_rinv)
    moreover have "slots_used (lane_next k ?st)"
      using used by (intro lane_next_slots_used) (simp add: slots_used_def slot_free_def split: option.splits)
    ultimately show ?thesis using ok None
      by (simp add: rt_deliver_def k_def [symmetric] Let_def rt_ok_def)
  next
    case (Some l)
    let ?st = "st\<lparr>rt_lanes := dput k (l\<lparr>ln_queue := ln_queue l @ [run]\<rparr>) (rt_lanes st),
      rt_queued := dput (dr_run_id run) k (rt_queued st)\<rparr>"
    have "rinv {} ?st"
    proof (rule enqueue_lane_rinv [OF inv _ new refl, of k _ "l\<lparr>ln_queue := ln_queue l @ [run]\<rparr>"])
      show "run_ids_of (l\<lparr>ln_queue := ln_queue l @ [run]\<rparr>) = lane_ids st k @ [dr_run_id run]"
        using Some by (simp add: lane_ids_def)
      show "ln_parked (l\<lparr>ln_queue := ln_queue l @ [run]\<rparr>) \<longleftrightarrow> k \<in> set (rt_parked st)"
        using rinvD(3) [OF inv] Some by (simp add: parked_ok_def)
      show "ln_active (l\<lparr>ln_queue := ln_queue l @ [run]\<rparr>) = Some r" if "lane_task st k r" for r
        using lane_task_lane [OF rinvD(2) [OF inv] that] Some by simp
      have "lane_ok {} st k l" using rinvD(2) [OF inv] Some by (simp add: lanes_ok_def)
      moreover have "lane_task ?st = lane_task st" by (rule lane_task_cong) simp
      ultimately show "lane_ok {} ?st k (l\<lparr>ln_queue := ln_queue l @ [run]\<rparr>)"
        by (simp add: lane_ok_def split: option.splits)
    qed simp_all
    moreover have "slots_used ?st"
      using used by (simp add: slots_used_def slot_free_def split: option.splits)
    ultimately show ?thesis using ok Some start_interjection_ok [OF ok new]
      by (simp add: rt_deliver_def k_def [symmetric] Let_def rt_ok_def)
  qed
qed


text \<open>Steps that only rewrite a task's phase or flag, the output, or the running flag.\<close>

definition same_tasks :: "runtime \<Rightarrow> runtime \<Rightarrow> bool" where
  "same_tasks st st' \<longleftrightarrow> rt_lanes st' = rt_lanes st \<and> rt_in_flight st' = rt_in_flight st \<and>
     rt_queued st' = rt_queued st \<and> rt_parked st' = rt_parked st \<and> rt_dropped st' = rt_dropped st \<and>
     rt_next_task st' = rt_next_task st \<and> rt_max_concurrent_runs st' = rt_max_concurrent_runs st \<and>
     map (\<lambda>(n, tk). (n, tk_run_id tk, tk_lane tk)) (rt_tasks st') =
     map (\<lambda>(n, tk). (n, tk_run_id tk, tk_lane tk)) (rt_tasks st)"

lemma same_tasks_get:
  assumes "same_tasks st st'"
  shows "map_option (\<lambda>tk. (tk_run_id tk, tk_lane tk)) (dget (rt_tasks st') n) =
    map_option (\<lambda>tk. (tk_run_id tk, tk_lane tk)) (dget (rt_tasks st) n)"
proof -
  have "dget (map (\<lambda>(n, tk). (n, tk_run_id tk, tk_lane tk)) d) n =
      map_option (\<lambda>tk. (tk_run_id tk, tk_lane tk)) (dget d n)" for d :: "(nat, task) dict"
    by (induction d) auto
  from this [of "rt_tasks st'"] this [of "rt_tasks st"] show ?thesis
    using assms by (simp add: same_tasks_def)
qed

lemma same_tasks_dkeys: "same_tasks st st' \<Longrightarrow> dkeys (rt_tasks st') = dkeys (rt_tasks st)"
proof -
  assume "same_tasks st st'"
  then have "map fst (map (\<lambda>(n, tk). (n, tk_run_id tk, tk_lane tk)) (rt_tasks st')) =
      map fst (map (\<lambda>(n, tk). (n, tk_run_id tk, tk_lane tk)) (rt_tasks st))" by (simp add: same_tasks_def)
  then show ?thesis by (simp add: comp_def case_prod_beta)
qed

lemma same_tasks_lane_tasks: "same_tasks st st' \<Longrightarrow> lane_tasks st' = lane_tasks st"
proof -
  assume "same_tasks st st'"
  then have "length (filter (\<lambda>(n, r, l). l \<noteq> None) (map (\<lambda>(n, tk). (n, tk_run_id tk, tk_lane tk)) (rt_tasks st'))) =
      length (filter (\<lambda>(n, r, l). l \<noteq> None) (map (\<lambda>(n, tk). (n, tk_run_id tk, tk_lane tk)) (rt_tasks st)))"
    by (simp add: same_tasks_def)
  then show ?thesis by (simp add: lane_tasks_def filter_map comp_def case_prod_unfold)
qed

lemma same_tasks_ok:
  assumes ok: "rt_ok st" and same: "same_tasks st st'"
  shows "rt_ok st'"
proof -
  have inv: "rinv {} st" and used: "slots_used st" using ok by (simp_all add: rt_ok_def)
  have f: "rt_lanes st' = rt_lanes st" "rt_in_flight st' = rt_in_flight st" "rt_queued st' = rt_queued st"
    "rt_parked st' = rt_parked st" "rt_dropped st' = rt_dropped st" "rt_next_task st' = rt_next_task st"
    "rt_max_concurrent_runs st' = rt_max_concurrent_runs st" using same by (simp_all add: same_tasks_def)
  have get: "(\<exists>tk. dget (rt_tasks st') n = Some tk \<and> tk_run_id tk = r \<and> tk_lane tk = l) \<longleftrightarrow>
      (\<exists>tk. dget (rt_tasks st) n = Some tk \<and> tk_run_id tk = r \<and> tk_lane tk = l)" for n r l
    using same_tasks_get [OF same, of n] by (cases "dget (rt_tasks st') n"; cases "dget (rt_tasks st) n") auto
  have lt: "lane_task st' = lane_task st" unfolding lane_task_def fun_eq_iff get by simp
  have "tasks_ok st'"
    unfolding tasks_ok_def
  proof (intro conjI allI impI)
    show "distinct (dkeys (rt_tasks st'))" "distinct (dkeys (rt_in_flight st'))"
      using rinvD(1) [OF inv] by (simp_all add: tasks_ok_def same_tasks_dkeys [OF same] f)
    show "n < rt_next_task st'" "dget (rt_in_flight st') (tk_run_id tk) = Some n"
      if "dget (rt_tasks st') n = Some tk" for n tk
      using rinvD(1) [OF inv] that same_tasks_get [OF same, of n]
      by (cases "dget (rt_tasks st) n"; auto simp: tasks_ok_def f)+
    show "\<exists>tk. dget (rt_tasks st') n = Some tk \<and> tk_run_id tk = r" if "dget (rt_in_flight st') r = Some n" for r n
      using rinvD(1) [OF inv] that get [of n r] unfolding tasks_ok_def f by metis
  qed
  moreover have "lanes_ok {} st'" by (rule lanes_ok_cong [THEN iffD2, OF f(1) lt rinvD(2) [OF inv]])
  moreover have "parked_ok st'" using rinvD(3) [OF inv] by (simp add: parked_ok_def f)
  moreover have "slots_ok st'"
    using rinvD(4) [OF inv] same_tasks_lane_tasks [OF same] by (simp add: slots_ok_def f split: option.splits)
  moreover have "waits_ok st'"
    by (rule waits_ok_same [OF rinvD(5) [OF inv]]) (simp_all add: f lane_ids_def fun_eq_iff)
  moreover have "slots_used st'" using used slot_free_cong [OF f(2,7)] by (simp add: slots_used_def f)
  ultimately show ?thesis by (simp add: rt_ok_def rinv_def)
qed

lemma map_update_same:
  assumes "dget d n = Some x" "g n x' = g n x" "distinct (dkeys d)"
  shows "map (\<lambda>(n, x). g n x) (dput n x' d) = map (\<lambda>(n, x). g n x) d"
  using assms by (induction d) (auto split: if_splits)

lemma same_tasks_update:
  assumes "rt_ok st" "dget (rt_tasks st) n = Some tk" "tk_run_id tk' = tk_run_id tk" "tk_lane tk' = tk_lane tk"
  shows "same_tasks st (st\<lparr>rt_tasks := dput n tk' (rt_tasks st), rt_output := out\<rparr>)"
    and "same_tasks st (st\<lparr>rt_tasks := dput n tk' (rt_tasks st)\<rparr>)"
  using assms map_update_same [OF assms(2), of "\<lambda>n tk. (n, tk_run_id tk, tk_lane tk)" tk']
  by (simp_all add: same_tasks_def rt_ok_def rinv_def tasks_ok_def)

lemma same_tasks_output: "same_tasks st (st\<lparr>rt_output := out\<rparr>)" "same_tasks st (st\<lparr>rt_running := b\<rparr>)"
  by (simp_all add: same_tasks_def)


definition drop_task :: "nat \<Rightarrow> task \<Rightarrow> runtime \<Rightarrow> runtime" where
  "drop_task n tk st = st\<lparr>rt_tasks := dpop n (rt_tasks st), rt_in_flight := dpop (tk_run_id tk) (rt_in_flight st)\<rparr>"

lemma drop_task_fields [simp]:
  "rt_lanes (drop_task n tk st) = rt_lanes st" "rt_queued (drop_task n tk st) = rt_queued st"
  "rt_parked (drop_task n tk st) = rt_parked st" "rt_dropped (drop_task n tk st) = rt_dropped st"
  "rt_max_concurrent_runs (drop_task n tk st) = rt_max_concurrent_runs st"
  "rt_output (drop_task n tk st) = rt_output st"
  by (simp_all add: drop_task_def)

lemma drop_task_tasks_ok:
  assumes ok: "tasks_ok st" and tk: "dget (rt_tasks st) n = Some tk"
  shows "tasks_ok (drop_task n tk st)"
proof -
  have flight: "dget (rt_in_flight st) (tk_run_id tk) = Some n" using ok tk by (simp add: tasks_ok_def)
  have other: "tk_run_id tk' \<noteq> tk_run_id tk" if "dget (rt_tasks st) m = Some tk'" "m \<noteq> n" for m tk'
  proof -
    have "dget (rt_in_flight st) (tk_run_id tk') = Some m" using ok that by (simp add: tasks_ok_def)
    with flight that(2) show ?thesis by auto
  qed
  have "distinct (dkeys (rt_tasks (drop_task n tk st)))" "distinct (dkeys (rt_in_flight (drop_task n tk st)))"
    using ok distinct_keys_dpop [of "rt_tasks st" n] distinct_keys_dpop [of "rt_in_flight st" "tk_run_id tk"]
    by (simp_all add: tasks_ok_def drop_task_def)
  moreover have "m < rt_next_task (drop_task n tk st) \<and>
      dget (rt_in_flight (drop_task n tk st)) (tk_run_id tk') = Some m"
    if "dget (rt_tasks (drop_task n tk st)) m = Some tk'" for m tk'
    using that ok other [of m tk'] by (auto simp: drop_task_def tasks_ok_def split: if_splits)
  moreover have "\<exists>tk'. dget (rt_tasks (drop_task n tk st)) m = Some tk' \<and> tk_run_id tk' = r"
    if r: "dget (rt_in_flight (drop_task n tk st)) r = Some m" for r m
  proof -
    from r have ne: "r \<noteq> tk_run_id tk" and "dget (rt_in_flight st) r = Some m"
      by (auto simp: drop_task_def split: if_splits)
    with ok obtain tk' where tk': "dget (rt_tasks st) m = Some tk'" "tk_run_id tk' = r"
      unfolding tasks_ok_def by blast
    with ne tk have "m \<noteq> n" by auto
    with tk' show ?thesis by (simp add: drop_task_def)
  qed
  ultimately show ?thesis unfolding tasks_ok_def by blast
qed

lemma tasks_unique:
  assumes "tasks_ok st" "dget (rt_tasks st) m = Some a" "dget (rt_tasks st) n = Some b" "tk_run_id a = tk_run_id b"
  shows "m = n" "a = b"
proof -
  have "dget (rt_in_flight st) (tk_run_id a) = Some m" "dget (rt_in_flight st) (tk_run_id b) = Some n"
    using assms(1-3) by (simp_all add: tasks_ok_def)
  then show "m = n" using assms(4) by simp
  then show "a = b" using assms(2,3) by simp
qed

lemma drop_task_lane_task:
  assumes tk: "dget (rt_tasks st) n = Some tk" and ok: "tasks_ok st"
  shows "lane_task (drop_task n tk st) k r \<longleftrightarrow> lane_task st k r \<and> tk_run_id tk \<noteq> r"
proof
  assume "lane_task (drop_task n tk st) k r"
  then obtain m tk' where m: "dget (rt_tasks st) m = Some tk'" "m \<noteq> n" "tk_run_id tk' = r" "tk_lane tk' = Some k"
    by (auto simp: lane_task_def drop_task_def split: if_splits)
  then show "lane_task st k r \<and> tk_run_id tk \<noteq> r"
    using tasks_unique(1) [OF ok m(1) tk] by (auto simp: lane_task_def)
next
  assume "lane_task st k r \<and> tk_run_id tk \<noteq> r"
  then obtain m tk' where m: "dget (rt_tasks st) m = Some tk'" "tk_run_id tk' = r" "tk_lane tk' = Some k"
    "tk_run_id tk \<noteq> r" by (auto simp: lane_task_def)
  then have "m \<noteq> n" using tk by auto
  then show "lane_task (drop_task n tk st) k r"
    unfolding lane_task_def by (intro exI [of _ m] exI [of _ tk']) (use m in \<open>simp add: drop_task_def\<close>)
qed

lemma drop_task_lane_tasks: "lane_tasks (drop_task n tk st) \<le> lane_tasks st"
proof -
  have "length (filter P (dpop n d)) \<le> length (filter P d)" for d :: "(nat, task) dict" and P
    by (induction d) (auto simp: AList.delete_eq)
  then show ?thesis by (simp add: lane_tasks_def drop_task_def)
qed

lemma drop_task_parts:
  assumes inv: "rinv {} st" and tk: "dget (rt_tasks st) n = Some tk"
  shows "tasks_ok (drop_task n tk st)" "parked_ok (drop_task n tk st)" "slots_ok (drop_task n tk st)"
    "waits_ok (drop_task n tk st)"
proof -
  show "tasks_ok (drop_task n tk st)" by (rule drop_task_tasks_ok [OF rinvD(1) [OF inv] tk])
  show "parked_ok (drop_task n tk st)" using rinvD(3) [OF inv] by (simp add: parked_ok_def)
  show "slots_ok (drop_task n tk st)"
    using rinvD(4) [OF inv] drop_task_lane_tasks [of n tk st] by (auto simp: slots_ok_def split: option.splits)
  have ids: "lane_ids (drop_task n tk st) = lane_ids st" by (simp add: lane_ids_def fun_eq_iff)
  show "waits_ok (drop_task n tk st)"
    using rinvD(5) [OF inv] unfolding waits_ok_def waiting_def ids by (simp add: drop_task_def)
qed

text \<open>When a task leaves, its lane is between two runs, or it had none.\<close>

lemma leave_lane_between:
  assumes inv: "rinv {} st" and tk: "dget (rt_tasks st) n = Some tk"
  shows "rinv {} (drop_task n tk st) \<and> leave_lane tk (drop_task n tk st) = drop_task n tk st \<or>
    (\<exists>k lanes. rinv {k} ((drop_task n tk st)\<lparr>rt_lanes := lanes\<rparr>) \<and>
       leave_lane tk (drop_task n tk st) = lane_next k ((drop_task n tk st)\<lparr>rt_lanes := lanes\<rparr>))"
proof -
  note parts = drop_task_parts [OF inv tk]
  note lt = drop_task_lane_task [OF tk rinvD(1) [OF inv]]
  let ?st = "drop_task n tk st"
  have ne: "tk_run_id tk \<noteq> r" if "lane_task st k r" "tk_lane tk \<noteq> Some k" for k r
  proof -
    from that(1) obtain m tk' where m: "dget (rt_tasks st) m = Some tk'" "tk_run_id tk' = r" "tk_lane tk' = Some k"
      by (auto simp: lane_task_def)
    show ?thesis
    proof
      assume "tk_run_id tk = r"
      with m have "tk' = tk" by (intro tasks_unique(2) [OF rinvD(1) [OF inv] m(1) tk]) simp
      with m(3) that(2) show False by simp
    qed
  qed
  show ?thesis
  proof (cases "tk_lane tk")
    case None
    then have "lane_task ?st = lane_task st" using ne by (auto simp: fun_eq_iff lt)
    then have "lanes_ok {} ?st" by (intro lanes_ok_cong [THEN iffD2, OF _ _ rinvD(2) [OF inv]]) simp_all
    then show ?thesis using None parts by (simp add: leave_lane_def rinv_def)
  next
    case (Some k)
    then have "lane_task st k (tk_run_id tk)" using tk by (auto simp: lane_task_def)
    from lane_task_lane [OF rinvD(2) [OF inv] this] obtain l where
      l: "dget (rt_lanes st) k = Some l" "ln_active l = Some (tk_run_id tk)" by blast
    have "lane_ok {} st k l" using rinvD(2) [OF inv] l by (simp add: lanes_ok_def)
    then have park: "\<not> ln_parked l" using l(2) by (simp add: lane_ok_def)
    let ?st2 = "?st\<lparr>rt_lanes := dput k (l\<lparr>ln_active := None\<rparr>) (rt_lanes st)\<rparr>"
    have others: "other_lanes k ?st ?st2" "other_lanes k st ?st2" by (simp_all add: other_lanes_def)
    have t2: "lane_task ?st2 = lane_task ?st" by (rule lane_task_cong) simp
    have none: "\<not> lane_task ?st k r" for r
      using lane_task_lane [OF rinvD(2) [OF inv], of k r] l by (auto simp: lt)
    have "lane_task ?st k' r = lane_task st k' r" if "k' \<noteq> k" for k' r
      using that ne [of k' r] Some by (auto simp: lt)
    then have same: "k' \<noteq> k \<Longrightarrow> lane_task ?st2 k' = lane_task st k'" for k' by (simp add: t2 fun_eq_iff)
    have "rinv {k} ?st2"
      unfolding rinv_def
    proof (intro conjI)
      show "tasks_ok ?st2" by (rule tasks_ok_cong [THEN iffD2, OF _ _ _ parts(1)]) simp_all
      show "slots_ok ?st2" by (rule slots_ok_cong [THEN iffD2, OF _ _ parts(3)]) simp_all
      show "parked_ok ?st2"
        using parts(2) park l by (intro parked_ok_change [OF parts(2) others(1)]) (auto simp: parked_ok_def)
      show "waits_ok ?st2"
        by (rule waits_ok_same [OF parts(4)]) (use l in \<open>auto simp: lane_ids_def fun_eq_iff\<close>)
      show "lanes_ok {k} ?st2"
        using park none by (intro lanes_ok_change [OF rinvD(2) [OF inv] others(2) same]) (auto simp: lane_ok_def t2)
    qed
    moreover have "leave_lane tk ?st = lane_next k ?st2" using Some l by (simp add: leave_lane_def)
    ultimately show ?thesis by blast
  qed
qed

lemma leave_lane_rinv:
  assumes "rinv {} st" "dget (rt_tasks st) n = Some tk"
  shows "rinv {} (leave_lane tk (drop_task n tk st))"
  using leave_lane_between [OF assms] lane_next_rinv by auto

lemma task_done_ok:
  assumes ok: "rt_ok st"
  shows "rt_ok (task_done n st)"
proof (cases "\<exists>tk. dget (rt_tasks st) n = Some tk \<and> tk_phase tk = Finished")
  case False
  then show ?thesis using ok by (auto simp: task_done_def split: option.splits)
next
  case True
  then obtain tk where tk: "dget (rt_tasks st) n = Some tk" "tk_phase tk = Finished" by blast
  have "rinv {} st" using ok by (simp add: rt_ok_def)
  from kick_parked_rinv [OF leave_lane_rinv [OF this tk(1)]] show ?thesis
    using tk by (simp add: task_done_def rt_ok_def drop_task_def)
qed

lemma rt_cancel_ok:
  assumes ok: "rt_ok st"
  shows "rt_ok (rt_cancel r st)"
proof (cases "dget (rt_in_flight st) r")
  case (Some n)
  then show ?thesis
    using ok same_tasks_ok [OF ok same_tasks_update(2) [OF ok]]
    by (auto simp: rt_cancel_def split: option.splits)
next
  case None
  show ?thesis
  proof (cases "dget (rt_queued st) r")
    case None
    then show ?thesis using ok \<open>dget (rt_in_flight st) r = None\<close> by (simp add: rt_cancel_def)
  next
    case (Some k)
    let ?st = "st\<lparr>rt_queued := dpop r (rt_queued st), rt_dropped := List.insert r (rt_dropped st),
      rt_output := rt_output st @ [(r, REnd)]\<rparr>"
    have inv: "rinv {} st" and used: "slots_used st" using ok by (simp_all add: rt_ok_def)
    have ids: "lane_ids ?st = lane_ids st" by (simp add: lane_ids_def fun_eq_iff)
    have "rinv {} ?st"
      unfolding rinv_def
    proof (intro conjI)
      show "tasks_ok ?st" by (rule tasks_ok_cong [THEN iffD2, OF _ _ _ rinvD(1) [OF inv]]) simp_all
      show "slots_ok ?st" by (rule slots_ok_cong [THEN iffD2, OF _ _ rinvD(4) [OF inv]]) simp_all
      show "parked_ok ?st" using rinvD(3) [OF inv] by (simp add: parked_ok_def)
      show "lanes_ok {} ?st"
        by (rule lanes_ok_cong [THEN iffD2, OF _ lane_task_cong rinvD(2) [OF inv]]) simp_all
      show "waits_ok ?st"
        using rinvD(5) [OF inv] Some unfolding waits_ok_def waiting_def ids by auto
    qed
    moreover have "slots_used ?st" using used by (simp add: slots_used_def slot_free_def split: option.splits)
    ultimately show ?thesis using Some \<open>dget (rt_in_flight st) r = None\<close> by (simp add: rt_cancel_def rt_ok_def)
  qed
qed

lemma rt_aclose_ok: "rt_ok st \<Longrightarrow> rt_ok (rt_aclose c st)"
proof (rule same_tasks_ok)
  show "same_tasks st (rt_aclose c st)"
    by (auto simp: rt_aclose_def same_tasks_def Let_def comp_def case_prod_unfold)
qed

lemma task_steps_ok:
  assumes ok: "rt_ok st"
  shows "rt_ok (task_begin n opens st)" "rt_ok (task_event n e st)" "rt_ok (task_end n st)" "rt_ok (rt_start st)"
    and "report_output linked st = Some (c, st') \<Longrightarrow> rt_ok st'"
proof -
  note upd = same_tasks_ok [OF ok same_tasks_update(1) [OF ok]] same_tasks_ok [OF ok same_tasks_update(2) [OF ok]]
  show "rt_ok (task_begin n opens st)" using ok upd(2) by (auto simp: task_begin_def split: option.splits)
  show "rt_ok (task_event n e st)"
    using ok same_tasks_ok [OF ok same_tasks_output(1)] by (auto simp: task_event_def split: option.splits)
  show "rt_ok (task_end n st)"
  proof (cases "dget (rt_tasks st) n")
    case (Some tk)
    have "same_tasks st (st\<lparr>rt_output := out, rt_tasks := dput n (tk\<lparr>tk_phase := Finished\<rparr>) (rt_tasks st)\<rparr>)" for out
      using same_tasks_update(2) [OF ok Some, of "tk\<lparr>tk_phase := Finished\<rparr>"] by (simp add: same_tasks_def)
    from same_tasks_ok [OF ok this] show ?thesis using ok Some by (simp add: task_end_def)
  qed (use ok in \<open>simp add: task_end_def\<close>)
  show "rt_ok (rt_start st)" unfolding rt_start_def by (rule same_tasks_ok [OF ok same_tasks_output(2)])
  show "report_output linked st = Some (c, st') \<Longrightarrow> rt_ok st'"
    using same_tasks_ok [OF ok same_tasks_output(1)]
    by (auto simp: report_output_def split: if_splits list.splits)
qed

lemma new_runtime_ok: "rt_ok (new_runtime mq mc)"
  by (auto simp: rt_ok_def rinv_def tasks_ok_def lanes_ok_def lane_task_def parked_ok_def slots_ok_def
      lane_tasks_def waits_ok_def waiting_def lane_ids_def slots_used_def new_runtime_def split: option.splits)

end
