(* ===== verification/Runtime_Props.thy ===== *)
theory Runtime_Props
  imports Runtime_Inv
begin

text \<open>
  What the provider's runtime promises: the states it reaches from start by any sequence of steps,
  with the record of the runs it accepted, the end markers it put and the runs whose task ended
  before its stream opened; and the properties of those states.
\<close>

section \<open>Where an accepted run is\<close>

definition unfinished :: "runtime \<Rightarrow> run_id \<Rightarrow> bool" where
  "unfinished st r \<longleftrightarrow> (\<exists>n tk. dget (rt_tasks st) n = Some tk \<and> tk_run_id tk = r \<and> tk_phase tk \<noteq> Finished)"

definition finished_task :: "runtime \<Rightarrow> run_id \<Rightarrow> bool" where
  "finished_task st r \<longleftrightarrow> (\<exists>n tk. dget (rt_tasks st) n = Some tk \<and> tk_run_id tk = r \<and> tk_phase tk = Finished)"

text \<open>Queued on its lane, or executing.\<close>

definition live :: "runtime \<Rightarrow> run_id \<Rightarrow> bool" where
  "live st r \<longleftrightarrow> dget (rt_queued st) r \<noteq> None \<or> unfinished st r"

text \<open>A step that only hands queued runs over to execution.\<close>

definition moves :: "runtime \<Rightarrow> runtime \<Rightarrow> bool" where
  "moves st st' \<longleftrightarrow> live st' = live st \<and> finished_task st' = finished_task st \<and>
     set (rt_dropped st') \<subseteq> set (rt_dropped st) \<and> rt_output st' = rt_output st"

lemma moves_refl [simp]: "moves st st"
  by (simp add: moves_def)

lemma moves_trans: "moves a b \<Longrightarrow> moves b c \<Longrightarrow> moves a c"
  by (auto simp: moves_def)

lemma known_iff:
  assumes "rinv X st"
  shows "known st r \<longleftrightarrow> live st r \<or> r \<in> set (rt_dropped st) \<or> finished_task st r"
proof -
  have "dget (rt_in_flight st) r \<noteq> None \<longleftrightarrow> unfinished st r \<or> finished_task st r"
    using rinvD(1) [OF assms] unfolding tasks_ok_def unfinished_def finished_task_def
    by (metis (no_types, lifting) not_None_eq)
  then show ?thesis using waits_okD(1) [OF rinvD(5) [OF assms], of r] by (auto simp: known_def live_def)
qed

lemma task_fates_cong:
  assumes "rt_tasks st' = rt_tasks st"
  shows "unfinished st' = unfinished st" "finished_task st' = finished_task st"
  by (simp_all add: unfinished_def finished_task_def assms fun_eq_iff)

lemma start_run_fates:
  assumes "tasks_ok st"
  shows "unfinished (start_run run lk st) r \<longleftrightarrow> unfinished st r \<or> r = dr_run_id run"
    and "finished_task (start_run run lk st) r \<longleftrightarrow> finished_task st r"
proof -
  have fresh: "dget (rt_tasks st) (rt_next_task st) = None"
    using assms unfolding tasks_ok_def by (metis less_irrefl not_None_eq)
  let ?tk = "\<lparr>tk_run_id = dr_run_id run, tk_lane = lk, tk_phase = Spawned, tk_cancelled = False\<rparr>"
  have get: "dget (rt_tasks (start_run run lk st)) n = (if n = rt_next_task st then Some ?tk else dget (rt_tasks st) n)" for n
    by (simp add: start_run_def)
  have keep: "dget (rt_tasks st) n = Some tk \<Longrightarrow> dget (rt_tasks (start_run run lk st)) n = Some tk" for n tk
    using fresh by (auto simp: get)
  show "unfinished (start_run run lk st) r \<longleftrightarrow> unfinished st r \<or> r = dr_run_id run"
  proof
    assume "unfinished (start_run run lk st) r"
    then show "unfinished st r \<or> r = dr_run_id run" unfolding unfinished_def get by (auto split: if_splits)
  next
    assume "unfinished st r \<or> r = dr_run_id run"
    then show "unfinished (start_run run lk st) r"
    proof
      assume "unfinished st r" then show ?thesis unfolding unfinished_def using keep by blast
    next
      assume "r = dr_run_id run"
      then show ?thesis unfolding unfinished_def get by (intro exI [of _ "rt_next_task st"] exI [of _ ?tk]) simp
    qed
  qed
  show "finished_task (start_run run lk st) r \<longleftrightarrow> finished_task st r"
  proof
    assume "finished_task (start_run run lk st) r"
    then show "finished_task st r" unfolding finished_task_def get by (auto split: if_splits)
  qed (use keep in \<open>auto simp: finished_task_def\<close>)
qed

lemma lane_next_moves:
  assumes inv: "rinv {k} st"
  shows "moves st (lane_next k st)"
proof (cases "dget (rt_lanes st) k")
  case None
  then show ?thesis by (simp add: lane_next_def)
next
  case (Some l)
  note w = rinvD(5) [OF inv]
  have ids: "lane_ids st k = run_ids_of l" using Some by (simp add: lane_ids_def)
  then have "distinct (map dr_run_id (ln_queue l))" using waits_okD(3) [OF w, of k] by simp
  from skip_dropped_shape [OF this, of st] obtain sk q where q: "ln_queue l = sk @ q"
    "dr_run_id ` set sk \<subseteq> set (rt_dropped st)" "q \<noteq> [] \<longrightarrow> dr_run_id (hd q) \<notin> set (rt_dropped st)"
    "skip_dropped (ln_queue l) st = (q, st\<lparr>rt_queued := fold dpop (map dr_run_id sk) (rt_queued st),
       rt_dropped := filter (\<lambda>r. r \<notin> dr_run_id ` set sk) (rt_dropped st)\<rparr>)" by blast
  have queued: "dget (fold dpop (map dr_run_id sk) (rt_queued st)) r = dget (rt_queued st) r" for r
  proof -
    have "r \<in> dr_run_id ` set sk \<Longrightarrow> dget (rt_queued st) r = None" using q(2) waits_okD(2) [OF w] by auto
    then show ?thesis by (simp add: alist_dict.pop_all_get)
  qed
  have free1: "slot_free (st\<lparr>rt_queued := a, rt_dropped := b\<rparr>) = slot_free st" for a b
    by (rule slot_free_cong) simp_all
  show ?thesis
  proof (cases "q = [] \<or> \<not> slot_free st")
    case True
    have "rt_tasks (lane_next k st) = rt_tasks st" "rt_output (lane_next k st) = rt_output st"
      "rt_queued (lane_next k st) = fold dpop (map dr_run_id sk) (rt_queued st)"
      "rt_dropped (lane_next k st) = filter (\<lambda>r. r \<notin> dr_run_id ` set sk) (rt_dropped st)"
      using True Some q(4) by (auto simp: lane_next_def free1 split: list.splits)
    then show ?thesis
      using task_fates_cong [of "lane_next k st" st] by (auto simp: moves_def live_def fun_eq_iff queued)
  next
    case False
    then obtain run q' where run: "q = run # q'" by (cases q) auto
    let ?st1 = "st\<lparr>rt_dropped := filter (\<lambda>r. r \<notin> dr_run_id ` set sk) (rt_dropped st),
      rt_queued := dpop (dr_run_id run) (fold dpop (map dr_run_id sk) (rt_queued st)),
      rt_lanes := dput k (l\<lparr>ln_queue := q', ln_active := Some (dr_run_id run)\<rparr>) (rt_lanes st)\<rparr>"
    have eq: "lane_next k st = start_run run (Some k) ?st1"
      using False Some q(4) run by (simp add: lane_next_def free1)
    have ok1: "tasks_ok ?st1" by (rule tasks_ok_cong [THEN iffD2, OF _ _ _ rinvD(1) [OF inv]]) simp_all
    note fates = start_run_fates [OF ok1] task_fates_cong [of ?st1 st]
    have "waiting st (dr_run_id run)" unfolding waiting_lane_ids [of st _ k] ids using q(1) run by simp
    then have "dget (rt_queued st) (dr_run_id run) \<noteq> None" using waits_okD(1) [OF w] q(3) run by simp
    then have "live (lane_next k st) r = live st r" for r
      unfolding live_def eq fates(1) by (auto simp: queued fates(3))
    moreover have "finished_task (lane_next k st) r = finished_task st r" for r
      unfolding eq fates(2) by (simp add: fates(4))
    ultimately show ?thesis by (auto simp: moves_def eq fun_eq_iff)
  qed
qed


lemma moves_lanes:
  assumes "moves (st\<lparr>rt_lanes := lanes\<rparr>) st'"
  shows "moves st st'"
  using assms by (simp add: moves_def live_def unfinished_def finished_task_def fun_eq_iff)

lemma kick_parked_moves: "rinv {} st \<Longrightarrow> moves st (kick_parked st)"
proof (induction st rule: kick_parked.induct)
  case (1 st)
  show ?case
  proof (cases "rt_parked st \<noteq> [] \<and> slot_free st")
    case True
    then obtain k ps where ps: "rt_parked st = k # ps" by (cases "rt_parked st") auto
    then have "st\<lparr>rt_parked := k # ps\<rparr> = st" by (intro runtime.equality) simp_all
    then have inv: "rinv {} (st\<lparr>rt_parked := k # ps\<rparr>)" using "1.prems" by simp
    obtain l where l: "dget (rt_lanes st) k = Some l"
      "rinv {k} (st\<lparr>rt_parked := ps, rt_lanes := dput k (l\<lparr>ln_parked := False\<rparr>) (rt_lanes st)\<rparr>)"
      by (rule unpark_between [OF inv])
    have "moves st (unpark k (st\<lparr>rt_parked := ps\<rparr>))"
      using lane_next_moves [OF l(2)] l(1)
      by (simp add: unpark_def moves_def live_def unfinished_def finished_task_def fun_eq_iff)
    moreover have "moves (unpark k (st\<lparr>rt_parked := ps\<rparr>)) (kick_parked (unpark k (st\<lparr>rt_parked := ps\<rparr>)))"
      using "1.IH" [OF True] unpark_rinv [OF inv] by (simp add: ps)
    ultimately show ?thesis using True ps by (subst kick_parked.simps) (auto intro: moves_trans)
  next
    case False
    then show ?thesis by (subst kick_parked.simps) auto
  qed
qed

lemma task_done_moves:
  assumes inv: "rinv {} st" and tk: "dget (rt_tasks st) n = Some tk" "tk_phase tk = Finished"
  shows "moves (drop_task n tk st) (task_done n st)"
proof -
  let ?st = "drop_task n tk st"
  have "moves ?st (leave_lane tk ?st)"
    using leave_lane_between [OF inv tk(1)]
  proof (elim disjE conjE exE)
    fix k lanes
    assume "rinv {k} (?st\<lparr>rt_lanes := lanes\<rparr>)" "leave_lane tk ?st = lane_next k (?st\<lparr>rt_lanes := lanes\<rparr>)"
    then show "moves ?st (leave_lane tk ?st)" using moves_lanes [OF lane_next_moves] by simp
  qed simp
  moreover have "moves (leave_lane tk ?st) (kick_parked (leave_lane tk ?st))"
    by (rule kick_parked_moves [OF leave_lane_rinv [OF inv tk(1)]])
  ultimately have "moves ?st (kick_parked (leave_lane tk ?st))" by (rule moves_trans)
  moreover have "task_done n st = kick_parked (leave_lane tk ?st)"
    using tk by (simp add: task_done_def drop_task_def)
  ultimately show ?thesis by simp
qed

lemma drop_task_fates:
  assumes "tasks_ok st" "dget (rt_tasks st) n = Some tk" "tk_phase tk = Finished"
  shows "live (drop_task n tk st) = live st" "finished_task (drop_task n tk st) r \<Longrightarrow> finished_task st r"
proof -
  have "unfinished (drop_task n tk st) r = unfinished st r" for r
  proof
    assume "unfinished st r"
    then obtain m tk' where m: "dget (rt_tasks st) m = Some tk'" "tk_run_id tk' = r" "tk_phase tk' \<noteq> Finished"
      unfolding unfinished_def by blast
    then have "m \<noteq> n" using assms(2,3) by auto
    with m show "unfinished (drop_task n tk st) r" unfolding unfinished_def drop_task_def by auto
  qed (auto simp: unfinished_def drop_task_def split: if_splits)
  then show "live (drop_task n tk st) = live st" by (simp add: live_def fun_eq_iff)
  show "finished_task (drop_task n tk st) r \<Longrightarrow> finished_task st r"
    unfolding finished_task_def drop_task_def by (auto split: if_splits)
qed

text \<open>Accepting a run makes exactly that run live.\<close>

lemma rt_deliver_cases:
  fixes run
  defines "k \<equiv> (if dr_thread_id run \<noteq> [] then dr_thread_id run else dr_run_id run)"
  assumes d: "rt_deliver hook run st = (v, st')"
  obtains (same) "st' = st" "v \<noteq> Truth True"
  | (interjection) "st' = start_run run None st" "v = Truth True"
  | (fresh) "dget (rt_lanes st) k = None" "v = Truth True"
      "st' = lane_next k (st\<lparr>rt_lanes := dput k (new_lane\<lparr>ln_queue := [run]\<rparr>) (rt_lanes st),
        rt_queued := dput (dr_run_id run) k (rt_queued st)\<rparr>)"
  | (behind) l where "dget (rt_lanes st) k = Some l" "v = Truth True"
      "st' = st\<lparr>rt_lanes := dput k (l\<lparr>ln_queue := ln_queue l @ [run]\<rparr>) (rt_lanes st),
        rt_queued := dput (dr_run_id run) k (rt_queued st)\<rparr>"
proof (cases "rt_running st")
  case False
  then show ?thesis using d by (intro same) (auto simp: rt_deliver_def)
next
  case True
  show ?thesis
  proof (cases "dget (rt_lanes st) k")
    case None
    show ?thesis
    proof (cases "rt_has_room st")
      case room: True
      show ?thesis by (rule fresh [OF None]) (use d True None room in
          \<open>simp_all add: rt_deliver_def k_def [symmetric] Let_def\<close>)
    next
      case stop: False
      then show ?thesis using d True None
        by (intro same) (auto simp: rt_deliver_def k_def [symmetric] Let_def)
    qed
  next
    case (Some l)
    show ?thesis
    proof (cases "addressed_run_id run \<noteq> None \<and> ln_active l = addressed_run_id run")
      case joins: True
      show ?thesis
      proof (cases "hook (dr_agent_name run) \<and> rt_has_room st")
        case go: True
        then show ?thesis using d True Some joins
          by (intro interjection) (simp_all add: rt_deliver_def k_def [symmetric] Let_def)
      next
        case stop: False
        then show ?thesis using d True Some joins
          by (intro same) (auto simp: rt_deliver_def k_def [symmetric] Let_def split: if_splits)
      qed
    next
      case waits: False
      show ?thesis
      proof (cases "rt_has_room st")
        case room: True
        show ?thesis by (rule behind [OF Some]) (use d True Some waits room in
            \<open>auto simp: rt_deliver_def k_def [symmetric] Let_def split: if_splits\<close>)
      next
        case stop: False
        then show ?thesis using d True Some waits
          by (intro same) (auto simp: rt_deliver_def k_def [symmetric] Let_def)
      qed
    qed
  qed
qed

lemma rt_deliver_fates:
  assumes ok: "rt_ok st" and new: "\<not> known st (dr_run_id run)" and d: "rt_deliver hook run st = (v, st')"
  shows "(if v = Truth True then (\<forall>r. live st' r \<longleftrightarrow> live st r \<or> r = dr_run_id run) else st' = st) \<and>
    finished_task st' = finished_task st \<and> set (rt_dropped st') \<subseteq> set (rt_dropped st) \<and> rt_output st' = rt_output st"
proof -
  have inv: "rinv {} st" using ok by (simp add: rt_ok_def)
  from d show ?thesis
  proof (cases rule: rt_deliver_cases)
    case interjection
    then show ?thesis using start_run_fates [OF rinvD(1) [OF inv]] by (auto simp: live_def fun_eq_iff)
  next
    case fresh
    let ?k = "if dr_thread_id run \<noteq> [] then dr_thread_id run else dr_run_id run"
    let ?st = "st\<lparr>rt_lanes := dput ?k (new_lane\<lparr>ln_queue := [run]\<rparr>) (rt_lanes st),
          rt_queued := dput (dr_run_id run) ?k (rt_queued st)\<rparr>"
    have "moves ?st st'" unfolding fresh(3) by (rule lane_next_moves [OF deliver_fresh_between [OF ok new fresh(1)]])
    moreover have "live ?st r \<longleftrightarrow> live st r \<or> r = dr_run_id run" "finished_task ?st = finished_task st" for r
      by (auto simp: live_def unfinished_def finished_task_def fun_eq_iff)
    ultimately show ?thesis using fresh(2) by (auto simp: moves_def)
  next
    case behind
    then show ?thesis by (auto simp: live_def unfinished_def finished_task_def fun_eq_iff)
  qed auto
qed

section \<open>Reachable states and the record of every accepted run\<close>

definition put_ends :: "runtime \<Rightarrow> runtime \<Rightarrow> run_id list" where
  "put_ends st st' = map fst (filter (\<lambda>(r, x). x = REnd) (drop (length (rt_output st)) (rt_output st')))"

text \<open>The run of a task that ends before it streams.\<close>

definition lost_at_start :: "nat \<Rightarrow> bool \<Rightarrow> runtime \<Rightarrow> run_id list" where
  "lost_at_start n opens st =
     (case dget (rt_tasks st) n of
        None \<Rightarrow> []
      | Some tk \<Rightarrow> if tk_phase tk = Spawned \<and> (tk_cancelled tk \<or> \<not> opens) then [tk_run_id tk] else [])"

text \<open>
  \<open>rt_reach hook mq mc st acc ends lost\<close>: the runtime can be in \<open>st\<close> having accepted the runs \<open>acc\<close>, put end
  markers for \<open>ends\<close> and let go of \<open>lost\<close> before their streams opened. Run ids are fresh, as
  funduq mints them.
\<close>

inductive rt_reach :: "(string \<Rightarrow> bool) \<Rightarrow> int \<Rightarrow> int option \<Rightarrow> runtime \<Rightarrow> run_id list \<Rightarrow> run_id list \<Rightarrow> run_id list \<Rightarrow> bool"
  for hook mq mc where
  init: "rt_reach hook mq mc (new_runtime mq mc) [] [] []"
| deliver: "rt_reach hook mq mc st acc ends lost \<Longrightarrow> dr_run_id run \<notin> set acc \<Longrightarrow> rt_deliver hook run st = (v, st') \<Longrightarrow>
    rt_reach hook mq mc st' (if v = Truth True then acc @ [dr_run_id run] else acc) ends lost"
| cancel: "rt_reach hook mq mc st acc ends lost \<Longrightarrow>
    rt_reach hook mq mc (rt_cancel r st) acc (ends @ put_ends st (rt_cancel r st)) lost"
| starting: "rt_reach hook mq mc st acc ends lost \<Longrightarrow> rt_reach hook mq mc (rt_start st) acc ends lost"
| aclose: "rt_reach hook mq mc st acc ends lost \<Longrightarrow> rt_reach hook mq mc (rt_aclose c st) acc ends lost"
| begins: "rt_reach hook mq mc st acc ends lost \<Longrightarrow>
    rt_reach hook mq mc (task_begin n opens st) acc ends (lost @ lost_at_start n opens st)"
| event: "rt_reach hook mq mc st acc ends lost \<Longrightarrow>
    rt_reach hook mq mc (task_event n e st) acc (ends @ put_ends st (task_event n e st)) lost"
| ends: "rt_reach hook mq mc st acc ends lost \<Longrightarrow>
    rt_reach hook mq mc (task_end n st) acc (ends @ put_ends st (task_end n st)) lost"
| is_done: "rt_reach hook mq mc st acc ends lost \<Longrightarrow> rt_reach hook mq mc (task_done n st) acc ends lost"
| report: "rt_reach hook mq mc st acc ends lost \<Longrightarrow> report_output linked st = Some (c, st') \<Longrightarrow>
    rt_reach hook mq mc st' acc ends lost"

definition accounted :: "runtime \<Rightarrow> run_id list \<Rightarrow> run_id list \<Rightarrow> run_id list \<Rightarrow> bool" where
  "accounted st acc ends lost \<longleftrightarrow> distinct acc \<and> distinct (ends @ lost) \<and>
     (\<forall>r. r \<in> set acc \<longleftrightarrow> live st r \<or> r \<in> set (ends @ lost)) \<and>
     (\<forall>r. live st r \<longrightarrow> r \<notin> set (ends @ lost)) \<and> set (rt_dropped st) \<subseteq> set ends \<and>
     (\<forall>r. finished_task st r \<longrightarrow> r \<in> set (ends @ lost))"

lemma accounted_same:
  assumes "accounted st acc ends lost" "live st' = live st" "\<And>r. finished_task st' r \<Longrightarrow> finished_task st r"
    "set (rt_dropped st') \<subseteq> set (rt_dropped st)"
  shows "accounted st' acc ends lost"
  using assms(1,3,4) unfolding accounted_def assms(2) by auto

lemma accounted_end:
  assumes "accounted st acc ends lost" "live st r" "\<And>x. live st' x \<longleftrightarrow> live st x \<and> x \<noteq> r"
    "\<And>x. finished_task st' x \<Longrightarrow> finished_task st x \<or> x = r"
    "set (rt_dropped st') \<subseteq> insert r (set (rt_dropped st))"
  shows "accounted st' acc (ends @ [r]) lost"
  using assms(1,2,5) unfolding accounted_def assms(3) by (auto dest: assms(4))

lemma accounted_lost:
  assumes "accounted st acc ends lost" "live st r" "\<And>x. live st' x \<longleftrightarrow> live st x \<and> x \<noteq> r"
    "\<And>x. finished_task st' x \<Longrightarrow> finished_task st x \<or> x = r" "set (rt_dropped st') \<subseteq> set (rt_dropped st)"
  shows "accounted st' acc ends (lost @ [r])"
  using assms(1,2,5) unfolding accounted_def assms(3) by (auto dest: assms(4))

lemma same_phases_fates:
  assumes "\<And>m. map_option (\<lambda>tk. (tk_run_id tk, tk_phase tk)) (dget (rt_tasks st') m) =
    map_option (\<lambda>tk. (tk_run_id tk, tk_phase tk)) (dget (rt_tasks st) m)"
  shows "unfinished st' = unfinished st" "finished_task st' = finished_task st"
proof -
  have get: "(\<exists>tk. dget (rt_tasks st') n = Some tk \<and> tk_run_id tk = r \<and> P (tk_phase tk)) \<longleftrightarrow>
      (\<exists>tk. dget (rt_tasks st) n = Some tk \<and> tk_run_id tk = r \<and> P (tk_phase tk))" for n r P
    using assms [of n] by (cases "dget (rt_tasks st') n"; cases "dget (rt_tasks st) n") auto
  show "unfinished st' = unfinished st" "finished_task st' = finished_task st"
    unfolding unfinished_def finished_task_def fun_eq_iff
    using get [of _ _ "\<lambda>p. p \<noteq> Finished"] get [of _ _ "\<lambda>p. p = Finished"] by simp_all
qed

lemma set_task_fates:
  assumes ok: "tasks_ok st" and tk: "dget (rt_tasks st) n = Some tk" "tk_phase tk \<noteq> Finished"
    and st': "rt_tasks st' = dput n tk' (rt_tasks st)" and tk': "tk_run_id tk' = tk_run_id tk" "tk_phase tk' = Finished"
  shows "unfinished st' r \<longleftrightarrow> unfinished st r \<and> r \<noteq> tk_run_id tk"
    and "finished_task st' r \<Longrightarrow> finished_task st r \<or> r = tk_run_id tk"
proof -
  show "unfinished st' r \<longleftrightarrow> unfinished st r \<and> r \<noteq> tk_run_id tk"
  proof
    assume "unfinished st' r"
    then obtain m a where m: "dget (rt_tasks st) m = Some a" "tk_run_id a = r" "tk_phase a \<noteq> Finished" "m \<noteq> n"
      using tk' unfolding unfinished_def st' by (auto split: if_splits)
    then show "unfinished st r \<and> r \<noteq> tk_run_id tk"
      using tasks_unique(1) [OF ok m(1) tk(1)] by (auto simp: unfinished_def)
  next
    assume "unfinished st r \<and> r \<noteq> tk_run_id tk"
    then obtain m a where m: "dget (rt_tasks st) m = Some a" "tk_run_id a = r" "tk_phase a \<noteq> Finished"
      and "r \<noteq> tk_run_id tk" unfolding unfinished_def by blast
    moreover then have "m \<noteq> n" using tk(1) by auto
    ultimately show "unfinished st' r" unfolding unfinished_def st' by auto
  qed
  show "finished_task st' r \<Longrightarrow> finished_task st r \<or> r = tk_run_id tk"
    using tk' unfolding finished_task_def st' by (auto split: if_splits)
qed

lemma task_not_queued:
  assumes "rinv {} st" "dget (rt_tasks st) n = Some tk"
  shows "dget (rt_queued st) (tk_run_id tk) = None"
proof -
  have "dget (rt_in_flight st) (tk_run_id tk) = Some n" using rinvD(1) [OF assms(1)] assms(2) by (simp add: tasks_ok_def)
  then have "\<not> waiting st (tk_run_id tk)" using waits_okD(5) [OF rinvD(5) [OF assms(1)], of "tk_run_id tk"] by auto
  then show ?thesis using waits_okD(1) [OF rinvD(5) [OF assms(1)], of "tk_run_id tk"] by auto
qed

lemma finishing_fates:
  assumes inv: "rinv {} st" and tk: "dget (rt_tasks st) n = Some tk" "tk_phase tk \<noteq> Finished"
    and st': "rt_tasks st' = dput n tk' (rt_tasks st)" "rt_queued st' = rt_queued st"
    and tk': "tk_run_id tk' = tk_run_id tk" "tk_phase tk' = Finished"
  shows "live st (tk_run_id tk)" "live st' x \<longleftrightarrow> live st x \<and> x \<noteq> tk_run_id tk"
    "finished_task st' x \<Longrightarrow> finished_task st x \<or> x = tk_run_id tk"
proof -
  note f = set_task_fates [OF rinvD(1) [OF inv] tk st'(1) tk']
  show "live st (tk_run_id tk)" using tk by (auto simp: live_def unfinished_def)
  show "live st' x \<longleftrightarrow> live st x \<and> x \<noteq> tk_run_id tk"
    using task_not_queued [OF inv tk(1)] by (auto simp: live_def f(1) st'(2))
  show "finished_task st' x \<Longrightarrow> finished_task st x \<or> x = tk_run_id tk" by (rule f(2))
qed

lemma accounted_fresh:
  assumes "accounted st acc ends lost" "rinv {} st" "r \<notin> set acc"
  shows "\<not> known st r"
  using assms(1,3) unfolding known_iff [OF assms(2)] accounted_def by auto

lemma accounted_deliver:
  assumes ok: "rt_ok st" and acc: "accounted st acc ends lost" and new: "dr_run_id run \<notin> set acc"
    and d: "rt_deliver hook run st = (v, st')"
  shows "accounted st' (if v = Truth True then acc @ [dr_run_id run] else acc) ends lost"
proof -
  have "\<not> known st (dr_run_id run)" using accounted_fresh [OF acc _ new] ok by (simp add: rt_ok_def)
  note f = rt_deliver_fates [OF ok this d]
  show ?thesis
  proof (cases "v = Truth True")
    case True
    then show ?thesis using f acc new unfolding accounted_def by auto
  next
    case False
    then show ?thesis using f acc by simp
  qed
qed

lemma accounted_cancel:
  assumes ok: "rt_ok st" and acc: "accounted st acc ends lost"
  shows "accounted (rt_cancel r st) acc (ends @ put_ends st (rt_cancel r st)) lost"
proof (cases "dget (rt_in_flight st) r")
  case (Some n)
  have "unfinished (rt_cancel r st) = unfinished st" "finished_task (rt_cancel r st) = finished_task st"
    using Some by (auto intro!: same_phases_fates simp: rt_cancel_def split: option.splits)
  moreover have "rt_queued (rt_cancel r st) = rt_queued st" "rt_dropped (rt_cancel r st) = rt_dropped st"
    "rt_output (rt_cancel r st) = rt_output st" using Some by (auto simp: rt_cancel_def split: option.splits)
  ultimately show ?thesis using acc by (auto intro!: accounted_same [OF acc] simp: live_def fun_eq_iff put_ends_def)
next
  case idle: None
  have inv: "rinv {} st" using ok by (simp add: rt_ok_def)
  show ?thesis
  proof (cases "dget (rt_queued st) r")
    case None
    then show ?thesis using idle acc by (simp add: rt_cancel_def put_ends_def)
  next
    case (Some k)
    let ?st = "st\<lparr>rt_queued := dpop r (rt_queued st), rt_dropped := List.insert r (rt_dropped st),
      rt_output := rt_output st @ [(r, REnd)]\<rparr>"
    have eq: "rt_cancel r st = ?st" using idle Some by (simp add: rt_cancel_def)
    have no: "\<not> unfinished st r"
      using idle rinvD(1) [OF inv] unfolding unfinished_def tasks_ok_def by auto
    note fates = task_fates_cong [of ?st st]
    have "accounted ?st acc (ends @ [r]) lost"
      using no Some by (intro accounted_end [OF acc]) (auto simp: live_def fates)
    then show ?thesis by (simp add: eq put_ends_def)
  qed
qed

lemma accounted_begin:
  assumes ok: "rt_ok st" and acc: "accounted st acc ends lost"
  shows "accounted (task_begin n opens st) acc ends (lost @ lost_at_start n opens st)"
proof (cases "dget (rt_tasks st) n")
  case None
  then show ?thesis using acc by (simp add: task_begin_def lost_at_start_def)
next
  case (Some tk)
  have inv: "rinv {} st" using ok by (simp add: rt_ok_def)
  show ?thesis
  proof (cases "tk_phase tk = Spawned")
    case False
    then show ?thesis using Some acc by (simp add: task_begin_def lost_at_start_def)
  next
    case True
    show ?thesis
    proof (cases "tk_cancelled tk \<or> \<not> opens")
      case lost: True
      have "accounted (task_begin n opens st) acc ends (lost @ [tk_run_id tk])"
        using Some True lost finishing_fates [OF inv Some, of "task_begin n opens st" "tk\<lparr>tk_phase := Finished\<rparr>"]
        by (intro accounted_lost [OF acc]) (auto simp: task_begin_def)
      then show ?thesis using Some True lost by (simp add: lost_at_start_def)
    next
      case False
      let ?st = "st\<lparr>rt_tasks := dput n (tk\<lparr>tk_phase := Streaming\<rparr>) (rt_tasks st)\<rparr>"
      have eq: "task_begin n opens st = ?st" using False Some True by (simp add: task_begin_def)
      have "unfinished ?st r = unfinished st r" for r
      proof
        assume "unfinished ?st r"
        then show "unfinished st r" using Some True unfolding unfinished_def by (fastforce split: if_splits)
      next
        assume "unfinished st r"
        then obtain m a where m: "dget (rt_tasks st) m = Some a" "tk_run_id a = r" "tk_phase a \<noteq> Finished"
          unfolding unfinished_def by blast
        then show "unfinished ?st r" unfolding unfinished_def
          using Some by (intro exI [of _ m] exI [of _ "if m = n then tk\<lparr>tk_phase := Streaming\<rparr> else a"]) auto
      qed
      moreover have "finished_task ?st r \<Longrightarrow> finished_task st r" for r
        unfolding finished_task_def by (auto split: if_splits)
      ultimately have "accounted ?st acc ends lost"
        by (intro accounted_same [OF acc]) (auto simp: live_def fun_eq_iff)
      then have "accounted (task_begin n opens st) acc ends lost" unfolding eq .
      then show ?thesis using False Some True by (simp add: lost_at_start_def)
    qed
  qed
qed

lemma accounted_ending:
  assumes ok: "rt_ok st" and acc: "accounted st acc ends lost"
  shows "accounted (task_end n st) acc (ends @ put_ends st (task_end n st)) lost"
proof (cases "\<exists>tk. dget (rt_tasks st) n = Some tk \<and> tk_phase tk = Streaming")
  case False
  then have "task_end n st = st" by (auto simp: task_end_def split: option.splits)
  then show ?thesis using acc by (simp add: put_ends_def)
next
  case True
  then obtain tk where tk: "dget (rt_tasks st) n = Some tk" "tk_phase tk = Streaming" by blast
  have inv: "rinv {} st" using ok by (simp add: rt_ok_def)
  have "accounted (task_end n st) acc (ends @ [tk_run_id tk]) lost"
    using tk finishing_fates [OF inv tk(1), of "task_end n st" "tk\<lparr>tk_phase := Finished\<rparr>"]
    by (intro accounted_end [OF acc]) (auto simp: task_end_def)
  then show ?thesis using tk by (simp add: task_end_def put_ends_def)
qed

lemma accounted_done:
  assumes ok: "rt_ok st" and acc: "accounted st acc ends lost"
  shows "accounted (task_done n st) acc ends lost"
proof (cases "\<exists>tk. dget (rt_tasks st) n = Some tk \<and> tk_phase tk = Finished")
  case False
  then have "task_done n st = st" by (auto simp: task_done_def split: option.splits)
  then show ?thesis using acc by simp
next
  case True
  then obtain tk where tk: "dget (rt_tasks st) n = Some tk" "tk_phase tk = Finished" by blast
  have inv: "rinv {} st" using ok by (simp add: rt_ok_def)
  note m = task_done_moves [OF inv tk, unfolded moves_def] and d = drop_task_fates [OF rinvD(1) [OF inv] tk]
  show ?thesis using m d by (intro accounted_same [OF acc]) auto
qed

lemma lane_next_max: "rt_max_concurrent_runs (lane_next k st) = rt_max_concurrent_runs st"
proof (cases "dget (rt_lanes st) k")
  case (Some l)
  obtain q st' where sk: "skip_dropped (ln_queue l) st = (q, st')" by fastforce
  show ?thesis using Some sk skip_dropped_keeps [OF sk] by (cases q) (simp_all add: lane_next_def)
qed (simp add: lane_next_def)

lemma kick_parked_max: "rt_max_concurrent_runs (kick_parked st) = rt_max_concurrent_runs st"
proof (induction st rule: kick_parked.induct)
  case (1 st)
  then show ?case by (subst kick_parked.simps) (simp add: unpark_def lane_next_max split: option.splits)
qed

lemma task_done_max: "rt_max_concurrent_runs (task_done n st) = rt_max_concurrent_runs st"
  by (simp add: task_done_def kick_parked_max leave_lane_def lane_next_max split: option.splits)

lemma steps_max [simp]:
  "rt_max_concurrent_runs (rt_cancel r st) = rt_max_concurrent_runs st"
  "rt_max_concurrent_runs (rt_start st) = rt_max_concurrent_runs st"
  "rt_max_concurrent_runs (rt_aclose c st) = rt_max_concurrent_runs st"
  "rt_max_concurrent_runs (task_begin n opens st) = rt_max_concurrent_runs st"
  "rt_max_concurrent_runs (task_event n e st) = rt_max_concurrent_runs st"
  "rt_max_concurrent_runs (task_end n st) = rt_max_concurrent_runs st"
  "rt_max_concurrent_runs (task_done n st) = rt_max_concurrent_runs st"
  by (simp_all add: rt_cancel_def rt_start_def rt_aclose_def task_begin_def task_event_def task_end_def
      task_done_max Let_def split: option.splits)

text \<open>Steps that leave every run where it is.\<close>

lemma accounted_quiet:
  assumes acc: "accounted st acc ends lost"
  shows "accounted (rt_start st) acc ends lost" "accounted (rt_aclose c st) acc ends lost"
    "accounted (task_event n e st) acc (ends @ put_ends st (task_event n e st)) lost"
    "report_output linked st = Some (cmd, st') \<Longrightarrow> accounted st' acc ends lost"
proof -
  have keep: "accounted st' acc ends lost"
    if "rt_tasks st' = rt_tasks st" "rt_queued st' = rt_queued st" "rt_dropped st' = rt_dropped st" for st'
    using that task_fates_cong [OF that(1)] by (intro accounted_same [OF acc]) (simp_all add: live_def fun_eq_iff)
  show "accounted (rt_start st) acc ends lost" by (rule keep) (simp_all add: rt_start_def)
  have "put_ends st (task_event n e st) = []" by (simp add: task_event_def put_ends_def split: option.splits)
  moreover have "accounted (task_event n e st) acc ends lost"
    by (rule keep) (simp_all add: task_event_def split: option.splits)
  ultimately show "accounted (task_event n e st) acc (ends @ put_ends st (task_event n e st)) lost" by simp
  show "accounted st' acc ends lost" if "report_output linked st = Some (cmd, st')"
    by (rule keep) (use that in \<open>auto simp: report_output_def split: if_splits list.splits\<close>)
  have "map_option (\<lambda>tk. (tk_run_id tk, tk_phase tk)) (dget (rt_tasks (rt_aclose c st)) m) =
      map_option (\<lambda>tk. (tk_run_id tk, tk_phase tk)) (dget (rt_tasks st) m)" for m
  proof -
    have "map_option (\<lambda>tk. (tk_run_id tk, tk_phase tk))
        (dget (map (\<lambda>(n, tk). (n, if n \<in> A then tk\<lparr>tk_cancelled := True\<rparr> else tk)) d) m) =
      map_option (\<lambda>tk. (tk_run_id tk, tk_phase tk)) (dget d m)" for A and d :: "(nat, task) dict"
      by (induction d) auto
    then show ?thesis by (simp only: rt_aclose_def Let_def) simp
  qed
  note same_phases_fates [OF this]
  then show "accounted (rt_aclose c st) acc ends lost"
    by (intro accounted_same [OF acc]) (simp_all add: live_def rt_aclose_def [of c st] Let_def fun_eq_iff)
qed

lemma reach_ok:
  assumes "rt_reach hook mq mc st acc ends lost"
  shows "rt_ok st \<and> accounted st acc ends lost \<and> rt_max_concurrent_runs st = mc"
  using assms
proof (induction rule: rt_reach.induct)
  case init
  have "accounted (new_runtime mq mc) [] [] []"
    by (auto simp: accounted_def new_runtime_def live_def unfinished_def finished_task_def)
  moreover have "rt_max_concurrent_runs (new_runtime mq mc) = mc" by (simp add: new_runtime_def)
  ultimately show ?case using new_runtime_ok by simp
next
  case (deliver st acc ends lost run v st')
  then have ok: "rt_ok st" and acc: "accounted st acc ends lost" and mc: "rt_max_concurrent_runs st = mc" by simp_all
  have "\<not> known st (dr_run_id run)"
    using accounted_fresh [OF acc _ deliver.hyps(2)] ok by (simp add: rt_ok_def)
  from rt_deliver_ok [OF ok this, of hook] have "rt_ok st'" using deliver.hyps(3) by simp
  moreover have "rt_max_concurrent_runs st' = mc"
    using deliver.hyps(3) by (cases rule: rt_deliver_cases) (use mc in \<open>simp_all add: lane_next_max\<close>)
  ultimately show ?case using accounted_deliver [OF ok acc deliver.hyps(2,3)] by blast
next
  case (cancel st acc ends lost r)
  then show ?case using rt_cancel_ok accounted_cancel by simp
next
  case (starting st acc ends lost)
  then show ?case using task_steps_ok(4) accounted_quiet(1) by simp
next
  case (aclose st acc ends lost c)
  then show ?case using rt_aclose_ok accounted_quiet(2) by simp
next
  case (begins st acc ends lost n opens)
  then show ?case using task_steps_ok(1) accounted_begin by simp
next
  case (event st acc ends lost n e)
  then show ?case using task_steps_ok(2) accounted_quiet(3) by simp
next
  case (ends st acc ends lost n)
  then show ?case using task_steps_ok(3) accounted_ending by simp
next
  case (is_done st acc ends lost n)
  then show ?case using task_done_ok accounted_done by simp
next
  case (report st acc ends lost linked c st')
  have "rt_max_concurrent_runs st' = rt_max_concurrent_runs st"
    using report.hyps(2) by (auto simp: report_output_def split: if_splits list.splits)
  then show ?case
    using report.IH task_steps_ok(5) [OF _ report.hyps(2)] accounted_quiet(4) [OF _ report.hyps(2)] by simp
qed

section \<open>Properties\<close>

text \<open>
  C29. A thread's runs never overlap on a provider: at any time at most one task holds a thread's
  lane, whatever the order of deliveries, cancels and task steps (interjections take no lane).
\<close>

theorem one_run_per_lane:
  assumes "rt_reach hook mq mc st acc ends lost"
    and "dget (rt_tasks st) m = Some a" "dget (rt_tasks st) n = Some b" "tk_lane a = Some k" "tk_lane b = Some k"
  shows "m = n \<and> (\<exists>l. dget (rt_lanes st) k = Some l \<and> ln_active l = Some (tk_run_id a))"
proof -
  have inv: "rinv {} st" using reach_ok [OF assms(1)] by (simp add: rt_ok_def)
  have lt: "lane_task st k (tk_run_id a)" "lane_task st k (tk_run_id b)"
    using assms(2-) by (auto simp: lane_task_def)
  note l = lane_task_lane [OF rinvD(2) [OF inv] lt(1)] lane_task_lane [OF rinvD(2) [OF inv] lt(2)]
  then have "tk_run_id a = tk_run_id b" by auto
  then show ?thesis using tasks_unique(1) [OF rinvD(1) [OF inv] assms(2,3)] l(1) by blast
qed

text \<open>
  C30. Lane runs stay within the declared concurrency, and no lane is idle with work while a slot is
  free: a thread whose run is not executing is parked, and parked only because every slot is taken.
\<close>

theorem slots_are_bounded_and_used:
  assumes "rt_reach hook mq (Some c) st acc ends lost" "0 \<le> c"
  shows "int (length (filter (\<lambda>(n, tk). tk_lane tk \<noteq> None) (rt_tasks st))) \<le> c \<and>
    (\<forall>k l. dget (rt_lanes st) k = Some l \<and> ln_active l = None \<longrightarrow>
      ln_queue l \<noteq> [] \<and> k \<in> set (rt_parked st) \<and> c \<le> int (length (rt_in_flight st)))"
proof (intro conjI allI impI; (elim conjE)?)
  have inv: "rinv {} st" and used: "slots_used st" and mc: "rt_max_concurrent_runs st = Some c"
    using reach_ok [OF assms(1)] by (simp_all add: rt_ok_def)
  show "int (length (filter (\<lambda>(n, tk). tk_lane tk \<noteq> None) (rt_tasks st))) \<le> c"
    using rinvD(4) [OF inv] mc assms(2) by (auto simp: slots_ok_def lane_tasks_def)
  fix k l
  assume l: "dget (rt_lanes st) k = Some l" "ln_active l = None"
  then have "lane_ok {} st k l" using rinvD(2) [OF inv] by (simp add: lanes_ok_def)
  then have "ln_parked l \<and> ln_queue l \<noteq> []" using l(2) by (simp add: lane_ok_def)
  moreover then have "k \<in> set (rt_parked st)" using rinvD(3) [OF inv] l(1) by (auto simp: parked_ok_def)
  moreover then have "\<not> slot_free st" using used by (auto simp: slots_used_def)
  ultimately show "ln_queue l \<noteq> []" "k \<in> set (rt_parked st)" "c \<le> int (length (rt_in_flight st))"
    using mc by (simp_all add: slot_free_def)
qed

text \<open>
  C31. No accepted run is forgotten and none is finished twice: a run the runtime accepted is queued or
  executing, or its one end marker was put, or its task ended before its stream opened, and these
  three exclude each other.
\<close>

theorem accepted_runs_are_accounted_for:
  assumes "rt_reach hook mq mc st acc ends lost"
  shows "set acc = {r. dget (rt_queued st) r \<noteq> None} \<union>
      {tk_run_id tk |n tk. dget (rt_tasks st) n = Some tk \<and> tk_phase tk \<noteq> Finished} \<union> set ends \<union> set lost \<and>
    distinct (ends @ lost) \<and>
    (\<forall>r. dget (rt_queued st) r \<noteq> None \<or> (\<exists>n tk. dget (rt_tasks st) n = Some tk \<and> tk_run_id tk = r \<and> tk_phase tk \<noteq> Finished) \<longrightarrow>
       r \<notin> set (ends @ lost))"
proof -
  have acc: "accounted st acc ends lost" using reach_ok [OF assms] by simp
  have "set acc = {r. live st r} \<union> set ends \<union> set lost" using acc unfolding accounted_def by auto
  also have "{r. live st r} = {r. dget (rt_queued st) r \<noteq> None} \<union>
      {tk_run_id tk |n tk. dget (rt_tasks st) n = Some tk \<and> tk_phase tk \<noteq> Finished}"
    by (auto simp: live_def unfinished_def)
  finally show ?thesis using acc by (simp add: accounted_def live_def unfinished_def)
qed

section \<open>A scenario\<close>

text \<open>
  A provider with one slot: two runs of one thread and one of another are accepted, the second is
  cancelled while it is queued, the first streams and ends and its slot goes to the other thread.
\<close>

definition demo_run :: "string \<Rightarrow> string \<Rightarrow> delivered_run" where
  "demo_run r t = \<lparr>dr_run_id = r, dr_agent_name = ''a'', dr_run_input = JObj [], dr_thread_id = t\<rparr>"

definition demo_busy :: runtime where
  "demo_busy = snd (rt_deliver (\<lambda>_. False) (demo_run ''r3'' ''t2'') (snd (rt_deliver (\<lambda>_. False) (demo_run ''r2'' ''t1'')
     (snd (rt_deliver (\<lambda>_. False) (demo_run ''r1'' ''t1'') (rt_start (new_runtime 5 (Some 1))))))))"

definition demo_end :: runtime where
  "demo_end = task_end 0 (task_event 0 JNull (task_begin 0 True (rt_cancel ''r2'' demo_busy)))"

lemma deliver_reach:
  assumes "rt_reach hook mq mc st acc ends lost" "dr_run_id run \<notin> set acc" "fst (rt_deliver hook run st) = Truth True"
    "acc' = acc @ [dr_run_id run]"
  shows "rt_reach hook mq mc (snd (rt_deliver hook run st)) acc' ends lost"
  using rt_reach.deliver [OF assms(1,2), of "Truth True" "snd (rt_deliver hook run st)"] assms(3,4)
  by (simp add: prod_eq_iff)

lemma demo_busy_reach: "rt_reach (\<lambda>_. False) 5 (Some 1) demo_busy [''r1'', ''r2'', ''r3''] [] []"
  unfolding demo_busy_def
  by (intro deliver_reach [where acc = "[''r1'', ''r2'']"] deliver_reach [where acc = "[''r1'']"]
      deliver_reach [where acc = "[]"] rt_reach.starting rt_reach.init) code_simp+

lemma demo_end_reach: "rt_reach (\<lambda>_. False) 5 (Some 1) demo_end [''r1'', ''r2'', ''r3''] [''r2'', ''r1''] []"
proof -
  let ?s1 = "rt_cancel ''r2'' demo_busy" let ?s2 = "task_begin 0 True ?s1" let ?s3 = "task_event 0 JNull ?s2"
  have "put_ends demo_busy ?s1 = [''r2'']" "lost_at_start 0 True ?s1 = []" "put_ends ?s2 ?s3 = []"
    "put_ends ?s3 (task_end 0 ?s3) = [''r1'']" by code_simp+
  then show ?thesis
    using rt_reach.ends [OF rt_reach.event [OF rt_reach.begins [OF rt_reach.cancel [OF demo_busy_reach]]],
      of 0 0 JNull 0 True "''r2''"] by (simp add: demo_end_def)
qed

lemma one_run_per_lane_witness:
  "\<exists>m n a. dget (rt_tasks demo_busy) m = Some a \<and> dget (rt_tasks demo_busy) n = Some a \<and> tk_lane a = Some ''t1'' \<and>
     m = n \<and> (\<exists>l. dget (rt_lanes demo_busy) ''t1'' = Some l \<and> ln_active l = Some ''r1'')"
proof -
  let ?a = "the (dget (rt_tasks demo_busy) 0)"
  have a: "dget (rt_tasks demo_busy) 0 = Some ?a" "tk_lane ?a = Some ''t1''" "tk_run_id ?a = ''r1''" by code_simp+
  from one_run_per_lane [OF demo_busy_reach a(1,1,2,2)] show ?thesis using a by auto
qed

lemma slots_are_bounded_and_used_witness:
  "int (length (filter (\<lambda>(n, tk). tk_lane tk \<noteq> None) (rt_tasks demo_busy))) \<le> 1 \<and>
   ''t2'' \<in> set (rt_parked demo_busy)"
proof -
  let ?l = "the (dget (rt_lanes demo_busy) ''t2'')"
  have l: "dget (rt_lanes demo_busy) ''t2'' = Some ?l" "ln_active ?l = None" by code_simp+
  show ?thesis using slots_are_bounded_and_used [OF demo_busy_reach] l by simp
qed

lemma accepted_runs_are_accounted_for_witness:
  "set [''r1'', ''r2'', ''r3''] = {r. dget (rt_queued demo_end) r \<noteq> None} \<union>
      {tk_run_id tk |n tk. dget (rt_tasks demo_end) n = Some tk \<and> tk_phase tk \<noteq> Finished} \<union> set [''r2'', ''r1'']"
  using accepted_runs_are_accounted_for [OF demo_end_reach] by simp

text \<open>
  Two behaviours of the code that its documentation rules out. An interjection is admitted when only
  the queue has room, so it executes beyond the declared concurrency; and a run cancelled before its
  task took its first step ends with no marker, so funduq is never told.
\<close>

definition demo_join :: delivered_run where
  "demo_join = \<lparr>dr_run_id = ''r4'', dr_agent_name = ''a'',
     dr_run_input = JObj [(''forwardedProps'', JObj [(''funduq'', JObj [(''addressedRunId'', JStr ''r1'')])])],
     dr_thread_id = ''t1''\<rparr>"

lemma interjection_exceeds_concurrency:
  "fst (rt_deliver (\<lambda>_. True) demo_join demo_busy) = Truth True \<and>
   rt_max_concurrent_runs demo_busy = Some 1 \<and>
   length (rt_in_flight (snd (rt_deliver (\<lambda>_. True) demo_join demo_busy))) = 2"
  by code_simp

lemma cancelled_before_first_step_ends_unmarked:
  "rt_output (task_done 0 (task_begin 0 True (rt_cancel ''r1'' demo_busy))) = [] \<and>
   dget (rt_in_flight demo_busy) ''r1'' \<noteq> None \<and>
   dget (rt_in_flight (task_done 0 (task_begin 0 True (rt_cancel ''r1'' demo_busy)))) ''r1'' = None"
  by code_simp

end
