(* ===== verification/Sdk_Link.thy ===== *)
theory Sdk_Link
  imports Rosters Runtime_Props
begin

text \<open>
  The provider SDK around its runtime (\<^verbatim>\<open>funduq_provider_sdk/identity.py\<close>, \<^verbatim>\<open>provider.py\<close>, \<^verbatim>\<open>inprocess.py\<close>): a
  provider's key and what it signs, agents dispatched by name, and the link that joins a runtime to
  a funduq in the same process. The key object and ed25519 are the parameters \<open>key_lib\<close> and \<open>ed25519\<close>; an
  agent's streams are values of an arbitrary type; key files are left out.

  The lemmas put the two sides together: the link opens exactly on the funduq it pinned, what the
  SDK signs is what funduq's doors check, and the verdict on a run reaches the run's inbox before anything the
  provider reports about it.
\<close>

section \<open>The provider's key\<close>

record 'p provider_identity =
  pi_private_key :: 'p
  pi_public_key :: key

definition new_provider_identity :: "'p key_lib \<Rightarrow> 'p \<Rightarrow> 'p provider_identity" where
  "new_provider_identity L private_key = \<lparr>pi_private_key = private_key, pi_public_key = kl_public_hex L private_key\<rparr>"

definition provider_sign :: "'p key_lib \<Rightarrow> 'p provider_identity \<Rightarrow> string \<Rightarrow> string" where
  "provider_sign L me payload = kl_sign_hex L (pi_private_key me) payload"

definition provider_sign_connect :: "'p key_lib \<Rightarrow> 'p provider_identity \<Rightarrow> key \<Rightarrow> string \<Rightarrow> string \<Rightarrow> string" where
  "provider_sign_connect L me funduq_public_key funduq_nonce provider_nonce =
     provider_sign L me (provider_connect_payload funduq_public_key funduq_nonce provider_nonce)"

definition provider_sign_resolution ::
  "'p key_lib \<Rightarrow> (string \<Rightarrow> string) \<Rightarrow> 'p provider_identity \<Rightarrow> run_id \<Rightarrow> string list \<Rightarrow> string" where
  "provider_sign_resolution L sha256_hex me run_id ask_ids = provider_sign L me (resolve_payload sha256_hex run_id ask_ids)"

text \<open>\<open>now\<close> is \<^verbatim>\<open>time.time()\<close>, truncated to whole seconds when no timestamp is given.\<close>

definition provider_sign_cancel ::
  "'p key_lib \<Rightarrow> rat \<Rightarrow> 'p provider_identity \<Rightarrow> run_id \<Rightarrow> int option \<Rightarrow> string \<times> int" where
  "provider_sign_cancel L now me run_id timestamp =
     (let timestamp = (case timestamp of None \<Rightarrow> if now \<ge> 0 then \<lfloor>now\<rfloor> else \<lceil>now\<rceil> | Some t \<Rightarrow> t)
      in (provider_sign L me (cancel_payload run_id timestamp), timestamp))"

definition provider_sign_hop :: "'p chain_crypto \<Rightarrow> 'p provider_identity \<Rightarrow> string option \<Rightarrow> string" where
  "provider_sign_hop K me prev_token = sign_hop K (pi_private_key me) prev_token None"

definition provider_new_chain :: "'p chain_crypto \<Rightarrow> 'p provider_identity \<Rightarrow> string list" where
  "provider_new_chain K me = new_chain K (pi_private_key me)"

definition provider_extend_chain :: "'p chain_crypto \<Rightarrow> 'p provider_identity \<Rightarrow> string list \<Rightarrow> string list option" where
  "provider_extend_chain K me prev_chain = extend_chain K (pi_private_key me) prev_chain"

section \<open>Agents by name\<close>

record 'e agent_handle =
  ah_name :: string
  ah_run_stream :: "json \<Rightarrow> 'e"
  ah_description :: string
  ah_agent_card_extra :: "(string, json) dict"
  ah_metadata :: json
  ah_interject_stream :: "(json \<Rightarrow> run_id \<Rightarrow> 'e) option"

definition as_registration :: "'e agent_handle \<Rightarrow> registration" where
  "as_registration a =
     \<lparr>rg_name = ah_name a, rg_description = ah_description a, rg_agent_card_extra = ah_agent_card_extra a,
      rg_metadata = ah_metadata a, rg_takes_interjections = ah_interject_stream a \<noteq> None\<rparr>"

type_synonym 'e handle_provider = "(string, 'e agent_handle) dict"

definition new_handle_provider :: "'e agent_handle list \<Rightarrow> 'e handle_provider" where
  "new_handle_provider handles = fold (\<lambda>a. dput (ah_name a) a) handles []"

text \<open>\<^term>\<open>None\<close> is the KeyError of an unknown name.\<close>

definition hp_run_stream :: "'e handle_provider \<Rightarrow> string \<Rightarrow> json \<Rightarrow> 'e option" where
  "hp_run_stream hp agent_name run_input = map_option (\<lambda>a. ah_run_stream a run_input) (dget hp agent_name)"

definition interjection_hook :: "'e handle_provider \<Rightarrow> string \<Rightarrow> (json \<Rightarrow> run_id \<Rightarrow> 'e) option" where
  "interjection_hook hp agent_name = (case dget hp agent_name of None \<Rightarrow> None | Some a \<Rightarrow> ah_interject_stream a)"

definition takes_interjections :: "'e handle_provider \<Rightarrow> string \<Rightarrow> bool" where
  "takes_interjections hp agent_name \<longleftrightarrow> interjection_hook hp agent_name \<noteq> None"

section \<open>The in-process link\<close>

text \<open>
  The link's funduq and runtime are the two states its operations pass along; \<open>il_identity\<close> and \<open>il_provider\<close>
  are the runtime's.
\<close>

record ('p, 'e) in_process_link =
  il_identity :: "'p provider_identity"
  il_provider :: "'e handle_provider"
  il_funduq_public_key :: "key option"

text \<open>\<^verbatim>\<open>funduq_public_key or getattr(funduq, "identity_public_key", None)\<close>.\<close>

definition identity_public_key :: "'p facade \<Rightarrow> key" where
  "identity_public_key s = fi_public_key (fq_identity s)"

definition new_in_process_link ::
  "'q facade \<Rightarrow> 'p provider_identity \<Rightarrow> 'e handle_provider \<Rightarrow> key option \<Rightarrow> ('p, 'e) in_process_link" where
  "new_in_process_link funduq me hp funduq_public_key =
     \<lparr>il_identity = me, il_provider = hp,
      il_funduq_public_key = (case funduq_public_key of
        None \<Rightarrow> Some (identity_public_key funduq)
      | Some k \<Rightarrow> if k = [] then Some (identity_public_key funduq) else Some k)\<rparr>"

definition link_public_key :: "('p, 'e) in_process_link \<Rightarrow> key" where
  "link_public_key lk = pi_public_key (il_identity lk)"

text \<open>\<^term>\<open>False\<close>, and \<^term>\<open>None\<close> of the signer, are WrongFunduq raised.\<close>

definition confirm_connect :: "ed25519 \<Rightarrow> ('p, 'e) in_process_link \<Rightarrow> string \<Rightarrow> string \<Rightarrow> string option \<Rightarrow> bool" where
  "confirm_connect ed lk funduq_nonce provider_nonce answer \<longleftrightarrow>
     (case il_funduq_public_key lk of
        None \<Rightarrow> True
      | Some pin \<Rightarrow>
          (case answer of
             None \<Rightarrow> False
           | Some sig \<Rightarrow> verify_signature ed pin sig (funduq_connect_payload funduq_nonce provider_nonce)))"

definition link_sign_connect ::
  "'p key_lib \<Rightarrow> ('p, 'e) in_process_link \<Rightarrow> key \<Rightarrow> string \<Rightarrow> string \<Rightarrow> string option" where
  "link_sign_connect L lk funduq_public_key funduq_nonce provider_nonce =
     (if il_funduq_public_key lk \<noteq> None \<and> il_funduq_public_key lk \<noteq> Some funduq_public_key then None
      else Some (provider_sign_connect L (il_identity lk) funduq_public_key funduq_nonce provider_nonce))"

definition connecting_link :: "'p key_lib \<Rightarrow> ed25519 \<Rightarrow> ('p, 'e) in_process_link \<Rightarrow> connecting" where
  "connecting_link L ed lk =
     \<lparr>cg_sign_connect = Some (link_sign_connect L lk),
      cg_confirm = (\<lambda>ticket nonce answer. confirm_connect ed lk ticket nonce (Some answer))\<rparr>"

text \<open>
  \<^verbatim>\<open>llm/inprocess.py\<close>, the same for a provider of models: its pin is what it was given, and it pins nothing by itself.
\<close>

record 'p in_process_llm =
  im_identity :: "'p provider_identity"
  im_funduq_public_key :: "key option"

definition llm_link_public_key :: "'p in_process_llm \<Rightarrow> key" where
  "llm_link_public_key lk = pi_public_key (im_identity lk)"

definition llm_link_sign_connect :: "'p key_lib \<Rightarrow> 'p in_process_llm \<Rightarrow> key \<Rightarrow> string \<Rightarrow> string \<Rightarrow> string option" where
  "llm_link_sign_connect L lk funduq_public_key funduq_nonce provider_nonce =
     (if im_funduq_public_key lk \<noteq> None \<and> im_funduq_public_key lk \<noteq> Some funduq_public_key then None
      else Some (provider_sign_connect L (im_identity lk) funduq_public_key funduq_nonce provider_nonce))"

definition llm_confirm_connect :: "ed25519 \<Rightarrow> 'p in_process_llm \<Rightarrow> string \<Rightarrow> string \<Rightarrow> string option \<Rightarrow> bool" where
  "llm_confirm_connect ed lk funduq_nonce provider_nonce answer \<longleftrightarrow>
     (case im_funduq_public_key lk of
        None \<Rightarrow> True
      | Some pin \<Rightarrow>
          (case answer of
             None \<Rightarrow> False
           | Some sig \<Rightarrow> verify_signature ed pin sig (funduq_connect_payload funduq_nonce provider_nonce)))"

definition connecting_llm :: "'p key_lib \<Rightarrow> ed25519 \<Rightarrow> 'p in_process_llm \<Rightarrow> connecting" where
  "connecting_llm L ed lk =
     \<lparr>cg_sign_connect = Some (llm_link_sign_connect L lk),
      cg_confirm = (\<lambda>ticket nonce answer. llm_confirm_connect ed lk ticket nonce (Some answer))\<rparr>"

section \<open>The doors the link calls\<close>

text \<open>\<^verbatim>\<open>attach_provider\<close> and its mirror open a link on their roster, and \<^verbatim>\<open>detach_provider\<close> and its mirror close one.\<close>

definition attach_provider ::
  "'p key_lib \<Rightarrow> ed25519 \<Rightarrow> conn \<Rightarrow> connecting \<Rightarrow> string \<times> string \<Rightarrow> string option \<Rightarrow> string option \<Rightarrow> string option \<Rightarrow> 'p facade \<Rightarrow>
   (link_error, string) res \<times> 'p facade" where
  "attach_provider L ed c cg minted ticket provider_nonce proof = open_link L ed agent_roster c cg minted ticket provider_nonce proof"

definition attach_llm_provider ::
  "'p key_lib \<Rightarrow> ed25519 \<Rightarrow> llm_conn \<Rightarrow> connecting \<Rightarrow> string \<times> string \<Rightarrow> string option \<Rightarrow> string option \<Rightarrow> string option \<Rightarrow> 'p facade \<Rightarrow>
   (link_error, string) res \<times> 'p facade" where
  "attach_llm_provider L ed c cg minted ticket provider_nonce proof = open_link L ed llm_roster c cg minted ticket provider_nonce proof"

definition detach_provider :: "key \<Rightarrow> conn \<Rightarrow> 'p facade \<Rightarrow> 'p facade" where
  "detach_provider provider_public_key connection = detach agent_roster provider_public_key connection"

definition detach_llm_provider :: "key \<Rightarrow> llm_conn \<Rightarrow> 'p facade \<Rightarrow> 'p facade" where
  "detach_llm_provider public_key connection = detach llm_roster public_key connection"


definition fq_answer_offer :: "run_id \<Rightarrow> verdict \<Rightarrow> key \<Rightarrow> 'p facade \<Rightarrow> bool \<times> 'p facade" where
  "fq_answer_offer run_id accepted provider_key s =
     (let (posted, b) = answer_offer run_id accepted provider_key (fq_broker s) in (posted, s\<lparr>fq_broker := b\<rparr>))"

definition fq_report_event :: "run_id \<Rightarrow> json \<Rightarrow> key \<Rightarrow> 'p facade \<Rightarrow> bool \<times> 'p facade" where
  "fq_report_event run_id event claimed_by s =
     (let (posted, b) = report_event run_id event claimed_by (fq_broker s) in (posted, s\<lparr>fq_broker := b\<rparr>))"

definition fq_finish_run :: "run_id \<Rightarrow> key \<Rightarrow> 'p facade \<Rightarrow> bool \<times> 'p facade" where
  "fq_finish_run run_id claimed_by s =
     (let (posted, b) = finish_stream run_id claimed_by (fq_broker s) in (posted, s\<lparr>fq_broker := b\<rparr>))"

definition fq_note_undelivered :: "run_id \<Rightarrow> 'p facade \<Rightarrow> bool \<times> 'p facade" where
  "fq_note_undelivered run_id s =
     (let (posted, b) = note_undelivered run_id (fq_broker s) in (posted, s\<lparr>fq_broker := b\<rparr>))"

section \<open>Delivering, cancelling and reporting\<close>

text \<open>\<open>Runtime.rt_deliver\<close> has no await of its own, so the verdict is posted before any task of the run moves.\<close>

definition link_deliver ::
  "('p, 'e) in_process_link \<Rightarrow> delivered_run \<Rightarrow> runtime \<times> 'q facade \<Rightarrow> runtime \<times> 'q facade" where
  "link_deliver lk run = (\<lambda>(rt, s).
     let (answer, rt) = rt_deliver (takes_interjections (il_provider lk)) run rt;
         (_, s) = fq_answer_offer (dr_run_id run) answer (link_public_key lk) s
     in (rt, s))"

definition link_cancel :: "run_id \<Rightarrow> runtime \<Rightarrow> bool \<times> runtime" where
  "link_cancel run_id rt = (True, rt_cancel run_id rt)"

definition link_report_event :: "('p, 'e) in_process_link \<Rightarrow> run_id \<Rightarrow> json \<Rightarrow> 'q facade \<Rightarrow> 'q facade" where
  "link_report_event lk run_id event s = snd (fq_report_event run_id event (link_public_key lk) s)"

definition link_finish_run :: "('p, 'e) in_process_link \<Rightarrow> run_id \<Rightarrow> 'q facade \<Rightarrow> 'q facade" where
  "link_finish_run lk run_id s = snd (fq_finish_run run_id (link_public_key lk) s)"

text \<open>One round of the runtime's \<^verbatim>\<open>_report_output\<close> over this link, and several; a round with nothing to take waits.\<close>

definition link_report_output :: "('p, 'e) in_process_link \<Rightarrow> runtime \<times> 'q facade \<Rightarrow> runtime \<times> 'q facade" where
  "link_report_output lk = (\<lambda>(rt, s).
     if \<not> rt_running rt then (rt, s)
     else case rt_output rt of
       [] \<Rightarrow> (rt, s)
     | (run_id, event) # out \<Rightarrow>
         (rt\<lparr>rt_output := out\<rparr>,
          case event of REnd \<Rightarrow> link_finish_run lk run_id s | REvent e \<Rightarrow> link_report_event lk run_id e s))"

fun link_reports :: "('p, 'e) in_process_link \<Rightarrow> nat \<Rightarrow> runtime \<times> 'q facade \<Rightarrow> runtime \<times> 'q facade" where
  "link_reports lk 0 x = x"
| "link_reports lk (Suc n) x = link_reports lk n (link_report_output lk x)"

section \<open>Opening the link\<close>

text \<open>
  What opening comes to for a connection that signs for itself, on either roster: the ticket funduq mints is
  answered in the same call, so only the signer and the check of funduq's answer decide.
\<close>

lemma open_with_signer:
  fixes R :: "('p facade, 'r, 'c) roster" and s :: "'p facade" and L
  defines "payload \<equiv> provider_connect_payload (identity_public_key s)"
    and "answer \<equiv> \<lambda>ticket nonce. identity_sign L (fq_identity s) (funduq_connect_payload ticket nonce)"
  assumes signer: "cg_sign_connect cg = Some sign"
    and o: "open_link L ed R c cg (ticket, nonce) None None None s = (result, s')"
  obtains (unsigned) "sign (identity_public_key s) ticket nonce = None" "result = Inl SignerRefused"
      "s' = issue_ticket ticket (ro_key R c) s"
  | (opened) T pf where "sign (identity_public_key s) ticket nonce = Some pf"
      "verify_signature ed (ro_key R c) pf (payload ticket nonce)" "cg_confirm cg ticket nonce (answer ticket nonce)"
      "result = Inr (answer ticket nonce)" "dget T ticket = None"
      "s' = ro_set_open R (dput (ro_key R c) (links_of R (ro_key R c) (s\<lparr>fq_tickets := T\<rparr>) @ [c]) (ro_open R (s\<lparr>fq_tickets := T\<rparr>)))
        (s\<lparr>fq_tickets := T\<rparr>)"
  | (closed) T pf e where "sign (identity_public_key s) ticket nonce = Some pf"
      "\<not> (verify_signature ed (ro_key R c) pf (payload ticket nonce) \<and> cg_confirm cg ticket nonce (answer ticket nonce))"
      "result = Inl e" "s' = s\<lparr>fq_tickets := T\<rparr>"
proof (cases "sign (identity_public_key s) ticket nonce")
  case None
  then show ?thesis
    using o by (intro unsigned) (simp_all add: open_link_def connect_proof_def signer identity_public_key_def)
next
  case (Some pf)
  let ?s = "issue_ticket ticket (ro_key R c) s"
  let ?T = "dpop ticket (fq_tickets ?s)"
  have t: "claim_ticket ticket (ro_key R c) ?s = (True, s\<lparr>fq_tickets := ?T\<rparr>)"
    by (simp add: claim_ticket_def issue_ticket_def SIGNATURE_FRESHNESS_WINDOW_SECONDS_def)
  note o = o [unfolded open_link_def connect_proof_def signer, simplified, folded identity_public_key_def, unfolded Some,
      simplified, unfolded t, simplified, folded identity_public_key_def]
  show ?thesis
  proof (cases "verify_signature ed (ro_key R c) pf (payload ticket nonce) \<and> cg_confirm cg ticket nonce (answer ticket nonce)")
    case True
    then show ?thesis using o
      by (intro opened [OF Some, of ?T]) (simp_all add: payload_def answer_def identity_public_key_def Let_def)
  next
    case False
    then have "\<exists>e. result = Inl e \<and> s' = s\<lparr>fq_tickets := ?T\<rparr>" using o
      by (auto simp: payload_def answer_def identity_public_key_def Let_def split: if_splits)
    then show ?thesis using closed [OF Some False] by blast
  qed
qed

text \<open>
  C19. Opening an in-process link succeeds exactly when the funduq that answers claims the key the link pinned and
  proves it: otherwise either nothing is signed or the answer is refused, and no link is opened. A link that
  opens is listed under the provider's own key, and the ticket minted for it is spent.
\<close>

theorem sdk_link_opens_on_its_pin:
  fixes lk :: "('p, 'e) in_process_link" and s :: "'p facade"
  assumes mine: "\<And>x. verify_signature ed (link_public_key lk) (provider_sign L (il_identity lk) x) x"
    and c: "c_public_key c = link_public_key lk"
    and o: "open_link L ed agent_roster c (connecting_link L ed lk) (ticket, nonce) None None None s = (result, s')"
  shows "((\<exists>answer. result = Inr answer) \<longleftrightarrow>
      (case il_funduq_public_key lk of None \<Rightarrow> True
       | Some pin \<Rightarrow> identity_public_key s = pin \<and>
           verify_signature ed pin (identity_sign L (fq_identity s) (funduq_connect_payload ticket nonce))
             (funduq_connect_payload ticket nonce))) \<and>
    (if isl result then fq_agent_open s' = fq_agent_open s
     else fq_agent_open s' = dput (c_public_key c) (links_of agent_roster (c_public_key c) s @ [c]) (fq_agent_open s) \<and>
       dget (fq_tickets s') ticket = None)"
proof -
  have key: "ro_key agent_roster c = link_public_key lk" by (simp add: agent_roster_def c)
  have "cg_sign_connect (connecting_link L ed lk) = Some (link_sign_connect L lk)" by (simp add: connecting_link_def)
  from this o show ?thesis
  proof (cases rule: open_with_signer)
    case unsigned
    then show ?thesis by (auto simp: link_sign_connect_def issue_ticket_def split: if_splits)
  next
    case (opened T pf)
    then show ?thesis using c
      by (auto simp: key connecting_link_def link_sign_connect_def confirm_connect_def agent_roster_def links_of_def
          split: if_splits option.splits)
  next
    case (closed T pf e)
    then show ?thesis using mine
      by (auto simp: key connecting_link_def link_sign_connect_def confirm_connect_def provider_sign_connect_def
          split: if_splits option.splits)
  qed
qed

text \<open>The same holds of a link to a provider of models.\<close>

lemma llm_link_opens_on_its_pin:
  fixes lk :: "'p in_process_llm" and s :: "'p facade"
  assumes mine: "\<And>x. verify_signature ed (llm_link_public_key lk) (provider_sign L (im_identity lk) x) x"
    and c: "lc_public_key c = llm_link_public_key lk"
    and o: "open_link L ed llm_roster c (connecting_llm L ed lk) (ticket, nonce) None None None s = (result, s')"
  shows "((\<exists>answer. result = Inr answer) \<longleftrightarrow>
      (case im_funduq_public_key lk of None \<Rightarrow> True
       | Some pin \<Rightarrow> identity_public_key s = pin \<and>
           verify_signature ed pin (identity_sign L (fq_identity s) (funduq_connect_payload ticket nonce))
             (funduq_connect_payload ticket nonce)))"
proof -
  have key: "ro_key llm_roster c = llm_link_public_key lk" by (simp add: llm_roster_def c)
  have "cg_sign_connect (connecting_llm L ed lk) = Some (llm_link_sign_connect L lk)" by (simp add: connecting_llm_def)
  from this o show ?thesis
  proof (cases rule: open_with_signer)
    case (closed T pf e)
    then show ?thesis using mine
      by (auto simp: key connecting_llm_def llm_link_sign_connect_def llm_confirm_connect_def provider_sign_connect_def
          split: if_splits option.splits)
  qed (auto simp: connecting_llm_def llm_link_sign_connect_def llm_confirm_connect_def split: if_splits option.splits)
qed

section \<open>What the SDK signs is what funduq checks\<close>

definition cancel_proof :: "key \<Rightarrow> string \<times> int \<Rightarrow> json" where
  "cancel_proof k signed = JObj [(''publicKey'', JStr k), (''timestamp'', JNum (of_int (snd signed))), (''signature'', JStr (fst signed))]"

definition resolution_proof :: "key \<Rightarrow> string \<Rightarrow> json" where
  "resolution_proof k sig = JObj [(''publicKey'', JStr k), (''signature'', JStr sig)]"

text \<open>
  A cancel the SDK signs is accepted by funduq's check from any authorized key within a minute of
  signing, and a resolution it signs over a run's asks, in whatever order they are given, is
  accepted for exactly those asks.
\<close>

theorem sdk_proofs_are_accepted:
  fixes me :: "'p provider_identity"
  assumes mine: "\<And>x. verify_signature ed (pi_public_key me) (provider_sign L me x) x"
    and may: "pi_public_key me \<in> allowed"
  shows "(\<bar>now - signed_at\<bar> \<le> 59 \<longrightarrow>
      verify_cancel ed now (cancel_proof (pi_public_key me) (provider_sign_cancel L signed_at me run_id None)) run_id allowed =
        Inr (pi_public_key me)) \<and>
    (distinct ask_ids \<longrightarrow>
      verify_resolution ed H (resolution_proof (pi_public_key me) (provider_sign_resolution L H me run_id ask_ids)) run_id
        (JStr ` set ask_ids) allowed = Inr (pi_public_key me))"
proof (intro conjI impI)
  assume near: "\<bar>now - signed_at\<bar> \<le> 59"
  have "\<bar>now - of_int \<lfloor>signed_at\<rfloor>\<bar> \<le> 60" "\<bar>now - of_int \<lceil>signed_at\<rceil>\<bar> \<le> 60" using near by linarith+
  then show "verify_cancel ed now (cancel_proof (pi_public_key me) (provider_sign_cancel L signed_at me run_id None)) run_id allowed =
        Inr (pi_public_key me)"
    using mine may
    by (simp add: verify_cancel_Inr_iff cancel_proof_def provider_sign_cancel_def py_index_def py_sub_def is_timestamp_fresh_def Let_def
        SIGNATURE_FRESHNESS_WINDOW_SECONDS_def)
next
  assume d: "distinct ask_ids"
  have "sort (sorted_list_of_set (set ask_ids)) = sort ask_ids"
    using d by (simp add: sorted_list_of_set_sort_remdups distinct_remdups_id sort_key_id_if_sorted)
  then have "resolve_payload H run_id (sorted_list_of_set (set ask_ids)) = resolve_payload H run_id ask_ids"
    by (simp add: resolve_payload_def)
  then show "verify_resolution ed H (resolution_proof (pi_public_key me) (provider_sign_resolution L H me run_id ask_ids)) run_id
        (JStr ` set ask_ids) allowed = Inr (pi_public_key me)"
    using mine may
    by (simp add: verify_resolution_Inr_iff resolution_proof_def provider_sign_resolution_def py_index_def py_sub_def image_image)
qed

section \<open>The verdict comes first\<close>

definition inbox_of :: "nat \<Rightarrow> 'p facade \<Rightarrow> message list" where
  "inbox_of h s = (case hand_at (fq_broker s) h of None \<Rightarrow> [] | Some t \<Rightarrow> t_inbox t)"

text \<open>What an entry of the output queue says to the owner of the run, when that is the handler \<open>h\<close>.\<close>

definition said_to :: "nat \<Rightarrow> key \<Rightarrow> 'p facade \<Rightarrow> (run_id \<times> rt_out) list \<Rightarrow> message list" where
  "said_to h k s out =
     map (\<lambda>(r, x). MSaid r k (case x of REnd \<Rightarrow> FinishStream | REvent e \<Rightarrow> RelayEvent e))
       (filter (\<lambda>(r, x). dget (b_run_threads (fq_broker s)) r = Some h) out)"

lemma post_run_threads [simp]: "b_run_threads (snd (post r m b)) = b_run_threads b"
  by (simp add: post_def put_inbox_def upd_hand_def split: option.splits)

lemma post_hand [simp]:
  "hand_at (snd (post r m b)) h = None \<longleftrightarrow> hand_at b h = None"
  "(\<exists>t. hand_at (snd (post r m b)) h = Some t) \<longleftrightarrow> (\<exists>t. hand_at b h = Some t)"
  by (simp_all add: post_def put_inbox_def upd_hand_def split: option.splits)

lemma post_inbox:
  assumes "hand_at (fq_broker s) h \<noteq> None"
  shows "inbox_of h (s\<lparr>fq_broker := snd (post r m (fq_broker s))\<rparr>) =
      inbox_of h s @ (if dget (b_run_threads (fq_broker s)) r = Some h then [m] else [])"
  using assms by (auto simp: inbox_of_def post_def put_inbox_def upd_hand_def split: option.splits)

lemmas fq_door_defs = fq_answer_offer_def fq_report_event_def fq_finish_run_def answer_offer_def report_event_def
  finish_stream_def case_prod_unfold Let_def

lemma link_report_output_step:
  assumes "hand_at (fq_broker s) h \<noteq> None" "rt_running rt" "link_report_output lk (rt, s) = (rt', s')"
  shows "rt_running rt' \<and> hand_at (fq_broker s') h \<noteq> None \<and> rt_output rt' = drop 1 (rt_output rt) \<and>
    b_run_threads (fq_broker s') = b_run_threads (fq_broker s) \<and>
    inbox_of h s' = inbox_of h s @ said_to h (link_public_key lk) s (take 1 (rt_output rt))"
  using assms
  by (auto simp: link_report_output_def link_finish_run_def link_report_event_def fq_door_defs post_inbox said_to_def
      split: list.splits rt_out.splits prod.splits)

lemma said_to_append: "said_to h k s (xs @ ys) = said_to h k s xs @ said_to h k s ys"
  by (simp add: said_to_def)

lemma link_reports_inbox:
  assumes "hand_at (fq_broker s) h \<noteq> None" "rt_running rt" "link_reports lk n (rt, s) = (rt', s')"
  shows "rt_output rt' = drop n (rt_output rt) \<and>
    inbox_of h s' = inbox_of h s @ said_to h (link_public_key lk) s (take n (rt_output rt))"
  using assms
proof (induction n arbitrary: rt s)
  case 0
  then show ?case by (simp add: said_to_def)
next
  case (Suc n)
  obtain rt1 s1 where one: "link_report_output lk (rt, s) = (rt1, s1)" by fastforce
  note st = link_report_output_step [OF Suc.prems(1,2) one]
  have "rt_output rt' = drop n (rt_output rt1) \<and>
      inbox_of h s' = inbox_of h s1 @ said_to h (link_public_key lk) s1 (take n (rt_output rt1))"
    using Suc.IH [of s1 rt1] st Suc.prems(3) one by simp
  moreover have "said_to h k s1 = said_to h k s" for k using st by (simp add: said_to_def fun_eq_iff)
  moreover have "take (Suc n) (rt_output rt) = take 1 (rt_output rt) @ take n (drop 1 (rt_output rt))"
    by (cases "rt_output rt") simp_all
  ultimately show ?case using st by (simp add: said_to_append)
qed

text \<open>
  C27. On an in-process link the verdict reaches the run's inbox before anything else does, and it is true: a run is accepted
  exactly when the runtime then holds it, and a run not accepted leaves the runtime as it was. Everything the provider
  reports afterwards follows behind the verdict, in the order the runtime put it out and in the provider's name, whatever
  the agents did in between.
\<close>

theorem in_process_verdict_comes_first:
  fixes lk :: "('p, 'e) in_process_link" and s :: "'q facade"
  assumes reach: "rt_reach (takes_interjections (il_provider lk)) mq mc rt acc ends lost"
    and new: "dr_run_id run \<notin> set acc"
    and owner: "dget (b_run_threads (fq_broker s)) (dr_run_id run) = Some h" "hand_at (fq_broker s) h \<noteq> None"
    and delivered: "link_deliver lk run (rt, s) = (rt1, s1)"
    and worked: "rt_running rt2" and reported: "link_reports lk n (rt2, s1) = (rt3, s3)"
  shows "\<exists>v. inbox_of h s3 = inbox_of h s @ MAnswered (dr_run_id run) (link_public_key lk) v #
        said_to h (link_public_key lk) s (take n (rt_output rt2)) \<and>
      rt_output rt3 = drop n (rt_output rt2) \<and> rt_output rt1 = rt_output rt \<and>
      (v = Truth True \<longleftrightarrow> known rt1 (dr_run_id run)) \<and> (v \<noteq> Truth True \<longrightarrow> rt1 = rt)"
proof -
  obtain v where v: "rt_deliver (takes_interjections (il_provider lk)) run rt = (v, rt1)"
    and s1: "s1 = s\<lparr>fq_broker := snd (post (dr_run_id run) (MAnswered (dr_run_id run) (link_public_key lk) v) (fq_broker s))\<rparr>"
    using delivered by (cases "rt_deliver (takes_interjections (il_provider lk)) run rt")
      (simp add: link_deliver_def fq_door_defs)
  have ok: "rt_ok rt" and acc: "accounted rt acc ends lost" using reach_ok [OF reach] by simp_all
  have inv: "rinv {} rt" using ok by (simp add: rt_ok_def)
  have fresh: "\<not> known rt (dr_run_id run)" by (rule accounted_fresh [OF acc inv new])
  note f = rt_deliver_fates [OF ok fresh v]
  have ok1: "rinv {} rt1" using rt_deliver_ok [OF ok fresh, of "takes_interjections (il_provider lk)"] v by (simp add: rt_ok_def)
  have "v = Truth True \<longleftrightarrow> known rt1 (dr_run_id run)"
    using f fresh known_iff [OF ok1, of "dr_run_id run"] by (cases "v = Truth True") simp_all
  moreover have "inbox_of h s3 = inbox_of h s1 @ said_to h (link_public_key lk) s1 (take n (rt_output rt2)) \<and>
      rt_output rt3 = drop n (rt_output rt2)"
    using link_reports_inbox [OF _ worked reported, of h] owner(2) by (simp add: s1 post_inbox)
  moreover have "said_to h k s1 = said_to h k s" for k by (simp add: said_to_def fun_eq_iff s1 post_inbox)
  ultimately show ?thesis using f owner by (intro exI [of _ v]) (auto simp: s1 post_inbox)
qed

section \<open>A scenario\<close>

text \<open>
  Two keys whose signatures name their key: the provider holds \<open>aa\<close>, funduq \<open>bb\<close>. One run is offered to the provider.
\<close>

definition demo_pairs :: "nat key_lib" where
  "demo_pairs = \<lparr>kl_from_seed = (\<lambda>x. 0), kl_public_hex = (\<lambda>p. if p = 0 then ''aa'' else ''bb''),
     kl_sign_hex = (\<lambda>p x. if p = 0 then ''aa'' else ''bb'')\<rparr>"

definition demo_check :: ed25519 where "demo_check = (\<lambda>k sig x. k = sig)"

definition demo_funduq :: "nat facade" where
  "demo_funduq = demo_facade\<lparr>fq_broker := demo_waiting, fq_identity := new_identity demo_pairs 1\<rparr>"

definition demo_impostor :: "nat facade" where
  "demo_impostor = demo_funduq\<lparr>fq_identity := \<lparr>fi_private_key = 0, fi_public_key = ''bb''\<rparr>\<rparr>"

definition demo_me :: "nat provider_identity" where "demo_me = new_provider_identity demo_pairs 0"

definition demo_link :: "(nat, unit) in_process_link" where
  "demo_link = new_in_process_link demo_funduq demo_me
     (new_handle_provider [\<lparr>ah_name = ''agent'', ah_run_stream = (\<lambda>x. ()), ah_description = [], ah_agent_card_extra = [],
        ah_metadata = JObj [], ah_interject_stream = None\<rparr>]) None"

definition demo_links_conn :: conn where
  "demo_links_conn = \<lparr>c_id = 5, c_public_key = ''aa'', c_max_concurrent_runs = Some 1\<rparr>"

lemma demo_signs:
  "verify_signature demo_check (link_public_key demo_link) (provider_sign demo_pairs (il_identity demo_link) x) x"
  "verify_signature demo_check (pi_public_key demo_me) (provider_sign demo_pairs demo_me x) x"
  "c_public_key demo_links_conn = link_public_key demo_link"
  by (simp_all add: verify_signature_def demo_check_def link_public_key_def demo_link_def new_in_process_link_def demo_me_def
      new_provider_identity_def provider_sign_def demo_pairs_def demo_links_conn_def hex_digit_def is_hex_space_def)

lemma sdk_link_opens_on_its_pin_witness:
  "(\<exists>answer. fst (open_link demo_pairs demo_check agent_roster demo_links_conn (connecting_link demo_pairs demo_check demo_link)
      (''t'', ''n'') None None None demo_funduq) = Inr answer) \<and>
   (\<nexists>answer. fst (open_link demo_pairs demo_check agent_roster demo_links_conn (connecting_link demo_pairs demo_check demo_link)
      (''t'', ''n'') None None None demo_impostor) = Inr answer)"
proof -
  have pin: "il_funduq_public_key demo_link = Some ''bb''" "identity_public_key demo_funduq = ''bb''" by code_simp+
  have good: "verify_signature demo_check ''bb'' (identity_sign demo_pairs (fq_identity demo_funduq) x) x"
    and bad: "\<not> verify_signature demo_check ''bb'' (identity_sign demo_pairs (fq_identity demo_impostor) x) x" for x
    by (simp_all add: verify_signature_def demo_check_def identity_sign_def demo_funduq_def demo_impostor_def new_identity_def
        demo_pairs_def hex_digit_def is_hex_space_def)
  note p = sdk_link_opens_on_its_pin [OF demo_signs(1,3) surjective_pairing]
  show ?thesis
    using p [of "''t''" "''n''" demo_funduq] p [of "''t''" "''n''" demo_impostor] good bad by (simp add: pin)
qed

lemma sdk_proofs_are_accepted_witness:
  "verify_cancel demo_check 10 (cancel_proof ''aa'' (provider_sign_cancel demo_pairs 3 demo_me ''r1'' None)) ''r1'' {''aa''} = Inr ''aa'' \<and>
   verify_resolution demo_check demo_sha (resolution_proof ''aa'' (provider_sign_resolution demo_pairs demo_sha demo_me ''r1'' [''b'', ''a'']))
     ''r1'' (JStr ` set [''b'', ''a'']) {''aa''} = Inr ''aa''"
proof -
  have k: "pi_public_key demo_me = ''aa''" by code_simp
  show ?thesis
    using sdk_proofs_are_accepted [OF demo_signs(2), of "{''aa''}" 10 3 "''r1''" "[''b'', ''a'']" demo_sha] by (simp add: k)
qed

definition demo_offered_run :: delivered_run where
  "demo_offered_run = \<lparr>dr_run_id = ''r1'', dr_agent_name = ''agent'', dr_run_input = JObj [], dr_thread_id = ''thread_1''\<rparr>"

definition demo_accepted :: "runtime \<times> nat facade" where
  "demo_accepted = link_deliver demo_link demo_offered_run (rt_start (new_runtime 5 (Some 1)), demo_funduq)"

definition demo_worked :: runtime where
  "demo_worked = task_event 0 JNull (task_begin 0 True (fst demo_accepted))"

lemma in_process_verdict_comes_first_witness:
  "\<exists>h v. inbox_of h (snd (link_reports demo_link 1 (demo_worked, snd demo_accepted))) =
     inbox_of h demo_funduq @ [MAnswered ''r1'' ''aa'' v, MSaid ''r1'' ''aa'' (RelayEvent JNull)]"
proof -
  let ?rt = "rt_start (new_runtime 5 (Some 1))"
  have reach: "rt_reach (takes_interjections (il_provider demo_link)) 5 (Some 1) ?rt [] [] []"
    by (intro rt_reach.starting rt_reach.init)
  have "\<not> Option.is_none (dget (b_run_threads (fq_broker demo_funduq)) ''r1'')" by code_simp
  then obtain h where h: "dget (b_run_threads (fq_broker demo_funduq)) ''r1'' = Some h" by (auto simp: Option.is_none_def)
  have "list_all (\<lambda>(r, h). \<not> Option.is_none (hand_at (fq_broker demo_funduq) h)) (b_run_threads (fq_broker demo_funduq))" by code_simp
  then have hand: "hand_at (fq_broker demo_funduq) h \<noteq> None"
    using dget_Some_in [OF h] by (auto simp: list_all_iff Option.is_none_def)
  have out: "rt_output demo_worked = [(''r1'', REvent JNull)]" "rt_running demo_worked" "link_public_key demo_link = ''aa''"
    by code_simp+
  have "\<exists>v. inbox_of h (snd (link_reports demo_link 1 (demo_worked, snd demo_accepted))) =
      inbox_of h demo_funduq @ MAnswered ''r1'' ''aa'' v # said_to h ''aa'' demo_funduq (take 1 (rt_output demo_worked))"
    using in_process_verdict_comes_first [OF reach _ _ hand _ out(2), of demo_offered_run "fst demo_accepted" "snd demo_accepted" 1
        "fst (link_reports demo_link 1 (demo_worked, snd demo_accepted))" "snd (link_reports demo_link 1 (demo_worked, snd demo_accepted))"]
      h out(3) by (auto simp: demo_offered_run_def demo_accepted_def)
  then show ?thesis using h by (auto simp: out said_to_def)
qed

end
