(* ===== verification/System.thy ===== *)
theory System
  imports Channel Sdk_Link
begin

text \<open>
  Both sides of an in-process link at work together: the provider's runtime (\<^verbatim>\<open>runtime.py\<close>) whose tasks put out what agents say, the
  link (\<^verbatim>\<open>inprocess.py\<close>) that reports it, and funduq's dispatcher, record and streams. The parties move in any order. The
  lemmas carry an agent's words through the three queues between its stream and the caller: the runtime's output, the owner's inbox
  and the run's stream.
\<close>

section \<open>The runtime at work\<close>

text \<open>The steps of a runtime other than taking a run in and reporting.\<close>

inductive rt_works :: "runtime \<Rightarrow> runtime \<Rightarrow> bool" where
  works_cancel: "rt_works rt (rt_cancel q rt)"
| works_start: "rt_works rt (rt_start rt)"
| works_close: "rt_works rt (rt_aclose c rt)"
| works_begin: "rt_works rt (task_begin n opens rt)"
| works_event: "rt_works rt (task_event n e rt)"
| works_end: "rt_works rt (task_end n rt)"
| works_done: "rt_works rt (task_done n rt)"

lemma lane_next_output [simp]: "rt_output (lane_next k st) = rt_output st"
proof (cases "dget (rt_lanes st) k")
  case (Some lane)
  obtain q st' where sk: "skip_dropped (ln_queue lane) st = (q, st')" by fastforce
  then show ?thesis using Some skip_dropped_keeps [OF sk] by (cases q) (simp_all add: lane_next_def start_run_def)
qed (simp add: lane_next_def)

lemma kick_parked_output [simp]: "rt_output (kick_parked st) = rt_output st"
proof (induction st rule: kick_parked.induct)
  case (1 st)
  then show ?case by (subst kick_parked.simps) (simp add: unpark_def split: option.splits)
qed

lemma task_done_output [simp]: "rt_output (task_done n st) = rt_output st"
  by (simp add: task_done_def leave_lane_def split: option.splits)

lemma rt_deliver_output: "rt_deliver hook run st = (v, st') \<Longrightarrow> rt_output st' = rt_output st"
  by (auto simp: rt_deliver_def Let_def start_run_def split: if_splits option.splits)

text \<open>What a step of the runtime puts out, behind what is there.\<close>

lemma rt_works_output: "rt_works rt rt' \<Longrightarrow> \<exists>out. rt_output rt' = rt_output rt @ out"
  by (induction rule: rt_works.induct)
     (auto simp: rt_cancel_def rt_start_def rt_aclose_def task_begin_def task_event_def task_end_def Let_def split: option.splits)

definition put_out_by :: "runtime \<Rightarrow> runtime \<Rightarrow> (run_id \<times> rt_out) list" where
  "put_out_by rt rt' = drop (length (rt_output rt)) (rt_output rt')"

fun told :: "rt_out \<Rightarrow> command" where
  "told REnd = FinishStream"
| "told (REvent e) = RelayEvent e"

text \<open>What the entries of an output queue say about a run.\<close>

definition said_of :: "run_id \<Rightarrow> (run_id \<times> rt_out) list \<Rightarrow> command list" where
  "said_of r out = map (told \<circ> snd) (filter (\<lambda>(q, x). q = r) out)"

section \<open>Both sides\<close>

text \<open>
  What a round of reporting is for the run: its own report, another's, or none. The link's own key speaks only through
  the link: nothing else funduq hears is in its name.
\<close>

definition report_acts :: "run_id \<Rightarrow> key \<Rightarrow> runtime \<Rightarrow> act list" where
  "report_acts r k rt =
     (if \<not> rt_running rt then []
      else case rt_output rt of [] \<Rightarrow> [] | (q, x) # _ \<Rightarrow> [if q = r then Reports k (told x) else Elsewhere])"

inductive together ::
  "event_lib \<Rightarrow> ('p, 'e) in_process_link \<Rightarrow> run_id \<Rightarrow> runtime \<times> 'q facade \<Rightarrow> (run_id \<times> rt_out) list \<Rightarrow> act list \<Rightarrow> runtime \<times> 'q facade \<Rightarrow> bool"
  for L lk r x0 where
  tog_start: "together L lk r x0 [] [] x0"
| tog_works: "together L lk r x0 out as (rt, s) \<Longrightarrow> rt_works rt rt' \<Longrightarrow> together L lk r x0 (out @ put_out_by rt rt') as (rt', s)"
| tog_delivers: "together L lk r x0 out as x \<Longrightarrow> together L lk r x0 out (as @ [Elsewhere]) (link_deliver lk run x)"
| tog_reports: "together L lk r x0 out as (rt, s) \<Longrightarrow>
    together L lk r x0 out (as @ report_acts r (link_public_key lk) rt) (link_report_output lk (rt, s))"
| tog_funduq: "together L lk r x0 out as (rt, s) \<Longrightarrow> fq_act L r a (fq_broker s) b \<Longrightarrow> (\<And>c. a \<noteq> Reports (link_public_key lk) c) \<Longrightarrow>
    together L lk r x0 out (as @ [a]) (rt, s\<lparr>fq_broker := b\<rparr>)"

lemma reported_append: "reported k (as @ bs) = reported k as @ reported k bs"
  by (simp add: reported_def)

lemma said_of_simps: "said_of r [] = []" "said_of r (xs @ ys) = said_of r xs @ said_of r ys"
  "said_of r ((q, x) # xs) = (if q = r then [told x] else []) @ said_of r xs"
  by (simp_all add: said_of_def)

lemma elsewhere_post: "voice r m = None \<Longrightarrow> fq_step L b (snd (post q m b)) \<Longrightarrow> fq_act L r Elsewhere b (snd (post q m b))"
proof -
  assume "voice r m = None" and st: "fq_step L b (snd (post q m b))"
  then have "carried L r b (snd (post q m b))" by (intro carried_post)
  from carried_flows [OF this] show ?thesis using st by (intro act_elsewhere) auto
qed

lemma link_report_act:
  assumes "link_report_output lk (rt, s) = (rt', s')" "fq_acts L r b0 as (fq_broker s)"
  shows "fq_acts L r b0 (as @ report_acts r (link_public_key lk) rt) (fq_broker s') \<and>
    reported (link_public_key lk) (report_acts r (link_public_key lk) rt) @ said_of r (rt_output rt') = said_of r (rt_output rt)"
proof (cases "rt_running rt \<and> rt_output rt \<noteq> []")
  case True
  then obtain q x out where out: "rt_output rt = (q, x) # out" by (cases "rt_output rt") auto
  let ?k = "link_public_key lk" and ?b = "snd (post q (MSaid q (link_public_key lk) (told x)) (fq_broker s))"
  have st: "rt' = rt\<lparr>rt_output := out\<rparr>" "fq_broker s' = ?b"
    using assms(1) True out
    by (cases x; auto simp: link_report_output_def link_finish_run_def link_report_event_def fq_door_defs)+
  have "fq_act L r (if q = r then Reports ?k (told x) else Elsewhere) (fq_broker s) ?b"
  proof (cases "q = r")
    case True
    then show ?thesis using act_report [of L r ?k _ "fq_broker s"] act_finish [of L r ?k "fq_broker s"]
      by (cases x) (simp_all add: report_event_def finish_stream_def)
  next
    case False
    have "fq_step L (fq_broker s) ?b" using fq_report [of L "fq_broker s" q _ ?k] fq_finish [of L "fq_broker s" q ?k]
      by (cases x) (simp_all add: report_event_def finish_stream_def)
    then show ?thesis using False by (simp add: elsewhere_post)
  qed
  then show ?thesis using True out st acts_more [OF assms(2)]
    by (auto simp: report_acts_def reported_def map_filter_Cons said_of_simps)
next
  case False
  then have "rt' = rt" "s' = s" "report_acts r (link_public_key lk) rt = []"
    using assms(1) by (auto simp: link_report_output_def report_acts_def split: list.splits)
  then show ?thesis using assms(2) by (simp add: reported_def)
qed

text \<open>
  Together the two sides are an execution of the dispatcher, in which the provider's reports and what is still in its output
  queue are what its runtime put out.
\<close>

lemma together_acts:
  assumes "together L lk r x0 out as x"
  shows "fq_acts L r (fq_broker (snd x0)) as (fq_broker (snd x)) \<and>
    reported (link_public_key lk) as @ said_of r (rt_output (fst x)) = said_of r (rt_output (fst x0) @ out)"
  using assms
proof (induction rule: together.induct)
  case tog_start
  then show ?case by (simp add: acts_none reported_def)
next
  case (tog_works out as rt s rt')
  then obtain new where "rt_output rt' = rt_output rt @ new" using rt_works_output by blast
  then show ?case using tog_works by (simp add: put_out_by_def said_of_simps)
next
  case (tog_delivers out as x run)
  obtain rt s where x: "x = (rt, s)" by fastforce
  obtain v rt' where v: "rt_deliver (takes_interjections (il_provider lk)) run rt = (v, rt')" by fastforce
  let ?m = "MAnswered (dr_run_id run) (link_public_key lk) v"
  have y: "fst (link_deliver lk run x) = rt'" "fq_broker (snd (link_deliver lk run x)) = snd (post (dr_run_id run) ?m (fq_broker s))"
    by (simp_all add: link_deliver_def x v fq_door_defs)
  have "fq_act L r Elsewhere (fq_broker s) (snd (post (dr_run_id run) ?m (fq_broker s)))"
    using fq_answer [of L "fq_broker s" "dr_run_id run" v "link_public_key lk"] by (intro elsewhere_post) (simp_all add: answer_offer_def)
  then show ?case
    using tog_delivers.IH acts_more rt_deliver_output [OF v] unfolding y by (auto simp: x reported_append reported_def map_filter_Cons)
next
  case (tog_reports out as rt s)
  obtain rt' s' where y: "link_report_output lk (rt, s) = (rt', s')" by fastforce
  then show ?case using link_report_act [OF y, of L r] tog_reports.IH by (auto simp: reported_append)
next
  case (tog_funduq out as rt s a b)
  then show ?case using acts_more by (auto simp: reported_append reported_def map_filter_Cons split: act.splits)
qed

section \<open>An agent's words\<close>

text \<open>
  C3. What an agent says reaches the caller. Take any joint execution of a provider's runtime, its in-process link and funduq that begins where funduq
  has the run claimed by the link's key. What the caller receives, with what waits in its stream, is what was in the stream, then the well-formed
  events among the first \<open>cmds\<close> of everything the runtime's tasks said about the run since (behind what was under way at the
  start), in the order they said it, then error events of funduq's own. While the run goes on, everything said that the caller cannot see
  yet lies in the inbox or in the runtime's output, in that order, and nothing is lost or added. What a task says after its end marker
  does not get through.
\<close>

theorem agents_words_reach_the_caller:
  assumes "fq_reach L (fq_broker s0)" "together L lk r (rt0, s0) out as (rt, s)"
    and "r \<in> set (b_runs (fq_broker s0))" "run_at (fq_broker s0) r = Some run0" "r_claimed_by run0 = Some (link_public_key lk)"
  shows "\<exists>cmds own rest.
    received as @ events_of (out_of r (fq_broker s)) = events_of (out_of r (fq_broker s0)) @ heard L cmds @ own \<and>
    cmds @ rest = said_by (link_public_key lk) (unread r (fq_broker s0)) @ said_of r (rt_output rt0 @ out) \<and>
    (\<forall>e \<in> set own. \<exists>m c. e = el_run_error L m c) \<and> FinishStream \<notin> set (butlast cmds) \<and>
    (r \<in> set (b_runs (fq_broker s)) \<longrightarrow> own = [] \<and> FinishStream \<notin> set cmds \<and>
      rest = said_by (link_public_key lk) (unread r (fq_broker s)) @ said_of r (rt_output rt))"
proof -
  let ?k = "link_public_key lk"
  from together_acts [OF assms(2)] have acts: "fq_acts L r (fq_broker s0) as (fq_broker s)"
    and put: "reported ?k as @ said_of r (rt_output rt) = said_of r (rt_output rt0 @ out)" by simp_all
  from acts_relayed [OF assms(1) acts assms(3-5)] obtain cmds own rest where
    "relayed L r ?k (fq_broker s0) as cmds own rest (fq_broker s)" by blast
  then show ?thesis unfolding relayed_def
    by (intro exI [of _ cmds] exI [of _ own] exI [of _ "rest @ said_of r (rt_output rt)"]) (auto simp: put [symmetric])
qed

text \<open>The provider of \<open>demo_link\<close> has taken the run and funduq has read its verdict; the agent says one thing.\<close>

definition demo_begun :: runtime where
  "demo_begun = task_begin 0 True (fst demo_accepted)"

definition demo_speaking :: runtime where
  "demo_speaking = task_event 0 (JObj demo_event) demo_begun"

definition demo_host :: "nat facade" where
  "demo_host = demo_funduq\<lparr>fq_broker := demo_claimed\<rparr>"

lemma demo_together:
  "\<exists>rt s. together demo_lib demo_link ''r1'' (fst demo_accepted, demo_host) [(''r1'', REvent (JObj demo_event))]
     [Reports ''aa'' (RelayEvent (JObj demo_event)), Elsewhere, Receives (Some demo_event)] (rt, s) \<and> fq_broker s = demo_drained"
proof -
  let ?T = "together demo_lib demo_link ''r1'' (fst demo_accepted, demo_host)"
  have "rt_output demo_begun = []" "rt_output (fst demo_accepted) = []" by code_simp+
  moreover have out: "rt_output demo_speaking = [(''r1'', REvent (JObj demo_event))]" "rt_running demo_speaking" by code_simp+
  ultimately have "put_out_by (fst demo_accepted) demo_begun = []" "put_out_by demo_begun demo_speaking = [(''r1'', REvent (JObj demo_event))]"
    by (simp_all add: put_out_by_def)
  then have 1: "?T [(''r1'', REvent (JObj demo_event))] [] (demo_speaking, demo_host)"
    using tog_works [OF tog_works [OF tog_start works_begin [of "fst demo_accepted" 0 True]] works_event [of _ 0 "JObj demo_event"], of demo_lib demo_link "''r1''" demo_host]
    by (simp add: demo_begun_def demo_speaking_def)
  have key: "link_public_key demo_link = ''aa''" by code_simp
  obtain rt s where y: "link_report_output demo_link (demo_speaking, demo_host) = (rt, s)" by fastforce
  then have "s = demo_host\<lparr>fq_broker := demo_said\<rparr>"
    using out key by (auto simp: link_report_output_def link_report_event_def fq_door_defs demo_said_def report_event_def demo_host_def)
  moreover have "report_acts ''r1'' ''aa'' demo_speaking = [Reports ''aa'' (RelayEvent (JObj demo_event))]" by (simp add: report_acts_def out)
  ultimately have 2: "?T [(''r1'', REvent (JObj demo_event))] [Reports ''aa'' (RelayEvent (JObj demo_event))] (rt, demo_host\<lparr>fq_broker := demo_said\<rparr>)"
    using tog_reports [OF 1] y key by simp
  have 3: "?T [(''r1'', REvent (JObj demo_event))] [Reports ''aa'' (RelayEvent (JObj demo_event)), Elsewhere] (rt, demo_host\<lparr>fq_broker := demo_heard\<rparr>)"
    using tog_funduq [OF 2, of Elsewhere demo_heard] demo_act(2) by simp
  have 4: "?T [(''r1'', REvent (JObj demo_event))] [Reports ''aa'' (RelayEvent (JObj demo_event)), Elsewhere, Receives (Some demo_event)]
      (rt, demo_host\<lparr>fq_broker := demo_drained\<rparr>)"
    using tog_funduq [OF 3, of "Receives (Some demo_event)" demo_drained] demo_act(3) by simp
  show ?thesis
    by (intro exI [of _ rt] exI [of _ "demo_host\<lparr>fq_broker := demo_drained\<rparr>"] conjI 4) simp
qed

theorem agents_words_reach_the_caller_witness:
  "\<exists>cmds rest. [demo_event] = heard demo_lib cmds \<and> cmds @ rest = [RelayEvent (JObj demo_event)]"
proof -
  obtain run where run: "''r1'' \<in> set (b_runs demo_claimed)" "run_at demo_claimed ''r1'' = Some run" "r_claimed_by run = Some ''aa''"
    using demo_held by blast
  obtain rt s where t: "together demo_lib demo_link ''r1'' (fst demo_accepted, demo_host) [(''r1'', REvent (JObj demo_event))]
     [Reports ''aa'' (RelayEvent (JObj demo_event)), Elsewhere, Receives (Some demo_event)] (rt, s)" "fq_broker s = demo_drained"
    using demo_together by blast
  have "link_public_key demo_link = ''aa''" "rt_output (fst demo_accepted) = []" by code_simp+
  then show ?thesis
    using agents_words_reach_the_caller [OF _ t(1), of run] run fq_reach_demo demo_quiet t(2)
    by (auto simp: demo_host_def received_def map_filter_Cons said_of_def)
qed

end
