(* ===== verification/Reduce.thy ===== *)
theory Reduce
  imports Pause
begin

text \<open>
  The fold of a run's events into the messages they stand for (\<^verbatim>\<open>funduq/agui_reduce.py\<close>). The
  accumulator holds the code's three locals; a message is the dict the code builds. The lemmas
  give the shape every accumulator keeps, that a log of well-shaped events is always reduced, and
  what a message's content is: the concatenation of its deltas.
\<close>

definition TEXT_MESSAGE_START :: json where "TEXT_MESSAGE_START = JStr ''TEXT_MESSAGE_START''"
definition TEXT_MESSAGE_CONTENT :: json where "TEXT_MESSAGE_CONTENT = JStr ''TEXT_MESSAGE_CONTENT''"
definition REASONING_MESSAGE_START :: json where
  "REASONING_MESSAGE_START = JStr ''REASONING_MESSAGE_START''"
definition REASONING_MESSAGE_CONTENT :: json where
  "REASONING_MESSAGE_CONTENT = JStr ''REASONING_MESSAGE_CONTENT''"
definition REASONING_ENCRYPTED_VALUE :: json where
  "REASONING_ENCRYPTED_VALUE = JStr ''REASONING_ENCRYPTED_VALUE''"
definition TOOL_CALL_ARGS :: json where "TOOL_CALL_ARGS = JStr ''TOOL_CALL_ARGS''"

lemmas reduce_types = event_types TEXT_MESSAGE_START_def TEXT_MESSAGE_CONTENT_def
  REASONING_MESSAGE_START_def REASONING_MESSAGE_CONTENT_def REASONING_ENCRYPTED_VALUE_def
  TOOL_CALL_ARGS_def

section \<open>The fold\<close>

record reduction =
  rd_messages :: "(json, event) dict"
  rd_order :: "json list"
  rd_tool_call_parent :: "(json, json) dict"

definition empty_reduction :: reduction where
  "empty_reduction = \<lparr>rd_messages = [], rd_order = [], rd_tool_call_parent = []\<rparr>"

text \<open>\<^verbatim>\<open>event.get(k, default)\<close>, and \<^verbatim>\<open>+=\<close> on two JSON values.\<close>

definition dget_or :: "string \<Rightarrow> json \<Rightarrow> event \<Rightarrow> json" where
  "dget_or k v e = (case dget e k of None \<Rightarrow> v | Some x \<Rightarrow> x)"

fun py_num :: "json \<Rightarrow> rat option" where
  "py_num (JNum q) = Some q"
| "py_num (JBool b) = Some (if b then 1 else 0)"
| "py_num _ = None"

definition py_iadd :: "json \<Rightarrow> json \<Rightarrow> (py_error, json) res" where
  "py_iadd a b =
     (case (a, b) of
        (JStr s, JStr t) \<Rightarrow> Inr (JStr (s @ t))
      | (JArr xs, _) \<Rightarrow> rbind (py_iter b) (\<lambda>ys. Inr (JArr (xs @ ys)))
      | _ \<Rightarrow> (case (py_num a, py_num b) of
                (Some p, Some q) \<Rightarrow> Inr (JNum (p + q)) | _ \<Rightarrow> Inl TypeError))"

definition assistant_message :: "json \<Rightarrow> json \<Rightarrow> reduction \<Rightarrow> (py_error, reduction) res" where
  "assistant_message message_id role st =
     rbind (check (hashable message_id) TypeError) (\<lambda>_. Inr
       (if dget (rd_messages st) message_id = None
        then st\<lparr>rd_messages := dput message_id
                  [(''id'', message_id), (''role'', role), (''content'', JStr [])] (rd_messages st),
                rd_order := rd_order st @ [message_id]\<rparr>
        else st))"

text \<open>Reading \<^verbatim>\<open>messages[id]\<close> and storing it back after it was changed in place.\<close>

definition message_of :: "json \<Rightarrow> reduction \<Rightarrow> (py_error, event) res" where
  "message_of message_id st =
     (case dget (rd_messages st) message_id of None \<Rightarrow> Inl (KeyError []) | Some m \<Rightarrow> Inr m)"

definition set_message :: "json \<Rightarrow> event \<Rightarrow> reduction \<Rightarrow> reduction" where
  "set_message message_id m st = st\<lparr>rd_messages := dput message_id m (rd_messages st)\<rparr>"

definition add_content :: "json \<Rightarrow> json \<Rightarrow> reduction \<Rightarrow> (py_error, reduction) res" where
  "add_content message_id delta st =
     rbind (message_of message_id st) (\<lambda>m.
     rbind (py_sub ''content'' m) (\<lambda>content.
     rbind (py_iadd content delta) (\<lambda>content'.
       Inr (set_message message_id (dput ''content'' content' m) st))))"

text \<open>
  \<^verbatim>\<open>for tool_call in ...: if tool_call["id"] == call_id: ...; break\<close>, with the change \<open>f\<close> of the
  first match.
\<close>

fun update_first_call ::
  "json \<Rightarrow> (event \<Rightarrow> (py_error, event) res) \<Rightarrow> json list \<Rightarrow> (py_error, json list) res" where
  "update_first_call call_id f [] = Inr []"
| "update_first_call call_id f (c # cs) =
     (case c of
        JObj d \<Rightarrow> rbind (py_sub ''id'' d) (\<lambda>i.
          if i = call_id then rbind (f d) (\<lambda>d'. Inr (JObj d' # cs))
          else rbind (update_first_call call_id f cs) (\<lambda>cs'. Inr (c # cs')))
      | _ \<Rightarrow> Inl TypeError)"

definition update_tool_call ::
  "json \<Rightarrow> (event \<Rightarrow> (py_error, event) res) \<Rightarrow> reduction \<Rightarrow> (py_error, reduction) res" where
  "update_tool_call call_id f st =
     rbind (check (hashable call_id) TypeError) (\<lambda>_.
     case dget (rd_tool_call_parent st) call_id of
       None \<Rightarrow> Inr st
     | Some parent_id \<Rightarrow>
         if parent_id = JNull then Inr st
         else rbind (message_of parent_id st) (\<lambda>m.
           case dget m ''toolCalls'' of
             None \<Rightarrow> Inr st
           | Some calls \<Rightarrow>
               rbind (py_iter calls) (\<lambda>cs.
               rbind (update_first_call call_id f cs) (\<lambda>cs'.
                 Inr (set_message parent_id (dput ''toolCalls'' (JArr cs') m) st)))))"

definition add_arguments :: "json \<Rightarrow> event \<Rightarrow> (py_error, event) res" where
  "add_arguments delta call =
     rbind (py_sub ''function'' call) (\<lambda>f.
     case f of
       JObj fd \<Rightarrow> rbind (py_sub ''arguments'' fd) (\<lambda>a.
         rbind (py_iadd a delta) (\<lambda>a'. Inr (dput ''function'' (JObj (dput ''arguments'' a' fd)) call)))
     | _ \<Rightarrow> Inl TypeError)"

definition start_tool_call :: "event \<Rightarrow> reduction \<Rightarrow> (py_error, reduction) res" where
  "start_tool_call e st =
     rbind (py_sub ''toolCallId'' e) (\<lambda>call_id.
     rbind (check (hashable call_id) TypeError) (\<lambda>_.
     let parent_id = jor (dget_j ''parentMessageId'' e) call_id;
         st = st\<lparr>rd_tool_call_parent := dput call_id parent_id (rd_tool_call_parent st)\<rparr>
     in rbind (assistant_message parent_id (JStr ''assistant'') st) (\<lambda>st.
        rbind (message_of parent_id st) (\<lambda>m.
        rbind (py_sub ''toolCallName'' e) (\<lambda>name.
        case dget_or ''toolCalls'' (JArr []) m of
          JArr calls \<Rightarrow> Inr (set_message parent_id
            (dput ''toolCalls'' (JArr (calls @ [JObj
               [(''id'', call_id), (''type'', JStr ''function''),
                (''function'', JObj [(''name'', name), (''arguments'', JStr [])])]])) m) st)
        | _ \<Rightarrow> Inl AttributeError)))))"

definition tool_result :: "event \<Rightarrow> reduction \<Rightarrow> (py_error, reduction) res" where
  "tool_result e st =
     rbind (py_sub ''messageId'' e) (\<lambda>message_id.
     rbind (py_sub ''toolCallId'' e) (\<lambda>call_id.
     rbind (check (hashable message_id) TypeError) (\<lambda>_.
       Inr (st\<lparr>rd_messages := dput message_id
                 [(''id'', message_id), (''role'', JStr ''tool''),
                  (''content'', dget_or ''content'' (JStr []) e), (''toolCallId'', call_id)]
                 (rd_messages st),
               rd_order := rd_order st @ [message_id]\<rparr>))))"

definition encrypted_value :: "event \<Rightarrow> reduction \<Rightarrow> (py_error, reduction) res" where
  "encrypted_value e st =
     rbind (py_sub ''entityId'' e) (\<lambda>entity_id.
     rbind (py_sub ''subtype'' e) (\<lambda>subtype.
       if subtype = JStr ''message'' then
         rbind (check (hashable entity_id) TypeError) (\<lambda>_.
         case dget (rd_messages st) entity_id of
           None \<Rightarrow> Inr st
         | Some m \<Rightarrow> rbind (py_sub ''encryptedValue'' e) (\<lambda>v.
             Inr (set_message entity_id (dput ''encryptedValue'' v m) st)))
       else update_tool_call entity_id
         (\<lambda>call. rbind (py_sub ''encryptedValue'' e) (\<lambda>v. Inr (dput ''encryptedValue'' v call))) st))"

definition message_content :: "json \<Rightarrow> event \<Rightarrow> reduction \<Rightarrow> (py_error, reduction) res" where
  "message_content role e st =
     rbind (py_sub ''messageId'' e) (\<lambda>i.
     rbind (assistant_message i role st) (\<lambda>st. add_content i (dget_or ''delta'' (JStr []) e) st))"

definition message_start :: "json \<Rightarrow> event \<Rightarrow> reduction \<Rightarrow> (py_error, reduction) res" where
  "message_start role e st = rbind (py_sub ''messageId'' e) (\<lambda>i. assistant_message i role st)"

definition tool_call_args :: "event \<Rightarrow> reduction \<Rightarrow> (py_error, reduction) res" where
  "tool_call_args e st =
     rbind (py_sub ''toolCallId'' e) (\<lambda>call_id.
       update_tool_call call_id (add_arguments (dget_or ''delta'' (JStr []) e)) st)"

definition reduce_event :: "event \<Rightarrow> reduction \<Rightarrow> (py_error, reduction) res" where
  "reduce_event e st =
     (let etype = event_type e in
      if etype = TEXT_MESSAGE_START then message_start (dget_or ''role'' (JStr ''assistant'') e) e st
      else if etype = TEXT_MESSAGE_CONTENT then message_content (JStr ''assistant'') e st
      else if etype = REASONING_MESSAGE_START then message_start (JStr ''reasoning'') e st
      else if etype = REASONING_MESSAGE_CONTENT then message_content (JStr ''reasoning'') e st
      else if etype = REASONING_ENCRYPTED_VALUE then encrypted_value e st
      else if etype = TOOL_CALL_START then start_tool_call e st
      else if etype = TOOL_CALL_ARGS then tool_call_args e st
      else if etype = TOOL_CALL_RESULT then tool_result e st
      else Inr st)"

definition reduce_events_to_messages :: "event list \<Rightarrow> (py_error, event list) res" where
  "reduce_events_to_messages events =
     rbind (mfold reduce_event events empty_reduction) (\<lambda>st.
       mfold (\<lambda>i out. rbind (message_of i st) (\<lambda>m. Inr (out @ [m]))) (rd_order st) [])"


section \<open>The shape every accumulator keeps\<close>

definition call_ok :: "json \<Rightarrow> bool" where
  "call_ok c \<longleftrightarrow> (\<exists>d fd a. c = JObj d \<and> dget d ''id'' \<noteq> None \<and> dget d ''function'' = Some (JObj fd)
     \<and> dget fd ''arguments'' = Some (JStr a))"

definition message_ok :: "json \<Rightarrow> event \<Rightarrow> bool" where
  "message_ok i m \<longleftrightarrow> dget m ''id'' = Some i \<and> (\<exists>s. dget m ''content'' = Some (JStr s)) \<and>
     (\<forall>v. dget m ''toolCalls'' = Some v \<longrightarrow> (\<exists>cs. v = JArr cs \<and> list_all call_ok cs))"

definition reduction_ok :: "reduction \<Rightarrow> bool" where
  "reduction_ok st \<longleftrightarrow>
     (\<forall>i. i \<in> set (rd_order st) \<longleftrightarrow> dget (rd_messages st) i \<noteq> None) \<and>
     (\<forall>i m. dget (rd_messages st) i = Some m \<longrightarrow> message_ok i m) \<and>
     (\<forall>c p. dget (rd_tool_call_parent st) c = Some p \<and> p \<noteq> JNull \<longrightarrow> dget (rd_messages st) p \<noteq> None)"

definition text_at :: "reduction \<Rightarrow> json \<Rightarrow> json" where
  "text_at st i = (case dget (rd_messages st) i of None \<Rightarrow> JStr [] | Some m \<Rightarrow> dget_j ''content'' m)"

text \<open>A step that leaves the transcript (ids in order, content under each id) as it was.\<close>

definition same_transcript :: "reduction \<Rightarrow> reduction \<Rightarrow> bool" where
  "same_transcript st st' \<longleftrightarrow> rd_order st' = rd_order st \<and> text_at st' = text_at st"

lemma reduction_okD:
  assumes "reduction_ok st"
  shows "i \<in> set (rd_order st) \<longleftrightarrow> dget (rd_messages st) i \<noteq> None"
    and "dget (rd_messages st) i = Some m \<Longrightarrow> message_ok i m"
    and "dget (rd_tool_call_parent st) c = Some p \<Longrightarrow> p \<noteq> JNull \<Longrightarrow> dget (rd_messages st) p \<noteq> None"
  using assms by (auto simp: reduction_ok_def)

lemma set_message_ok:
  assumes "reduction_ok st" "dget (rd_messages st) i \<noteq> None" "message_ok i m"
  shows "reduction_ok (set_message i m st)"
  using assms by (auto simp: reduction_ok_def set_message_def)

lemma set_message_same_transcript:
  assumes "dget (rd_messages st) i = Some m" "dget_j ''content'' m' = dget_j ''content'' m"
  shows "same_transcript st (set_message i m' st)"
  using assms by (auto simp: same_transcript_def set_message_def text_at_def fun_eq_iff)

lemma assistant_message_step:
  assumes ok: "reduction_ok st" and str: "hashable i"
  obtains st' where "assistant_message i role st = Inr st'" "reduction_ok st'"
    "rd_order st' = (if i \<in> set (rd_order st) then rd_order st else rd_order st @ [i])"
    "text_at st' = text_at st" "dget (rd_messages st') i \<noteq> None"
    "rd_tool_call_parent st' = rd_tool_call_parent st"
proof (cases "dget (rd_messages st) i = None")
  case True
  define m where "m = [(''id'', i), (''role'', role), (''content'', JStr [])]"
  define st' where "st' = st\<lparr>rd_messages := dput i m (rd_messages st), rd_order := rd_order st @ [i]\<rparr>"
  have "message_ok i m" by (simp add: message_ok_def m_def)
  with ok True have "reduction_ok st'" by (auto simp: reduction_ok_def st'_def)
  moreover have "text_at st' = text_at st"
    using True by (auto simp: fun_eq_iff text_at_def st'_def m_def dget_j_def)
  moreover have "assistant_message i role st = Inr st'"
    using True str by (simp add: assistant_message_def st'_def m_def)
  ultimately show ?thesis using that [of st'] True reduction_okD(1) [OF ok] by (simp add: st'_def)
next
  case False
  then show ?thesis using that [of st] ok str reduction_okD(1) [OF ok] by (simp add: assistant_message_def)
qed

lemma add_content_step:
  assumes ok: "reduction_ok st" and i: "dget (rd_messages st) i \<noteq> None"
  obtains st' s where "add_content i (JStr t) st = Inr st'" "reduction_ok st'"
    "rd_order st' = rd_order st" "text_at st i = JStr s"
    "text_at st' = (text_at st)(i := JStr (s @ t))"
proof -
  from i obtain m where m: "dget (rd_messages st) i = Some m" by blast
  with ok have mok: "message_ok i m" by (rule reduction_okD(2))
  then obtain s where s: "dget m ''content'' = Some (JStr s)" by (auto simp: message_ok_def)
  define st' where "st' = set_message i (dput ''content'' (JStr (s @ t)) m) st"
  have "add_content i (JStr t) st = Inr st'"
    using m s by (simp add: add_content_def message_of_def py_sub_def py_iadd_def st'_def)
  moreover have "reduction_ok st'"
    unfolding st'_def using mok i by (intro set_message_ok [OF ok]) (auto simp: message_ok_def)
  ultimately show ?thesis
    using that [of st' s] m s
    by (auto simp: st'_def set_message_def text_at_def dget_j_def fun_eq_iff)
qed

lemma update_first_call_ok:
  assumes "list_all call_ok cs"
    and "\<And>d. call_ok (JObj d) \<Longrightarrow> \<exists>d'. f d = Inr d' \<and> call_ok (JObj d')"
  shows "\<exists>cs'. update_first_call c f cs = Inr cs' \<and> list_all call_ok cs'"
  using assms(1)
proof (induction cs)
  case (Cons x cs)
  then obtain d i where x: "x = JObj d" and i: "dget d ''id'' = Some i" and xok: "call_ok (JObj d)"
    by (auto simp: call_ok_def)
  from assms(2) [OF xok] obtain d' where d': "f d = Inr d'" "call_ok (JObj d')" by blast
  from Cons obtain cs' where "update_first_call c f cs = Inr cs'" "list_all call_ok cs'" by auto
  then show ?case using Cons.prems x i d' xok by (simp add: py_sub_def)
qed simp

lemma update_tool_call_step:
  assumes ok: "reduction_ok st" and c: "hashable c"
    and f: "\<And>d. call_ok (JObj d) \<Longrightarrow> \<exists>d'. f d = Inr d' \<and> call_ok (JObj d')"
  obtains st' where "update_tool_call c f st = Inr st'" "reduction_ok st'" "same_transcript st st'"
proof (cases "\<exists>p. dget (rd_tool_call_parent st) c = Some p \<and> p \<noteq> JNull")
  case False
  then have "update_tool_call c f st = Inr st"
    using c by (auto simp: update_tool_call_def split: option.splits)
  then show ?thesis using that ok by (simp add: same_transcript_def)
next
  case True
  then obtain p where p: "dget (rd_tool_call_parent st) c = Some p" "p \<noteq> JNull" by blast
  with reduction_okD(3) [OF ok] obtain m where m: "dget (rd_messages st) p = Some m" by blast
  then have mok: "message_ok p m" by (rule reduction_okD(2) [OF ok])
  show ?thesis
  proof (cases "dget m ''toolCalls''")
    case None
    then have "update_tool_call c f st = Inr st"
      using c p m by (simp add: update_tool_call_def message_of_def)
    then show ?thesis using that ok by (simp add: same_transcript_def)
  next
    case (Some v)
    with mok obtain cs where v: "v = JArr cs" "list_all call_ok cs" by (auto simp: message_ok_def)
    from update_first_call_ok [OF v(2), of f c] f obtain cs' where
      cs': "update_first_call c f cs = Inr cs'" "list_all call_ok cs'" by auto
    define m' where "m' = dput ''toolCalls'' (JArr cs') m"
    have "update_tool_call c f st = Inr (set_message p m' st)"
      using c p m Some v cs' by (simp add: update_tool_call_def message_of_def m'_def)
    moreover have "reduction_ok (set_message p m' st)"
      using mok cs' m by (intro set_message_ok [OF ok]) (auto simp: message_ok_def m'_def)
    moreover have "same_transcript st (set_message p m' st)"
      by (rule set_message_same_transcript [OF m]) (simp add: m'_def dget_j_def)
    ultimately show ?thesis using that by blast
  qed
qed


section \<open>Well-shaped events and the transcript they amount to\<close>

definition str_field :: "string \<Rightarrow> event \<Rightarrow> bool" where
  "str_field k e \<longleftrightarrow> (case dget e k of Some (JStr s) \<Rightarrow> True | _ \<Rightarrow> False)"

definition opt_str_field :: "string \<Rightarrow> event \<Rightarrow> bool" where
  "opt_str_field k e \<longleftrightarrow> dget e k = None \<or> str_field k e"

text \<open>The fields AG-UI's own event models require of the events the reduction reads.\<close>

definition event_shaped :: "event \<Rightarrow> bool" where
  "event_shaped e \<longleftrightarrow>
     (let t = event_type e in
      if t = TEXT_MESSAGE_START \<or> t = REASONING_MESSAGE_START then str_field ''messageId'' e
      else if t = TEXT_MESSAGE_CONTENT \<or> t = REASONING_MESSAGE_CONTENT then
        str_field ''messageId'' e \<and> opt_str_field ''delta'' e
      else if t = REASONING_ENCRYPTED_VALUE then
        str_field ''entityId'' e \<and> str_field ''subtype'' e \<and> str_field ''encryptedValue'' e
      else if t = TOOL_CALL_START then
        str_field ''toolCallId'' e \<and> str_field ''toolCallName'' e \<and>
        (opt_str_field ''parentMessageId'' e \<or> dget e ''parentMessageId'' = Some JNull)
      else if t = TOOL_CALL_ARGS then str_field ''toolCallId'' e \<and> opt_str_field ''delta'' e
      else if t = TOOL_CALL_RESULT then
        str_field ''messageId'' e \<and> str_field ''toolCallId'' e \<and> opt_str_field ''content'' e
      else True)"

definition content_event :: "event \<Rightarrow> bool" where
  "content_event e \<longleftrightarrow> event_type e \<in> {TEXT_MESSAGE_CONTENT, REASONING_MESSAGE_CONTENT}"

text \<open>The message an event introduces when no earlier one did.\<close>

definition introduces :: "event \<Rightarrow> json option" where
  "introduces e =
     (if event_type e \<in> {TEXT_MESSAGE_START, REASONING_MESSAGE_START} \<or> content_event e
      then Some (dget_j ''messageId'' e)
      else if event_type e = TOOL_CALL_START
      then Some (jor (dget_j ''parentMessageId'' e) (dget_j ''toolCallId'' e))
      else None)"

definition order_step :: "event \<Rightarrow> json list \<Rightarrow> json list" where
  "order_step e ids =
     (if event_type e = TOOL_CALL_RESULT then ids @ [dget_j ''messageId'' e]
      else case introduces e of
             None \<Rightarrow> ids | Some i \<Rightarrow> if i \<in> set ids then ids else ids @ [i])"

definition text_step :: "json \<Rightarrow> event \<Rightarrow> string \<Rightarrow> string" where
  "text_step i e s =
     (if dget_j ''messageId'' e \<noteq> i then s
      else if content_event e then s @ jstr (dget_j ''delta'' e)
      else if event_type e = TOOL_CALL_RESULT then jstr (dget_j ''content'' e)
      else s)"

definition transcript_ids :: "event list \<Rightarrow> json list" where
  "transcript_ids events = fold order_step events []"

definition transcript_text :: "json \<Rightarrow> event list \<Rightarrow> string" where
  "transcript_text i events = fold (text_step i) events []"

definition follows :: "reduction \<Rightarrow> event \<Rightarrow> reduction \<Rightarrow> bool" where
  "follows st e st' \<longleftrightarrow> reduction_ok st' \<and> rd_order st' = order_step e (rd_order st) \<and>
     (\<forall>i s. text_at st i = JStr s \<longrightarrow> text_at st' i = JStr (text_step i e s))"

lemma follows_same:
  "reduction_ok st' \<Longrightarrow> same_transcript st st' \<Longrightarrow> order_step e (rd_order st) = rd_order st \<Longrightarrow>
   (\<And>i s. text_step i e s = s) \<Longrightarrow> follows st e st'"
  by (simp add: follows_def same_transcript_def)

lemma str_fieldE: "str_field k e \<Longrightarrow> (\<And>s. dget e k = Some (JStr s) \<Longrightarrow> P) \<Longrightarrow> P"
  by (auto simp: str_field_def split: option.splits json.splits)

lemma opt_str_field_default:
  "opt_str_field k e \<Longrightarrow> dget_or k (JStr []) e = JStr (jstr (dget_j k e))"
  by (auto simp: opt_str_field_def str_field_def dget_or_def dget_j_def jstr_def
      split: option.splits json.splits)

lemma message_start_follows:
  assumes "reduction_ok st" and m: "str_field ''messageId'' e"
    and t: "event_type e \<in> {TEXT_MESSAGE_START, REASONING_MESSAGE_START}"
  shows "\<exists>st'. message_start role e st = Inr st' \<and> follows st e st'"
proof -
  from m obtain i where i: "dget e ''messageId'' = Some (JStr i)" by (rule str_fieldE)
  obtain st' where st': "assistant_message (JStr i) role st = Inr st'" "reduction_ok st'"
    "rd_order st' = (if JStr i \<in> set (rd_order st) then rd_order st else rd_order st @ [JStr i])"
    "text_at st' = text_at st"
    by (rule assistant_message_step [OF assms(1)]) auto
  have "follows st e st'"
    using st' i t by (auto simp: follows_def order_step_def introduces_def content_event_def text_step_def
        dget_j_def reduce_types)
  then show ?thesis using st' i by (simp add: message_start_def py_sub_def)
qed

lemma message_content_follows:
  assumes "reduction_ok st" and m: "str_field ''messageId'' e" and d: "opt_str_field ''delta'' e"
    and t: "content_event e"
  shows "\<exists>st'. message_content role e st = Inr st' \<and> follows st e st'"
proof -
  from m obtain i where i: "dget e ''messageId'' = Some (JStr i)" by (rule str_fieldE)
  obtain st1 where st1: "assistant_message (JStr i) role st = Inr st1" "reduction_ok st1"
    "rd_order st1 = (if JStr i \<in> set (rd_order st) then rd_order st else rd_order st @ [JStr i])"
    "text_at st1 = text_at st" "dget (rd_messages st1) (JStr i) \<noteq> None"
    by (rule assistant_message_step [OF assms(1)]) auto
  obtain st' s where st': "add_content (JStr i) (JStr (jstr (dget_j ''delta'' e))) st1 = Inr st'"
    "reduction_ok st'" "rd_order st' = rd_order st1" "text_at st1 (JStr i) = JStr s"
    "text_at st' = (text_at st1)(JStr i := JStr (s @ jstr (dget_j ''delta'' e)))"
    by (rule add_content_step [OF st1(2,5)])
  have not_result: "event_type e \<noteq> TOOL_CALL_RESULT"
    using t by (auto simp: content_event_def reduce_types)
  have "follows st e st'"
    using st' st1 i t not_result
    by (auto simp: follows_def order_step_def introduces_def text_step_def dget_j_def)
  then show ?thesis
    using st' st1 i by (simp add: message_content_def py_sub_def opt_str_field_default [OF d])
qed

lemma encrypted_value_follows:
  assumes ok: "reduction_ok st" and "str_field ''entityId'' e" "str_field ''subtype'' e"
    "str_field ''encryptedValue'' e" and t: "event_type e = REASONING_ENCRYPTED_VALUE"
  shows "\<exists>st'. encrypted_value e st = Inr st' \<and> follows st e st'"
proof -
  from assms obtain i sub v where f: "dget e ''entityId'' = Some (JStr i)"
    "dget e ''subtype'' = Some (JStr sub)" "dget e ''encryptedValue'' = Some (JStr v)"
    by (auto elim!: str_fieldE)
  have quiet: "order_step e ids = ids" "text_step j e s = s" for ids j s
    using t by (simp_all add: order_step_def introduces_def content_event_def text_step_def reduce_types)
  show ?thesis
  proof (cases "sub = ''message''")
    case False
    have g: "\<exists>d'. rbind (py_sub ''encryptedValue'' e) (\<lambda>v. Inr (dput ''encryptedValue'' v d)) = Inr d'
        \<and> call_ok (JObj d')" if "call_ok (JObj d)" for d
      using that f by (auto simp: py_sub_def call_ok_def)
    show ?thesis
      by (rule update_tool_call_step [OF ok _ g, of "JStr i"])
         (use f False quiet in \<open>auto simp: encrypted_value_def py_sub_def follows_def same_transcript_def\<close>)
  next
    case True
    show ?thesis
    proof (cases "dget (rd_messages st) (JStr i)")
      case None
      then show ?thesis using f True ok quiet
        by (auto simp: encrypted_value_def py_sub_def follows_def)
    next
      case (Some m)
      define st' where "st' = set_message (JStr i) (dput ''encryptedValue'' (JStr v) m) st"
      have "reduction_ok st'"
        using Some reduction_okD(2) [OF ok Some] unfolding st'_def
        by (intro set_message_ok [OF ok]) (auto simp: message_ok_def)
      moreover have "same_transcript st st'" unfolding st'_def
        by (rule set_message_same_transcript [OF Some]) (simp add: dget_j_def)
      ultimately have "follows st e st'" using quiet by (intro follows_same)
      then show ?thesis using f True Some by (simp add: encrypted_value_def py_sub_def st'_def)
    qed
  qed
qed


lemma tool_call_args_follows:
  assumes ok: "reduction_ok st" and c: "str_field ''toolCallId'' e" and d: "opt_str_field ''delta'' e"
    and t: "event_type e = TOOL_CALL_ARGS"
  shows "\<exists>st'. tool_call_args e st = Inr st' \<and> follows st e st'"
proof -
  from c obtain i where i: "dget e ''toolCallId'' = Some (JStr i)" by (rule str_fieldE)
  have quiet: "order_step e ids = ids" "text_step j e s = s" for ids j s
    using t by (simp_all add: order_step_def introduces_def content_event_def text_step_def reduce_types)
  have g: "\<exists>d'. add_arguments (JStr x) d = Inr d' \<and> call_ok (JObj d')" if "call_ok (JObj d)" for d x
    using that by (auto simp: add_arguments_def py_sub_def call_ok_def py_iadd_def)
  show ?thesis
    by (rule update_tool_call_step [OF ok _ g [where x = "jstr (dget_j ''delta'' e)"], of "JStr i"])
       (use i quiet in \<open>auto simp: tool_call_args_def py_sub_def follows_def same_transcript_def
          opt_str_field_default [OF d]\<close>)
qed

lemma tool_result_follows:
  assumes ok: "reduction_ok st" and "str_field ''messageId'' e" "str_field ''toolCallId'' e"
    and content: "opt_str_field ''content'' e" and t: "event_type e = TOOL_CALL_RESULT"
  shows "\<exists>st'. tool_result e st = Inr st' \<and> follows st e st'"
proof -
  from assms obtain i c where f: "dget e ''messageId'' = Some (JStr i)"
    "dget e ''toolCallId'' = Some (JStr c)" by (auto elim!: str_fieldE)
  define m where "m = [(''id'', JStr i), (''role'', JStr ''tool''),
    (''content'', JStr (jstr (dget_j ''content'' e))), (''toolCallId'', JStr c)]"
  define st' where "st' = st\<lparr>rd_messages := dput (JStr i) m (rd_messages st),
    rd_order := rd_order st @ [JStr i]\<rparr>"
  have "message_ok (JStr i) m" by (simp add: message_ok_def m_def)
  with ok have "reduction_ok st'" by (auto simp: reduction_ok_def st'_def)
  moreover have "text_at st' j = JStr (text_step j e s)" if "text_at st j = JStr s" for j s
    using that f t by (auto simp: text_at_def st'_def m_def text_step_def content_event_def dget_j_def
        reduce_types)
  ultimately have "follows st e st'"
    using f t by (simp add: follows_def order_step_def st'_def dget_j_def)
  then show ?thesis
    using f by (simp add: tool_result_def py_sub_def opt_str_field_default [OF content] st'_def m_def)
qed

lemma start_tool_call_follows:
  assumes ok: "reduction_ok st" and "str_field ''toolCallId'' e" "str_field ''toolCallName'' e"
    and parent: "opt_str_field ''parentMessageId'' e \<or> dget e ''parentMessageId'' = Some JNull"
    and t: "event_type e = TOOL_CALL_START"
  shows "\<exists>st'. start_tool_call e st = Inr st' \<and> follows st e st'"
proof -
  from assms obtain c n where f: "dget e ''toolCallId'' = Some (JStr c)"
    "dget e ''toolCallName'' = Some (JStr n)" by (auto elim!: str_fieldE)
  define p where "p = jor (dget_j ''parentMessageId'' e) (JStr c)"
  have "\<exists>s. p = JStr s"
    using parent by (auto simp: p_def jor_def opt_str_field_def dget_j_def elim!: str_fieldE)
  then obtain ps where p: "p = JStr ps" ..
  define st0 where "st0 = st\<lparr>rd_tool_call_parent := dput (JStr c) p (rd_tool_call_parent st)\<rparr>"
  define st_m where "st_m = st\<lparr>rd_tool_call_parent := []\<rparr>"
  have okm: "reduction_ok st_m" using ok by (auto simp: reduction_ok_def st_m_def)
  obtain st1 where st1: "assistant_message p (JStr ''assistant'') st_m = Inr st1" "reduction_ok st1"
    "rd_order st1 = (if p \<in> set (rd_order st) then rd_order st else rd_order st @ [p])"
    "text_at st1 = text_at st" "dget (rd_messages st1) p \<noteq> None"
    by (rule assistant_message_step [OF okm, of p "JStr ''assistant''"])
       (auto simp: p st_m_def text_at_def fun_eq_iff)
  define st2 where "st2 = st1\<lparr>rd_tool_call_parent := dput (JStr c) p (rd_tool_call_parent st)\<rparr>"
  have am: "assistant_message p (JStr ''assistant'') st0 = Inr st2"
    using st1(1) by (auto simp: assistant_message_def p st0_def st_m_def st2_def)
  have "dget (rd_messages st1) q \<noteq> None" if "dget (rd_messages st) q \<noteq> None" for q
    using that reduction_okD(1) [OF ok] reduction_okD(1) [OF st1(2)] st1(3) by (metis UnCI set_append)
  then have ok2: "reduction_ok st2"
    using st1(2,5) reduction_okD(3) [OF ok] by (auto simp: reduction_ok_def st2_def)
  from st1(5) obtain m where m: "dget (rd_messages st2) p = Some m" by (auto simp: st2_def)
  then have mok: "message_ok p m" by (rule reduction_okD(2) [OF ok2])
  then obtain calls where calls: "dget_or ''toolCalls'' (JArr []) m = JArr calls" "list_all call_ok calls"
    by (cases "dget m ''toolCalls''") (auto simp: message_ok_def dget_or_def)
  define m' where "m' = dput ''toolCalls'' (JArr (calls @ [JObj
     [(''id'', JStr c), (''type'', JStr ''function''),
      (''function'', JObj [(''name'', JStr n), (''arguments'', JStr [])])]])) m"
  have run: "start_tool_call e st = Inr (set_message p m' st2)"
    using f am m calls unfolding p_def
    by (simp add: start_tool_call_def py_sub_def Let_def st0_def message_of_def m'_def p_def)
  have "message_ok p m'" using mok calls by (auto simp: message_ok_def m'_def call_ok_def)
  then have ok3: "reduction_ok (set_message p m' st2)" using ok2 m by (intro set_message_ok) auto
  have "same_transcript st2 (set_message p m' st2)"
    by (rule set_message_same_transcript [OF m]) (simp add: m'_def dget_j_def)
  then have "follows st e (set_message p m' st2)"
    using ok3 st1(3,4) f t unfolding follows_def same_transcript_def p_def
    by (auto simp: order_step_def introduces_def text_step_def content_event_def dget_j_def st2_def
        text_at_def fun_eq_iff reduce_types)
  then show ?thesis using run by blast
qed

lemma reduce_event_follows:
  assumes "reduction_ok st" "event_shaped e"
  shows "\<exists>st'. reduce_event e st = Inr st' \<and> follows st e st'"
proof -
  consider (start) "event_type e \<in> {TEXT_MESSAGE_START, REASONING_MESSAGE_START}"
    | (content) "content_event e" | (enc) "event_type e = REASONING_ENCRYPTED_VALUE"
    | (tstart) "event_type e = TOOL_CALL_START" | (args) "event_type e = TOOL_CALL_ARGS"
    | (result) "event_type e = TOOL_CALL_RESULT"
    | (other) "event_type e \<notin> {TEXT_MESSAGE_START, REASONING_MESSAGE_START, TEXT_MESSAGE_CONTENT,
        REASONING_MESSAGE_CONTENT, REASONING_ENCRYPTED_VALUE, TOOL_CALL_START, TOOL_CALL_ARGS,
        TOOL_CALL_RESULT}"
    by (auto simp: content_event_def)
  then show ?thesis
  proof cases
    case start
    then show ?thesis using assms message_start_follows [OF assms(1) _ start]
      by (auto simp: reduce_event_def event_shaped_def Let_def reduce_types)
  next
    case content
    then show ?thesis using assms message_content_follows [OF assms(1) _ _ content]
      by (auto simp: reduce_event_def event_shaped_def Let_def content_event_def reduce_types)
  next
    case enc
    then show ?thesis using assms encrypted_value_follows [OF assms(1) _ _ _ enc]
      by (auto simp: reduce_event_def event_shaped_def Let_def reduce_types)
  next
    case tstart
    then show ?thesis using assms start_tool_call_follows [OF assms(1) _ _ _ tstart]
      by (auto simp: reduce_event_def event_shaped_def Let_def reduce_types)
  next
    case args
    then show ?thesis using assms tool_call_args_follows [OF assms(1) _ _ args]
      by (auto simp: reduce_event_def event_shaped_def Let_def reduce_types)
  next
    case result
    then show ?thesis using assms tool_result_follows [OF assms(1) _ _ _ result]
      by (auto simp: reduce_event_def event_shaped_def Let_def reduce_types)
  next
    case other
    then show ?thesis using assms(1)
      by (auto simp: reduce_event_def follows_def order_step_def introduces_def text_step_def
          content_event_def Let_def)
  qed
qed

lemma reduce_events_follow:
  assumes "list_all event_shaped events" "reduction_ok st" "\<And>i. text_at st i = JStr (said i)"
  shows "\<exists>st'. mfold reduce_event events st = Inr st' \<and> reduction_ok st' \<and>
    rd_order st' = fold order_step events (rd_order st) \<and>
    (\<forall>i. text_at st' i = JStr (fold (text_step i) events (said i)))"
  using assms
proof (induction events arbitrary: st said)
  case (Cons e events)
  then obtain st1 where st1: "reduce_event e st = Inr st1" "follows st e st1"
    using reduce_event_follows [of st e] by auto
  with Cons show ?case
    using Cons.IH [of st1 "\<lambda>i. text_step i e (said i)"] by (auto simp: follows_def)
qed simp

lemma collect_messages:
  assumes "\<And>i. i \<in> set ids \<Longrightarrow> message_of i st = Inr (f i)"
  shows "mfold (\<lambda>i out. rbind (message_of i st) (\<lambda>m. Inr (out @ [m]))) ids out = Inr (out @ map f ids)"
  using assms by (induction ids arbitrary: out) simp_all

text \<open>
  Reducing a log never fails on well-shaped events and gives the fold of their steps, tool results that reuse an id included.
\<close>

lemma reduction_folds:
  assumes "list_all event_shaped events"
  shows "\<exists>msgs. reduce_events_to_messages events = Inr msgs \<and>
    map (\<lambda>m. (dget_j ''id'' m, dget_j ''content'' m)) msgs =
    map (\<lambda>i. (i, JStr (transcript_text i events))) (transcript_ids events)"
proof -
  have "reduction_ok empty_reduction" "\<And>i. text_at empty_reduction i = JStr []"
    by (simp_all add: empty_reduction_def reduction_ok_def text_at_def)
  from reduce_events_follow [OF assms this] obtain st where
    st: "mfold reduce_event events empty_reduction = Inr st" "reduction_ok st"
      "rd_order st = transcript_ids events" "\<And>i. text_at st i = JStr (transcript_text i events)"
    by (auto simp: transcript_ids_def transcript_text_def empty_reduction_def)
  define f where "f i = the (dget (rd_messages st) i)" for i
  have some: "dget (rd_messages st) i = Some (f i)" if "i \<in> set (rd_order st)" for i
    using that reduction_okD(1) [OF st(2)] by (auto simp: f_def)
  have "reduce_events_to_messages events = Inr (map f (rd_order st))"
    using st(1) collect_messages [of "rd_order st" st f "[]"] some
    by (simp add: reduce_events_to_messages_def message_of_def)
  moreover have "(dget_j ''id'' (f i), dget_j ''content'' (f i)) = (i, JStr (transcript_text i events))"
    if "i \<in> set (rd_order st)" for i
    using some [OF that] st(4) [of i] reduction_okD(2) [OF st(2) some [OF that]]
    by (simp add: text_at_def message_ok_def dget_j_def)
  ultimately show ?thesis by (simp add: st(3))
qed

text \<open>
  The transcript a log amounts to, stated without the fold: the message an event belongs to, and what it adds to it. A tool result is a
  message of its own, so its id is one nothing before it used.
\<close>

definition belongs_to :: "event \<Rightarrow> json option" where
  "belongs_to e = (if event_type e = TOOL_CALL_RESULT then Some (dget_j ''messageId'' e) else introduces e)"

definition adds_text :: "event \<Rightarrow> string" where
  "adds_text e =
     (if content_event e then jstr (dget_j ''delta'' e)
      else if event_type e = TOOL_CALL_RESULT then jstr (dget_j ''content'' e) else [])"

definition fresh_results :: "event list \<Rightarrow> bool" where
  "fresh_results events \<longleftrightarrow>
     sorted_wrt (\<lambda>earlier e. event_type e = TOOL_CALL_RESULT \<longrightarrow> belongs_to earlier \<noteq> belongs_to e) events"

definition in_order_of_appearance :: "'a list \<Rightarrow> 'a list" where
  "in_order_of_appearance xs = rev (remdups (rev xs))"

definition said_under :: "json \<Rightarrow> event list \<Rightarrow> string" where
  "said_under i events = concat (map adds_text (filter (\<lambda>e. belongs_to e = Some i) events))"

lemma appearance_snoc:
  "in_order_of_appearance (xs @ [x]) = (if x \<in> set xs then in_order_of_appearance xs else in_order_of_appearance xs @ [x])"
  by (simp add: in_order_of_appearance_def)

lemma set_appearance [simp]: "set (in_order_of_appearance xs) = set xs"
  by (simp add: in_order_of_appearance_def)

lemma fresh_results_snoc:
  "fresh_results (es @ [e]) \<longleftrightarrow> fresh_results es \<and>
     (event_type e = TOOL_CALL_RESULT \<longrightarrow> (\<forall>x \<in> set es. belongs_to x \<noteq> belongs_to e))"
  by (auto simp: fresh_results_def sorted_wrt_append)

lemma transcript_ids_appear:
  "fresh_results events \<Longrightarrow> transcript_ids events = in_order_of_appearance (List.map_filter belongs_to events)"
proof (induction events rule: rev_induct)
  case (snoc e es)
  let ?ids = "List.map_filter belongs_to es"
  have new: "i \<notin> set ?ids" if "event_type e = TOOL_CALL_RESULT" "belongs_to e = Some i" for i
    using snoc.prems that by (auto simp: fresh_results_snoc List.map_filter_def)
  have "transcript_ids (es @ [e]) = order_step e (in_order_of_appearance ?ids)"
    using snoc by (simp add: fresh_results_snoc transcript_ids_def)
  also have "\<dots> = (case belongs_to e of None \<Rightarrow> in_order_of_appearance ?ids | Some i \<Rightarrow> in_order_of_appearance (?ids @ [i]))"
    using new by (cases "event_type e = TOOL_CALL_RESULT"; cases "belongs_to e")
      (simp_all add: order_step_def belongs_to_def appearance_snoc)
  also have "\<dots> = in_order_of_appearance (List.map_filter belongs_to (es @ [e]))"
    by (cases "belongs_to e") (simp_all add: List.map_filter_def)
  finally show ?case .
qed (simp add: transcript_ids_def in_order_of_appearance_def map_filter_def)

lemma transcript_text_said: "fresh_results events \<Longrightarrow> transcript_text i events = said_under i events"
proof (induction events rule: rev_induct)
  case (snoc e es)
  have IH: "fold (text_step i) es [] = said_under i es" using snoc by (simp add: fresh_results_snoc transcript_text_def)
  have none: "said_under i es = []" if "event_type e = TOOL_CALL_RESULT" "belongs_to e = Some i"
    using snoc.prems that by (auto simp: fresh_results_snoc said_under_def)
  have "content_event e \<Longrightarrow> event_type e \<noteq> TOOL_CALL_RESULT \<and> belongs_to e = Some (dget_j ''messageId'' e)"
    by (auto simp: content_event_def belongs_to_def introduces_def reduce_types)
  moreover have "event_type e = TOOL_CALL_RESULT \<Longrightarrow> belongs_to e = Some (dget_j ''messageId'' e)"
    by (simp add: belongs_to_def)
  ultimately have "text_step i e (said_under i es) = said_under i es @ (if belongs_to e = Some i then adds_text e else [])"
    using none unfolding text_step_def adds_text_def by auto
  then show ?case using IH by (simp add: transcript_text_def said_under_def)
qed (simp add: transcript_text_def said_under_def)

text \<open>
  C28. Reducing a log of well-shaped events, in which a tool result's message id is one nothing before it used, never fails and gives
  the transcript: one message for each id the log speaks under, in the order each first appeared, whose content is the
  concatenation of everything the log says under that id.
\<close>

theorem reduction_is_the_transcript:
  assumes "list_all event_shaped events" and "fresh_results events"
  shows "\<exists>msgs. reduce_events_to_messages events = Inr msgs \<and>
    map (\<lambda>m. (dget_j ''id'' m, dget_j ''content'' m)) msgs =
    map (\<lambda>i. (i, JStr (said_under i events))) (in_order_of_appearance (List.map_filter belongs_to events))"
  using reduction_folds [OF assms(1)] unfolding transcript_ids_appear [OF assms(2)] transcript_text_said [OF assms(2)] .

definition demo_log :: "event list" where
  "demo_log =
     [[(''type'', JStr ''TEXT_MESSAGE_START''), (''messageId'', JStr ''m1'')],
      [(''type'', JStr ''TEXT_MESSAGE_CONTENT''), (''messageId'', JStr ''m1''), (''delta'', JStr ''he'')],
      [(''type'', JStr ''TOOL_CALL_START''), (''toolCallId'', JStr ''c1''), (''toolCallName'', JStr ''f''),
       (''parentMessageId'', JStr ''m1'')],
      [(''type'', JStr ''TOOL_CALL_ARGS''), (''toolCallId'', JStr ''c1''), (''delta'', JStr ''{}'')],
      [(''type'', JStr ''TOOL_CALL_RESULT''), (''messageId'', JStr ''m2''), (''toolCallId'', JStr ''c1''),
       (''content'', JStr ''ok'')],
      [(''type'', JStr ''TEXT_MESSAGE_CONTENT''), (''messageId'', JStr ''m1''), (''delta'', JStr ''llo'')]]"

theorem reduction_is_the_transcript_witness:
  "\<exists>msgs. reduce_events_to_messages demo_log = Inr msgs \<and>
     map (\<lambda>m. (dget_j ''id'' m, dget_j ''content'' m)) msgs =
     [(JStr ''m1'', JStr ''hello''), (JStr ''m2'', JStr ''ok'')]"
proof -
  have "list_all event_shaped demo_log"
    by (simp add: demo_log_def event_shaped_def event_type_def str_field_def opt_str_field_def
        dget_j_def reduce_types Let_def)
  moreover have "fresh_results demo_log" unfolding fresh_results_def by code_simp
  moreover have "map (\<lambda>i. (i, JStr (said_under i demo_log))) (in_order_of_appearance (List.map_filter belongs_to demo_log)) =
     [(JStr ''m1'', JStr ''hello''), (JStr ''m2'', JStr ''ok'')]"
    by code_simp
  ultimately show ?thesis using reduction_is_the_transcript [of demo_log] by simp
qed

text \<open>A tool result recorded twice under one id is listed twice; every other kind of message is listed once.\<close>

lemma repeated_tool_result_is_listed_twice:
  "map_sum (\<lambda>_. ()) (map (dget_j ''id'')) (reduce_events_to_messages (demo_log @ [demo_log ! 4])) =
     Inr [JStr ''m1'', JStr ''m2'', JStr ''m2'']"
  by code_simp

end
