(* ===== verification/Thread_Store.thy ===== *)
theory Thread_Store
  imports Registry Reduce Chain
begin

text \<open>
  Threads, the messages runs carry in, and lineages (\<^verbatim>\<open>funduq/repo.py\<close>), with the AG-UI input a
  row stands for (\<^verbatim>\<open>funduq/agui.py\<close>). Ids are minted by the caller of each operation and passed in
  (\<^verbatim>\<open>ids.new_id\<close> is randomness). The loops that follow \<^verbatim>\<open>parent_run_id\<close> are
  \<open>partial_function (option)\<close>: \<^term>\<open>None\<close> is a loop that never returns, and the lemmas show they return
  on every store the operations can build from freshly minted ids.
\<close>

section \<open>Threads\<close>

definition get_thread :: "store \<Rightarrow> thread_id \<Rightarrow> thread_row option" where
  "get_thread s thread_id = fetch th_thread_id thread_id (threads s)"

definition th_agent :: "thread_row \<Rightarrow> agent_ref" where
  "th_agent t = \<lparr>ar_provider_key = th_provider_key t, ar_name = th_agent_name t\<rparr>"

text \<open>
  \<^verbatim>\<open>INSERT\<close>s as the database executes them: a table's primary key, unique columns and foreign keys, as \<^verbatim>\<open>schema.py\<close> declares them,
  refuse the row. A row may be its own parent.
\<close>

definition insert_thread :: "store \<Rightarrow> thread_row \<Rightarrow> (repo_error, store) res" where
  "insert_thread s t =
     (if get_thread s (th_thread_id t) \<noteq> None \<or>
         get_agent s \<lparr>ar_provider_key = th_provider_key t, ar_name = th_agent_name t\<rparr> = None \<or>
         (case th_parent_thread_id t of None \<Rightarrow> False | Some p \<Rightarrow> p \<noteq> th_thread_id t \<and> get_thread s p = None)
      then Inl IntegrityError
      else Inr (s\<lparr>threads := threads s @ [t]\<rparr>))"

definition insert_run :: "store \<Rightarrow> run_row \<Rightarrow> (repo_error, store) res" where
  "insert_run s r =
     (if get_run s (rr_run_id r) \<noteq> None \<or> get_thread s (rr_thread_id r) = None \<or>
         get_agent s \<lparr>ar_provider_key = rr_provider_key r, ar_name = rr_agent_name r\<rparr> = None
      then Inl IntegrityError
      else Inr (s\<lparr>runs := runs s @ [r]\<rparr>))"

definition insert_message :: "store \<Rightarrow> message_row \<Rightarrow> (repo_error, store) res" where
  "insert_message s m =
     (if get_thread s (tm_thread_id m) = None \<or> get_run s (tm_run_id m) = None \<or>
         list_ex (\<lambda>x. tm_run_id x = tm_run_id m \<and> tm_message_id x = tm_message_id m) (thread_messages s)
      then Inl IntegrityError
      else Inr (s\<lparr>thread_messages := thread_messages s @ [m]\<rparr>))"

lemma agent_ref_eta: "\<lparr>ar_provider_key = ar_provider_key a, ar_name = ar_name a\<rparr> = a"
  by simp

text \<open>The writes of \<^verbatim>\<open>repo.py\<close>: they build the row and insert it.\<close>

definition create_thread ::
  "time \<Rightarrow> thread_id \<Rightarrow> store \<Rightarrow> agent_ref \<Rightarrow> thread_id option \<Rightarrow> json \<Rightarrow> key option \<Rightarrow>
   (repo_error, thread_id \<times> store) res" where
  "create_thread now minted s a parent_thread_id metadata head_key =
     rbind (insert_thread s
        \<lparr>th_thread_id = minted, th_provider_key = ar_provider_key a, th_agent_name = ar_name a,
         th_parent_thread_id = parent_thread_id, th_head_key = head_key,
         th_metadata = jor metadata (JObj []), th_created_at = now, th_last_activity_at = now\<rparr>) (\<lambda>s.
       Inr (minted, s))"

definition touch_thread :: "time \<Rightarrow> thread_id \<Rightarrow> store \<Rightarrow> store" where
  "touch_thread now thread_id s =
     s\<lparr>threads := map (\<lambda>t. if th_thread_id t = thread_id then t\<lparr>th_last_activity_at := now\<rparr> else t)
       (threads s)\<rparr>"

definition may_write :: "thread_row \<Rightarrow> agent_ref \<Rightarrow> key option \<Rightarrow> bool" where
  "may_write t a head_key \<longleftrightarrow>
     (case th_head_key t of
        None \<Rightarrow> True
      | Some bound \<Rightarrow> head_key = Some bound \<or> head_key = Some (ar_provider_key a))"

definition ensure_thread ::
  "time \<Rightarrow> thread_id \<Rightarrow> store \<Rightarrow> agent_ref \<Rightarrow> thread_id option \<Rightarrow> thread_id option \<Rightarrow> json \<Rightarrow> bool \<Rightarrow>
   key option \<Rightarrow> (repo_error, thread_id \<times> store) res" where
  "ensure_thread now minted s a thread_id parent_thread_id metadata create_if_missing head_key =
     (case thread_id of
        None \<Rightarrow> create_thread now minted s a parent_thread_id metadata head_key
      | Some tid \<Rightarrow>
          (case get_thread s tid of
             None \<Rightarrow>
               if create_if_missing then create_thread now minted s a parent_thread_id metadata head_key
               else Inl ThreadNotFound
           | Some existing \<Rightarrow>
               if th_agent existing \<noteq> a then Inl ThreadOwnershipMismatch
               else if \<not> may_write existing a head_key then Inl ThreadMembershipRequired
               else Inr (tid, touch_thread now tid s)))"

definition get_thread_children :: "store \<Rightarrow> thread_id \<Rightarrow> thread_row list" where
  "get_thread_children s thread_id =
     sort_key th_created_at (filter (\<lambda>t. th_parent_thread_id t = Some thread_id) (threads s))"

section \<open>Runs and what they carry in\<close>

definition column_str_opt :: "json \<Rightarrow> (repo_error, string option) res" where
  "column_str_opt v = (case v of JNull \<Rightarrow> Inr None | JStr x \<Rightarrow> Inr (Some x) | _ \<Rightarrow> Inl (BadShape TypeError))"

definition create_run ::
  "time \<Rightarrow> store \<Rightarrow> thread_id \<Rightarrow> agent_ref \<Rightarrow> event \<Rightarrow> string list option \<Rightarrow> run_id \<Rightarrow>
   (repo_error, store) res" where
  "create_run now s thread_id a run_input actor_chain run_id =
     rbind (column_str_opt (dget_j ''parentRunId'' run_input)) (\<lambda>parent.
       insert_run s
         \<lparr>rr_run_id = run_id, rr_thread_id = thread_id, rr_provider_key = ar_provider_key a,
          rr_agent_name = ar_name a, rr_status = Queued, rr_actor_chain = actor_chain,
          rr_created_at = now, rr_started_at = None, rr_completed_at = None,
          rr_last_activity_at = Some now, rr_parent_run_id = parent,
          rr_state = dget_j ''state'' run_input,
          rr_tools = jor (dget_j ''tools'' run_input) (JArr []),
          rr_context = jor (dget_j ''context'' run_input) (JArr []),
          rr_forwarded_props = dget_j ''forwardedProps'' run_input,
          rr_resume = dget_j ''resume'' run_input, rr_cancel_requested = False,
          rr_cancel_requested_by = None\<rparr>)"

definition append_message ::
  "thread_id \<Rightarrow> run_id \<Rightarrow> event \<Rightarrow> store \<Rightarrow> (repo_error, store) res" where
  "append_message thread_id run_id message s =
     (case dget message ''id'' of
        None \<Rightarrow> Inl (BadShape (KeyError ''id''))
      | Some (JStr mid) \<Rightarrow>
          insert_message s
            \<lparr>tm_thread_id = thread_id, tm_run_id = run_id, tm_message_id = mid,
             tm_message_json = message, tm_metadata = dget_or ''metadata'' (JObj []) message\<rparr>
      | Some _ \<Rightarrow> Inl (BadShape TypeError))"

definition append_thread_messages ::
  "store \<Rightarrow> thread_id \<Rightarrow> run_id \<Rightarrow> event list \<Rightarrow> (repo_error, store) res" where
  "append_thread_messages s thread_id run_id messages = mfold (append_message thread_id run_id) messages s"

text \<open>Rows are kept in insertion order, which is the order of the serial \<^verbatim>\<open>id\<close>.\<close>

definition messages_of_run :: "store \<Rightarrow> run_id \<Rightarrow> event list" where
  "messages_of_run s run_id =
     map tm_message_json (filter (\<lambda>m. tm_run_id m = run_id) (thread_messages s))"

definition said_by_run :: "store \<Rightarrow> run_row \<Rightarrow> (repo_error, event list) res" where
  "said_by_run s run =
     (if rr_status run = Completed
      then (case reduce_events_to_messages (get_run_events s (rr_run_id run) 0) of
              Inl e \<Rightarrow> Inl (BadShape e)
            | Inr replied \<Rightarrow> Inr (messages_of_run s (rr_run_id run) @ replied))
      else Inr (messages_of_run s (rr_run_id run)))"

definition add_message ::
  "run_id \<Rightarrow> event \<Rightarrow> json set \<times> (run_id \<times> event) list \<Rightarrow>
   (repo_error, json set \<times> (run_id \<times> event) list) res" where
  "add_message run_id message = (\<lambda>(seen, out).
     case dget message ''id'' of
       None \<Rightarrow> Inl (BadShape (KeyError ''id''))
     | Some i \<Rightarrow>
         if \<not> hashable i then Inl (BadShape TypeError)
         else if i \<in> seen then Inr (seen, out)
         else Inr (insert i seen, out @ [(run_id, message)]))"

definition add_run_messages ::
  "store \<Rightarrow> run_row \<Rightarrow> json set \<times> (run_id \<times> event) list \<Rightarrow>
   (repo_error, json set \<times> (run_id \<times> event) list) res" where
  "add_run_messages s run acc =
     rbind (said_by_run s run) (\<lambda>said. mfold (add_message (rr_run_id run)) said acc)"

definition conversation_of :: "store \<Rightarrow> run_row list \<Rightarrow> (repo_error, (run_id \<times> event) list) res" where
  "conversation_of s rs =
     rbind (mfold (add_run_messages s) rs ({}, [])) (\<lambda>(seen, out). Inr out)"

text \<open>The keys that may read a bound thread; \<^term>\<open>None\<close> for a thread nobody bound.\<close>

definition chain_keys ::
  "'p chain_crypto \<Rightarrow> string list option \<Rightarrow> key set \<Rightarrow> (chain_error, key set) res" where
  "chain_keys K actor_chain circle =
     (case actor_chain of
        None \<Rightarrow> Inr circle
      | Some [] \<Rightarrow> Inr circle
      | Some tokens \<Rightarrow> rbind (verify_chain K tokens) (\<lambda>hops. Inr (circle \<union> set (actor_public_keys hops))))"

definition readers_of ::
  "'p chain_crypto \<Rightarrow> store \<Rightarrow> thread_row \<Rightarrow> (chain_error, key set option) res" where
  "readers_of K s t =
     (case th_head_key t of
        None \<Rightarrow> Inr None
      | Some h \<Rightarrow>
          rbind (mfold (chain_keys K)
              (map rr_actor_chain (filter (\<lambda>r. rr_thread_id r = th_thread_id t) (runs s)))
              {th_provider_key t, h})
            (\<lambda>circle. Inr (Some circle)))"

section \<open>The AG-UI input a row stands for\<close>

text \<open>
  \<^verbatim>\<open>RunAgentInput\<close> is AG-UI's own pydantic model, outside the repository: \<open>field k v\<close> validates the
  value given for field \<open>k\<close> and is the JSON the model dumps for it, \<^term>\<open>None\<close> a ValidationError. A
  pydantic model without model-level validators validates and dumps its fields one by one.
\<close>

definition build_run_agent_input ::
  "(string \<Rightarrow> json \<Rightarrow> json option) \<Rightarrow> thread_id \<Rightarrow> run_id \<Rightarrow> event list \<Rightarrow> json \<Rightarrow> json \<Rightarrow> json \<Rightarrow> json \<Rightarrow>
   json \<Rightarrow> string option \<Rightarrow> (py_error, event) res" where
  "build_run_agent_input field thread_id run_id messages state tools ctx forwarded_props resume parent_run_id =
     mmap (\<lambda>(k, v). case field k v of None \<Rightarrow> Inl ValueError | Some w \<Rightarrow> Inr (k, w))
       [(''threadId'', JStr thread_id), (''runId'', JStr run_id), (''state'', state),
        (''messages'', JArr (map JObj messages)), (''tools'', jor tools (JArr [])),
        (''context'', jor ctx (JArr [])), (''forwardedProps'', forwarded_props),
        (''resume'', resume), (''parentRunId'', jopt_str parent_run_id)]"

definition run_input_of ::
  "(string \<Rightarrow> json \<Rightarrow> json option) \<Rightarrow> store \<Rightarrow> run_row \<Rightarrow> (py_error, event) res" where
  "run_input_of field s run =
     build_run_agent_input field (rr_thread_id run) (rr_run_id run) (messages_of_run s (rr_run_id run))
       (rr_state run) (rr_tools run) (rr_context run) (rr_forwarded_props run) (rr_resume run)
       (rr_parent_run_id run)"

section \<open>Lineages\<close>

definition newest_child :: "store \<Rightarrow> run_id \<Rightarrow> run_row option" where
  "newest_child s run_id =
     (case rev (oldest_first (filter (\<lambda>r. rr_parent_run_id r = Some run_id) (runs s))) of
        [] \<Rightarrow> None | r # _ \<Rightarrow> Some r)"

partial_function (option) lineage_tail_from :: "store \<Rightarrow> run_row \<Rightarrow> run_row option" where
  "lineage_tail_from s current =
     (case newest_child s (rr_run_id current) of
        None \<Rightarrow> Some current
      | Some child \<Rightarrow> lineage_tail_from s child)"

definition lineage_tail :: "store \<Rightarrow> run_id \<Rightarrow> run_row option option" where
  "lineage_tail s run_id =
     (case get_run s run_id of
        None \<Rightarrow> Some None
      | Some current \<Rightarrow> map_option Some (lineage_tail_from s current))"

partial_function (option) lineage_from :: "store \<Rightarrow> run_row list \<Rightarrow> run_row \<Rightarrow> run_row list option" where
  "lineage_from s out current =
     (case newest_child s (rr_run_id current) of
        None \<Rightarrow> Some (out @ [current])
      | Some child \<Rightarrow> lineage_from s (out @ [current]) child)"

definition lineage :: "store \<Rightarrow> run_id \<Rightarrow> run_row list option" where
  "lineage s run_id =
     (case get_run s run_id of None \<Rightarrow> Some [] | Some current \<Rightarrow> lineage_from s [] current)"

partial_function (option) root_of :: "store \<Rightarrow> run_row \<Rightarrow> run_id option" where
  "root_of s current =
     (case rr_parent_run_id current of
        None \<Rightarrow> Some (rr_run_id current)
      | Some p \<Rightarrow>
          (case get_run s p of
             None \<Rightarrow> Some (rr_run_id current)
           | Some parent \<Rightarrow> root_of s parent))"

declare lineage_tail_from.simps [code] lineage_from.simps [code] root_of.simps [code]

section \<open>Snapshots and bulk failing\<close>

text \<open>\<^verbatim>\<open>ORDER BY created_at DESC LIMIT 1\<close>; among equal times the database may pick any, here the last inserted.\<close>

definition get_active_run_for_thread :: "store \<Rightarrow> thread_id \<Rightarrow> run_row option" where
  "get_active_run_for_thread s thread_id =
     (case rev (sort_key rr_created_at
         (filter (\<lambda>r. rr_thread_id r = thread_id \<and> rr_status r \<in> set ACTIVE_RUN_STATUSES) (runs s))) of
        [] \<Rightarrow> None | r # _ \<Rightarrow> Some r)"

definition get_thread_snapshot :: "store \<Rightarrow> thread_id \<Rightarrow> (thread_id \<times> (run_id \<times> run_status) option) option" where
  "get_thread_snapshot s thread_id =
     (case get_thread s thread_id of
        None \<Rightarrow> None
      | Some _ \<Rightarrow> Some (thread_id,
          map_option (\<lambda>r. (rr_run_id r, rr_status r)) (get_active_run_for_thread s thread_id)))"

definition fail_runs :: "time \<Rightarrow> (run_row \<Rightarrow> bool) \<Rightarrow> store \<Rightarrow> run_id list \<times> store" where
  "fail_runs now where_clause s =
     fold (\<lambda>i (failed, s).
        let P = (\<lambda>r. rr_run_id r = i \<and> where_clause r) in
        (if rowcount P s > 0 then failed @ [i] else failed,
         update_runs P (\<lambda>r. r\<lparr>rr_status := Failed, rr_completed_at := Some now\<rparr>) s))
      (map rr_run_id (filter where_clause (runs s))) ([], s)"


section \<open>Lineages end\<close>

text \<open>A row's parent is never itself or a row written after it.\<close>

fun parents_first :: "run_row list \<Rightarrow> bool" where
  "parents_first [] = True"
| "parents_first (r # rs) =
     (rr_parent_run_id r \<notin> Some ` rr_run_id ` set (r # rs) \<and> parents_first rs)"

definition runs_ok :: "store \<Rightarrow> bool" where
  "runs_ok s \<longleftrightarrow> runs_distinct s \<and> parents_first (runs s)"

definition run_pos :: "run_row list \<Rightarrow> run_id \<Rightarrow> nat" where
  "run_pos rs i = length (takeWhile (\<lambda>q. rr_run_id q \<noteq> i) rs)"

lemma run_pos_less: "i \<in> rr_run_id ` set rs \<Longrightarrow> run_pos rs i < length rs"
  unfolding run_pos_def by (induction rs) auto

lemma parent_pos_less:
  "parents_first rs \<Longrightarrow> distinct (map rr_run_id rs) \<Longrightarrow> c \<in> set rs \<Longrightarrow> i \<in> rr_run_id ` set rs \<Longrightarrow>
   rr_parent_run_id c = Some i \<Longrightarrow> run_pos rs i < run_pos rs (rr_run_id c)"
proof (induction rs)
  case (Cons r rs)
  then show ?case by (cases "c = r") (auto simp: run_pos_def image_iff)
qed simp

lemma newest_child_in:
  assumes "newest_child s i = Some c"
  shows "c \<in> set (runs s) \<and> rr_parent_run_id c = Some i"
proof -
  from assms have "c \<in> set (oldest_first (filter (\<lambda>r. rr_parent_run_id r = Some i) (runs s)))"
    by (auto simp: newest_child_def split: list.splits)
  then show ?thesis by (simp add: oldest_first_def)
qed

lemma runs_ok_child:
  assumes "runs_ok s" "newest_child s i = Some c" "i \<in> set (run_ids s)"
  shows "get_run s (rr_run_id c) = Some c" and "rr_run_id c \<in> set (run_ids s)"
    and "run_pos (runs s) i < run_pos (runs s) (rr_run_id c)"
    and "run_pos (runs s) (rr_run_id c) < length (runs s)"
proof -
  have c: "c \<in> set (runs s)" "rr_parent_run_id c = Some i" using newest_child_in [OF assms(2)] by auto
  then show "get_run s (rr_run_id c) = Some c" and id: "rr_run_id c \<in> set (run_ids s)"
    using assms(1) by (auto simp: runs_ok_def run_ids_def intro: get_run_unique)
  show "run_pos (runs s) i < run_pos (runs s) (rr_run_id c)"
    using assms c by (intro parent_pos_less) (auto simp: runs_ok_def runs_distinct_def run_ids_def)
  show "run_pos (runs s) (rr_run_id c) < length (runs s)" using c(1) by (intro run_pos_less) auto
qed

fun linked :: "run_row list \<Rightarrow> bool" where
  "linked (a # b # rs) = (rr_parent_run_id b = Some (rr_run_id a) \<and> linked (b # rs))"
| "linked _ = True"

lemma lineage_from_returns:
  assumes "runs_ok s" "rr_run_id r \<in> set (run_ids s)"
  shows "\<exists>rs. lineage_from s out r = Some (out @ r # rs) \<and> lineage_tail_from s r = Some (last (r # rs)) \<and>
    linked (r # rs) \<and> set rs \<subseteq> set (runs s) \<and> newest_child s (rr_run_id (last (r # rs))) = None"
  using assms(2)
proof (induction "length (runs s) - run_pos (runs s) (rr_run_id r)" arbitrary: r out rule: less_induct)
  case less
  show ?case
  proof (cases "newest_child s (rr_run_id r)")
    case None
    then show ?thesis by (intro exI [of _ "[]"]) (simp add: lineage_from.simps lineage_tail_from.simps)
  next
    case (Some c)
    note child = runs_ok_child [OF assms(1) Some less.prems]
    have "length (runs s) - run_pos (runs s) (rr_run_id c) < length (runs s) - run_pos (runs s) (rr_run_id r)"
      using child(3,4) by linarith
    from less.hyps [OF this child(2), of "out @ [r]"] obtain rs where
      "lineage_from s (out @ [r]) c = Some ((out @ [r]) @ c # rs)" "lineage_tail_from s c = Some (last (c # rs))"
      "linked (c # rs)" "set rs \<subseteq> set (runs s)" "newest_child s (rr_run_id (last (c # rs))) = None"
      by blast
    then show ?thesis using newest_child_in [OF Some] Some
      by (intro exI [of _ "c # rs"]) (simp add: lineage_from.simps [of s out] lineage_tail_from.simps [of s r])
  qed
qed

lemma root_of_parent:
  assumes "runs_ok s" "r \<in> set (runs s)"
  shows "\<exists>i. root_of s r = Some i"
  using assms(2)
proof (induction "run_pos (runs s) (rr_run_id r)" arbitrary: r rule: less_induct)
  case less
  show ?case
  proof (cases "\<exists>p q. rr_parent_run_id r = Some p \<and> get_run s p = Some q")
    case False
    then show ?thesis by (subst root_of.simps) (auto split: option.splits)
  next
    case True
    then obtain p q where p: "rr_parent_run_id r = Some p" and q: "get_run s p = Some q" by blast
    have q': "q \<in> set (runs s)" "rr_run_id q = p" using q by (auto simp: get_run_def dest: find_Some_in)
    have "run_pos (runs s) (rr_run_id q) < run_pos (runs s) (rr_run_id r)"
      using assms(1) less.prems p q' by (intro parent_pos_less) (auto simp: runs_ok_def runs_distinct_def run_ids_def)
    with less.hyps q' obtain i where "root_of s q = Some i" by blast
    then show ?thesis using p q by (subst root_of.simps) simp
  qed
qed

lemma linked_roots:
  assumes "runs_ok s" "linked (r # rs)" "set (r # rs) \<subseteq> set (runs s)" "x \<in> set (r # rs)"
  shows "root_of s x = root_of s r"
  using assms(2-4)
proof (induction rs arbitrary: r)
  case (Cons c rs)
  have "get_run s (rr_run_id r) = Some r" using assms(1) Cons.prems by (auto simp: runs_ok_def intro: get_run_unique)
  then have "root_of s c = root_of s r" using Cons.prems by (subst root_of.simps) simp
  then show ?case using Cons by auto
qed simp


text \<open>How run rows come to be: opened under a freshly minted id, then updated without touching id or parent.\<close>

definition run_links :: "store \<Rightarrow> (run_id \<times> run_id option) list" where
  "run_links s = map (\<lambda>r. (rr_run_id r, rr_parent_run_id r)) (runs s)"

inductive runs_reach :: "store \<Rightarrow> bool" where
  empty: "runs s = [] \<Longrightarrow> runs_reach s"
| opened: "runs_reach s \<Longrightarrow> create_run now s thread_id a run_input actor_chain run_id = Inr s' \<Longrightarrow>
    Some run_id \<notin> snd ` set (run_links s) \<Longrightarrow> dget_j ''parentRunId'' run_input \<noteq> JStr run_id \<Longrightarrow>
    runs_reach s'"
| written: "runs_reach s \<Longrightarrow> run_links s' = run_links s \<Longrightarrow> runs_reach s'"

fun links_first :: "(run_id \<times> run_id option) list \<Rightarrow> bool" where
  "links_first [] = True"
| "links_first ((i, p) # ls) = (p \<notin> Some ` fst ` set ((i, p) # ls) \<and> links_first ls)"

lemma parents_first_links: "parents_first rs = links_first (map (\<lambda>r. (rr_run_id r, rr_parent_run_id r)) rs)"
  by (induction rs) (auto simp: image_image)

lemma runs_ok_links: "runs_ok s \<longleftrightarrow> distinct (map fst (run_links s)) \<and> links_first (run_links s)"
  by (simp add: runs_ok_def runs_distinct_def run_ids_def parents_first_links run_links_def comp_def)

lemma links_first_snoc:
  "links_first (ls @ [(i, p)]) \<longleftrightarrow> links_first ls \<and> Some i \<notin> snd ` set ls \<and> p \<noteq> Some i"
  by (induction ls) (auto simp: image_iff)

lemma create_run_links:
  assumes "create_run now s thread_id a run_input actor_chain run_id = Inr s'"
  shows "\<exists>p. run_links s' = run_links s @ [(run_id, p)] \<and> run_id \<notin> set (run_ids s) \<and>
    jopt_str p = dget_j ''parentRunId'' run_input"
  using assms
  by (auto simp: create_run_def insert_run_def agent_ref_eta rbind_Inr_iff column_str_opt_def run_links_def run_ids_def jopt_str_def
      get_run_def find_None_iff split: if_splits json.splits)

lemma runs_reach_ok: "runs_reach s \<Longrightarrow> runs_ok s"
proof (induction rule: runs_reach.induct)
  case (empty s)
  then show ?case by (simp add: runs_ok_def runs_distinct_def run_ids_def)
next
  case (opened s now thread_id a run_input actor_chain run_id s')
  from create_run_links [OF opened.hyps(2)] obtain p where p: "run_links s' = run_links s @ [(run_id, p)]"
    "run_id \<notin> set (run_ids s)" "jopt_str p = dget_j ''parentRunId'' run_input" by blast
  have "p \<noteq> Some run_id" using p(3) opened.hyps(4) by (auto simp: jopt_str_def)
  moreover have "run_id \<notin> fst ` set (run_links s)" using p(2) by (auto simp: run_links_def run_ids_def)
  ultimately show ?case using opened.IH opened.hyps(3) by (simp add: runs_ok_links p(1) links_first_snoc)
next
  case (written s s')
  then show ?case by (simp add: runs_ok_links)
qed

text \<open>
  C24. Following a conversation always ends. On every store whose runs were opened under freshly
  minted ids, \<open>lineage\<close> returns the runs from the root down, each the child of the one before;
  \<open>lineage_tail\<close> returns the last of them, which has no child; and \<open>root_of\<close> returns the same root for
  every run on the way, the run asked for itself when it has no parent.
\<close>

theorem lineages_end:
  assumes "runs_reach s" and "get_run s i = Some r"
  shows "\<exists>rs. lineage s i = Some (r # rs) \<and> linked (r # rs) \<and>
    lineage_tail s i = Some (Some (last (r # rs))) \<and> newest_child s (rr_run_id (last (r # rs))) = None \<and>
    (\<exists>root. \<forall>x \<in> set (r # rs). root_of s x = Some root \<and> (rr_parent_run_id r = None \<longrightarrow> root = i))"
proof -
  have ok: "runs_ok s" using assms(1) by (rule runs_reach_ok)
  have r: "r \<in> set (runs s)" "rr_run_id r = i" using assms(2) by (auto simp: get_run_def dest: find_Some_in)
  from lineage_from_returns [OF ok, of r "[]"] r obtain rs where
    rs: "lineage_from s [] r = Some (r # rs)" "lineage_tail_from s r = Some (last (r # rs))"
      "linked (r # rs)" "set rs \<subseteq> set (runs s)" "newest_child s (rr_run_id (last (r # rs))) = None"
    by (auto simp: run_ids_def)
  obtain root where root: "root_of s r = Some root" using root_of_parent [OF ok r(1)] by blast
  have "root_of s x = Some root" if "x \<in> set (r # rs)" for x
    using linked_roots [OF ok rs(3) _ that] rs(4) r(1) root by simp
  moreover have "rr_parent_run_id r = None \<Longrightarrow> root = i"
    using root r(2) by (simp add: root_of.simps)
  ultimately show ?thesis using rs assms(2) by (intro exI [of _ rs]) (auto simp: lineage_def lineage_tail_def)
qed


definition res_or :: "'a \<Rightarrow> ('e, 'a) res \<Rightarrow> 'a" where
  "res_or d m = (case m of Inl e \<Rightarrow> d | Inr x \<Rightarrow> x)"

lemma res_or_Inr: "\<not> isl m \<Longrightarrow> m = Inr (res_or d m)"
  by (cases m) (simp_all add: res_or_def)

definition demo_agent :: agent_ref where
  "demo_agent = \<lparr>ar_provider_key = ''ab'', ar_name = ''x''\<rparr>"

definition demo_threaded :: store where
  "demo_threaded = snd (res_or ([], demo_registered)
     (create_thread 8 ''t1'' demo_registered demo_agent None JNull (Some ''cd'')))"

definition demo_run1 :: store where
  "demo_run1 = res_or demo_threaded (create_run 9 demo_threaded ''t1'' demo_agent [] None ''r1'')"

definition demo_run2 :: store where
  "demo_run2 = res_or demo_run1
     (create_run 10 demo_run1 ''t1'' demo_agent [(''parentRunId'', JStr ''r1'')] None ''r2'')"

lemma demo_run2_reach: "runs_reach demo_run2"
proof -
  have e: "runs demo_threaded = []" by code_simp
  have "\<not> isl (create_run 9 demo_threaded ''t1'' demo_agent [] None ''r1'')" by code_simp
  from res_or_Inr [OF this, of demo_threaded] have r1: "runs_reach demo_run1"
    unfolding demo_run1_def [symmetric]
    by (rule runs_reach.opened [OF runs_reach.empty [OF e]]) (simp_all add: run_links_def e dget_j_def)
  have "\<not> isl (create_run 10 demo_run1 ''t1'' demo_agent [(''parentRunId'', JStr ''r1'')] None ''r2'')"
    by code_simp
  from res_or_Inr [OF this, of demo_run1] show ?thesis
    unfolding demo_run2_def [symmetric]
  proof (rule runs_reach.opened [OF r1])
    have "run_links demo_run1 = [(''r1'', None)]" by code_simp
    then show "Some ''r2'' \<notin> snd ` set (run_links demo_run1)" by simp
  qed (simp add: dget_j_def)
qed

theorem lineages_end_witness:
  "\<exists>r rs. lineage demo_run2 ''r1'' = Some (r # rs) \<and> root_of demo_run2 (last (r # rs)) = Some ''r1'' \<and>
     lineage_tail demo_run2 ''r1'' = Some (Some (last (r # rs)))"
proof -
  have "map_option rr_parent_run_id (get_run demo_run2 ''r1'') = Some None" by code_simp
  then obtain r where r: "get_run demo_run2 ''r1'' = Some r" "rr_parent_run_id r = None" by auto
  from lineages_end [OF demo_run2_reach r(1)] r(2) show ?thesis by (metis last_in_set list.distinct(1))
qed

section \<open>Threads are minted, owned and bound\<close>

lemma get_thread_touch:
  "get_thread (touch_thread now tid s) u =
     map_option (\<lambda>t. if th_thread_id t = tid then t\<lparr>th_last_activity_at := now\<rparr> else t) (get_thread s u)"
  unfolding get_thread_def touch_thread_def by simp (rule fetch_map_where, simp)

lemma get_thread_id: "get_thread s u = Some t \<Longrightarrow> th_thread_id t = u"
  unfolding get_thread_def by (drule fetch_key)

lemma create_thread_gives:
  assumes "create_thread now minted s a parent metadata head_key = Inr (tid, s')"
  shows "tid = minted" "get_thread s minted = None"
    "\<exists>t. get_thread s' minted = Some t \<and> th_agent t = a \<and> th_head_key t = head_key"
    "u \<noteq> minted \<Longrightarrow> get_thread s' u = get_thread s u"
proof -
  let ?t = "\<lparr>th_thread_id = minted, th_provider_key = ar_provider_key a, th_agent_name = ar_name a,
      th_parent_thread_id = parent, th_head_key = head_key, th_metadata = jor metadata (JObj []),
      th_created_at = now, th_last_activity_at = now\<rparr>"
  from assms have new: "tid = minted" "get_thread s minted = None" "s' = s\<lparr>threads := threads s @ [?t]\<rparr>"
    by (auto simp: create_thread_def insert_thread_def agent_ref_eta rbind_Inr_iff split: if_splits)
  then show "tid = minted" "get_thread s minted = None" by simp_all
  have look: "get_thread s' v = (case get_thread s v of None \<Rightarrow> if v = minted then Some ?t else None
      | Some t \<Rightarrow> Some t)" for v
    using new by (auto simp: get_thread_def fetch_append fetch_single split: option.splits)
  show "\<exists>t. get_thread s' minted = Some t \<and> th_agent t = a \<and> th_head_key t = head_key"
    using new(2) by (simp add: look th_agent_def)
  show "u \<noteq> minted \<Longrightarrow> get_thread s' u = get_thread s u" by (simp add: look split: option.splits)
qed

text \<open>
  C26. Who gets which thread. A caller that names an existing thread gets it exactly when the thread is the addressed agent's and is
  unbound, bound to the caller's own head, or the caller is the agent's provider; then only its activity time changes. Any other claim
  on an existing thread is refused with the reason, and an unknown id is refused or, where the door creates threads, never
  adopted: a thread is made under the id funduq minted, for that agent and bound to the caller's head, whenever that
  agent and the parent thread exist, and no other thread changes.
\<close>

theorem ensure_thread_guards:
  fixes now minted s a thread_id parent metadata create_if_missing head_key
  defines "r \<equiv> ensure_thread now minted s a thread_id parent metadata create_if_missing head_key"
  shows "(\<forall>u t. thread_id = Some u \<and> get_thread s u = Some t \<longrightarrow>
      (if th_agent t \<noteq> a then r = Inl ThreadOwnershipMismatch
       else if th_head_key t \<noteq> None \<and> head_key \<noteq> th_head_key t \<and> head_key \<noteq> Some (ar_provider_key a)
       then r = Inl ThreadMembershipRequired
       else \<exists>s'. r = Inr (u, s') \<and> get_thread s' u = Some (t\<lparr>th_last_activity_at := now\<rparr>) \<and>
         (\<forall>v. v \<noteq> u \<longrightarrow> get_thread s' v = get_thread s v) \<and> s' = s\<lparr>threads := threads s'\<rparr>)) \<and>
    (\<forall>u. thread_id = Some u \<and> get_thread s u = None \<and> \<not> create_if_missing \<longrightarrow> r = Inl ThreadNotFound) \<and>
    (thread_id = None \<or> (\<exists>u. thread_id = Some u \<and> get_thread s u = None \<and> create_if_missing) \<longrightarrow>
      (if get_thread s minted = None \<and> get_agent s a \<noteq> None \<and> (\<forall>p. parent = Some p \<and> p \<noteq> minted \<longrightarrow> get_thread s p \<noteq> None)
       then \<exists>s' t. r = Inr (minted, s') \<and> get_thread s' minted = Some t \<and> th_agent t = a \<and> th_head_key t = head_key \<and>
         (\<forall>v. v \<noteq> minted \<longrightarrow> get_thread s' v = get_thread s v) \<and> s' = s\<lparr>threads := threads s'\<rparr>
       else r = Inl IntegrityError))"
proof (intro conjI allI impI)
  fix u t
  assume "thread_id = Some u \<and> get_thread s u = Some t"
  then have ex: "thread_id = Some u" "get_thread s u = Some t" by simp_all
  have "get_thread (touch_thread now u s) v = (if v = u then Some (t\<lparr>th_last_activity_at := now\<rparr>) else get_thread s v)" for v
    using ex(2) get_thread_id [of s] by (cases "get_thread s v") (auto simp: get_thread_touch)
  moreover have "touch_thread now u s = s\<lparr>threads := threads (touch_thread now u s)\<rparr>" by (simp add: touch_thread_def)
  ultimately show "if th_agent t \<noteq> a then r = Inl ThreadOwnershipMismatch
       else if th_head_key t \<noteq> None \<and> head_key \<noteq> th_head_key t \<and> head_key \<noteq> Some (ar_provider_key a)
       then r = Inl ThreadMembershipRequired
       else \<exists>s'. r = Inr (u, s') \<and> get_thread s' u = Some (t\<lparr>th_last_activity_at := now\<rparr>) \<and>
         (\<forall>v. v \<noteq> u \<longrightarrow> get_thread s' v = get_thread s v) \<and> s' = s\<lparr>threads := threads s'\<rparr>"
    using ex by (auto simp: r_def ensure_thread_def may_write_def split: option.splits)
next
  fix u
  assume "thread_id = Some u \<and> get_thread s u = None \<and> \<not> create_if_missing"
  then show "r = Inl ThreadNotFound" by (simp add: r_def ensure_thread_def)
next
  assume "thread_id = None \<or> (\<exists>u. thread_id = Some u \<and> get_thread s u = None \<and> create_if_missing)"
  then have r: "r = create_thread now minted s a parent metadata head_key" by (auto simp: r_def ensure_thread_def)
  show "if get_thread s minted = None \<and> get_agent s a \<noteq> None \<and> (\<forall>p. parent = Some p \<and> p \<noteq> minted \<longrightarrow> get_thread s p \<noteq> None)
       then \<exists>s' t. r = Inr (minted, s') \<and> get_thread s' minted = Some t \<and> th_agent t = a \<and> th_head_key t = head_key \<and>
         (\<forall>v. v \<noteq> minted \<longrightarrow> get_thread s' v = get_thread s v) \<and> s' = s\<lparr>threads := threads s'\<rparr>
       else r = Inl IntegrityError"
  proof (cases r)
    case (Inl e)
    then show ?thesis unfolding r
      by (auto simp: create_thread_def insert_thread_def agent_ref_eta split: if_splits option.splits)
  next
    case (Inr x)
    then obtain tid s' where x: "create_thread now minted s a parent metadata head_key = Inr (tid, s')" unfolding r by (cases x) auto
    then have "get_agent s a \<noteq> None" "\<forall>p. parent = Some p \<and> p \<noteq> minted \<longrightarrow> get_thread s p \<noteq> None" "s' = s\<lparr>threads := threads s'\<rparr>"
      by (auto simp: create_thread_def insert_thread_def agent_ref_eta rbind_Inr_iff split: if_splits option.splits)
    then show ?thesis using create_thread_gives [OF x] x unfolding r by auto
  qed
qed

text \<open>Two keys at the door of a thread bound to \<open>''cd''\<close>: its head, and a stranger.\<close>

theorem ensure_thread_guards_witness:
  "(\<exists>s'. ensure_thread 11 ''t2'' demo_threaded demo_agent (Some ''t1'') None JNull True (Some ''cd'') = Inr (''t1'', s')) \<and>
   ensure_thread 11 ''t2'' demo_threaded demo_agent (Some ''t1'') None JNull True (Some ''ee'') = Inl ThreadMembershipRequired"
proof -
  have "map_option (\<lambda>t. (th_agent t, th_head_key t)) (get_thread demo_threaded ''t1'') = Some (demo_agent, Some ''cd'')" by code_simp
  then obtain t where t: "get_thread demo_threaded ''t1'' = Some t" "th_agent t = demo_agent" "th_head_key t = Some ''cd''" by auto
  show ?thesis
    using ensure_thread_guards [where s = demo_threaded and thread_id = "Some ''t1''" and a = demo_agent and now = 11 and minted = "''t2''"
        and parent = None and metadata = JNull and create_if_missing = True and head_key = "Some ''cd''"]
      ensure_thread_guards [where s = demo_threaded and thread_id = "Some ''t1''" and a = demo_agent and now = 11 and minted = "''t2''"
        and parent = None and metadata = JNull and create_if_missing = True and head_key = "Some ''ee''"] t
    by (auto simp: demo_agent_def)
qed

section \<open>The stored input is the delivered input\<close>

lemma append_message_keeps:
  assumes "append_message thread_id run_id m s = Inr s'"
  shows "runs s' = runs s \<and> messages_of_run s' j = messages_of_run s j @ (if j = run_id then [m] else []) \<and>
    run_events s' = run_events s \<and> threads s' = threads s \<and> agents s' = agents s"
  using assms
  by (auto simp: append_message_def insert_message_def messages_of_run_def split: option.splits json.splits if_splits)

lemma append_thread_messages_read:
  "append_thread_messages s thread_id run_id ms = Inr s' \<Longrightarrow>
     runs s' = runs s \<and> messages_of_run s' j = messages_of_run s j @ (if j = run_id then ms else []) \<and>
     run_events s' = run_events s \<and> threads s' = threads s \<and> agents s' = agents s"
  unfolding append_thread_messages_def
proof (induction ms arbitrary: s)
  case (Cons m ms)
  then obtain t where t: "append_message thread_id run_id m s = Inr t"
    "mfold (append_message thread_id run_id) ms t = Inr s'" by (auto simp: rbind_Inr_iff)
  show ?case using Cons.IH [OF t(2)] append_message_keeps [OF t(1), of j] by auto
qed simp

text \<open>
  A model's field dump is stable: what it dumped validates again to itself; and the two fields
  the store treats specially dump as their annotation says, lists as lists and the optional parent
  id as a string or null.
\<close>

definition agui_fields :: "(string \<Rightarrow> json \<Rightarrow> json option) \<Rightarrow> bool" where
  "agui_fields field \<longleftrightarrow> (\<forall>k v w. field k v = Some w \<longrightarrow> field k w = Some w \<and>
     (k \<in> {''threadId'', ''runId'', ''parentRunId''} \<longrightarrow> w = v) \<and>
     (k \<in> {''tools'', ''context''} \<longrightarrow> (\<exists>xs. w = JArr xs)))"

lemma field_case_Inr_iff:
  "(case field k v of None \<Rightarrow> Inl e | Some w \<Rightarrow> Inr (k, w)) = Inr x \<longleftrightarrow> (\<exists>w. field k v = Some w \<and> x = (k, w))"
  by (cases "field k v") auto

lemma build_run_agent_input_Inr_iff:
  "build_run_agent_input field thread_id run_id messages state tools ctx forwarded_props resume
     parent_run_id = Inr j \<longleftrightarrow>
   (\<exists>tid rid st ms ts cx fp rs p.
      field ''threadId'' (JStr thread_id) = Some tid \<and> field ''runId'' (JStr run_id) = Some rid \<and>
      field ''state'' state = Some st \<and> field ''messages'' (JArr (map JObj messages)) = Some ms \<and>
      field ''tools'' (jor tools (JArr [])) = Some ts \<and> field ''context'' (jor ctx (JArr [])) = Some cx \<and>
      field ''forwardedProps'' forwarded_props = Some fp \<and> field ''resume'' resume = Some rs \<and>
      field ''parentRunId'' (jopt_str parent_run_id) = Some p \<and>
      j = [(''threadId'', tid), (''runId'', rid), (''state'', st), (''messages'', ms), (''tools'', ts),
        (''context'', cx), (''forwardedProps'', fp), (''resume'', rs), (''parentRunId'', p)])"
  unfolding build_run_agent_input_def mmap.simps rbind_Inr_iff prod.case field_case_Inr_iff by auto

lemma agui_fieldsD:
  assumes "agui_fields field" "field k v = Some w"
  shows "field k w = Some w"
    and "k \<in> {''threadId'', ''runId'', ''parentRunId''} \<Longrightarrow> w = v"
    and "k \<in> {''tools'', ''context''} \<Longrightarrow> \<exists>xs. w = JArr xs"
proof -
  note stable = assms(1) [unfolded agui_fields_def, THEN spec, THEN spec, THEN spec, THEN mp, OF assms(2)]
  show "field k w = Some w" using stable by (rule conjunct1)
  show "k \<in> {''threadId'', ''runId'', ''parentRunId''} \<Longrightarrow> w = v"
    by (rule stable [THEN conjunct2, THEN conjunct1, THEN mp])
  show "k \<in> {''tools'', ''context''} \<Longrightarrow> \<exists>xs. w = JArr xs"
    by (rule stable [THEN conjunct2, THEN conjunct2, THEN mp])
qed

lemma jor_list [simp]: "jor (JArr xs) (JArr []) = JArr xs"
  by (simp add: jor_def)

lemma stored_run_reads_back:
  assumes agui_model: "agui_fields field"
    and built: "build_run_agent_input field thread_id run_id messages state tools ctx forwarded_props resume
      parent_run_id = Inr input_json"
    and created: "create_run now s thread_id a input_json actor_chain run_id = Inr s1"
    and appended: "append_thread_messages s1 thread_id run_id messages = Inr s2"
    and unused: "messages_of_run s run_id = []"
  obtains run where "get_run s2 run_id = Some run" "run_input_of field s2 run = Inr input_json"
    "runs s2 = runs s @ [run]" "rr_run_id run = run_id" "rr_thread_id run = thread_id" "rr_agent run = a"
    "rr_status run = Queued" "rr_actor_chain run = actor_chain" "rr_parent_run_id run = parent_run_id"
    "\<not> rr_cancel_requested run" "run_events s2 = run_events s" "get_run s run_id = None"
proof -
  from built obtain tid rid st ms ts cx fp rs p where
    f: "field ''threadId'' (JStr thread_id) = Some tid" "field ''runId'' (JStr run_id) = Some rid"
       "field ''state'' state = Some st" "field ''messages'' (JArr (map JObj messages)) = Some ms"
       "field ''tools'' (jor tools (JArr [])) = Some ts" "field ''context'' (jor ctx (JArr [])) = Some cx"
       "field ''forwardedProps'' forwarded_props = Some fp" "field ''resume'' resume = Some rs"
       "field ''parentRunId'' (jopt_str parent_run_id) = Some p"
    and j: "input_json = [(''threadId'', tid), (''runId'', rid), (''state'', st), (''messages'', ms),
       (''tools'', ts), (''context'', cx), (''forwardedProps'', fp), (''resume'', rs), (''parentRunId'', p)]"
    unfolding build_run_agent_input_Inr_iff by blast
  have p: "p = jopt_str parent_run_id" by (rule agui_fieldsD(2) [OF agui_model f(9)]) simp
  obtain xs ys where lists: "ts = JArr xs" "cx = JArr ys"
    using agui_fieldsD(3) [OF agui_model f(5)] agui_fieldsD(3) [OF agui_model f(6)] by auto
  have stable: "field ''state'' st = Some st" "field ''tools'' ts = Some ts" "field ''context'' cx = Some cx"
     "field ''forwardedProps'' fp = Some fp" "field ''resume'' rs = Some rs"
    using f by (auto intro: agui_fieldsD(1) [OF agui_model])
  have parent: "column_str_opt (jopt_str parent_run_id) = Inr parent_run_id"
    by (cases parent_run_id) (simp_all add: column_str_opt_def jopt_str_def)
  define row where "row = \<lparr>rr_run_id = run_id, rr_thread_id = thread_id, rr_provider_key = ar_provider_key a,
     rr_agent_name = ar_name a, rr_status = Queued, rr_actor_chain = actor_chain, rr_created_at = now,
     rr_started_at = None, rr_completed_at = None, rr_last_activity_at = Some now,
     rr_parent_run_id = parent_run_id, rr_state = st, rr_tools = ts, rr_context = cx,
     rr_forwarded_props = fp, rr_resume = rs, rr_cancel_requested = False, rr_cancel_requested_by = None\<rparr>"
  from created have new: "get_run s run_id = None" and s1: "s1 = s\<lparr>runs := runs s @ [row]\<rparr>"
    by (auto simp: create_run_def insert_run_def agent_ref_eta j p dget_j_def parent row_def lists split: if_splits)
  have "messages_of_run s1 run_id = []" using unused by (simp add: s1 messages_of_run_def)
  with append_thread_messages_read [OF appended, of run_id] have
    s2: "runs s2 = runs s @ [row]" "messages_of_run s2 run_id = messages" by (simp_all add: s1)
  have get: "get_run s2 run_id = Some row"
    using new fetch_append [of rr_run_id run_id "runs s" "[row]"]
    by (simp add: get_run_def fetch_def s2 row_def)
  have reads: "run_input_of field s2 row = Inr input_json"
    unfolding run_input_of_def build_run_agent_input_Inr_iff
    using f stable lists by (auto simp: row_def s2 j)
  have "run_events s2 = run_events s" using append_thread_messages_read [OF appended, of run_id] by (simp add: s1)
  with get reads s2(1) new show ?thesis by (intro that [of row]) (simp_all add: row_def rr_agent_def)
qed


text \<open>
  The provider receives, byte for byte, what was stored. When a run's input was built, its row
  created from it and its messages appended, reading the row back and building the input again
  gives the very same input.
\<close>

theorem stored_input_round_trip:
  assumes agui_model: "agui_fields field"
    and built: "build_run_agent_input field thread_id run_id messages state tools ctx forwarded_props resume
      parent_run_id = Inr input_json"
    and created: "create_run now s thread_id a input_json actor_chain run_id = Inr s1"
    and appended: "append_thread_messages s1 thread_id run_id messages = Inr s2"
    and unused: "messages_of_run s run_id = []"
  shows "\<exists>run. get_run s2 run_id = Some run \<and> run_input_of field s2 run = Inr input_json"
  by (rule stored_run_reads_back [OF assms]) blast


definition demo_field :: "string \<Rightarrow> json \<Rightarrow> json option" where
  "demo_field k v =
     (if k = ''tools'' \<or> k = ''context'' then (case v of JArr xs \<Rightarrow> Some v | _ \<Rightarrow> None) else Some v)"

lemma demo_field_ok: "agui_fields demo_field"
  by (simp add: agui_fields_def demo_field_def split: json.splits)

definition demo_input :: "(py_error, event) res" where
  "demo_input = build_run_agent_input demo_field ''t1'' ''r1'' [[(''id'', JStr ''m1'')]] JNull JNull JNull JNull JNull None"

definition demo_created :: "(repo_error, store) res" where
  "demo_created = create_run 9 demo_threaded ''t1'' demo_agent (res_or [] demo_input) None ''r1''"

definition demo_carried :: "(repo_error, store) res" where
  "demo_carried =
     append_thread_messages (res_or demo_threaded demo_created) ''t1'' ''r1'' [[(''id'', JStr ''m1'')]]"

theorem stored_input_round_trip_witness:
  "\<exists>run. get_run (res_or demo_threaded demo_carried) ''r1'' = Some run \<and>
     run_input_of demo_field (res_or demo_threaded demo_carried) run = Inr (res_or [] demo_input)"
proof -
  have "\<not> isl demo_input" "\<not> isl demo_created" "\<not> isl demo_carried"
    and none: "messages_of_run demo_threaded ''r1'' = []"
    by code_simp+
  then have ok: "demo_input = Inr (res_or [] demo_input)" "demo_created = Inr (res_or demo_threaded demo_created)"
    "demo_carried = Inr (res_or demo_threaded demo_carried)" by (auto intro: res_or_Inr)
  show ?thesis
  proof (rule stored_input_round_trip [OF demo_field_ok])
    show "build_run_agent_input demo_field ''t1'' ''r1'' [[(''id'', JStr ''m1'')]] JNull JNull JNull JNull JNull None
        = Inr (res_or [] demo_input)"
      unfolding demo_input_def [symmetric] by (rule ok(1))
    show "create_run 9 demo_threaded ''t1'' demo_agent (res_or [] demo_input) None ''r1'' =
        Inr (res_or demo_threaded demo_created)"
      unfolding demo_created_def [symmetric] by (rule ok(2))
    show "append_thread_messages (res_or demo_threaded demo_created) ''t1'' ''r1'' [[(''id'', JStr ''m1'')]] =
        Inr (res_or demo_threaded demo_carried)"
      unfolding demo_carried_def [symmetric] by (rule ok(3))
    show "messages_of_run demo_threaded ''r1'' = []" by (rule none)
  qed
qed

section \<open>The conversation\<close>

text \<open>The reference: the first entry under each key.\<close>

fun first_by :: "('a \<Rightarrow> 'k) \<Rightarrow> 'a list \<Rightarrow> 'a list" where
  "first_by f [] = []"
| "first_by f (x # xs) = x # filter (\<lambda>y. f y \<noteq> f x) (first_by f xs)"

lemma set_first_by: "f ` set (first_by f xs) = f ` set xs"
proof (induction xs)
  case (Cons x xs)
  have "insert (f x) (f ` {y \<in> A. f y \<noteq> f x}) = insert (f x) (f ` A)" for A by auto
  with Cons show ?case by simp
qed simp

lemma distinct_first_by: "distinct (map f (first_by f xs))"
  by (induction xs) (auto simp: distinct_map_filter)

lemma first_by_append:
  "first_by f (xs @ ys) = first_by f xs @ filter (\<lambda>y. f y \<notin> f ` set xs) (first_by f ys)"
  by (induction xs) (auto simp: filter_filter intro: filter_cong)

lemma filter_first_by: "filter (\<lambda>y. f y \<notin> A) (first_by f xs) = first_by f (filter (\<lambda>y. f y \<notin> A) xs)"
proof (induction xs)
  case (Cons x xs)
  have "filter (\<lambda>y. f y \<notin> A) (filter (\<lambda>y. f y \<noteq> f x) (first_by f xs)) =
      filter (\<lambda>y. f y \<noteq> f x) (filter (\<lambda>y. f y \<notin> A) (first_by f xs))"
    by (simp add: filter_filter conj_commute)
  moreover have "filter (\<lambda>y. f y \<notin> A) (filter (\<lambda>y. f y \<noteq> f x) (first_by f xs)) =
      filter (\<lambda>y. f y \<notin> A) (first_by f xs)" if "f x \<in> A"
    using that by (auto simp: filter_filter intro: filter_cong)
  ultimately show ?case using Cons by simp
qed simp

definition message_key :: "run_id \<times> event \<Rightarrow> json" where
  "message_key rm = dget_j ''id'' (snd rm)"

lemma add_messages:
  assumes "mfold (add_message i) said (seen, out) = Inr (seen', out')" "seen = message_key ` set out"
  shows "seen' = message_key ` set out' \<and>
    out' = out @ filter (\<lambda>y. message_key y \<notin> message_key ` set out) (first_by message_key (map (Pair i) said))"
  using assms
proof (induction said arbitrary: seen out)
  case (Cons m said)
  from Cons.prems(1) obtain seen1 out1 where one: "add_message i m (seen, out) = Inr (seen1, out1)"
    and rest: "mfold (add_message i) said (seen1, out1) = Inr (seen', out')" by (auto simp: rbind_Inr_iff)
  have key: "dget_j ''id'' m = message_key (i, m)" by (simp add: message_key_def)
  show ?case
  proof (cases "message_key (i, m) \<in> seen")
    case True
    with one have "seen1 = seen" "out1 = out"
      by (auto simp: add_message_def dget_j_def message_key_def split: option.splits if_splits)
    with Cons.IH [OF rest] Cons.prems(2) True show ?thesis
      by (auto simp: filter_filter intro!: filter_cong)
  next
    case False
    with one have new: "seen1 = insert (message_key (i, m)) seen" "out1 = out @ [(i, m)]"
      by (auto simp: add_message_def dget_j_def message_key_def split: option.splits if_splits)
    with Cons.IH [OF rest] Cons.prems(2) False show ?thesis
      by (auto simp: filter_filter intro!: filter_cong)
  qed
qed simp

lemma image_union_new: "f ` (A \<union> {x \<in> B. f x \<notin> f ` A}) = f ` A \<union> f ` B"
  by blast

lemma add_all_messages:
  assumes "mfold (add_run_messages s) rs (seen, out) = Inr (seen', out')" "seen = message_key ` set out"
  shows "\<exists>said. mmap (said_by_run s) rs = Inr said \<and> seen' = message_key ` set out' \<and>
    out' = out @ filter (\<lambda>y. message_key y \<notin> message_key ` set out)
      (first_by message_key (concat (map2 (\<lambda>r ms. map (Pair (rr_run_id r)) ms) rs said)))"
  using assms
proof (induction rs arbitrary: seen out)
  case (Cons r rs)
  from Cons.prems(1) obtain seen1 out1 where run: "add_run_messages s r (seen, out) = Inr (seen1, out1)"
    and rest: "mfold (add_run_messages s) rs (seen1, out1) = Inr (seen', out')"
    by (auto simp: rbind_Inr_iff)
  from run obtain ms where ms: "said_by_run s r = Inr ms"
    and one: "mfold (add_message (rr_run_id r)) ms (seen, out) = Inr (seen1, out1)"
    by (auto simp: rbind_Inr_iff add_run_messages_def)
  note step = add_messages [OF one Cons.prems(2)]
  from Cons.IH [OF rest] step obtain said where said: "mmap (said_by_run s) rs = Inr said"
    "seen' = message_key ` set out'"
    "out' = out1 @ filter (\<lambda>y. message_key y \<notin> message_key ` set out1)
      (first_by message_key (concat (map2 (\<lambda>r ms. map (Pair (rr_run_id r)) ms) rs said)))" by blast
  have keys: "message_key ` set out1 = message_key ` set out \<union> message_key ` set (map (Pair (rr_run_id r)) ms)"
    using step set_first_by [of message_key "map (Pair (rr_run_id r)) ms"] by (simp add: image_union_new)
  show ?case
    by (rule exI [of _ "ms # said"])
       (use ms said step keys in \<open>auto simp: first_by_append filter_filter intro!: filter_cong\<close>)
qed simp


text \<open>
  A conversation holds each message once, under the first run that said it. When
  \<open>conversation_of\<close> answers, its answer is everything the given runs carried in or, once completed,
  replied with, in order, with every later message of an id already met left out; so no id occurs
  twice and none that was said is missing.
\<close>

theorem conversation_says_each_message_once:
  assumes "conversation_of s rs = Inr out"
  shows "\<exists>said. mmap (said_by_run s) rs = Inr said \<and>
    out = first_by message_key (concat (map2 (\<lambda>r ms. map (Pair (rr_run_id r)) ms) rs said)) \<and>
    distinct (map message_key out) \<and>
    message_key ` set out = (\<Union>ms \<in> set said. dget_j ''id'' ` set ms)"
proof -
  from assms obtain seen where "mfold (add_run_messages s) rs ({}, []) = Inr (seen, out)"
    by (auto simp: conversation_of_def rbind_Inr_iff)
  from add_all_messages [OF this] obtain said where said: "mmap (said_by_run s) rs = Inr said"
    and out: "out = first_by message_key (concat (map2 (\<lambda>r ms. map (Pair (rr_run_id r)) ms) rs said))"
    by auto
  have len: "length rs = length said"
    using said by (induction rs arbitrary: said) (auto simp: rbind_Inr_iff)
  have "message_key ` set (concat (map2 (\<lambda>r ms. map (Pair (rr_run_id r)) ms) rs said)) =
      (\<Union>ms \<in> set said. dget_j ''id'' ` set ms)"
    using len
  proof (induction rs said rule: list_induct2)
    case (Cons r rs ms said)
    have "message_key ` Pair i ` set ms = dget_j ''id'' ` set ms" for i
      by (simp add: image_image message_key_def)
    with Cons show ?case by (simp add: image_Un)
  qed simp
  then show ?thesis
    using said out distinct_first_by [of message_key] set_first_by [of message_key] by auto
qed

definition demo_conversed :: store where
  "demo_conversed = (res_or demo_threaded demo_carried)
     \<lparr>runs := map (\<lambda>r. r\<lparr>rr_status := Completed\<rparr>) (runs (res_or demo_threaded demo_carried)),
      run_events := [\<lparr>re_run_id = ''r1'', re_seq = 1, re_event_json = [(''type'', JStr ''TEXT_MESSAGE_CONTENT''),
        (''messageId'', JStr ''m2''), (''delta'', JStr ''hi'')], re_created_at = 9\<rparr>]\<rparr>"

theorem conversation_says_each_message_once_witness:
  "\<exists>out. conversation_of demo_conversed (runs demo_conversed) = Inr out \<and> distinct (map message_key out) \<and>
     length out = 2"
proof -
  let ?r = "conversation_of demo_conversed (runs demo_conversed)"
  have "\<not> isl ?r" "length (res_or [] ?r) = 2" by code_simp+
  then obtain out where out: "?r = Inr out" "length out = 2" by (cases ?r) (auto simp: res_or_def)
  with conversation_says_each_message_once [OF out(1)] show ?thesis by auto
qed

section \<open>Who may read\<close>

definition chain_of :: "run_row \<Rightarrow> string list" where
  "chain_of r = (case rr_actor_chain r of None \<Rightarrow> [] | Some tokens \<Rightarrow> tokens)"

lemma chain_keys_Inr_iff:
  "chain_keys K ch circle = Inr c \<longleftrightarrow>
     (case ch of None \<Rightarrow> c = circle
      | Some tokens \<Rightarrow> if tokens = [] then c = circle
          else \<exists>hops. verify_chain K tokens = Inr hops \<and> c = circle \<union> set (actor_public_keys hops))"
  by (auto simp: chain_keys_def rbind_Inr_iff split: option.splits list.splits)

lemma fold_chain_keys:
  "mfold (chain_keys K) (map rr_actor_chain rs) circle = Inr c \<longleftrightarrow>
     (\<forall>r \<in> set rs. chain_of r \<noteq> [] \<longrightarrow> (\<exists>hops. verify_chain K (chain_of r) = Inr hops)) \<and>
     c = circle \<union> {k. \<exists>r \<in> set rs. \<exists>hops. verify_chain K (chain_of r) = Inr hops \<and> k \<in> set (actor_public_keys hops)}"
proof (induction rs arbitrary: circle)
  case (Cons r rs)
  have empty: "verify_chain K [] \<noteq> Inr hops" for hops by (simp add: verify_chain_def)
  show ?case
  proof (cases "chain_of r = []")
    case True
    then have "chain_keys K (rr_actor_chain r) circle = Inr circle"
      by (simp add: chain_keys_def chain_of_def split: option.splits)
    with Cons True empty show ?thesis by simp
  next
    case False
    then obtain tokens where t: "rr_actor_chain r = Some tokens" "chain_of r = tokens" "tokens \<noteq> []"
      by (auto simp: chain_of_def split: option.splits)
    show ?thesis
    proof (cases "verify_chain K tokens")
      case (Inl e)
      then have "\<nexists>c. chain_keys K (rr_actor_chain r) circle = Inr c"
        using t by (auto simp: chain_keys_Inr_iff)
      then show ?thesis using t Inl by (auto simp: rbind_Inr_iff)
    next
      case (Inr hops)
      have "chain_keys K (rr_actor_chain r) circle = Inr (circle \<union> set (actor_public_keys hops))"
        using t Inr by (simp add: chain_keys_Inr_iff)
      then show ?thesis using t Inr Cons [of "circle \<union> set (actor_public_keys hops)"] by auto
    qed
  qed
qed auto

text \<open>
  Who is party to a bound thread: its head, the provider serving its agent, and exactly the
  keys that signed a hop of a verified chain one of its runs was opened under; the answer exists iff
  every non-empty chain recorded on the thread verifies.
\<close>

theorem readers_are_the_parties:
  assumes "th_head_key t = Some h"
  shows "readers_of K s t = Inr (Some circle) \<longleftrightarrow>
    (\<forall>r. r \<in> set (runs s) \<and> rr_thread_id r = th_thread_id t \<and> chain_of r \<noteq> [] \<longrightarrow>
       (\<exists>hops. verify_chain K (chain_of r) = Inr hops)) \<and>
    circle = {th_provider_key t, h} \<union> {k. \<exists>r hops. r \<in> set (runs s) \<and> rr_thread_id r = th_thread_id t \<and>
       verify_chain K (chain_of r) = Inr hops \<and> k \<in> set (actor_public_keys hops)}"
  using assms fold_chain_keys [of K "filter (\<lambda>r. rr_thread_id r = th_thread_id t) (runs s)" "{th_provider_key t, h}" circle]
  by (auto simp: readers_of_def rbind_Inr_iff)


definition demo_chained :: store where
  "demo_chained = demo_store [(demo_row ''r1'' Queued)\<lparr>rr_actor_chain := Some [''t0'']\<rparr>]"

definition demo_thread :: thread_row where
  "demo_thread = \<lparr>th_thread_id = ''thread_1'', th_provider_key = ''aa'', th_agent_name = ''agent'',
     th_parent_thread_id = None, th_head_key = Some ''hh'', th_metadata = JNull, th_created_at = 0,
     th_last_activity_at = 0\<rparr>"

theorem readers_are_the_parties_witness:
  "readers_of demo_crypto demo_chained demo_thread =
     Inr (Some {''aa'', ''hh'', actor_public_key demo_head_hop})"
proof -
  have "th_head_key demo_thread = Some ''hh''" by (simp add: demo_thread_def)
  from readers_are_the_parties [OF this, of demo_crypto demo_chained] show ?thesis
    by (auto simp: demo_chained_def demo_store_def demo_row_def demo_thread_def chain_of_def
        demo_chain_accepted actor_public_keys_def)
qed

section \<open>Bulk failing is one update\<close>

text \<open>Failing row by row, as \<^verbatim>\<open>_fail_runs\<close> does, is the single update \<open>fail_orphaned_runs\<close> describes.\<close>

lemma fail_runs_fold:
  fixes f :: "run_row \<Rightarrow> run_row"
  assumes f: "\<And>r. rr_run_id (f r) = rr_run_id r" and dist: "distinct (map rr_run_id rs)"
    and ids: "set ids \<subseteq> rr_run_id ` {r \<in> set rs. P r}" "distinct ids" "set ids \<inter> gone = {}"
    and s: "runs s = map (\<lambda>r. if P r \<and> rr_run_id r \<in> gone then f r else r) rs"
  shows "fold (\<lambda>i (failed, s).
        (if rowcount (\<lambda>r. rr_run_id r = i \<and> P r) s > 0 then failed @ [i] else failed,
         update_runs (\<lambda>r. rr_run_id r = i \<and> P r) f s)) ids (failed, s) =
    (failed @ ids, s\<lparr>runs := map (\<lambda>r. if P r \<and> rr_run_id r \<in> gone \<union> set ids then f r else r) rs\<rparr>)"
  using ids s
proof (induction ids arbitrary: failed s "gone")
  case Nil
  then show ?case by simp
next
  case (Cons i ids)
  from Cons.prems obtain r where r: "r \<in> set rs" "P r" "rr_run_id r = i" "i \<notin> gone" by auto
  have one: "(\<lambda>q. if rr_run_id q = i \<and> P q then f q else q) (if P q \<and> rr_run_id q \<in> gone then f q else q) =
      (if P q \<and> rr_run_id q \<in> insert i gone then f q else q)" for q
    using r f by auto
  have "(if P r \<and> rr_run_id r \<in> gone then f r else r) = r" using r by simp
  then have "r \<in> set (runs s)" using Cons.prems(4) r(1) by force
  then have pos: "rowcount (\<lambda>r. rr_run_id r = i \<and> P r) s > 0"
    using r by (auto simp: rowcount_def length_pos_if_in_set filter_empty_conv)
  define s1 where "s1 = update_runs (\<lambda>r. rr_run_id r = i \<and> P r) f s"
  have s1: "runs s1 = map (\<lambda>r. if P r \<and> rr_run_id r \<in> insert i gone then f r else r) rs"
    unfolding s1_def update_runs_def using Cons.prems(4) one by simp
  have "s1\<lparr>runs := x\<rparr> = s\<lparr>runs := x\<rparr>" for x by (simp add: s1_def update_runs_def)
  moreover have "set ids \<subseteq> rr_run_id ` {r \<in> set rs. P r}" "distinct ids" "set ids \<inter> insert i gone = {}"
    using Cons.prems by auto
  ultimately show ?case
    using pos Cons.IH [OF _ _ _ s1, of "failed @ [i]"] by (simp add: s1_def)
qed


text \<open>
  At start, failing the orphaned runs one by one, each under its own guarded update, is the same
  as one update of all of them: the ids returned are exactly those of the runs the previous process
  held, in table order, and exactly those rows are failed.
\<close>

theorem fail_orphaned_one_by_one:
  assumes "runs_distinct s"
  shows "fail_runs now (\<lambda>r. rr_status r \<in> {Offering, Running, Cancelling}) s = fail_orphaned_runs s now"
proof -
  let ?P = "\<lambda>r. rr_status r \<in> {Offering, Running, Cancelling}"
  let ?f = "\<lambda>r. r\<lparr>rr_status := Failed, rr_completed_at := Some now\<rparr>"
  let ?ids = "map rr_run_id (filter ?P (runs s))"
  have dist: "distinct (map rr_run_id (runs s))" using assms by (simp add: runs_distinct_def run_ids_def)
  have "map (\<lambda>r. if ?P r \<and> rr_run_id r \<in> {} \<union> set ?ids then ?f r else r) (runs s) =
      map (\<lambda>r. if ?P r then ?f r else r) (runs s)"
    by auto
  then show ?thesis
    using fail_runs_fold [of ?f "runs s" ?ids ?P "{}" s "[]"] dist
    by (simp add: fail_runs_def fail_orphaned_runs_def update_runs_def Let_def distinct_map_filter image_iff)
qed

theorem fail_orphaned_one_by_one_witness:
  "fail_runs 5 (\<lambda>r. rr_status r \<in> {Offering, Running, Cancelling})
     (demo_store [demo_row ''r1'' Running, demo_row ''r2'' Queued]) =
   fail_orphaned_runs (demo_store [demo_row ''r1'' Running, demo_row ''r2'' Queued]) 5"
  by (rule fail_orphaned_one_by_one) (simp add: runs_distinct_def run_ids_def demo_store_def demo_row_def)

end
