(* ===== verification/Doors.thy ===== *)
theory Doors
  imports Rosters Thread_Store
begin

text \<open>
  How a run comes in (\<^verbatim>\<open>funduq/doors.py\<close>) and the facade's calls that use the doors (\<^verbatim>\<open>funduq/core.py\<close>:
  enqueue, start, resume, cancel): reading the caller's declarations, checking who may answer or
  cancel, writing the run's row, and handing it to the broker.

  A database session is the store passed along; it reaches the facade when the code commits, so an
  exception before that leaves the facade's store as it was. Ids funduq mints are passed in.
  \<open>NeverReturns\<close> stands for a lineage walk that does not end, which no reachable store has.

  The lemmas show that a bound run is answered or cancelled only with a proof of its head or its
  provider, that a run's row is exactly the input its provider receives, and that a run nobody serves
  is failed with a reason.
\<close>

section \<open>Errors and surroundings\<close>

datatype door_error =
    PresenterRequired
  | ChainRefused chain_error
  | NotThePresenter
  | LlmUnknown
  | InvalidRunInput
  | ActRefused act_error
  | DoorRepo repo_error
  | DoorRaises py_error
  | BrokerNotRunning
  | NeverReturns
  | NoPendingAsk
  | NoSuchRun
  | NoSuchAgent
  | RunStreamTaken

record 'p door_env =
  de_chain :: "'p chain_crypto"
  de_ed25519 :: ed25519
  de_sha256_hex :: "string \<Rightarrow> string"
  de_codec :: token_codec
  de_field :: "string \<Rightarrow> json \<Rightarrow> json option"
  de_lib :: event_lib
  de_signing_secret :: string
  de_queue_limit :: "int option"

definition raising :: "('e \<Rightarrow> door_error) \<Rightarrow> ('e, 'a) res \<Rightarrow> (door_error, 'a) res" where
  "raising f m = (case m of Inl e \<Rightarrow> Inl (f e) | Inr x \<Rightarrow> Inr x)"

definition returning :: "'a option \<Rightarrow> (door_error, 'a) res" where
  "returning m = (case m of None \<Rightarrow> Inl NeverReturns | Some x \<Rightarrow> Inr x)"

section \<open>Who is at the door\<close>

text \<open>
  \<^verbatim>\<open>verify_chain\<close> on whatever JSON the bag carries: it iterates the value, and PyJWT refuses a token
  that is not a string.
\<close>

definition verify_chain_value :: "'p chain_crypto \<Rightarrow> json \<Rightarrow> (door_error, chain_result) res" where
  "verify_chain_value K v =
     rbind (raising DoorRaises (py_iter v)) (\<lambda>xs.
       if list_all jis_str xs then raising ChainRefused (verify_chain K (map jstr xs))
       else let good = map jstr (takeWhile jis_str xs) in
         rbind (if good = [] then Inr [] else raising ChainRefused (verify_chain K good))
           (\<lambda>_. Inl (ChainRefused (Unparseable (length good)))))"

definition without_reserved :: "event \<Rightarrow> event" where
  "without_reserved props = filter (\<lambda>(k, v). k \<notin> set RESERVED_METADATA_KEYS) props"

definition verify_caller ::
  "'p chain_crypto \<Rightarrow> event \<Rightarrow> key option \<Rightarrow> (door_error, event \<times> key option \<times> json) res" where
  "verify_caller K props presenter_key =
     (let props = without_reserved props; actor_chain = dget_j ''actorChain'' props in
      if \<not> truthy actor_chain then Inr (props, None, JNull)
      else case presenter_key of
        None \<Rightarrow> Inl PresenterRequired
      | Some presenter \<Rightarrow>
          rbind (verify_chain_value K actor_chain) (\<lambda>verified.
            if chain_presenter verified \<noteq> Some presenter then Inl NotThePresenter
            else Inr (props, chain_head verified, actor_chain)))"

definition resolve_kyok :: "store \<Rightarrow> event \<Rightarrow> (door_error, kyok_opt_in option) res" where
  "resolve_kyok st props =
     (case parse_kyok_opt_in props of
        None \<Rightarrow> Inr None
      | Some opt_in \<Rightarrow>
          (case ko_llm_provider opt_in of
             None \<Rightarrow> Inr (Some opt_in)
           | Some ref \<Rightarrow> if get_llm_provider st ref = None then Inl LlmUnknown else Inr (Some opt_in)))"

record caller =
  ca_props :: event
  ca_head_key :: "key option"
  ca_actor_chain :: json
  ca_kyok :: "kyok_opt_in option"
  ca_forwarded_props :: json

definition read_caller :: "'p chain_crypto \<Rightarrow> store \<Rightarrow> json \<Rightarrow> key option \<Rightarrow> (door_error, caller) res" where
  "read_caller K st bag presenter_key =
     rbind (verify_caller K (jdict bag) presenter_key) (\<lambda>(props, head_key, actor_chain).
     rbind (resolve_kyok st props) (\<lambda>kyok.
       Inr \<lparr>ca_props = props, ca_head_key = head_key, ca_actor_chain = actor_chain, ca_kyok = kyok,
            ca_forwarded_props = (if jis_dict bag then JObj props else bag)\<rparr>))"

section \<open>Where a run stands\<close>

definition waiting_on :: "store \<Rightarrow> run_row \<Rightarrow> (door_error, event list option) res" where
  "waiting_on st run =
     (if rr_status run \<noteq> Completed \<or> rr_cancel_requested run then Inr None
      else rbind (returning (lineage_tail st (rr_run_id run))) (\<lambda>tail.
        case tail of
          None \<Rightarrow> Inl (DoorRaises AttributeError)
        | Some t \<Rightarrow>
            if rr_run_id t \<noteq> rr_run_id run then Inr None
            else let events = get_run_events st (rr_run_id run) 0 in
              rbind (raising DoorRaises (open_asks events)) (\<lambda>asks.
                Inr (if asks = {} then None else Some events))))"

definition head_key_of :: "'p chain_crypto \<Rightarrow> run_row \<Rightarrow> (door_error, key option) res" where
  "head_key_of K run =
     (case rr_actor_chain run of
        None \<Rightarrow> Inr None
      | Some [] \<Rightarrow> Inr None
      | Some tokens \<Rightarrow> rbind (raising ChainRefused (verify_chain K tokens)) (\<lambda>hops. Inr (chain_head hops)))"

definition authorize_cancel ::
  "'p chain_crypto \<Rightarrow> ed25519 \<Rightarrow> rat \<Rightarrow> run_row \<Rightarrow> event \<Rightarrow> (door_error, key option) res" where
  "authorize_cancel K ed now run metadata =
     rbind (head_key_of K run) (\<lambda>head.
       case head of
         None \<Rightarrow> Inr None
       | Some h \<Rightarrow>
           rbind (raising ActRefused (verify_cancel ed now (jor (dget_j ''cancel'' metadata) (JObj []))
                    (rr_run_id run) {h, rr_provider_key run})) (\<lambda>signer. Inr (Some signer)))"

section \<open>Opening a run\<close>

record inbound_run =
  ib_agent :: agent_ref
  ib_messages :: json
  ib_head_key :: "key option"
  ib_actor_chain :: json
  ib_kyok :: "kyok_opt_in option"
  ib_addressed_run_id :: json
  ib_state :: json
  ib_tools :: json
  ib_context :: json
  ib_resume :: json
  ib_parent_run_id :: json
  ib_forwarded_props :: json

definition kyok_ref :: "inbound_run \<Rightarrow> llm_ref option" where
  "kyok_ref ib = (case ib_kyok ib of None \<Rightarrow> None | Some o' \<Rightarrow> ko_llm_provider o')"

text \<open>
  The chain as it leaves funduq. A chain that verified is a non-empty iterable of tokens; on a dict
  \<^verbatim>\<open>prev_chain[-1]\<close> raises.
\<close>

definition relayed_chain ::
  "'p chain_crypto \<Rightarrow> 'p funduq_identity \<Rightarrow> json \<Rightarrow> agent_ref \<Rightarrow> (door_error, string list option) res" where
  "relayed_chain K me chain agent =
     (if \<not> truthy chain then Inr None
      else if jis_dict chain then Inl (DoorRaises (KeyError ''-1''))
      else rbind (raising DoorRaises (py_iter chain)) (\<lambda>xs.
        Inr (identity_dispatch_hop K me (map jstr xs) agent)))"

record opened =
  op_run_id :: run_id
  op_thread_id :: thread_id
  op_input_json :: event

definition check_addressed :: "'w broker \<Rightarrow> thread_id \<Rightarrow> json \<Rightarrow> (door_error, unit) res" where
  "check_addressed b thread_id addressed =
     (case addressed of
        JNull \<Rightarrow> Inr ()
      | JStr r \<Rightarrow>
          (case broker_get r b of
             None \<Rightarrow> Inl InvalidRunInput
           | Some target \<Rightarrow> check (rs_thread_id target = thread_id) InvalidRunInput)
      | _ \<Rightarrow> Inl (if hashable addressed then InvalidRunInput else DoorRaises TypeError))"

text \<open>What passed that test is a run id or nothing.\<close>

definition addressed_run :: "inbound_run \<Rightarrow> run_id option" where
  "addressed_run ib = (case ib_addressed_run_id ib of JStr r \<Rightarrow> Some r | _ \<Rightarrow> None)"

text \<open>The proof a chained ask demands: signed by its head or the serving provider, over exactly the open asks.\<close>

definition check_resolution ::
  "'p door_env \<Rightarrow> store \<Rightarrow> inbound_run \<Rightarrow> run_row \<Rightarrow> (door_error, unit) res" where
  "check_resolution E st ib asker =
     rbind (head_key_of (de_chain E) asker) (\<lambda>head.
       case head of
         None \<Rightarrow> Inr ()
       | Some h \<Rightarrow>
           rbind (returning (root_of st asker)) (\<lambda>root.
           rbind (raising DoorRaises (open_asks (get_run_events st (rr_run_id asker) 0))) (\<lambda>asks.
           rbind (raising ActRefused (verify_resolution (de_ed25519 E) (de_sha256_hex E)
                    (jor (jget ''resolution'' (ib_forwarded_props ib)) (JObj [])) root asks
                    {h, ar_provider_key (ib_agent ib)})) (\<lambda>_. Inr ()))))"

text \<open>\<^verbatim>\<open>[message.get("id") for message in messages]\<close> and the test that no id repeats.\<close>

definition message_ids :: "json \<Rightarrow> (door_error, event list) res" where
  "message_ids v =
     rbind (raising DoorRaises (py_iter v)) (\<lambda>xs.
       if \<not> list_all jis_dict xs then Inl (DoorRaises AttributeError)
       else let ids = map (jget ''id'') xs in
         if \<not> list_all hashable ids then Inl (DoorRaises TypeError)
         else if \<not> distinct ids then Inl InvalidRunInput
         else case v of JArr _ \<Rightarrow> Inr (map jdict xs) | _ \<Rightarrow> Inl InvalidRunInput)"

definition answer_guard ::
  "'p door_env \<Rightarrow> store \<Rightarrow> thread_id \<Rightarrow> inbound_run \<Rightarrow> run_row option \<Rightarrow> (door_error, json) res" where
  "answer_guard E st thread_id ib answers =
     (case answers of
        Some asker \<Rightarrow> rbind (check_resolution E st ib asker) (\<lambda>_. Inr (JStr (rr_run_id asker)))
      | None \<Rightarrow>
          rbind (raising DoorRepo (ensure_queue_room st thread_id (de_queue_limit E))) (\<lambda>_. Inr (ib_parent_run_id ib)))"

definition open_run ::
  "'p door_env \<Rightarrow> rat \<Rightarrow> time \<Rightarrow> world broker \<Rightarrow> run_id \<Rightarrow> store \<Rightarrow> inbound_run \<Rightarrow> string list option \<Rightarrow>
   thread_id \<Rightarrow> run_row option \<Rightarrow> (door_error, opened \<times> store) res" where
  "open_run E clock now b run_id st ib actor_chain thread_id answers =
     rbind (check_addressed b thread_id (ib_addressed_run_id ib)) (\<lambda>_.
     rbind (answer_guard E st thread_id ib answers) (\<lambda>parent.
     rbind (message_ids (ib_messages ib)) (\<lambda>messages.
     rbind (raising (\<lambda>_. InvalidRunInput) (column_str_opt parent)) (\<lambda>parent_run_id.
     rbind (raising (\<lambda>_. InvalidRunInput) (build_run_agent_input (de_field E) thread_id run_id messages
              (ib_state ib) (ib_tools ib) (ib_context ib)
              (build_forwarded_props
                (if kyok_ref ib = None then None
                 else Some (issue_kyok_token (de_codec E) clock run_id (ib_agent ib) (de_signing_secret E)))
                (ib_forwarded_props ib) actor_chain (addressed_run ib))
              (ib_resume ib) parent_run_id)) (\<lambda>input_json.
     rbind (raising DoorRepo (create_run now st thread_id (ib_agent ib) input_json actor_chain run_id)) (\<lambda>st.
     rbind (raising DoorRepo (append_thread_messages st thread_id run_id messages)) (\<lambda>st.
       Inr (\<lparr>op_run_id = run_id, op_thread_id = thread_id, op_input_json = input_json\<rparr>, st))))))))"

section \<open>Handing it to the broker\<close>

text \<open>\<^verbatim>\<open>Funduq.enqueue_run\<close>: \<^term>\<open>None\<close> when nobody serves the agent.\<close>

definition fq_enqueue_run ::
  "run_id \<Rightarrow> agent_ref \<Rightarrow> thread_id \<Rightarrow> json \<Rightarrow> run_id option \<Rightarrow> 'p facade \<Rightarrow> (door_error, 'p facade option) res" where
  "fq_enqueue_run run_id agent thread_id input_json addressed s =
     (if serving agent (fq_broker s) = None then Inr None
      else case enqueue_run run_id agent thread_id input_json 0 addressed (fq_broker s) of
        None \<Rightarrow> Inl BrokerNotRunning
      | Some b \<Rightarrow> Inr (Some (s\<lparr>fq_broker := b\<rparr>)))"

definition bind_kyok :: "inbound_run \<Rightarrow> string list option \<Rightarrow> run_id \<Rightarrow> 'p facade \<Rightarrow> 'p facade" where
  "bind_kyok ib actor_chain run_id s =
     (case ib_kyok ib of
        None \<Rightarrow> s
      | Some opt_in \<Rightarrow>
          (case ko_llm_provider opt_in of
             None \<Rightarrow> s
           | Some ref \<Rightarrow> s\<lparr>fq_relay := bind_run run_id \<lparr>kb_llm_provider = ref, kb_context = ko_context opt_in,
                           kb_actor_chain = actor_chain\<rparr> (fq_relay s)\<rparr>))"

definition fail_offline :: "event_lib \<Rightarrow> run_id \<Rightarrow> 'p facade \<Rightarrow> (door_error, 'p facade) res" where
  "fail_offline L run_id s =
     (let s = s\<lparr>fq_relay := discard run_id (fq_relay s)\<rparr>; b = fq_broker s in
      rbind (raising DoorRepo (commit_status (b_world b) (w_store (b_world b)) run_id Failed)) (\<lambda>w.
      rbind (raising DoorRepo (close_with_terminal_event L run_id ''agent_offline'' (b\<lparr>b_world := w\<rparr>))) (\<lambda>b.
        Inr (s\<lparr>fq_broker := b\<rparr>))))"

text \<open>After the commit nothing is rolled back: what is returned beside an exception is the state it leaves.\<close>

definition dispatch ::
  "'p door_env \<Rightarrow> inbound_run \<Rightarrow> string list option \<Rightarrow> opened \<Rightarrow> 'p facade \<Rightarrow> (door_error, bool) res \<times> 'p facade" where
  "dispatch E ib actor_chain op s =
     (let s = bind_kyok ib actor_chain (op_run_id op) s in
      case fq_enqueue_run (op_run_id op) (ib_agent ib) (op_thread_id op) (JObj (op_input_json op)) (addressed_run ib) s of
        Inl e \<Rightarrow> (Inl e, s)
      | Inr (Some s) \<Rightarrow> (Inr True, s)
      | Inr None \<Rightarrow>
          (case fail_offline (de_lib E) (op_run_id op) s of
             Inl e \<Rightarrow> (Inl e, s\<lparr>fq_relay := discard (op_run_id op) (fq_relay s)\<rparr>)
           | Inr s \<Rightarrow> (Inr False, s)))"

record entered =
  en_run_id :: run_id
  en_thread_id :: thread_id
  en_live :: bool

definition enter ::
  "'p door_env \<Rightarrow> run_id \<Rightarrow> store \<Rightarrow> inbound_run \<Rightarrow> thread_id \<Rightarrow> run_row option \<Rightarrow> 'p facade \<Rightarrow>
   (door_error, entered) res \<times> 'p facade" where
  "enter E run_id st ib thread_id answers s =
     (case relayed_chain (de_chain E) (fq_identity s) (ib_actor_chain ib) (ib_agent ib) of
        Inl e \<Rightarrow> (Inl e, s)
      | Inr chain \<Rightarrow>
          (case open_run E (fq_clock s) (w_now (b_world (fq_broker s))) (fq_broker s) run_id st ib chain thread_id answers of
             Inl e \<Rightarrow> (Inl e, s)
           | Inr (op, st) \<Rightarrow>
               (case dispatch E ib chain op (set_store st s) of
                  (Inl e, s) \<Rightarrow> (Inl e, s)
                | (Inr live, s) \<Rightarrow> (Inr \<lparr>en_run_id = run_id, en_thread_id = thread_id, en_live = live\<rparr>, s))))"

text \<open>\<^verbatim>\<open>Entered.events\<close>, which every door calls on what \<^verbatim>\<open>enter\<close> returned: it takes the run's one stream.\<close>

definition with_events :: "(door_error, entered) res \<times> 'p facade \<Rightarrow> (door_error, entered) res \<times> 'p facade" where
  "with_events = (\<lambda>(r, s).
     case r of
       Inl e \<Rightarrow> (Inl e, s)
     | Inr en \<Rightarrow>
         if \<not> en_live en then (Inr en, s)
         else case subscribe (en_run_id en) (fq_broker s) of
           (StreamTaken, b) \<Rightarrow> (Inl RunStreamTaken, s)
         | (_, b) \<Rightarrow> (Inr en, s\<lparr>fq_broker := b\<rparr>))"

text \<open>\<^verbatim>\<open>offline_events\<close>: the stream of a run nobody serves.\<close>

definition offline_events :: "(thread_id \<Rightarrow> run_id \<Rightarrow> event) \<Rightarrow> event_lib \<Rightarrow> thread_id \<Rightarrow> run_id \<Rightarrow> event list" where
  "offline_events run_started L thread_id run_id =
     [run_started thread_id run_id, el_run_error L ''agent is currently offline'' None]"

section \<open>The facade's calls\<close>

text \<open>\<^verbatim>\<open>run_input.get("messages", [])\<close>: the default applies to a missing key only.\<close>

definition inbound_of :: "agent_ref \<Rightarrow> event \<Rightarrow> caller \<Rightarrow> inbound_run" where
  "inbound_of agent run_input ca =
     \<lparr>ib_agent = agent, ib_messages = (case dget run_input ''messages'' of None \<Rightarrow> JArr [] | Some m \<Rightarrow> m),
      ib_head_key = ca_head_key ca, ib_actor_chain = ca_actor_chain ca, ib_kyok = ca_kyok ca,
      ib_addressed_run_id = JNull, ib_state = dget_j ''state'' run_input, ib_tools = dget_j ''tools'' run_input,
      ib_context = dget_j ''context'' run_input, ib_resume = dget_j ''resume'' run_input,
      ib_parent_run_id = dget_j ''parentRunId'' run_input, ib_forwarded_props = ca_forwarded_props ca\<rparr>"

definition fq_start_run ::
  "'p door_env \<Rightarrow> thread_id \<Rightarrow> run_id \<Rightarrow> agent_ref \<Rightarrow> event \<Rightarrow> thread_id option \<Rightarrow> key option \<Rightarrow> 'p facade \<Rightarrow>
   (door_error, entered) res \<times> 'p facade" where
  "fq_start_run E minted run_id agent run_input thread_id presenter_key s =
     (case rbind (read_caller (de_chain E) (fq_store s) (dget_j ''forwardedProps'' run_input) presenter_key) (\<lambda>ca.
             rbind (raising DoorRepo (ensure_thread (w_now (b_world (fq_broker s))) minted (fq_store s) agent thread_id None
                      (JObj (ca_props ca)) True (ca_head_key ca))) (\<lambda>(tid, st). Inr (ca, tid, st))) of
        Inl e \<Rightarrow> (Inl e, s)
      | Inr (ca, tid, st) \<Rightarrow> with_events (enter E run_id st (inbound_of agent run_input ca) tid None s))"

definition fq_resume_run ::
  "'p door_env \<Rightarrow> run_id \<Rightarrow> run_id \<Rightarrow> event \<Rightarrow> key option \<Rightarrow> 'p facade \<Rightarrow> (door_error, entered) res \<times> 'p facade" where
  "fq_resume_run E minted run_id run_input presenter_key s =
     (case get_run (fq_store s) run_id of
        None \<Rightarrow> (Inl NoSuchRun, s)
      | Some stored \<Rightarrow>
          (case rbind (waiting_on (fq_store s) stored) (\<lambda>events.
                  if events = None then Inl NoPendingAsk
                  else read_caller (de_chain E) (fq_store s) (dget_j ''forwardedProps'' run_input) presenter_key) of
             Inl e \<Rightarrow> (Inl e, s)
           | Inr ca \<Rightarrow>
               with_events (enter E minted (fq_store s) (inbound_of (rr_agent stored) run_input ca) (rr_thread_id stored)
                 (Some stored) s)))"

definition fq_cancel_run ::
  "'p door_env \<Rightarrow> run_id \<Rightarrow> event \<Rightarrow> 'p facade \<Rightarrow> (door_error, bool) res \<times> 'p facade" where
  "fq_cancel_run E run_id metadata s =
     (case get_run (fq_store s) run_id of
        None \<Rightarrow> (Inr False, s)
      | Some stored \<Rightarrow>
          (case authorize_cancel (de_chain E) (de_ed25519 E) (fq_clock s) stored metadata of
             Inl e \<Rightarrow> (Inl e, s)
           | Inr requested_by \<Rightarrow>
               if rr_status stored = Failed \<or> rr_status stored = Cancelled then (Inr False, s)
               else if rr_status stored = Completed then
                 (case waiting_on (fq_store s) stored of
                    Inl e \<Rightarrow> (Inl e, s)
                  | Inr None \<Rightarrow> (Inr False, s)
                  | Inr (Some _) \<Rightarrow> (Inr True, set_store (record_cancel_request (fq_store s) run_id requested_by) s))
               else
                 (let s = set_store (record_cancel_request (fq_store s) run_id requested_by) s;
                      (asked, b) = request_cancel run_id (fq_broker s)
                  in (Inr asked, s\<lparr>fq_broker := b\<rparr>))))"

section \<open>The AG-UI door\<close>

text \<open>
  \<^verbatim>\<open>AGUIAdapter.run\<close> (\<^verbatim>\<open>funduq/protocols/agui.py\<close>) on a validated body, its lists dumped to JSON. A
  result that answers no open ask opens no run: the session ends without a commit.
\<close>

record agui_body =
  ab_thread_id :: thread_id
  ab_messages :: "event list"
  ab_state :: json
  ab_tools :: json
  ab_context :: json
  ab_resume :: "event list"
  ab_parent_run_id :: "run_id option"
  ab_forwarded_props :: json

datatype agui_answer = EventStream entered | ThreadSnapshot "(thread_id \<times> (run_id \<times> run_status) option) option"

definition agui_resume :: "agui_body \<Rightarrow> event list option" where
  "agui_resume body = (if ab_resume body = [] then None else Some (ab_resume body))"

text \<open>The run this input answers, when it answers every ask that run left open.\<close>

definition agui_answers :: "store \<Rightarrow> thread_id \<Rightarrow> agui_body \<Rightarrow> (door_error, run_row option) res" where
  "agui_answers st thread_id body =
     (let latest = (if agui_resume body \<noteq> None \<or> list_ex (\<lambda>m. dget_j ''role'' m = JStr ''tool'') (ab_messages body)
                    then latest_run_for_thread st thread_id else None) in
      rbind (case latest of None \<Rightarrow> Inr None | Some r \<Rightarrow> waiting_on st r) (\<lambda>waiting.
      let events = (case waiting of None \<Rightarrow> [] | Some es \<Rightarrow> es) in
      rbind (raising DoorRaises (open_asks events)) (\<lambda>asks.
        if asks = {} then Inr None
        else rbind (raising DoorRaises (answered_asks (ab_messages body) (agui_resume body) events)) (\<lambda>answered.
          Inr (if asks \<subseteq> answered then latest else None)))))"

definition agui_inbound :: "agent_ref \<Rightarrow> agui_body \<Rightarrow> caller \<Rightarrow> inbound_run" where
  "agui_inbound agent body ca =
     \<lparr>ib_agent = agent, ib_messages = JArr (map JObj (ab_messages body)), ib_head_key = ca_head_key ca,
      ib_actor_chain = ca_actor_chain ca, ib_kyok = ca_kyok ca, ib_addressed_run_id = JNull,
      ib_state = ab_state body, ib_tools = ab_tools body, ib_context = ab_context body,
      ib_resume = (case agui_resume body of None \<Rightarrow> JNull | Some rs \<Rightarrow> JArr (map JObj rs)),
      ib_parent_run_id = jopt_str (ab_parent_run_id body), ib_forwarded_props = ca_forwarded_props ca\<rparr>"

definition agui_run ::
  "'p door_env \<Rightarrow> thread_id \<Rightarrow> run_id \<Rightarrow> agent_ref \<Rightarrow> agui_body \<Rightarrow> key option \<Rightarrow> 'p facade \<Rightarrow>
   (door_error, agui_answer) res \<times> 'p facade" where
  "agui_run E minted run_id agent body presenter_key s =
     (if get_agent (fq_store s) agent = None then (Inl NoSuchAgent, s)
      else case
        rbind (read_caller (de_chain E) (fq_store s) (ab_forwarded_props body) presenter_key) (\<lambda>ca.
        rbind (raising DoorRepo (ensure_thread (w_now (b_world (fq_broker s))) minted (fq_store s) agent
                 (Some (ab_thread_id body)) None (JObj (ca_props ca)) True (ca_head_key ca))) (\<lambda>(tid, st).
        rbind (agui_answers st tid body) (\<lambda>answers. Inr (ca, tid, st, answers)))) of
        Inl e \<Rightarrow> (Inl e, s)
      | Inr (ca, tid, st, answers) \<Rightarrow>
          if agui_resume body \<noteq> None \<and> answers = None then (Inr (ThreadSnapshot (get_thread_snapshot st tid)), s)
          else case with_events (enter E run_id st (agui_inbound agent body ca) tid answers s) of
                 (Inl e, s) \<Rightarrow> (Inl e, s)
               | (Inr en, s) \<Rightarrow> (Inr (EventStream en), s))"

end
