(* ===== verification/Doors_Props.thy ===== *)
theory Doors_Props
  imports Doors
begin

text \<open>
  What the doors guarantee: authority for answering and cancelling, the stored row as the delivered
  input, and a reason on every run nobody serves.
\<close>

section \<open>Reading results\<close>

lemma raising_Inr_iff [simp]: "raising f m = Inr x \<longleftrightarrow> m = Inr x"
  by (cases m) (simp_all add: raising_def)

lemma returning_Inr_iff [simp]: "returning m = Inr x \<longleftrightarrow> m = Some x"
  by (cases m) (simp_all add: returning_def)

lemma head_key_of_bound:
  "rr_actor_chain run = Some (t # ts) \<Longrightarrow> head_key_of K run = Inr h \<longleftrightarrow>
     (\<exists>hops. verify_chain K (t # ts) = Inr hops \<and> h = chain_head hops)"
  by (auto simp: head_key_of_def rbind_Inr_iff)

lemma verify_hops_length: "verify_hops K i p pr ts = Inr hs \<Longrightarrow> length hs = length ts"
  by (induction K i p pr ts arbitrary: hs rule: verify_hops.induct) (auto simp: rbind_Inr_iff)

lemma verify_chain_head: "verify_chain K ts = Inr hops \<Longrightarrow> \<exists>h. chain_head hops = Some h"
  using verify_hops_length [of K 0 None None ts hops]
  by (cases hops) (auto simp: verify_chain_def chain_head_def actor_public_keys_def split: if_splits)

section \<open>Cancelling\<close>

text \<open>
  The proof a bag carries under a key, read with plain lookups: it names a public key and has a signature by it.
\<close>

definition carries :: "string \<Rightarrow> event \<Rightarrow> event \<Rightarrow> key \<Rightarrow> string \<Rightarrow> bool" where
  "carries what bag proof k sig \<longleftrightarrow> dget bag what = Some (JObj proof) \<and>
     dget proof ''publicKey'' = Some (JStr k) \<and> dget proof ''signature'' = Some (JStr sig)"

lemma py_index_Inr_iff: "py_index f v = Inr x \<longleftrightarrow> (\<exists>d. v = JObj d \<and> dget d f = Some x)"
  by (cases v) (auto simp: py_index_def py_sub_def split: option.splits)

lemma jor_carries:
  assumes "py_index ''publicKey'' (jor (dget_j what bag) (JObj [])) = Inr (JStr k)"
    and "py_index ''signature'' (jor (dget_j what bag) (JObj [])) = Inr (JStr sig)"
  obtains d where "carries what bag d k sig" "jor (dget_j what bag) (JObj []) = JObj d"
  using assms by (auto simp: py_index_Inr_iff carries_def jor_def dget_j_def split: if_splits option.splits)

text \<open>
  C8. Nobody stops a bound run without authority: a cancel that changes anything about a run opened with
  a chain carries, under \<^verbatim>\<open>cancel\<close>, a proof whose key is the chain's head or the run's provider, whose timestamp is fresh, and whose
  signature is that key's over this run's id and that timestamp; and what it writes down is who asked.
\<close>

theorem cancel_needs_authority:
  assumes run: "get_run (fq_store s) r = Some run" and bound: "rr_actor_chain run = Some (t # ts)"
    and c: "fq_cancel_run E r metadata s = (result, s')" and acts: "s' \<noteq> s"
  shows "\<exists>hops h proof k sig ts' stamp. verify_chain (de_chain E) (t # ts) = Inr hops \<and> chain_head hops = Some h \<and>
    carries ''cancel'' metadata proof k sig \<and> k \<in> {h, rr_provider_key run} \<and>
    dget proof ''timestamp'' = Some ts' \<and> py_int ts' = Inr stamp \<and> is_timestamp_fresh (fq_clock s) stamp \<and>
    verify_signature (de_ed25519 E) k sig (cancel_payload r stamp) \<and>
    fq_store s' = record_cancel_request (fq_store s) r (Some k)"
proof -
  have id: "rr_run_id run = r" by (rule get_run_run_id [OF run])
  from c acts run obtain by' where by': "authorize_cancel (de_chain E) (de_ed25519 E) (fq_clock s) run metadata = Inr by'"
    by (auto simp: fq_cancel_run_def split: sum.splits)
  then obtain hops h k where hops: "verify_chain (de_chain E) (t # ts) = Inr hops" "chain_head hops = Some h"
    and k: "verify_cancel (de_ed25519 E) (fq_clock s) (jor (dget_j ''cancel'' metadata) (JObj [])) r {h, rr_provider_key run} = Inr k"
    "by' = Some k"
    using verify_chain_head
    by (fastforce simp: authorize_cancel_def rbind_Inr_iff head_key_of_bound [OF bound] id split: option.splits)
  have "fq_store (set_store d s) = d" for d by (simp add: set_store_def)
  moreover have "b_world (snd (request_cancel r b)) = b_world b" for b :: "world broker"
    by (auto simp: request_cancel_def post_def upd_run_def split: option.splits)
  ultimately have "fq_store s' = record_cancel_request (fq_store s) r (Some k)"
    using c acts run by' k(2)
    by (auto simp: fq_cancel_run_def Let_def split: if_splits sum.splits option.splits prod.splits)
       (metis snd_conv)+
  moreover from k(1) obtain ts' stamp sig where v: "k \<in> {h, rr_provider_key run}"
    "py_index ''timestamp'' (jor (dget_j ''cancel'' metadata) (JObj [])) = Inr ts'" "py_int ts' = Inr stamp"
    "is_timestamp_fresh (fq_clock s) stamp" "verify_signature (de_ed25519 E) k sig (cancel_payload r stamp)"
    and p: "py_index ''publicKey'' (jor (dget_j ''cancel'' metadata) (JObj [])) = Inr (JStr k)"
      "py_index ''signature'' (jor (dget_j ''cancel'' metadata) (JObj [])) = Inr (JStr sig)"
    unfolding verify_cancel_Inr_iff by blast
  moreover obtain d where d: "carries ''cancel'' metadata d k sig" "jor (dget_j ''cancel'' metadata) (JObj []) = JObj d"
    by (rule jor_carries [OF p])
  moreover from v(2) have "dget d ''timestamp'' = Some ts'" unfolding d(2) by (simp add: py_index_Inr_iff)
  ultimately show ?thesis using hops by blast
qed

section \<open>What opening a run writes\<close>

lemma open_run_Inr_iff:
  "open_run E clock now b r st ib chain tid answers = Inr (op, st') \<longleftrightarrow>
     (\<exists>parent messages p input st1.
        check_addressed b tid (ib_addressed_run_id ib) = Inr () \<and> answer_guard E st tid ib answers = Inr parent \<and>
        message_ids (ib_messages ib) = Inr messages \<and> column_str_opt parent = Inr p \<and>
        build_run_agent_input (de_field E) tid r messages (ib_state ib) (ib_tools ib) (ib_context ib)
          (build_forwarded_props
            (if kyok_ref ib = None then None
             else Some (issue_kyok_token (de_codec E) clock r (ib_agent ib) (de_signing_secret E)))
            (ib_forwarded_props ib) chain (addressed_run ib)) (ib_resume ib) p = Inr input \<and>
        create_run now st tid (ib_agent ib) input chain r = Inr st1 \<and>
        append_thread_messages st1 tid r messages = Inr st' \<and>
        op = \<lparr>op_run_id = r, op_thread_id = tid, op_input_json = input\<rparr>)"
  unfolding open_run_def rbind_Inr_iff raising_Inr_iff by auto

lemma open_run_stores:
  assumes agui_model: "agui_fields (de_field E)"
    and opens: "open_run E clock now b r st ib chain tid answers = Inr (op, st')"
    and unused: "messages_of_run st r = []"
  obtains row parent where "get_run st' r = Some row" "run_input_of (de_field E) st' row = Inr (op_input_json op)"
    "op_run_id op = r" "op_thread_id op = tid" "runs st' = runs st @ [row]" "rr_thread_id row = tid"
    "rr_agent row = ib_agent ib" "rr_status row = Queued" "rr_actor_chain row = chain" "run_events st' = run_events st"
    "get_run st r = None" "answer_guard E st tid ib answers = Inr parent"
    "column_str_opt parent = Inr (rr_parent_run_id row)" "check_addressed b tid (ib_addressed_run_id ib) = Inr ()"
proof -
  from opens obtain parent messages p input st1 where
    guards: "check_addressed b tid (ib_addressed_run_id ib) = Inr ()" "answer_guard E st tid ib answers = Inr parent"
      "column_str_opt parent = Inr p"
    and built: "build_run_agent_input (de_field E) tid r messages (ib_state ib) (ib_tools ib) (ib_context ib)
          (build_forwarded_props
            (if kyok_ref ib = None then None
             else Some (issue_kyok_token (de_codec E) clock r (ib_agent ib) (de_signing_secret E)))
            (ib_forwarded_props ib) chain (addressed_run ib)) (ib_resume ib) p = Inr input"
    and wrote: "create_run now st tid (ib_agent ib) input chain r = Inr st1" "append_thread_messages st1 tid r messages = Inr st'"
    and op: "op = \<lparr>op_run_id = r, op_thread_id = tid, op_input_json = input\<rparr>"
    unfolding open_run_Inr_iff by blast
  from stored_run_reads_back [OF agui_model built wrote unused] obtain row where
    "get_run st' r = Some row" "run_input_of (de_field E) st' row = Inr input" "runs st' = runs st @ [row]"
    "rr_thread_id row = tid" "rr_agent row = ib_agent ib" "rr_status row = Queued" "rr_actor_chain row = chain"
    "rr_parent_run_id row = p" "run_events st' = run_events st" "get_run st r = None" by blast
  with guards op show ?thesis by (intro that [of row parent]) simp_all
qed

section \<open>What dispatch does\<close>

lemma store_of_set_store [simp]: "fq_store (set_store st s) = st"
  by (simp add: set_store_def)

lemma bind_kyok_keeps [simp]:
  "fq_broker (bind_kyok ib chain r s) = fq_broker s"
  by (simp add: bind_kyok_def split: option.splits)

lemma thread_handler_for_world: "thread_handler_for tid a s = (h, s') \<Longrightarrow> b_world s' = b_world s \<and> b_heap s' = b_heap s"
  by (auto simp: thread_handler_for_def Let_def split: option.splits if_splits)

lemma enqueue_run_tracks:
  assumes "enqueue_run r a tid input seq addressed b = Some b'"
  shows "b_world b' = b_world b \<and> r \<in> set (b_runs b') \<and> run_at b' r = Some (new_run r a tid input (b_now b) seq addressed)"
  using assms thread_handler_for_world [of tid a b]
  by (auto simp: enqueue_run_def put_inbox_def upd_hand_def Let_def split: if_splits prod.splits option.splits)

lemma dispatch_live:
  assumes "dispatch E ib chain op s = (Inr True, s')"
  shows "fq_store s' = fq_store s \<and> serving (ib_agent ib) (fq_broker s) \<noteq> None \<and>
    op_run_id op \<in> set (b_runs (fq_broker s')) \<and>
    run_at (fq_broker s') (op_run_id op) = Some (new_run (op_run_id op) (ib_agent ib) (op_thread_id op)
      (JObj (op_input_json op)) (b_now (fq_broker s)) 0 (addressed_run ib)) \<and>
    fq_relay s' = fq_relay (bind_kyok ib chain (op_run_id op) s)"
  using assms
  by (auto simp: dispatch_def fq_enqueue_run_def Let_def dest: enqueue_run_tracks split: sum.splits option.splits if_splits)

lemma dispatch_offline:
  assumes "dispatch E ib chain op s = (Inr False, s')"
  shows "serving (ib_agent ib) (fq_broker s) = None \<and>
    fail_offline (de_lib E) (op_run_id op) (bind_kyok ib chain (op_run_id op) s) = Inr s'"
  using assms by (auto simp: dispatch_def fq_enqueue_run_def Let_def split: sum.splits option.splits if_splits)

text \<open>An id nobody has used yet, as \<^verbatim>\<open>uuid4\<close> mints them.\<close>

definition unused_id :: "run_id \<Rightarrow> store \<Rightarrow> 'w broker \<Rightarrow> bool" where
  "unused_id r st b \<longleftrightarrow> messages_of_run st r = [] \<and> event_rows_of st r = [] \<and> dget (b_run_threads b) r = None \<and> r \<notin> set (b_runs b)"

lemma mark_failed_queued:
  assumes "get_run st r = Some row" "rr_status row = Queued"
  shows "mark_run_status st now r Failed = Inr (True, update_runs (\<lambda>x. rr_run_id x = r \<and> legal_step (rr_status x) Failed)
    (status_values now Failed) st)"
proof -
  have "row \<in> set (runs st)" "rr_run_id row = r" using assms(1) by (auto simp: get_run_def dest: find_Some_in)
  then have "rowcount (\<lambda>x. rr_run_id x = r \<and> rr_status x \<in> {Queued, Offering, Running, Cancelling}) st > 0"
    using assms(2) by (auto simp: rowcount_def filter_empty_conv)
  then show ?thesis by (simp add: mark_run_status_def LEGAL_STATUS_TRANSITIONS_def legal_step_def)
qed

lemma fail_offline_closes:
  assumes row: "get_run (fq_store s) r = Some row" "rr_status row = Queued"
    and log: "event_rows_of (fq_store s) r = []" and gone: "dget (b_run_threads (fq_broker s)) r = None"
    and fails: "fail_offline L r s = Inr s'"
  shows "get_run (fq_store s') r = Some (status_values (w_now (b_world (fq_broker s))) Failed row) \<and>
    get_run_events (fq_store s') r 0 = [el_run_error L ''agent_offline'' (Some ''agent_offline'')] \<and>
    binding_for r (fq_relay s') = None \<and> b_runs (fq_broker s') = b_runs (fq_broker s) \<and>
    (\<forall>j. j \<noteq> r \<longrightarrow> get_run (fq_store s') j = get_run (fq_store s) j)"
proof -
  have id: "rr_run_id row = r" by (rule get_run_run_id [OF row(1)])
  let ?st = "update_runs (\<lambda>x. rr_run_id x = r \<and> legal_step (rr_status x) Failed)
    (status_values (w_now (b_world (fq_broker s))) Failed) (fq_store s)"
  have st: "get_run ?st r = Some (status_values (w_now (b_world (fq_broker s))) Failed row)"
    using row id by (simp add: get_run_update_runs legal_step_def LEGAL_STATUS_TRANSITIONS_def)
  have none: "event_rows_of ?st r = []" using log by (simp add: event_rows_of_def)
  have unsaid: "get_run_events ?st r 0 = []" "get_last_event_seq ?st r = 0"
    using none by (simp_all add: get_run_events_def get_last_event_seq_def)
  have "s' = s\<lparr>fq_relay := discard r (fq_relay s), fq_broker := (fq_broker s)\<lparr>b_world := (b_world (fq_broker s))\<lparr>
      w_changes := w_changes (b_world (fq_broker s)) @ [(r, Failed)],
      w_store := ?st\<lparr>run_events := run_events ?st @ [\<lparr>re_run_id = r, re_seq = 1,
        re_event_json = el_run_error L ''agent_offline'' (Some ''agent_offline''), re_created_at = w_now (b_world (fq_broker s))\<rparr>]\<rparr>\<rparr>\<rparr>\<rparr>"
    using fails gone
    by (simp add: fail_offline_def Let_def commit_status_def mark_failed_queued [OF row] close_with_terminal_event_def push_def
        post_def unsaid append_run_event_def insert_run_event_def st raising_def)
  then show ?thesis
    using st none get_run_update_other [of "status_values (w_now (b_world (fq_broker s))) Failed" _ r "\<lambda>x. legal_step (rr_status x) Failed" "fq_store s"]
    by (auto simp: get_run_events_def event_rows_of_def binding_for_def discard_def get_run_def)
qed

lemma enter_Inr:
  assumes "enter E r st ib tid answers s = (Inr en, s')"
  obtains chain op st' where "relayed_chain (de_chain E) (fq_identity s) (ib_actor_chain ib) (ib_agent ib) = Inr chain"
    "open_run E (fq_clock s) (w_now (b_world (fq_broker s))) (fq_broker s) r st ib chain tid answers = Inr (op, st')"
    "dispatch E ib chain op (set_store st' s) = (Inr (en_live en), s')" "en_run_id en = r" "en_thread_id en = tid"
  using assms by (auto simp: enter_def split: sum.splits prod.splits)

lemma broker_of_set_store [simp]:
  "serving a (fq_broker (set_store st s)) = serving a (fq_broker s)"
  "b_runs (fq_broker (set_store st s)) = b_runs (fq_broker s)"
  "b_run_threads (fq_broker (set_store st s)) = b_run_threads (fq_broker s)"
  by (simp_all add: set_store_def serving_def split: option.split)

section \<open>What the provider is handed\<close>

text \<open>
  C9. What the row says is what the provider gets. When a door lets a run in and its agent is served,
  the run is queued in the database and tracked by the dispatcher, for the same agent on the same
  thread, and the input the dispatcher will deliver is the one \<^verbatim>\<open>run_input_of\<close> rebuilds from the row.
\<close>

theorem provider_receives_the_stored_row:
  assumes agui_model: "agui_fields (de_field E)" and enters: "enter E r st ib tid answers s = (Inr en, s')"
    and unused: "unused_id r st (fq_broker s)" and live: "en_live en"
  shows "\<exists>row run input. get_run (fq_store s') r = Some row \<and> rr_status row = Queued \<and>
    r \<in> set (b_runs (fq_broker s')) \<and> run_at (fq_broker s') r = Some run \<and>
    r_agent run = rr_agent row \<and> r_thread_id run = rr_thread_id row \<and>
    run_input_of (de_field E) (fq_store s') row = Inr input \<and> r_input_json run = JObj input"
proof -
  obtain chain op st' where
    opens: "open_run E (fq_clock s) (w_now (b_world (fq_broker s))) (fq_broker s) r st ib chain tid answers = Inr (op, st')"
    and sends: "dispatch E ib chain op (set_store st' s) = (Inr True, s')"
    using live by (auto intro: enter_Inr [OF enters])
  from unused have "messages_of_run st r = []" by (simp add: unused_id_def)
  from open_run_stores [OF agui_model opens this] obtain row where row: "get_run st' r = Some row"
    "run_input_of (de_field E) st' row = Inr (op_input_json op)" "op_run_id op = r" "op_thread_id op = tid"
    "rr_thread_id row = tid" "rr_agent row = ib_agent ib" "rr_status row = Queued" by blast
  from dispatch_live [OF sends] row show ?thesis by (auto simp: new_run_def)
qed

text \<open>
  C10. A run nobody can serve is failed at the door, with the reason. When its agent is not served, the
  run's row ends failed, its log is the one \<^verbatim>\<open>agent_offline\<close> error, no KYOK binding is left for it and the
  dispatcher does not track it; other runs keep their rows.
\<close>

theorem offline_run_fails_with_reason:
  assumes agui_model: "agui_fields (de_field E)" and enters: "enter E r st ib tid answers s = (Inr en, s')"
    and unused: "unused_id r st (fq_broker s)" and dead: "serving (ib_agent ib) (fq_broker s) = None"
  shows "\<not> en_live en \<and> status_of (fq_store s') r = Some Failed \<and>
    get_run_events (fq_store s') r 0 = [el_run_error (de_lib E) ''agent_offline'' (Some ''agent_offline'')] \<and>
    binding_for r (fq_relay s') = None \<and> r \<notin> set (b_runs (fq_broker s')) \<and>
    (\<forall>j. j \<noteq> r \<longrightarrow> get_run (fq_store s') j = get_run st j)"
proof -
  obtain chain op st' where
    opens: "open_run E (fq_clock s) (w_now (b_world (fq_broker s))) (fq_broker s) r st ib chain tid answers = Inr (op, st')"
    and sends: "dispatch E ib chain op (set_store st' s) = (Inr (en_live en), s')"
    by (rule enter_Inr [OF enters])
  from unused have clean: "messages_of_run st r = []" "event_rows_of st r = []" "dget (b_run_threads (fq_broker s)) r = None"
    "r \<notin> set (b_runs (fq_broker s))" by (auto simp: unused_id_def)
  have off: "\<not> en_live en" using dispatch_live [of E ib chain op "set_store st' s" s'] sends dead by (cases "en_live en") auto
  from open_run_stores [OF agui_model opens clean(1)] obtain row where row: "get_run st' r = Some row" "op_run_id op = r"
    "rr_status row = Queued" "runs st' = runs st @ [row]" "run_events st' = run_events st" by blast
  have log: "event_rows_of st' r = []" using clean(2) row(5) by (simp add: event_rows_of_def)
  have others: "get_run st' j = get_run st j" if "j \<noteq> r" for j
    using that row(4) fetch_append [of rr_run_id j "runs st" "[row]"] get_run_run_id [OF row(1)]
    by (auto simp: get_run_def fetch_def split: option.splits)
  let ?s = "bind_kyok ib chain r (set_store st' s)"
  from dispatch_offline [of E ib chain op] sends off row(2) have "fail_offline (de_lib E) r ?s = Inr s'" by auto
  from fail_offline_closes [OF _ row(3) _ _ this] row(1) log clean(3, 4) off others show ?thesis by (auto simp: status_of_def)
qed

section \<open>Answering\<close>

lemma rr_agent_status_values [simp]: "rr_agent (status_values now status r) = rr_agent r"
  by (simp add: rr_agent_def status_values_def Let_def split: run_status.splits)

lemma enter_row:
  assumes agui_model: "agui_fields (de_field E)" and enters: "enter E r st ib tid answers s = (Inr en, s')"
    and unused: "unused_id r st (fq_broker s)"
  obtains row parent where "get_run (fq_store s') r = Some row" "rr_thread_id row = tid" "rr_agent row = ib_agent ib"
    "answer_guard E st tid ib answers = Inr parent" "column_str_opt parent = Inr (rr_parent_run_id row)"
proof -
  obtain chain op st' where
    opens: "open_run E (fq_clock s) (w_now (b_world (fq_broker s))) (fq_broker s) r st ib chain tid answers = Inr (op, st')"
    and sends: "dispatch E ib chain op (set_store st' s) = (Inr (en_live en), s')"
    by (rule enter_Inr [OF enters])
  from unused have clean: "messages_of_run st r = []" "event_rows_of st r = []" "dget (b_run_threads (fq_broker s)) r = None"
    by (auto simp: unused_id_def)
  from open_run_stores [OF agui_model opens clean(1)] obtain row parent where row: "get_run st' r = Some row" "op_run_id op = r"
    "rr_status row = Queued" "run_events st' = run_events st" "rr_thread_id row = tid" "rr_agent row = ib_agent ib"
    "answer_guard E st tid ib answers = Inr parent" "column_str_opt parent = Inr (rr_parent_run_id row)" by blast
  have log: "event_rows_of st' r = []" using clean(2) row(4) by (simp add: event_rows_of_def)
  show ?thesis
  proof (cases "en_live en")
    case True
    with dispatch_live [of E ib chain op "set_store st' s" s'] sends row show ?thesis by (intro that [of row parent]) auto
  next
    case False
    with dispatch_offline [of E ib chain op] sends row(2)
    have "fail_offline (de_lib E) r (bind_kyok ib chain r (set_store st' s)) = Inr s'" by auto
    from fail_offline_closes [OF _ row(3) _ _ this] row log clean(3) show ?thesis
      by (intro that [of "status_values (w_now (b_world (fq_broker s))) Failed row" parent]) (auto simp: set_store_def)
  qed
qed

lemma with_events_Inr:
  assumes "with_events p = (Inr en, s')"
  shows "\<exists>s1. p = (Inr en, s1) \<and> fq_store s' = fq_store s1"
  using assms
  by (cases p; cases "fst p")
     (auto simp: with_events_def subscribe_def upd_run_def split: if_splits option.splits subscription.splits prod.splits)

lemma waiting_on_Some:
  "waiting_on st run = Inr (Some events) \<longleftrightarrow> rr_status run = Completed \<and> \<not> rr_cancel_requested run \<and>
     (\<exists>tail asks. lineage_tail st (rr_run_id run) = Some (Some tail) \<and> rr_run_id tail = rr_run_id run \<and>
        events = get_run_events st (rr_run_id run) 0 \<and> open_asks events = Inr asks \<and> asks \<noteq> {})"
  by (auto simp: waiting_on_def rbind_Inr_iff Let_def split: option.splits if_splits)

lemma check_resolution_bound:
  assumes bound: "rr_actor_chain asker = Some (t # ts)" and ok: "check_resolution E st ib asker = Inr ()"
  shows "\<exists>hops h root asks bag proof k sig. verify_chain (de_chain E) (t # ts) = Inr hops \<and> chain_head hops = Some h \<and>
    root_of st asker = Some root \<and> open_asks (get_run_events st (rr_run_id asker) 0) = Inr asks \<and>
    ib_forwarded_props ib = JObj bag \<and> carries ''resolution'' bag proof k sig \<and> k \<in> {h, ar_provider_key (ib_agent ib)} \<and>
    verify_signature (de_ed25519 E) k sig (resolve_payload (de_sha256_hex E) root (sorted_list_of_set (jstr ` asks)))"
proof -
  let ?p = "jor (jget ''resolution'' (ib_forwarded_props ib)) (JObj [])"
  from ok obtain hops h root asks k where hops: "verify_chain (de_chain E) (t # ts) = Inr hops" "chain_head hops = Some h"
    "root_of st asker = Some root" "open_asks (get_run_events st (rr_run_id asker) 0) = Inr asks"
    and v: "verify_resolution (de_ed25519 E) (de_sha256_hex E) ?p root asks {h, ar_provider_key (ib_agent ib)} = Inr k"
    using verify_chain_head [of "de_chain E" "t # ts"] unfolding check_resolution_def rbind_Inr_iff head_key_of_bound [OF bound]
    by (fastforce simp: rbind_Inr_iff split: option.splits)
  from v obtain sig where k: "k \<in> {h, ar_provider_key (ib_agent ib)}"
    "verify_signature (de_ed25519 E) k sig (resolve_payload (de_sha256_hex E) root (sorted_list_of_set (jstr ` asks)))"
    and p: "py_index ''publicKey'' ?p = Inr (JStr k)" "py_index ''signature'' ?p = Inr (JStr sig)"
    unfolding verify_resolution_Inr_iff by blast
  from p(1) obtain bag where bag: "ib_forwarded_props ib = JObj bag"
    by (cases "ib_forwarded_props ib") (auto simp: py_index_Inr_iff jor_def jget_def split: if_splits)
  have "jget ''resolution'' (JObj bag) = dget_j ''resolution'' bag" by (simp add: dget_j_def)
  with p obtain d where "carries ''resolution'' bag d k sig" unfolding bag by (metis jor_carries)
  with hops k bag show ?thesis by blast
qed

text \<open>What a door forwards is the caller's own bag, less funduq's key.\<close>

lemma verify_caller_props: "verify_caller K props presenter = Inr (ps, h, c) \<Longrightarrow> ps = without_reserved props"
  unfolding verify_caller_def Let_def by (simp add: rbind_Inr_iff split: if_splits option.splits)

lemma read_caller_forwards:
  assumes "read_caller K st b presenter = Inr ca"
  shows "ca_forwarded_props ca = (if jis_dict b then JObj (without_reserved (jdict b)) else b)"
proof -
  from assms obtain ps h c kyok where v: "verify_caller K (jdict b) presenter = Inr (ps, h, c)"
    and ca: "ca_forwarded_props ca = (if jis_dict b then JObj ps else b)"
    unfolding read_caller_def rbind_Inr_iff by (auto simp only: rbind_Inr_iff prod.case sum.inject caller.select_convs)
  show ?thesis unfolding ca verify_caller_props [OF v] ..
qed

lemma read_caller_carries:
  assumes "read_caller K st (dget_j ''forwardedProps'' run_input) presenter = Inr ca"
    and "ca_forwarded_props ca = JObj bag" and "carries ''resolution'' bag d k sig"
  shows "\<exists>bag'. dget run_input ''forwardedProps'' = Some (JObj bag') \<and> carries ''resolution'' bag' d k sig"
proof -
  let ?b = "dget_j ''forwardedProps'' run_input"
  from read_caller_forwards [OF assms(1)] assms(2)
  have "JObj bag = (if jis_dict ?b then JObj (without_reserved (jdict ?b)) else ?b)" by simp
  then obtain bag' where b: "?b = JObj bag'" "bag = without_reserved bag'"
    by (cases ?b) (auto simp: jis_dict_def jdict_def)
  have "dget (without_reserved bag') ''resolution'' = dget bag' ''resolution''"
    by (induction bag') (auto simp: without_reserved_def RESERVED_METADATA_KEYS_def OBSERVED_METADATA_KEY_def)
  with b assms(3) show ?thesis by (auto simp: carries_def dget_j_def split: option.splits)
qed

text \<open>
  C7. A chained question is answered only by those entitled to. When \<^verbatim>\<open>resume_run\<close> answers a run that was
  opened with a chain, that run was waiting, and the answer's own \<^verbatim>\<open>forwardedProps\<close> carry a resolution whose key is the chain's head
  or the run's provider and whose signature is that key's over the task's root and exactly the asks that are open; and the run it opens
  continues the asking run on its thread, for its agent.
\<close>

theorem answer_needs_resolution:
  assumes agui_model: "agui_fields (de_field E)" and asker: "get_run (fq_store s) r = Some asker"
    and bound: "rr_actor_chain asker = Some (t # ts)" and unused: "unused_id minted (fq_store s) (fq_broker s)"
    and answers: "fq_resume_run E minted r run_input presenter s = (Inr en, s')"
  shows "\<exists>hops h root asks bag proof k sig row. verify_chain (de_chain E) (t # ts) = Inr hops \<and> chain_head hops = Some h \<and>
    rr_status asker = Completed \<and> \<not> rr_cancel_requested asker \<and>
    root_of (fq_store s) asker = Some root \<and> open_asks (get_run_events (fq_store s) r 0) = Inr asks \<and> asks \<noteq> {} \<and>
    dget run_input ''forwardedProps'' = Some (JObj bag) \<and> carries ''resolution'' bag proof k sig \<and> k \<in> {h, rr_provider_key asker} \<and>
    verify_signature (de_ed25519 E) k sig (resolve_payload (de_sha256_hex E) root (sorted_list_of_set (jstr ` asks))) \<and>
    get_run (fq_store s') minted = Some row \<and> rr_parent_run_id row = Some r \<and>
    rr_thread_id row = rr_thread_id asker \<and> rr_agent row = rr_agent asker"
proof -
  have id: "rr_run_id asker = r" by (rule get_run_run_id [OF asker])
  from answers asker obtain events ca where waits: "waiting_on (fq_store s) asker = Inr (Some events)"
    and caller: "read_caller (de_chain E) (fq_store s) (dget_j ''forwardedProps'' run_input) presenter = Inr ca"
    and opens: "with_events (enter E minted (fq_store s) (inbound_of (rr_agent asker) run_input ca) (rr_thread_id asker) (Some asker) s) =
      (Inr en, s')"
    by (auto simp: fq_resume_run_def rbind_Inr_iff split: sum.splits if_splits)
  let ?ib = "inbound_of (rr_agent asker) run_input ca"
  from with_events_Inr [OF opens] obtain s1 where kept: "fq_store s' = fq_store s1"
    and enters: "enter E minted (fq_store s) ?ib (rr_thread_id asker) (Some asker) s = (Inr en, s1)" by blast
  from enter_row [OF agui_model enters unused] obtain row parent where
    row: "get_run (fq_store s') minted = Some row" "rr_thread_id row = rr_thread_id asker" "rr_agent row = ib_agent ?ib"
    and guard: "answer_guard E (fq_store s) (rr_thread_id asker) ?ib (Some asker) = Inr parent"
      "column_str_opt parent = Inr (rr_parent_run_id row)" unfolding kept by blast
  from guard id have checked: "check_resolution E (fq_store s) ?ib asker = Inr ()" and parent: "rr_parent_run_id row = Some r"
    by (auto simp: answer_guard_def rbind_Inr_iff column_str_opt_def)
  have same: "ib_agent ?ib = rr_agent asker" "ar_provider_key (rr_agent asker) = rr_provider_key asker"
    by (simp_all add: inbound_of_def rr_agent_def)
  from waits obtain asks where asks: "rr_status asker = Completed" "\<not> rr_cancel_requested asker"
    "open_asks (get_run_events (fq_store s) r 0) = Inr asks" "asks \<noteq> {}" by (auto simp: waiting_on_Some id)
  from check_resolution_bound [OF bound checked] obtain bag d k sig hops h root asks' where res: "ib_forwarded_props ?ib = JObj bag" "carries ''resolution'' bag d k sig"
    "verify_chain (de_chain E) (t # ts) = Inr hops" "chain_head hops = Some h" "root_of (fq_store s) asker = Some root"
    "open_asks (get_run_events (fq_store s) r 0) = Inr asks'" "k \<in> {h, rr_provider_key asker}"
    "verify_signature (de_ed25519 E) k sig (resolve_payload (de_sha256_hex E) root (sorted_list_of_set (jstr ` asks')))"
    unfolding same id by blast
  obtain bag' where bag: "dget run_input ''forwardedProps'' = Some (JObj bag')" "carries ''resolution'' bag' d k sig"
    using read_caller_carries [OF caller _ res(2)] res(1) by (auto simp: inbound_of_def)
  have "asks' = asks" using asks(3) res(6) by simp
  then show ?thesis using row(1, 2) row(3) [unfolded same(1)] parent asks res(3-5, 7, 8) bag by blast
qed

section \<open>A scenario\<close>

definition demo_door_env :: "bool door_env" where
  "demo_door_env = \<lparr>de_chain = demo_crypto, de_ed25519 = demo_ed, de_sha256_hex = demo_sha, de_codec = demo_codec,
     de_field = demo_field, de_lib = demo_lib, de_signing_secret = ''s'', de_queue_limit = None\<rparr>"

lemma demo_door_env_fields:
  "de_chain demo_door_env = demo_crypto" "de_ed25519 demo_door_env = demo_ed" "de_field demo_door_env = demo_field"
  by (simp_all add: demo_door_env_def)

text \<open>Run r1 was opened by key aa with a chain, asked for a tool and finished.\<close>

definition demo_logged :: "int \<Rightarrow> event \<Rightarrow> run_event_row" where
  "demo_logged n e = \<lparr>re_run_id = ''r1'', re_seq = n, re_event_json = e, re_created_at = 9\<rparr>"

definition demo_asking :: "run_status \<Rightarrow> store" where
  "demo_asking status = demo_threaded\<lparr>
     runs := [(demo_row ''r1'' status)\<lparr>rr_thread_id := ''t1'', rr_provider_key := ''ab'', rr_agent_name := ''x'',
       rr_actor_chain := Some [''t0'']\<rparr>],
     run_events := [demo_logged 1 [(''type'', JStr ''TOOL_CALL_START''), (''toolCallId'', JStr ''c1''), (''toolCallName'', JStr ''f'')],
       demo_logged 2 [(''type'', JStr ''RUN_FINISHED'')]]\<rparr>"

definition demo_door :: "bool \<Rightarrow> store \<Rightarrow> bool facade" where
  "demo_door online st = \<lparr>fq_broker =
       (let b = start_broker (new_broker None 0 \<lparr>w_store = st, w_now = 10, w_changes = [], w_asked = []\<rparr>)
        in if online then register_provider [(demo_agent, demo_c 0)] b else b),
     fq_relay = new_kyok_relay, fq_identity = \<lparr>fi_private_key = True, fi_public_key = ''bb''\<rparr>, fq_agent_open = [], fq_llm_open = [],
     fq_tickets = [], fq_clock = 0, fq_started = True, fq_roster_changes = []\<rparr>"

definition demo_proof :: json where
  "demo_proof = JObj [(''publicKey'', JStr ''aa''), (''timestamp'', JNum 0), (''signature'', JStr ''00'')]"

definition demo_resume_input :: event where
  "demo_resume_input = [(''messages'', JArr [JObj [(''id'', JStr ''m1''), (''role'', JStr ''tool''), (''toolCallId'', JStr ''c1'')]]),
     (''forwardedProps'', JObj [(''resolution'', demo_proof)])]"

lemma demo_store_of [simp]: "fq_store (demo_door online (demo_asking status)) = demo_asking status"
proof (cases online)
  case True
  then show ?thesis by (cases status; simp only:; code_simp)
qed (simp add: demo_door_def start_broker_def new_broker_def)

lemma demo_run:
  "\<exists>run. get_run (demo_asking status) ''r1'' = Some run \<and>
     rr_actor_chain run = Some [''t0''] \<and> rr_provider_key run = ''ab''"
  by (simp add: demo_asking_def get_run_def demo_row_def)

lemma demo_unused: "unused_id ''r2'' (demo_asking Completed) (fq_broker (demo_door online (demo_asking Completed)))"
  unfolding unused_id_def by (cases online; simp only:; code_simp)

theorem cancel_needs_authority_witness:
  "\<exists>proof k sig stamp. k \<in> {''aa'', ''ab''} \<and> carries ''cancel'' [(''cancel'', demo_proof)] proof k sig \<and>
     verify_signature demo_ed k sig (cancel_payload ''r1'' stamp)"
proof -
  let ?s = "demo_door True (demo_asking Running)"
  let ?c = "fq_cancel_run demo_door_env ''r1'' [(''cancel'', demo_proof)] ?s"
  obtain run where run: "get_run (fq_store ?s) ''r1'' = Some run" "rr_actor_chain run = Some [''t0'']" "rr_provider_key run = ''ab''"
    using demo_run by auto
  have "map_option rr_cancel_requested (get_run (fq_store (snd ?c)) ''r1'') = Some True"
    "map_option rr_cancel_requested (get_run (fq_store ?s) ''r1'') = Some False" by code_simp+
  then have acts: "snd ?c \<noteq> ?s" by auto
  have "?c = (fst ?c, snd ?c)" by simp
  from cancel_needs_authority [OF run(1, 2) this acts] obtain hops h d k sig stamp where
    "verify_chain demo_crypto [''t0''] = Inr hops" "chain_head hops = Some h" "k \<in> {h, ''ab''}"
    "carries ''cancel'' [(''cancel'', demo_proof)] d k sig"
    "verify_signature demo_ed k sig (cancel_payload ''r1'' stamp)" unfolding demo_door_env_fields run(3) by blast
  moreover from this(1, 2) have "h = ''aa''"
    by (auto simp: demo_chain_accepted chain_head_def actor_public_keys_def demo_head_hop_def)
  ultimately show ?thesis by blast
qed

theorem answer_needs_resolution_witness:
  "\<exists>row s'. get_run (fq_store s') ''r2'' = Some row \<and> rr_parent_run_id row = Some ''r1'' \<and>
     snd (fq_resume_run demo_door_env ''r2'' ''r1'' demo_resume_input None (demo_door True (demo_asking Completed))) = s'"
proof -
  let ?s = "demo_door True (demo_asking Completed)"
  let ?c = "fq_resume_run demo_door_env ''r2'' ''r1'' demo_resume_input None ?s"
  obtain run where run: "get_run (fq_store ?s) ''r1'' = Some run" "rr_actor_chain run = Some [''t0'']"
    using demo_run by auto
  have "\<not> isl (fst ?c)" by code_simp
  then obtain en where c: "?c = (Inr en, snd ?c)" by (cases "fst ?c") (auto simp: prod_eq_iff)
  have "agui_fields (de_field demo_door_env)" "unused_id ''r2'' (fq_store ?s) (fq_broker ?s)"
    using demo_field_ok demo_unused [of True] by (simp_all add: demo_door_env_def)
  from answer_needs_resolution [OF this(1) run this(2) c] show ?thesis by blast
qed

text \<open>The entrances of the two theorems on what a run becomes, online and offline.\<close>

definition demo_inbound :: inbound_run where
  "demo_inbound = inbound_of demo_agent demo_resume_input
     \<lparr>ca_props = [], ca_head_key = None, ca_actor_chain = JNull, ca_kyok = None, ca_forwarded_props = JObj []\<rparr>"

definition demo_enter :: "bool \<Rightarrow> (door_error, entered) res \<times> bool facade" where
  "demo_enter online = enter demo_door_env ''r2'' (demo_asking Completed) demo_inbound ''t1'' None (demo_door online (demo_asking Completed))"

lemma demo_enters: "\<exists>en. demo_enter online = (Inr en, snd (demo_enter online)) \<and> en_live en = online"
proof -
  have "map_sum (\<lambda>_. ()) en_live (fst (demo_enter online)) = Inr online" by (cases online; simp only:; code_simp)
  then show ?thesis by (cases "fst (demo_enter online)") (auto simp: prod_eq_iff)
qed

theorem provider_receives_the_stored_row_witness:
  "\<exists>row run input. get_run (fq_store (snd (demo_enter True))) ''r2'' = Some row \<and>
     run_at (fq_broker (snd (demo_enter True))) ''r2'' = Some run \<and>
     run_input_of demo_field (fq_store (snd (demo_enter True))) row = Inr input \<and> r_input_json run = JObj input"
proof -
  obtain en where "demo_enter True = (Inr en, snd (demo_enter True))" "en_live en" using demo_enters [of True] by auto
  moreover have "agui_fields (de_field demo_door_env)" using demo_field_ok by (simp add: demo_door_env_def)
  ultimately show ?thesis
    using provider_receives_the_stored_row [OF _ _ demo_unused [of True], of demo_door_env demo_inbound "''t1''" None en]
    by (fastforce simp: demo_enter_def demo_door_env_def)
qed

theorem offline_run_fails_with_reason_witness:
  "status_of (fq_store (snd (demo_enter False))) ''r2'' = Some Failed"
proof -
  obtain en where "demo_enter False = (Inr en, snd (demo_enter False))" using demo_enters [of False] by auto
  moreover have "agui_fields (de_field demo_door_env)" using demo_field_ok by (simp add: demo_door_env_def)
  moreover have "serving (ib_agent demo_inbound) (fq_broker (demo_door False (demo_asking Completed))) = None" by code_simp
  ultimately show ?thesis
    using offline_run_fails_with_reason [OF _ _ demo_unused [of False], of demo_door_env demo_inbound "''t1''" None en]
    by (simp add: demo_enter_def)
qed

text \<open>
  A caller's own \<^verbatim>\<open>parentRunId\<close> is written down unchecked. A run another party opens on a thread of its
  own, without a chain and without a proof, that names a waiting run as its parent makes the lineage
  of the waiting run go on: the ask counts as answered and can no longer be answered or closed.
\<close>

lemma stranger_closes_the_ask:
  defines "s \<equiv> demo_door True (demo_asking Completed)"
  defines "s' \<equiv> snd (fq_start_run demo_door_env ''t9'' ''r9'' demo_agent [(''parentRunId'', JStr ''r1'')] None None s)"
  shows "fst (fq_resume_run demo_door_env ''r2'' ''r1'' demo_resume_input None s') = Inl NoPendingAsk \<and>
    fst (fq_cancel_run demo_door_env ''r1'' [(''cancel'', demo_proof)] s') = Inr False \<and>
    map_option rr_thread_id (get_run (fq_store s') ''r9'') = Some ''t9''"
  unfolding s_def s'_def by code_simp

end
