(* ===== verification/Facade.thy ===== *)
theory Facade
  imports Doors_Props
begin

text \<open>
  The rest of the facade (\<^verbatim>\<open>funduq/core.py\<close>): starting up after a previous process (\<^verbatim>\<open>start\<close>,
  \<^verbatim>\<open>_recover_queued\<close>), closing, the health report, and the calls that read the record for a caller.

  \<^verbatim>\<open>start\<close> may raise when the database refuses a write or a stored row no longer validates as an input;
  the model then gives the exception, not what was already written.

  The lemmas show that after a start every run the previous process held is failed with a reason and
  every run that was only waiting is tracked again, in its old order, with the input its row holds.
\<close>

section \<open>Starting\<close>

definition close_run :: "event_lib \<Rightarrow> string \<Rightarrow> run_id \<Rightarrow> 'p facade \<Rightarrow> (door_error, 'p facade) res" where
  "close_run L code run_id s =
     rbind (raising DoorRepo (close_with_terminal_event L run_id code (fq_broker s))) (\<lambda>b. Inr (s\<lparr>fq_broker := b\<rparr>))"

text \<open>\<^verbatim>\<open>FunduqProps.of(bag).addressed_run_id\<close> of a stored row.\<close>

definition stored_addressed :: "run_row \<Rightarrow> run_id option" where
  "stored_addressed stored = fp_addressed_run_id (funduq_props_of (JObj (jdict (rr_forwarded_props stored))))"

definition target_lost :: "run_row \<Rightarrow> 'p facade \<Rightarrow> bool" where
  "target_lost stored s =
     (case stored_addressed stored of None \<Rightarrow> False | Some a \<Rightarrow> broker_get a (fq_broker s) = None)"

definition rebind_kyok :: "run_row \<Rightarrow> 'p facade \<Rightarrow> 'p facade" where
  "rebind_kyok stored s =
     (case parse_kyok_opt_in (jdict (rr_forwarded_props stored)) of
        None \<Rightarrow> s
      | Some opt_in \<Rightarrow>
          (case ko_llm_provider opt_in of
             None \<Rightarrow> s
           | Some ref \<Rightarrow> s\<lparr>fq_relay := bind_run (rr_run_id stored) \<lparr>kb_llm_provider = ref,
                           kb_context = ko_context opt_in, kb_actor_chain = rr_actor_chain stored\<rparr> (fq_relay s)\<rparr>))"

definition recover_run ::
  "'p door_env \<Rightarrow> run_row \<Rightarrow> run_id list \<times> 'p facade \<Rightarrow> (door_error, run_id list \<times> 'p facade) res" where
  "recover_run E stored = (\<lambda>(lost, s).
     if target_lost stored s then
       rbind (raising DoorRepo (commit_status (b_world (fq_broker s)) (fq_store s) (rr_run_id stored) Failed)) (\<lambda>w.
         Inr (lost @ [rr_run_id stored], s\<lparr>fq_broker := (fq_broker s)\<lparr>b_world := w\<rparr>\<rparr>))
     else
       let s = rebind_kyok stored s in
       rbind (raising DoorRaises (run_input_of (de_field E) (fq_store s) stored)) (\<lambda>input.
         case enqueue_run (rr_run_id stored) (rr_agent stored) (rr_thread_id stored) (JObj input)
                (get_last_event_seq (fq_store s) (rr_run_id stored)) (stored_addressed stored) (fq_broker s) of
           None \<Rightarrow> Inl BrokerNotRunning
         | Some b \<Rightarrow> Inr (lost, s\<lparr>fq_broker := b\<rparr>)))"

definition recover_queued :: "'p door_env \<Rightarrow> 'p facade \<Rightarrow> (door_error, 'p facade) res" where
  "recover_queued E s =
     rbind (mfold (recover_run E) (queued_runs (fq_store s)) ([], s)) (\<lambda>(lost, s).
       mfold (close_run (de_lib E) ''interjection_target_lost'') lost s)"

definition fq_start :: "'p door_env \<Rightarrow> 'p facade \<Rightarrow> (door_error, run_id list \<times> 'p facade) res" where
  "fq_start E s =
     (if fq_started s then Inr ([], s)
      else
        let (orphaned, st) = fail_orphaned_runs (fq_store s) (w_now (b_world (fq_broker s)));
            s = set_store st (s\<lparr>fq_started := True\<rparr>)
        in rbind (mfold (close_run (de_lib E) ''orphaned_by_funduq_restart'') orphaned s) (\<lambda>s.
           rbind (recover_queued E (s\<lparr>fq_broker := start_broker (fq_broker s)\<rparr>)) (\<lambda>s. Inr (orphaned, s))))"

definition aclose :: "'p facade \<Rightarrow> 'p facade" where
  "aclose s = s\<lparr>fq_broker := stop_broker (fq_broker s), fq_started := False\<rparr>"

section \<open>Health\<close>

text \<open>
  What the probe of the database gave: the recorded revision, or the name of the exception it raised
  (\<^verbatim>\<open>TimeoutError\<close> included).
\<close>

type_synonym probe = "(string, string option) res"

record health =
  hl_database :: bool
  hl_schema_revision :: "string option"
  hl_expected_schema_revision :: string
  hl_dispatching :: bool
  hl_database_error :: "string option"

definition EXPECTED_SCHEMA_REVISION :: string where
  "EXPECTED_SCHEMA_REVISION = ''d4a7c2e9f150''"

definition fq_health :: "probe \<Rightarrow> 'p facade \<Rightarrow> health" where
  "fq_health probe s =
     \<lparr>hl_database = \<not> isl probe,
      hl_schema_revision = (case probe of Inl _ \<Rightarrow> None | Inr r \<Rightarrow> r),
      hl_expected_schema_revision = EXPECTED_SCHEMA_REVISION,
      hl_dispatching = b_running (fq_broker s),
      hl_database_error = (case probe of Inl e \<Rightarrow> Some e | Inr _ \<Rightarrow> None)\<rparr>"

definition schema_current :: "health \<Rightarrow> bool" where
  "schema_current h = (hl_schema_revision h = Some (hl_expected_schema_revision h))"

definition ready :: "health \<Rightarrow> bool" where
  "ready h = (hl_database h \<and> schema_current h \<and> hl_dispatching h)"

section \<open>The roster as a caller reads it\<close>

definition is_serving :: "agent_ref \<Rightarrow> 'p facade \<Rightarrow> bool" where
  "is_serving agent s = (serving agent (fq_broker s) \<noteq> None)"

definition is_serving_llm :: "llm_ref \<Rightarrow> 'p facade \<Rightarrow> bool" where
  "is_serving_llm ref s = (relay_serving ref (fq_relay s) \<noteq> None)"

definition fq_list_agents :: "int \<Rightarrow> 'p facade \<Rightarrow> (repo_error, agent_summary list) res" where
  "fq_list_agents stale_hidden_window_seconds s =
     rbind (list_agents (w_now (b_world (fq_broker s))) stale_hidden_window_seconds (fq_store s)) (\<lambda>stored.
       Inr (map (\<lambda>a. a\<lparr>as_online := is_serving \<lparr>ar_provider_key = as_provider_key a, ar_name = as_name a\<rparr> s\<rparr>) stored))"

definition fq_list_llm_providers :: "int \<Rightarrow> 'p facade \<Rightarrow> llm_summary list" where
  "fq_list_llm_providers stale_hidden_window_seconds s =
     map (\<lambda>a. a\<lparr>ls_online := is_serving_llm \<lparr>lr_provider_key = ls_provider_key a, lr_name = ls_name a\<rparr> s\<rparr>)
       (list_llm_providers (w_now (b_world (fq_broker s))) stale_hidden_window_seconds (fq_store s))"

section \<open>Threads and runs as a caller reads them\<close>

definition parties_of :: "'p door_env \<Rightarrow> thread_id \<Rightarrow> 'p facade \<Rightarrow> (chain_error, key set option) res" where
  "parties_of E thread_id s =
     (case get_thread (fq_store s) thread_id of
        None \<Rightarrow> Inr None
      | Some t \<Rightarrow> readers_of (de_chain E) (fq_store s) t)"

datatype thread_node = ThreadNode thread_row "thread_node list"

text \<open>
  \<^verbatim>\<open>build\<close> recurses along child threads. The fuel is one more than the number of threads; the lemmas show
  that this is enough on every store the operations on threads reach.
\<close>

fun build_children :: "nat \<Rightarrow> store \<Rightarrow> thread_id \<Rightarrow> thread_node list option" where
  "build_children 0 st thread_id = None"
| "build_children (Suc n) st thread_id =
     those (map (\<lambda>c. map_option (ThreadNode c) (build_children n st (th_thread_id c))) (get_thread_children st thread_id))"

definition get_thread_tree :: "thread_id \<Rightarrow> 'p facade \<Rightarrow> (door_error, thread_node option) res" where
  "get_thread_tree thread_id s =
     (case get_thread (fq_store s) thread_id of
        None \<Rightarrow> Inr None
      | Some t \<Rightarrow>
          rbind (returning (build_children (Suc (length (threads (fq_store s)))) (fq_store s) thread_id)) (\<lambda>children.
            Inr (Some (ThreadNode t children))))"

definition get_run_input :: "'p door_env \<Rightarrow> run_id \<Rightarrow> 'p facade \<Rightarrow> (py_error, event option) res" where
  "get_run_input E run_id s =
     (case get_run (fq_store s) run_id of
        None \<Rightarrow> Inr None
      | Some run \<Rightarrow> rbind (run_input_of (de_field E) (fq_store s) run) (\<lambda>input. Inr (Some input)))"

definition thread_runs :: "thread_id \<Rightarrow> 'p facade \<Rightarrow> run_row list" where
  "thread_runs thread_id s = runs_in_thread (fq_store s) thread_id"

definition root_runs :: "thread_id \<Rightarrow> 'p facade \<Rightarrow> run_row list" where
  "root_runs thread_id s = root_runs_in_thread (fq_store s) thread_id"

text \<open>\<^verbatim>\<open>task_messages\<close>: the messages that first appear in a run of the lineage, in order.\<close>

definition task_messages :: "run_id \<Rightarrow> 'p facade \<Rightarrow> (door_error, event list) res" where
  "task_messages run_id s =
     (let st = fq_store s in
      rbind (returning (lineage st run_id)) (\<lambda>rows.
        let ids = map rr_run_id rows in
        if ids = [] then Inr []
        else case get_run st run_id of
          None \<Rightarrow> Inl (DoorRaises AttributeError)
        | Some run \<Rightarrow>
            rbind (raising DoorRepo (conversation_of st
                    (filter (\<lambda>r. rr_status r = Completed \<or> rr_run_id r \<in> set ids) (runs_in_thread st (rr_thread_id run))))) (\<lambda>said.
              Inr (map snd (filter (\<lambda>(source, m). source \<in> set ids) said)))))"

text \<open>\<^verbatim>\<open>RunHandle.cancel\<close>: a handle made by a start or a resume carries its facade.\<close>

definition handle_cancel :: "'p door_env \<Rightarrow> run_id \<Rightarrow> 'p facade option \<Rightarrow> (door_error, bool) res \<times> 'p facade option" where
  "handle_cancel E run_id attached =
     (case attached of
        None \<Rightarrow> (Inr False, None)
      | Some s \<Rightarrow> (case fq_cancel_run E run_id [] s of (r, s') \<Rightarrow> (r, Some s')))"

section \<open>Closing leaves everything but the log\<close>

definition log_grows :: "'p facade \<Rightarrow> 'p facade \<Rightarrow> bool" where
  "log_grows s s' \<longleftrightarrow> (\<exists>st. s' = set_store st s \<and> runs st = runs (fq_store s) \<and>
     thread_messages st = thread_messages (fq_store s) \<and> set (run_events (fq_store s)) \<subseteq> set (run_events st))"

definition log_ok :: "store \<Rightarrow> bool" where
  "log_ok st \<longleftrightarrow> (\<forall>e \<in> set (run_events st). re_seq e > 0)"

definition says_why :: "store \<Rightarrow> run_id \<Rightarrow> bool" where
  "says_why st r \<longleftrightarrow> (\<exists>e \<in> set (get_run_events st r 0). event_type e = JStr ''RUN_ERROR'')"

lemma set_store_twice [simp]: "set_store st (set_store st' s) = set_store st s"
  by (simp add: set_store_def)

lemma set_store_same: "set_store (fq_store s) s = s"
  by (simp add: set_store_def)

lemma heap_set_store [simp]:
  "b_heap (fq_broker (set_store st s)) = b_heap (fq_broker s)" "b_running (fq_broker (set_store st s)) = b_running (fq_broker s)"
  by (simp_all add: set_store_def)

lemma log_grows_refl: "log_grows s s"
  unfolding log_grows_def using set_store_same [of s, symmetric] by blast

lemma log_grows_trans: "log_grows s t \<Longrightarrow> log_grows t u \<Longrightarrow> log_grows s u"
  by (fastforce simp: log_grows_def)

lemma get_run_events_set:
  "e \<in> set (get_run_events st r 0) \<longleftrightarrow> (\<exists>x \<in> set (run_events st). re_run_id x = r \<and> re_seq x > 0 \<and> re_event_json x = e)"
  by (auto simp: get_run_events_def event_rows_of_def)

lemma says_why_grows: "log_grows s s' \<Longrightarrow> says_why (fq_store s) r \<Longrightarrow> says_why (fq_store s') r"
  by (fastforce simp: says_why_def get_run_events_set log_grows_def)

lemma fold_max_ge: "n \<le> fold max ns (n :: int)"
proof (induction ns arbitrary: n)
  case (Cons m ns)
  show ?case using Cons.IH [of "max m n"] by simp
qed simp

lemma last_seq_nonneg: "log_ok st \<Longrightarrow> get_last_event_seq st r \<ge> 0"
proof -
  assume ok: "log_ok st"
  show ?thesis
  proof (cases "map re_seq (event_rows_of st r)")
    case (Cons n ns)
    then have "n \<in> re_seq ` set (run_events st)" by (auto simp: event_rows_of_def map_eq_Cons_conv filter_eq_Cons_iff)
    with ok have "n > 0" by (auto simp: log_ok_def)
    with fold_max_ge [of n ns] show ?thesis by (simp add: get_last_event_seq_def Cons)
  qed (simp add: get_last_event_seq_def)
qed

text \<open>What the AG-UI library's \<^verbatim>\<open>RunErrorEvent\<close> dumps.\<close>

definition run_errors_typed :: "event_lib \<Rightarrow> bool" where
  "run_errors_typed L \<longleftrightarrow> (\<forall>m c. event_type (el_run_error L m c) = JStr ''RUN_ERROR'')"

lemma close_run_untracked:
  assumes row: "get_run (fq_store s) r \<noteq> None" and gone: "dget (b_run_threads (fq_broker s)) r = None"
    and lib: "run_errors_typed L" and ok: "log_ok (fq_store s)"
  shows "\<exists>s'. close_run L code r s = Inr s' \<and> log_grows s s' \<and> says_why (fq_store s') r \<and> log_ok (fq_store s')"
proof (cases "\<exists>e \<in> set (get_run_events (fq_store s) r 0). event_type e = JStr ''RUN_ERROR''")
  case True
  then have "close_run L code r s = Inr s" using gone
    by (simp add: close_run_def close_with_terminal_event_def push_def post_def Let_def raising_def)
  with True ok show ?thesis by (auto simp: log_grows_refl says_why_def)
next
  case False
  let ?e = "\<lparr>re_run_id = r, re_seq = get_last_event_seq (fq_store s) r + 1,
    re_event_json = el_run_error L code (Some code), re_created_at = w_now (b_world (fq_broker s))\<rparr>"
  let ?st = "(fq_store s)\<lparr>run_events := run_events (fq_store s) @ [?e]\<rparr>"
  define s' where s': "s' = set_store ?st s"
  have closed: "close_run L code r s = Inr s'"
    unfolding s' using gone row False
    by (simp add: close_run_def close_with_terminal_event_def push_def post_def Let_def raising_def append_run_event_def insert_run_event_def set_store_def)
  have seq: "re_seq ?e > 0" using last_seq_nonneg [OF ok, of r] by simp
  moreover have "log_grows s s'" unfolding log_grows_def by (intro exI [of _ ?st]) (auto simp: s')
  moreover have "re_event_json ?e \<in> set (get_run_events (fq_store s') r 0)"
    unfolding get_run_events_set using seq by (intro bexI [of _ ?e]) (simp_all add: s')
  then have "says_why (fq_store s') r" using lib by (auto simp: says_why_def run_errors_typed_def)
  moreover have "log_ok (fq_store s')" using ok seq by (auto simp: s' log_ok_def)
  ultimately show ?thesis using closed by blast
qed

lemma close_all_untracked:
  assumes "\<forall>r \<in> set rs. get_run (fq_store s) r \<noteq> None" "\<forall>r \<in> set rs. dget (b_run_threads (fq_broker s)) r = None"
    "run_errors_typed L" "log_ok (fq_store s)"
  shows "\<exists>s'. mfold (close_run L code) rs s = Inr s' \<and> log_grows s s' \<and> (\<forall>r \<in> set rs. says_why (fq_store s') r) \<and>
    log_ok (fq_store s')"
  using assms
proof (induction rs arbitrary: s)
  case (Cons r rs)
  from close_run_untracked [of s r L code] Cons.prems obtain u where
    one: "close_run L code r s = Inr u" "log_grows s u" "says_why (fq_store u) r" "log_ok (fq_store u)" by auto
  from one(2) have "get_run (fq_store u) = get_run (fq_store s)" "b_run_threads (fq_broker u) = b_run_threads (fq_broker s)"
    by (auto simp: log_grows_def get_run_def fun_eq_iff)
  with Cons.IH [of u] Cons.prems one(4) obtain s' where
    rest: "mfold (close_run L code) rs u = Inr s'" "log_grows u s'" "\<forall>r \<in> set rs. says_why (fq_store s') r" "log_ok (fq_store s')"
    by auto
  show ?case using one(1) log_grows_trans [OF one(2) rest(2)] says_why_grows [OF rest(2) one(3)] rest by auto
qed (simp add: log_grows_refl)

section \<open>Taking the queued runs back\<close>

text \<open>
  What a start takes back: the queued runs oldest first, an interjection only behind the run it
  addresses.
\<close>

fun taken_back :: "run_row list \<Rightarrow> run_id list \<Rightarrow> run_id list" where
  "taken_back [] acc = acc"
| "taken_back (r # rs) acc =
     (case stored_addressed r of
        None \<Rightarrow> taken_back rs (acc @ [rr_run_id r])
      | Some a \<Rightarrow> if a \<in> set acc then taken_back rs (acc @ [rr_run_id r]) else taken_back rs acc)"

lemma taken_back_grows: "set acc \<subseteq> set (taken_back rs acc)"
proof (induction rs arbitrary: acc)
  case (Cons r rs)
  show ?case using Cons.IH [of acc] Cons.IH [of "acc @ [rr_run_id r]"] by (auto split: option.splits)
qed simp

lemma left_behind: "r \<in> set rs \<Longrightarrow> rr_run_id r \<notin> set (taken_back rs acc) \<Longrightarrow> stored_addressed r \<noteq> None"
proof (induction rs arbitrary: acc)
  case (Cons x rs)
  then show ?case using taken_back_grows [of "acc @ [rr_run_id x]" rs] by (auto split: option.splits if_splits)
qed simp

text \<open>The state after \<open>old\<close> of the waiting rows were looked at and \<open>lost\<close> of them failed.\<close>

definition fail_lost :: "time \<Rightarrow> run_id list \<Rightarrow> run_row \<Rightarrow> run_row" where
  "fail_lost now lost r = (if rr_run_id r \<in> set lost \<and> rr_status r = Queued then status_values now Failed r else r)"

lemma fail_lost_id [simp]: "rr_run_id (fail_lost now lost r) = rr_run_id r"
  by (simp add: fail_lost_def)

lemma get_run_map: "(\<And>r. rr_run_id (f r) = rr_run_id r) \<Longrightarrow> runs st' = map f (runs st) \<Longrightarrow> get_run st' i = map_option f (get_run st i)"
  by (simp add: get_run_def find_map_same)

definition handed_over :: "'p door_env \<Rightarrow> store \<Rightarrow> run_row \<Rightarrow> 'w broker \<Rightarrow> bool" where
  "handed_over E st r b \<longleftrightarrow> (\<exists>input run. run_input_of (de_field E) st r = Inr input \<and> run_at b (rr_run_id r) = Some run \<and>
     r_input_json run = JObj input \<and> r_agent run = rr_agent r \<and> r_thread_id run = rr_thread_id r)"

definition recovering :: "'p door_env \<Rightarrow> time \<Rightarrow> store \<Rightarrow> run_row list \<Rightarrow> run_id list \<Rightarrow> 'p facade \<Rightarrow> bool" where
  "recovering E now st0 old lost s \<longleftrightarrow>
     fq_store s = st0\<lparr>runs := map (fail_lost now lost) (runs st0)\<rparr> \<and> w_now (b_world (fq_broker s)) = now \<and>
     set lost \<subseteq> rr_run_id ` set old \<and> set (b_runs (fq_broker s)) = rr_run_id ` set old - set lost \<and>
     (\<forall>r \<in> set old. rr_run_id r \<notin> set lost \<longrightarrow> handed_over E st0 r (fq_broker s)) \<and>
     (\<forall>j. dget (b_run_threads (fq_broker s)) j \<noteq> None \<longrightarrow> j \<in> set (b_runs (fq_broker s))) \<and>
     distinct (map rr_run_id old) \<and> b_running (fq_broker s)"

lemma fail_lost_more:
  assumes distinct: "runs_distinct st0" and row: "r \<in> set (runs st0)" "rr_status r = Queued" and new: "rr_run_id r \<notin> set lost"
  shows "map (fail_lost now (lost @ [rr_run_id r])) (runs st0) =
    map (\<lambda>x. if rr_run_id x = rr_run_id r \<and> legal_step (rr_status x) Failed then status_values now Failed x else x)
      (map (fail_lost now lost) (runs st0))"
proof -
  have "fail_lost now (lost @ [rr_run_id r]) x =
      (let y = fail_lost now lost x in if rr_run_id y = rr_run_id r \<and> legal_step (rr_status y) Failed then status_values now Failed y else y)"
    if x: "x \<in> set (runs st0)" for x
  proof (cases "rr_run_id x = rr_run_id r")
    case True
    with distinct x row(1) have "x = r"
      by (auto simp: runs_distinct_def run_ids_def distinct_map dest: inj_onD)
    with row(2) new show ?thesis by (simp add: fail_lost_def legal_step_def LEGAL_STATUS_TRANSITIONS_def)
  qed (simp add: fail_lost_def)
  then show ?thesis by (simp add: Let_def)
qed

lemma run_input_of_runs_cong [simp]: "run_input_of field (st\<lparr>runs := rs\<rparr>) r = run_input_of field st r"
  by (simp add: run_input_of_def messages_of_run_def)

lemma rebind_kyok_keeps [simp]: "fq_broker (rebind_kyok r s) = fq_broker s"
  by (simp add: rebind_kyok_def split: option.splits)

lemma thread_handler_for_runs:
  "thread_handler_for tid a b = (h, b') \<Longrightarrow> b_runs b' = b_runs b \<and> b_run_threads b' = b_run_threads b"
  by (auto simp: thread_handler_for_def Let_def split: option.splits if_splits)

lemma enqueue_run_parts:
  assumes "enqueue_run r a tid input seq addressed b = Some b'"
  shows "b_world b' = b_world b" "b_runs b' = (if r \<in> set (b_runs b) then b_runs b else b_runs b @ [r])"
    "run_at b' j = (if j = r then Some (new_run r a tid input (b_now b) seq addressed) else run_at b j)"
    "dget (b_run_threads b') j \<noteq> None \<longleftrightarrow> j = r \<or> dget (b_run_threads b) j \<noteq> None" "b_running b'"
proof -
  obtain h b1 where hb: "thread_handler_for tid a b = (h, b1)" by fastforce
  note kept = thread_handler_for_world [OF hb] thread_handler_for_runs [OF hb]
  have b': "b' = put_inbox h (MQueued r) (b1\<lparr>b_heap := dput r (new_run r a tid input (b_now b) seq addressed) (b_heap b1),
      b_runs := (if r \<in> set (b_runs b1) then b_runs b1 else b_runs b1 @ [r]), b_run_threads := dput r h (b_run_threads b1),
      b_handlers := List.insert r (b_handlers b1)\<rparr>)"
    using assms by (simp add: enqueue_run_def hb split: if_splits)
  have running: "b_running b1"
    using assms hb by (auto simp: enqueue_run_def thread_handler_for_def Let_def split: option.splits if_splits)
  show "b_world b' = b_world b" "b_runs b' = (if r \<in> set (b_runs b) then b_runs b else b_runs b @ [r])"
    "run_at b' j = (if j = r then Some (new_run r a tid input (b_now b) seq addressed) else run_at b j)"
    "dget (b_run_threads b') j \<noteq> None \<longleftrightarrow> j = r \<or> dget (b_run_threads b) j \<noteq> None" "b_running b'"
    using kept running by (simp_all add: b' put_inbox_def upd_hand_def split: option.split)
qed

lemma target_lost_iff:
  assumes "recovering E now st0 old lost s"
  shows "target_lost r s \<longleftrightarrow> (\<exists>a. stored_addressed r = Some a \<and> a \<notin> set (b_runs (fq_broker s)))"
proof -
  have "run_at (fq_broker s) a \<noteq> None" if "a \<in> set (b_runs (fq_broker s))" for a
    using that assms by (auto simp: recovering_def handed_over_def)
  then show ?thesis by (auto simp: target_lost_def broker_get_def split: option.splits)
qed

lemma recover_run_loses:
  assumes inv: "recovering E now st0 old lost s" and distinct: "runs_distinct st0"
    and row: "r \<in> set (runs st0)" "rr_status r = Queued" and new: "rr_run_id r \<notin> rr_run_id ` set old"
    and lost: "target_lost r s"
  shows "\<exists>lost' s'. recover_run E r (lost, s) = Inr (lost', s') \<and> recovering E now st0 (old @ [r]) lost' s' \<and>
    b_runs (fq_broker s') = b_runs (fq_broker s)"
proof -
  have st: "fq_store s = st0\<lparr>runs := map (fail_lost now lost) (runs st0)\<rparr>" "w_now (b_world (fq_broker s)) = now"
    and sub: "set lost \<subseteq> rr_run_id ` set old"
    using inv by (auto simp: recovering_def)
  then have unlost: "rr_run_id r \<notin> set lost" using new by auto
  have "find (\<lambda>x. rr_run_id x = rr_run_id r) (runs st0) = Some r"
    using get_run_unique [OF distinct row(1)] by (simp add: get_run_def)
  then have r: "get_run (fq_store s) (rr_run_id r) = Some r"
    unfolding get_run_def st by (simp add: find_map_same fail_lost_def unlost)
  let ?st = "st0\<lparr>runs := map (fail_lost now (lost @ [rr_run_id r])) (runs st0)\<rparr>"
  have marked: "mark_run_status (fq_store s) now (rr_run_id r) Failed = Inr (True, ?st)"
    using fail_lost_more [OF distinct row unlost, of now]
    by (simp only: mark_failed_queued [OF r row(2)]) (simp add: update_runs_def st)
  have "\<exists>c. recover_run E r (lost, s) = Inr (lost @ [rr_run_id r], s\<lparr>fq_broker := (fq_broker s)\<lparr>b_world :=
      (b_world (fq_broker s))\<lparr>w_store := ?st, w_changes := c\<rparr>\<rparr>\<rparr>)"
    using lost by (auto simp: recover_run_def commit_status_def marked st(2) raising_def)
  with inv new show ?thesis by (auto simp: recovering_def handed_over_def)
qed

lemma recover_run_keeps:
  assumes inv: "recovering E now st0 old lost s" and new: "rr_run_id r \<notin> rr_run_id ` set old"
    and input: "run_input_of (de_field E) st0 r = Inr input" and kept: "\<not> target_lost r s"
  shows "\<exists>s'. recover_run E r (lost, s) = Inr (lost, s') \<and> recovering E now st0 (old @ [r]) lost s' \<and>
    b_runs (fq_broker s') = b_runs (fq_broker s) @ [rr_run_id r]"
proof -
  from inv have st: "fq_store s = st0\<lparr>runs := map (fail_lost now lost) (runs st0)\<rparr>" and running: "b_running (fq_broker s)"
    by (simp_all add: recovering_def)
  from running obtain b where b: "enqueue_run (rr_run_id r) (rr_agent r) (rr_thread_id r) (JObj input)
      (get_last_event_seq (fq_store s) (rr_run_id r)) (stored_addressed r) (fq_broker s) = Some b"
    by (cases "thread_handler_for (rr_thread_id r) (rr_agent r) (fq_broker s)") (auto simp: enqueue_run_def Let_def)
  let ?s = "(rebind_kyok r s)\<lparr>fq_broker := b\<rparr>"
  have "recover_run E r (lost, s) = Inr (lost, ?s)"
    using kept b st input by (simp add: recover_run_def raising_def)
  moreover have "rr_run_id r \<notin> set (b_runs (fq_broker s))" "rr_run_id r \<notin> set lost" using inv new by (auto simp: recovering_def)
  moreover have "handed_over E st0 r b"
    using input enqueue_run_parts(3) [OF b, of "rr_run_id r"] by (simp add: handed_over_def new_run_def)
  moreover have "handed_over E st0 x b \<longleftrightarrow> handed_over E st0 x (fq_broker s)" if "x \<in> set old" for x
  proof -
    from that new have "rr_run_id x \<noteq> rr_run_id r" by (metis image_eqI)
    with enqueue_run_parts(3) [OF b, of "rr_run_id x"] show ?thesis by (simp add: handed_over_def)
  qed
  ultimately show ?thesis
    using inv new enqueue_run_parts(1, 2, 4, 5) [OF b] by (intro exI [of _ ?s]) (auto simp: recovering_def)
qed

lemma recover_all:
  assumes "recovering E now st0 old lost s" "runs_distinct st0" "distinct (map rr_run_id (old @ ws))"
    "\<forall>r \<in> set ws. r \<in> set (runs st0) \<and> rr_status r = Queued \<and> (\<exists>input. run_input_of (de_field E) st0 r = Inr input)"
  shows "\<exists>lost' s'. mfold (recover_run E) ws (lost, s) = Inr (lost', s') \<and> recovering E now st0 (old @ ws) lost' s' \<and>
    b_runs (fq_broker s') = taken_back ws (b_runs (fq_broker s))"
  using assms
proof (induction ws arbitrary: lost s old)
  case (Cons r ws)
  have new: "rr_run_id r \<notin> rr_run_id ` set old" and row: "r \<in> set (runs st0)" "rr_status r = Queued" using Cons.prems by auto
  obtain input where input: "run_input_of (de_field E) st0 r = Inr input" using Cons.prems by auto
  obtain l u where u: "recover_run E r (lost, s) = Inr (l, u)" "recovering E now st0 (old @ [r]) l u"
    "b_runs (fq_broker u) = b_runs (fq_broker s) @ (if target_lost r s then [] else [rr_run_id r])"
    using recover_run_loses [OF Cons.prems(1, 2) row new] recover_run_keeps [OF Cons.prems(1) new input]
    by (cases "target_lost r s") auto
  have "taken_back (r # ws) (b_runs (fq_broker s)) = taken_back ws (b_runs (fq_broker u))"
    using u(3) target_lost_iff [OF Cons.prems(1), of r] by (auto split: option.splits)
  with Cons.IH [OF u(2)] u(1) Cons.prems show ?case by (simp del: taken_back.simps)
qed simp

section \<open>A start\<close>

definition held :: "run_row \<Rightarrow> bool" where
  "held r \<longleftrightarrow> rr_status r \<in> {Offering, Running, Cancelling}"

definition orphan :: "time \<Rightarrow> run_row \<Rightarrow> run_row" where
  "orphan now r = (if held r then r\<lparr>rr_status := Failed, rr_completed_at := Some now\<rparr> else r)"

lemma fail_orphaned_runs_orphan:
  "fail_orphaned_runs st now = (map rr_run_id (filter held (runs st)), st\<lparr>runs := map (orphan now) (runs st)\<rparr>)"
  by (simp add: fail_orphaned_runs_def update_runs_def orphan_def [abs_def] held_def [abs_def] Let_def)

lemma orphan_id [simp]: "rr_run_id (orphan now r) = rr_run_id r"
  by (simp add: orphan_def)

lemma queued_orphan: "filter (\<lambda>r. rr_status r = Queued) (map (orphan now) rs) = filter (\<lambda>r. rr_status r = Queued) rs"
  by (induction rs) (auto simp: orphan_def held_def)

lemma queued_runs_cong: "runs st = map (orphan now) (runs st') \<Longrightarrow> queued_runs st = queued_runs st'"
  by (simp add: queued_runs_def queued_orphan)

lemma run_input_of_cong: "thread_messages st = thread_messages st' \<Longrightarrow> run_input_of field st r = run_input_of field st' r"
  by (simp add: run_input_of_def messages_of_run_def)

lemma handed_over_cong: "thread_messages st = thread_messages st' \<Longrightarrow> handed_over E st r b = handed_over E st' r b"
  by (simp add: handed_over_def run_input_of_cong [of st st'])

lemma set_queued_runs: "set (queued_runs st) = {r \<in> set (runs st). rr_status r = Queued}"
  by (simp add: queued_runs_def oldest_first_def)

lemma distinct_queued_runs: "runs_distinct st \<Longrightarrow> distinct (map rr_run_id (queued_runs st))"
  unfolding runs_distinct_def run_ids_def queued_runs_def oldest_first_def distinct_map
  by (auto simp: distinct_filter intro: inj_on_subset)

text \<open>The state \<^verbatim>\<open>_recover_queued\<close> begins with: the held runs failed, their streams' end logged, the broker started.\<close>

lemma start_begins:
  assumes fresh: "\<not> fq_started s" "b_run_threads (fq_broker s) = []"
    and store: "runs_distinct (fq_store s)" "log_ok (fq_store s)" and lib: "run_errors_typed (de_lib E)"
  obtains u where "fq_start E s = rbind (recover_queued E u) (\<lambda>s'. Inr (map rr_run_id (filter held (runs (fq_store s))), s'))"
    "runs (fq_store u) = map (orphan (w_now (b_world (fq_broker u)))) (runs (fq_store s))"
    "thread_messages (fq_store u) = thread_messages (fq_store s)" "b_runs (fq_broker u) = b_runs (fq_broker s)"
    "b_run_threads (fq_broker u) = []" "b_running (fq_broker u)" "log_ok (fq_store u)"
    "\<And>r. r \<in> set (runs (fq_store s)) \<Longrightarrow> held r \<Longrightarrow> says_why (fq_store u) (rr_run_id r)"
proof -
  let ?now = "w_now (b_world (fq_broker s))"
  let ?ids = "map rr_run_id (filter held (runs (fq_store s)))"
  let ?s = "set_store ((fq_store s)\<lparr>runs := map (orphan ?now) (runs (fq_store s))\<rparr>) (s\<lparr>fq_started := True\<rparr>)"
  have "\<forall>r \<in> set ?ids. get_run (fq_store ?s) r \<noteq> None" by (auto simp: get_run_def find_None_iff)
  moreover have "b_run_threads (fq_broker ?s) = []" "log_ok (fq_store ?s)" using fresh store by (simp_all add: set_store_def log_ok_def)
  ultimately obtain v where v: "mfold (close_run (de_lib E) ''orphaned_by_funduq_restart'') ?ids ?s = Inr v" "log_grows ?s v"
    "\<forall>r \<in> set ?ids. says_why (fq_store v) r" "log_ok (fq_store v)"
    using close_all_untracked [of ?ids ?s "de_lib E" "''orphaned_by_funduq_restart''"] lib by auto
  let ?u = "v\<lparr>fq_broker := start_broker (fq_broker v)\<rparr>"
  from v(2) obtain st where st: "v = set_store st ?s" "runs st = map (orphan ?now) (runs (fq_store s))"
    "thread_messages st = thread_messages (fq_store s)" by (auto simp: log_grows_def)
  show ?thesis
  proof (rule that [of ?u])
    show "fq_start E s = rbind (recover_queued E ?u) (\<lambda>s'. Inr (?ids, s'))"
      using fresh v(1) by (simp add: fq_start_def fail_orphaned_runs_orphan)
    show "says_why (fq_store ?u) (rr_run_id r)" if "r \<in> set (runs (fq_store s))" "held r" for r
      using v(3) that by (simp add: start_broker_def)
  qed (use st v(4) fresh(2) in \<open>simp_all add: set_store_def start_broker_def\<close>)
qed

lemma recover_queued_outcome:
  assumes empty: "b_runs (fq_broker u) = []" "b_run_threads (fq_broker u) = []" and running: "b_running (fq_broker u)"
    and store: "runs_distinct (fq_store u)" "log_ok (fq_store u)" and lib: "run_errors_typed (de_lib E)"
    and valid: "\<forall>r \<in> set (queued_runs (fq_store u)). \<exists>input. run_input_of (de_field E) (fq_store u) r = Inr input"
  obtains s' lost where "recover_queued E u = Inr s'" "b_runs (fq_broker s') = taken_back (queued_runs (fq_store u)) []"
    "runs (fq_store s') = map (fail_lost (w_now (b_world (fq_broker u))) lost) (runs (fq_store u))"
    "\<And>r. r \<in> set (queued_runs (fq_store u)) \<Longrightarrow> rr_run_id r \<in> set lost \<longleftrightarrow> rr_run_id r \<notin> set (b_runs (fq_broker s'))"
    "\<And>r. r \<in> set (queued_runs (fq_store u)) \<Longrightarrow> rr_run_id r \<notin> set lost \<Longrightarrow> handed_over E (fq_store u) r (fq_broker s')"
    "\<And>i. i \<in> set lost \<Longrightarrow> says_why (fq_store s') i" "\<And>i. says_why (fq_store u) i \<Longrightarrow> says_why (fq_store s') i"
proof -
  let ?now = "w_now (b_world (fq_broker u))"
  let ?ws = "queued_runs (fq_store u)"
  have "recovering E ?now (fq_store u) [] [] u"
    using empty running by (simp add: recovering_def fail_lost_def [abs_def])
  from recover_all [OF this store(1), of ?ws] distinct_queued_runs [OF store(1)] valid obtain lost v where
    v: "mfold (recover_run E) ?ws ([], u) = Inr (lost, v)" "recovering E ?now (fq_store u) ?ws lost v"
    "b_runs (fq_broker v) = taken_back ?ws []" by (auto simp: set_queued_runs empty)
  from v(2) have st: "fq_store v = (fq_store u)\<lparr>runs := map (fail_lost ?now lost) (runs (fq_store u))\<rparr>"
    and lost: "set lost \<subseteq> rr_run_id ` set ?ws" "set (b_runs (fq_broker v)) = rr_run_id ` set ?ws - set lost"
    and handed: "\<forall>r \<in> set ?ws. rr_run_id r \<notin> set lost \<longrightarrow> handed_over E (fq_store u) r (fq_broker v)"
    and gone: "\<And>j. dget (b_run_threads (fq_broker v)) j \<noteq> None \<Longrightarrow> j \<in> set (b_runs (fq_broker v))"
    by (auto simp: recovering_def)
  have "\<forall>i \<in> set lost. get_run (fq_store v) i \<noteq> None"
  proof
    fix i assume "i \<in> set lost"
    with lost(1) obtain r where "r \<in> set (runs (fq_store u))" "i = rr_run_id r" by (auto simp: set_queued_runs)
    then show "get_run (fq_store v) i \<noteq> None"
      using get_run_unique [OF store(1)] get_run_map [of "fail_lost ?now lost" "fq_store v" "fq_store u"] st by simp
  qed
  moreover have "\<forall>i \<in> set lost. dget (b_run_threads (fq_broker v)) i = None" using gone lost(2) by blast
  moreover have "log_ok (fq_store v)" using store(2) by (simp add: st log_ok_def)
  ultimately obtain s' where s': "mfold (close_run (de_lib E) ''interjection_target_lost'') lost v = Inr s'" "log_grows v s'"
    "\<forall>i \<in> set lost. says_why (fq_store s') i"
    using close_all_untracked [of lost v "de_lib E" "''interjection_target_lost''"] lib by blast
  from s'(2) obtain st' where st': "s' = set_store st' v" "runs st' = runs (fq_store v)" by (auto simp: log_grows_def)
  have "get_run_events (fq_store v) i 0 = get_run_events (fq_store u) i 0" for i
    by (rule get_run_events_runs_cong) (simp add: st)
  then have kept: "says_why (fq_store v) i \<longleftrightarrow> says_why (fq_store u) i" for i by (simp add: says_why_def)
  show ?thesis
  proof (rule that [of s' lost])
    show "recover_queued E u = Inr s'" using v(1) s'(1) by (simp add: recover_queued_def)
    show "handed_over E (fq_store u) r (fq_broker s')" if "r \<in> set ?ws" "rr_run_id r \<notin> set lost" for r
      using handed that by (simp add: st' handed_over_def)
    show "says_why (fq_store s') i" if "says_why (fq_store u) i" for i
      using says_why_grows [OF s'(2)] that kept by blast
    show "rr_run_id r \<in> set lost \<longleftrightarrow> rr_run_id r \<notin> set (b_runs (fq_broker s'))" if "r \<in> set ?ws" for r
      using lost that by (auto simp: st')
  qed (use v(3) st st' s'(3) in simp_all)
qed

text \<open>What has become of a row once the runs of a previous process and then the \<open>lost\<close> ones have been failed.\<close>

lemma row_fate:
  assumes "get_run st (rr_run_id r) = Some (fail_lost now lost (orphan now r))"
    and "rr_status r = Queued \<Longrightarrow> rr_run_id r \<in> set lost \<longleftrightarrow> rr_run_id r \<notin> set tracked"
  shows "if held r then status_of st (rr_run_id r) = Some Failed
    else if rr_status r \<noteq> Queued \<or> rr_run_id r \<in> set tracked then get_run st (rr_run_id r) = Some r
    else status_of st (rr_run_id r) = Some Failed"
  using assms by (cases "rr_status r") (auto simp: status_of_def fail_lost_def orphan_def held_def)

text \<open>
  C11. A restart loses nothing silently. When funduq starts on the store a previous process left, the
  start returns, and of the runs in the store: those the process held are failed with a logged error; those that
  were queued are tracked again, in the order they were taken back (oldest first, an interjection only behind
  the run it addresses), still queued and with the input their row holds; a queued interjection whose target is not
  tracked is failed with a logged error; and every finished run keeps its row.
\<close>

theorem start_accounts_for_every_run:
  assumes fresh: "\<not> fq_started s" "b_runs (fq_broker s) = []" "b_run_threads (fq_broker s) = []"
    and store: "runs_distinct (fq_store s)" "log_ok (fq_store s)" and lib: "run_errors_typed (de_lib E)"
    and valid: "\<forall>r \<in> set (queued_runs (fq_store s)). \<exists>input. run_input_of (de_field E) (fq_store s) r = Inr input"
  shows "\<exists>orphaned s'. fq_start E s = Inr (orphaned, s') \<and>
    b_runs (fq_broker s') = taken_back (queued_runs (fq_store s)) [] \<and>
    (\<forall>r \<in> set (runs (fq_store s)).
       if held r then rr_run_id r \<in> set orphaned \<and> status_of (fq_store s') (rr_run_id r) = Some Failed \<and> says_why (fq_store s') (rr_run_id r)
       else if rr_status r \<noteq> Queued then get_run (fq_store s') (rr_run_id r) = Some r
       else if rr_run_id r \<in> set (b_runs (fq_broker s'))
         then get_run (fq_store s') (rr_run_id r) = Some r \<and> handed_over E (fq_store s) r (fq_broker s')
       else stored_addressed r \<noteq> None \<and> status_of (fq_store s') (rr_run_id r) = Some Failed \<and> says_why (fq_store s') (rr_run_id r))"
proof -
  from start_begins [OF fresh(1, 3) store lib] obtain u where
    start: "fq_start E s = rbind (recover_queued E u) (\<lambda>s'. Inr (map rr_run_id (filter held (runs (fq_store s))), s'))"
    and u: "runs (fq_store u) = map (orphan (w_now (b_world (fq_broker u)))) (runs (fq_store s))"
      "thread_messages (fq_store u) = thread_messages (fq_store s)" "b_runs (fq_broker u) = b_runs (fq_broker s)"
      "b_run_threads (fq_broker u) = []" "b_running (fq_broker u)" "log_ok (fq_store u)"
    and said: "\<And>r. r \<in> set (runs (fq_store s)) \<Longrightarrow> held r \<Longrightarrow> says_why (fq_store u) (rr_run_id r)" by blast
  let ?now = "w_now (b_world (fq_broker u))"
  have ws: "queued_runs (fq_store u) = queued_runs (fq_store s)" by (rule queued_runs_cong [OF u(1)])
  have dist: "runs_distinct (fq_store u)" using store(1) by (simp add: runs_distinct_def run_ids_def u(1) comp_def)
  have val: "\<forall>r \<in> set (queued_runs (fq_store u)). \<exists>input. run_input_of (de_field E) (fq_store u) r = Inr input"
    using valid by (simp add: ws run_input_of_cong [OF u(2)])
  obtain s' lost where s': "recover_queued E u = Inr s'" "b_runs (fq_broker s') = taken_back (queued_runs (fq_store u)) []"
    "runs (fq_store s') = map (fail_lost ?now lost) (runs (fq_store u))"
    and lost_iff: "\<And>r. r \<in> set (queued_runs (fq_store u)) \<Longrightarrow> rr_run_id r \<in> set lost \<longleftrightarrow> rr_run_id r \<notin> set (b_runs (fq_broker s'))"
    and handed: "\<And>r. r \<in> set (queued_runs (fq_store u)) \<Longrightarrow> rr_run_id r \<notin> set lost \<Longrightarrow> handed_over E (fq_store u) r (fq_broker s')"
    and why: "\<And>i. i \<in> set lost \<Longrightarrow> says_why (fq_store s') i" "\<And>i. says_why (fq_store u) i \<Longrightarrow> says_why (fq_store s') i"
    by (rule recover_queued_outcome [OF u(3) [unfolded fresh(2)] u(4, 5) dist u(6) lib val]) blast
  note s' = s' [unfolded ws] and lost_iff = lost_iff [unfolded ws] and handed = handed [unfolded ws handed_over_cong [OF u(2)]]
  have rows: "get_run (fq_store s') (rr_run_id r) = Some (fail_lost ?now lost (orphan ?now r))" if "r \<in> set (runs (fq_store s))" for r
    using get_run_map [of "fail_lost ?now lost" "fq_store s'" "fq_store u"] get_run_map [of "orphan ?now" "fq_store u" "fq_store s"]
      get_run_unique [OF store(1) that] s'(3) u(1) by simp
  have "fq_start E s = Inr (map rr_run_id (filter held (runs (fq_store s))), s')" using start s'(1) by simp
  moreover have "if held r then rr_run_id r \<in> set (map rr_run_id (filter held (runs (fq_store s)))) \<and>
        status_of (fq_store s') (rr_run_id r) = Some Failed \<and> says_why (fq_store s') (rr_run_id r)
      else if rr_status r \<noteq> Queued then get_run (fq_store s') (rr_run_id r) = Some r
      else if rr_run_id r \<in> set (b_runs (fq_broker s'))
        then get_run (fq_store s') (rr_run_id r) = Some r \<and> handed_over E (fq_store s) r (fq_broker s')
      else stored_addressed r \<noteq> None \<and> status_of (fq_store s') (rr_run_id r) = Some Failed \<and> says_why (fq_store s') (rr_run_id r)"
    if r: "r \<in> set (runs (fq_store s))" for r
  proof -
    have q: "r \<in> set (queued_runs (fq_store s))" if "rr_status r = Queued" using r that by (simp add: set_queued_runs)
    have "stored_addressed r \<noteq> None" if "rr_status r = Queued" "rr_run_id r \<in> set lost"
      using that lost_iff [OF q] left_behind [OF q, of "[]"] by (simp add: s'(2))
    then show ?thesis
      using row_fate [OF rows [OF r], of "b_runs (fq_broker s')"] lost_iff [OF q] handed [OF q] why(1) why(2) [OF said [OF r]] r by auto
  qed
  ultimately show ?thesis using s'(2) by blast
qed

lemma not_isl: "\<not> isl m \<longleftrightarrow> (\<exists>x. m = Inr x)"
  by (cases m) simp_all

definition demo_restart :: "bool facade" where
  "demo_restart = (demo_door False (demo_store [demo_row ''r1'' Running, demo_row ''r2'' Queued, demo_row ''r3'' Completed]))
     \<lparr>fq_started := False\<rparr>"

theorem start_accounts_for_every_run_witness:
  "\<exists>orphaned s'. fq_start demo_door_env demo_restart = Inr (orphaned, s') \<and> status_of (fq_store s') ''r1'' = Some Failed \<and>
     b_runs (fq_broker s') = [''r2'']"
proof -
  have st: "fq_store demo_restart = demo_store [demo_row ''r1'' Running, demo_row ''r2'' Queued, demo_row ''r3'' Completed]"
    by (simp add: demo_restart_def demo_door_def start_broker_def new_broker_def)
  have fresh: "\<not> fq_started demo_restart" "b_runs (fq_broker demo_restart) = []" "b_run_threads (fq_broker demo_restart) = []"
    by (simp_all add: demo_restart_def demo_door_def start_broker_def new_broker_def)
  have ok: "runs_distinct (fq_store demo_restart)" "log_ok (fq_store demo_restart)" "run_errors_typed (de_lib demo_door_env)"
    by (simp_all add: st runs_distinct_def run_ids_def demo_store_def demo_row_def log_ok_def run_errors_typed_def
        demo_door_env_def demo_lib_def event_type_def dget_j_def)
  have "list_all (\<lambda>r. \<not> isl (run_input_of (de_field demo_door_env) (fq_store demo_restart) r)) (queued_runs (fq_store demo_restart))"
    by code_simp
  then have valid: "\<forall>r \<in> set (queued_runs (fq_store demo_restart)).
      \<exists>input. run_input_of (de_field demo_door_env) (fq_store demo_restart) r = Inr input"
    by (auto simp: list_all_iff not_isl)
  have "demo_row ''r1'' Running \<in> set (runs (fq_store demo_restart))" "held (demo_row ''r1'' Running)" "rr_run_id (demo_row ''r1'' Running) = ''r1''"
    by (simp_all add: st demo_store_def held_def demo_row_def)
  moreover have "taken_back (queued_runs (fq_store demo_restart)) [] = [''r2'']" by code_simp
  ultimately show ?thesis using start_accounts_for_every_run [OF fresh ok valid] by metis
qed

section \<open>The thread tree ends\<close>

definition thread_links :: "store \<Rightarrow> (thread_id \<times> thread_id option) list" where
  "thread_links st = map (\<lambda>t. (th_thread_id t, th_parent_thread_id t)) (threads st)"

definition threads_ok :: "store \<Rightarrow> bool" where
  "threads_ok st \<longleftrightarrow> distinct (map fst (thread_links st)) \<and> links_first (thread_links st) \<and>
     snd ` set (thread_links st) \<subseteq> insert None (Some ` fst ` set (thread_links st))"

lemma create_thread_ok:
  assumes "create_thread now minted st a parent metadata head = Inr (i, st')" "threads_ok st" "parent \<noteq> Some minted"
  shows "threads_ok st'"
proof -
  have new: "minted \<notin> fst ` set (thread_links st)" and parent: "parent \<in> insert None (Some ` fst ` set (thread_links st))"
    and st': "thread_links st' = thread_links st @ [(minted, parent)]"
    using assms(1, 3)
    by (auto simp: create_thread_def insert_thread_def agent_ref_eta rbind_Inr_iff thread_links_def get_thread_def find_None_iff fetch_def image_image split: if_splits option.splits)
  have "Some minted \<notin> snd ` set (thread_links st)" using assms(2) new by (auto simp: threads_ok_def)
  with assms(2, 3) new parent show ?thesis by (auto simp: threads_ok_def st' links_first_snoc)
qed

lemma child_later:
  assumes "distinct (map fst ls)" "links_first ls" "(c, Some t) \<in> set ls" "t \<in> fst ` set ls"
  shows "length (dropWhile (\<lambda>x. fst x \<noteq> c) ls) < length (dropWhile (\<lambda>x. fst x \<noteq> t) ls)"
  using assms
proof (induction ls)
  case (Cons x ls)
  obtain i p where x: "x = (i, p)" by fastforce
  have "i \<noteq> c" using Cons.prems x by (auto simp: image_iff)
  moreover have "length (dropWhile (\<lambda>x. fst x \<noteq> c) ls) \<le> length ls" by (rule length_dropWhile_le)
  ultimately show ?case using Cons x by auto
qed simp

lemma those_Some: "list_all (\<lambda>m. m \<noteq> None) ms \<Longrightarrow> those ms \<noteq> None"
  by (induction ms) (auto split: option.splits)

lemma build_children_returns:
  assumes "threads_ok st" "t \<in> fst ` set (thread_links st)" "length (dropWhile (\<lambda>x. fst x \<noteq> t) (thread_links st)) \<le> n"
  shows "build_children n st t \<noteq> None"
  using assms(2, 3)
proof (induction n arbitrary: t)
  case 0
  then show ?case by (auto simp: dropWhile_eq_Nil_conv)
next
  case (Suc n)
  have "build_children n st (th_thread_id c) \<noteq> None" if c: "c \<in> set (get_thread_children st t)" for c
  proof (rule Suc.IH)
    have link: "(th_thread_id c, Some t) \<in> set (thread_links st)" using c by (auto simp: get_thread_children_def thread_links_def)
    then show "th_thread_id c \<in> fst ` set (thread_links st)" by force
    show "length (dropWhile (\<lambda>x. fst x \<noteq> th_thread_id c) (thread_links st)) \<le> n"
      using child_later [OF _ _ link Suc.prems(1)] assms(1) Suc.prems(2) by (auto simp: threads_ok_def)
  qed
  then have "list_all (\<lambda>m. m \<noteq> None) (map (\<lambda>c. map_option (ThreadNode c) (build_children n st (th_thread_id c))) (get_thread_children st t))"
    by (simp add: list_all_iff)
  then show ?case unfolding build_children.simps by (rule those_Some)
qed

lemma get_thread_tree_returns:
  assumes "threads_ok (fq_store s)"
  shows "\<exists>m. get_thread_tree tid s = Inr m \<and> (m = None \<longleftrightarrow> get_thread (fq_store s) tid = None)"
proof (cases "get_thread (fq_store s) tid")
  case (Some t)
  then have "tid \<in> fst ` set (thread_links (fq_store s))"
    by (auto simp: get_thread_def fetch_def thread_links_def image_image dest!: find_Some_in)
  from build_children_returns [OF assms this, of "Suc (length (threads (fq_store s)))"]
  obtain cs where "build_children (Suc (length (threads (fq_store s)))) (fq_store s) tid = Some cs"
    using length_dropWhile_le [of _ "thread_links (fq_store s)"] by (fastforce simp: thread_links_def le_SucI simp del: build_children.simps)
  with Some show ?thesis by (simp add: get_thread_tree_def returning_def del: build_children.simps)
qed (simp add: get_thread_tree_def)

end
