(* ===== verification/Surface.thy ===== *)
theory Surface
  imports Facade
begin

text \<open>
  The remaining surface of the facade (\<^verbatim>\<open>core.py\<close>): the records a caller reads by id, threads a caller makes, the change
  subscribers; and the two tasks the dispatcher starts beside an offer (\<^verbatim>\<open>broker.py\<close>, \<^verbatim>\<open>_hand_over\<close> and \<^verbatim>\<open>_offer_clock\<close>).

  The lemmas show that a new thread is read back with an empty tree and no other thread is touched, that an announcement reaches
  everyone who was subscribed when it was made, whatever the others do, and that an offer's tasks are steps of the dispatcher.
\<close>

section \<open>Records by id\<close>

definition fq_get_agent :: "agent_ref \<Rightarrow> 'p facade \<Rightarrow> agent_row option" where
  "fq_get_agent agent s = get_agent (fq_store s) agent"

definition fq_resolve_agent :: "string \<Rightarrow> string \<Rightarrow> 'p facade \<Rightarrow> agent_row option" where
  "fq_resolve_agent who name s = resolve_agent (fq_store s) who name"

text \<open>A thread made here is bound to nobody: \<^verbatim>\<open>head_key\<close> is left at its default.\<close>

definition fq_create_thread ::
  "thread_id \<Rightarrow> agent_ref \<Rightarrow> thread_id option \<Rightarrow> json \<Rightarrow> 'p facade \<Rightarrow> (repo_error, thread_id \<times> 'p facade) res" where
  "fq_create_thread minted agent parent_thread_id metadata s =
     rbind (create_thread (w_now (b_world (fq_broker s))) minted (fq_store s) agent parent_thread_id metadata None) (\<lambda>(thread_id, st).
       Inr (thread_id, set_store st s))"

definition fq_get_thread :: "thread_id \<Rightarrow> 'p facade \<Rightarrow> thread_row option" where
  "fq_get_thread thread_id s = get_thread (fq_store s) thread_id"

definition fq_get_run :: "run_id \<Rightarrow> 'p facade \<Rightarrow> run_row option" where
  "fq_get_run run_id s = get_run (fq_store s) run_id"

definition fq_get_run_events :: "run_id \<Rightarrow> int \<Rightarrow> 'p facade \<Rightarrow> event list" where
  "fq_get_run_events run_id since_seq s = get_run_events (fq_store s) run_id since_seq"

definition fq_lineage :: "run_id \<Rightarrow> 'p facade \<Rightarrow> run_row list option" where
  "fq_lineage run_id s = lineage (fq_store s) run_id"

definition fq_subscribe :: "run_id \<Rightarrow> 'p facade \<Rightarrow> subscription \<times> 'p facade" where
  "fq_subscribe run_id s = (case subscribe run_id (fq_broker s) of (x, b) \<Rightarrow> (x, s\<lparr>fq_broker := b\<rparr>))"

definition active_runs :: "'p facade \<Rightarrow> run_id list" where
  "active_runs s = active_run_ids (fq_broker s)"

section \<open>Change subscribers\<close>

datatype change_event = RosterChange roster_change | RunStatusChanged run_id run_status

text \<open>
  The set of subscribers is a list without repetitions, its order standing for the order Python iterates the set in. A callback sees and may
  change the subscribers and the rest of the world, and may raise.
\<close>

definition on_change :: "'c \<Rightarrow> 'c list \<Rightarrow> 'c list" where
  "on_change callback subscribers = List.insert callback subscribers"

definition unsubscribe :: "'c \<Rightarrow> 'c list \<Rightarrow> 'c list" where
  "unsubscribe callback subscribers = removeAll callback subscribers"

fun notify_each :: "('c \<Rightarrow> change_event \<Rightarrow> 's \<Rightarrow> py_error option \<times> 's) \<Rightarrow> change_event \<Rightarrow> 'c list \<Rightarrow> 's \<Rightarrow> 's" where
  "notify_each call event [] s = s"
| "notify_each call event (callback # rest) s =
     (case call callback event s of
        (None, s') \<Rightarrow> notify_each call event rest s'
      | (Some _, s') \<Rightarrow> notify_each call event rest s')"

definition notify_change ::
  "('c \<Rightarrow> change_event \<Rightarrow> 'c list \<times> 'w \<Rightarrow> py_error option \<times> 'c list \<times> 'w) \<Rightarrow> change_event \<Rightarrow> 'c list \<times> 'w \<Rightarrow> 'c list \<times> 'w" where
  "notify_change call event = (\<lambda>(subscribers, w). notify_each call event subscribers (subscribers, w))"

section \<open>The tasks of an offer\<close>

text \<open>\<open>deliver\<close> is the connection's, with whether it raised; \<open>broker\<close> reads and writes the dispatcher in its state.\<close>

definition hand_over ::
  "('s \<Rightarrow> bool \<times> 's) \<Rightarrow> (('w broker \<Rightarrow> 'w broker) \<Rightarrow> 's \<Rightarrow> 's) \<Rightarrow> nat \<Rightarrow> run_id \<Rightarrow> nat \<Rightarrow> 's \<Rightarrow> 's" where
  "hand_over deliver broker h run_id offer_id s =
     (case deliver s of (raised, s') \<Rightarrow> if raised then broker (put_inbox h (MOfferLapsed run_id offer_id)) s' else s')"

definition offer_clock :: "nat \<Rightarrow> run_id \<Rightarrow> nat \<Rightarrow> 'w broker \<Rightarrow> 'w broker" where
  "offer_clock h run_id offer_id s = put_inbox h (MOfferLapsed run_id offer_id) s"

section \<open>What they do\<close>

lemma created_thread_row:
  assumes "create_thread now minted st a parent metadata head = Inr (i, st')"
  shows "i = minted" "get_thread st minted = None" "runs st' = runs st"
    "\<exists>t. threads st' = threads st @ [t] \<and> th_thread_id t = minted \<and> th_agent t = a \<and> th_parent_thread_id t = parent \<and> th_head_key t = head"
  using assms by (auto simp: create_thread_def insert_thread_def agent_ref_eta rbind_Inr_iff th_agent_def split: if_splits)

lemma get_thread_snoc:
  "get_thread st i = None \<Longrightarrow> th_thread_id t = i \<Longrightarrow> threads st' = threads st @ [t] \<Longrightarrow>
   get_thread st' j = (if j = i then Some t else get_thread st j)"
  by (auto simp: get_thread_def fetch_append fetch_single split: option.splits)

lemma new_thread_has_no_children:
  assumes "threads_ok st" "get_thread st i = None" "threads st' = threads st @ [t]" "th_thread_id t = i" "th_parent_thread_id t \<noteq> Some i"
  shows "get_thread_children st' i = []"
proof -
  have "Some i \<notin> snd ` set (thread_links st)"
    using assms(1, 2) by (auto simp: threads_ok_def thread_links_def get_thread_def fetch_def find_None_iff image_image)
  then have "filter (\<lambda>c. th_parent_thread_id c = Some i) (threads st') = []"
    using assms(3-5) by (auto simp: thread_links_def image_image filter_empty_conv image_iff)
  then show ?thesis by (simp add: get_thread_children_def)
qed

lemma created_thread_is_read:
  assumes made: "fq_create_thread minted a parent metadata s = Inr (i, s')" and ok: "threads_ok (fq_store s)" and "parent \<noteq> Some minted"
  shows "threads_ok (fq_store s')"
    and "\<exists>t. fq_get_thread i s' = Some t \<and> th_agent t = a \<and> th_parent_thread_id t = parent \<and> th_head_key t = None \<and>
           get_thread_tree i s' = Inr (Some (ThreadNode t []))"
    and "fq_get_thread i s = None" and "j \<noteq> i \<Longrightarrow> fq_get_thread j s' = fq_get_thread j s"
proof -
  obtain st where c: "create_thread (w_now (b_world (fq_broker s))) minted (fq_store s) a parent metadata None = Inr (i, st)"
    and s': "s' = set_store st s"
    using made by (auto simp: fq_create_thread_def rbind_def split: sum.splits)
  note row = created_thread_row [OF c]
  obtain t where t: "threads st = threads (fq_store s) @ [t]" "th_thread_id t = minted" "th_agent t = a"
    "th_parent_thread_id t = parent" "th_head_key t = None" using row(4) by blast
  have get: "get_thread st j = (if j = minted then Some t else get_thread (fq_store s) j)" for j
    using get_thread_snoc [OF row(2) t(2,1)] .
  have kids: "get_thread_children st minted = []" using new_thread_has_no_children [OF ok row(2) t(1,2)] t(4) assms(3) by simp
  show "threads_ok (fq_store s')" using create_thread_ok [OF c ok assms(3)] by (simp add: s' set_store_def)
  show "\<exists>t. fq_get_thread i s' = Some t \<and> th_agent t = a \<and> th_parent_thread_id t = parent \<and> th_head_key t = None \<and>
           get_thread_tree i s' = Inr (Some (ThreadNode t []))"
    using t row(1) get kids by (intro exI [of _ t]) (simp add: fq_get_thread_def get_thread_tree_def returning_def s' set_store_def)
  show "fq_get_thread i s = None" using row(1,2) by (simp add: fq_get_thread_def)
  show "j \<noteq> i \<Longrightarrow> fq_get_thread j s' = fq_get_thread j s" using row(1) get by (simp add: fq_get_thread_def s' set_store_def)
qed

text \<open>
  \<open>noted\<close> is what the callbacks note down: each one, that it was called and with what. Raising and changing the subscribers do not
  keep an announcement from any of those it was made to.
\<close>

lemma notify_each_reaches:
  assumes "\<And>c e s. noted (snd (call c e s)) = noted s @ [(c, e)]"
  shows "noted (notify_each call event cs s) = noted s @ map (\<lambda>c. (c, event)) cs"
proof (induction cs arbitrary: s)
  case (Cons c cs)
  obtain raised s' where "call c event s = (raised, s')" by fastforce
  then show ?case using Cons assms [of c event s] by (cases raised) simp_all
qed simp

lemma announcement_reaches_every_subscriber:
  assumes "\<And>c e s. noted (snd (call c e s)) = noted s @ [(c, e)]"
  shows "noted (notify_change call event (subscribers, w)) = noted (subscribers, w) @ map (\<lambda>c. (c, event)) subscribers"
  using notify_each_reaches [of noted call, OF assms] by (simp add: notify_change_def)

lemma subscribers_distinct:
  "distinct cs \<Longrightarrow> distinct (on_change c cs)" "distinct cs \<Longrightarrow> distinct (unsubscribe c cs)"
  "c \<notin> set cs \<Longrightarrow> unsubscribe c (on_change c cs) = cs"
  by (auto simp: on_change_def unsubscribe_def distinct_removeAll)

lemma offer_tasks_are_steps:
  "broker_step E b (offer_clock h r n b)"
  "deliver b = (True, b') \<Longrightarrow> broker_step E b' (hand_over deliver (\<lambda>f. f) h r n b)"
  using step_lapse [of E _ h r n] by (simp_all add: offer_clock_def hand_over_def)

end
