(* ===== verification/Schema.thy ===== *)
theory Schema
  imports Thread_Store
begin

text \<open>
  The constraints of \<^verbatim>\<open>funduq/schema.py\<close> as an invariant of the rows: primary keys and unique columns have no duplicates, and
  every foreign key names a row that is there. Inserts of threads, runs, messages and events and the delete of an agent keep them by the
  database's own tests (\<open>insert_thread\<close> and its like); the upserts and updates of \<^verbatim>\<open>funduq/repo.py\<close> keep them by what they write. What a constraint says about depends on
  the key columns alone, the \<open>skeleton\<close> of a store; most writes leave it as it is, the others add
  one row to it or take one away.
\<close>

section \<open>The constraints\<close>

definition schema_ok :: "store \<Rightarrow> bool" where
  "schema_ok s \<longleftrightarrow>
     distinct (map pr_public_key (providers s)) \<and> distinct (map pr_fingerprint (providers s)) \<and>
     distinct (map ag_key (agents s)) \<and> (\<forall>a \<in> set (agents s). ag_provider_key a \<in> pr_public_key ` set (providers s)) \<and>
     distinct (map ll_key (llm_providers s)) \<and> (\<forall>l \<in> set (llm_providers s). ll_provider_key l \<in> pr_public_key ` set (providers s)) \<and>
     distinct (map th_thread_id (threads s)) \<and>
     (\<forall>t \<in> set (threads s). (th_provider_key t, th_agent_name t) \<in> ag_key ` set (agents s) \<and>
        th_parent_thread_id t \<in> insert None (Some ` th_thread_id ` set (threads s))) \<and>
     distinct (map rr_run_id (runs s)) \<and>
     (\<forall>r \<in> set (runs s). rr_thread_id r \<in> th_thread_id ` set (threads s) \<and>
        (rr_provider_key r, rr_agent_name r) \<in> ag_key ` set (agents s)) \<and>
     distinct (map (\<lambda>m. (tm_run_id m, tm_message_id m)) (thread_messages s)) \<and>
     (\<forall>m \<in> set (thread_messages s). tm_thread_id m \<in> th_thread_id ` set (threads s) \<and> tm_run_id m \<in> rr_run_id ` set (runs s)) \<and>
     (\<forall>e \<in> set (run_events s). re_run_id e \<in> rr_run_id ` set (runs s))"

section \<open>Key columns\<close>

definition provider_cols :: "store \<Rightarrow> (key \<times> string) list" where
  "provider_cols s = map (\<lambda>p. (pr_public_key p, pr_fingerprint p)) (providers s)"

definition thread_cols :: "store \<Rightarrow> (thread_id \<times> (key \<times> string) \<times> thread_id option) list" where
  "thread_cols s = map (\<lambda>t. (th_thread_id t, (th_provider_key t, th_agent_name t), th_parent_thread_id t)) (threads s)"

definition run_cols :: "store \<Rightarrow> (run_id \<times> thread_id \<times> key \<times> string) list" where
  "run_cols s = map (\<lambda>r. (rr_run_id r, rr_thread_id r, rr_provider_key r, rr_agent_name r)) (runs s)"

definition message_cols :: "store \<Rightarrow> (thread_id \<times> run_id \<times> string) list" where
  "message_cols s = map (\<lambda>m. (tm_thread_id m, tm_run_id m, tm_message_id m)) (thread_messages s)"

definition agent_cols :: "store \<Rightarrow> (key \<times> string) list" where
  "agent_cols s = map ag_key (agents s)"

definition llm_cols :: "store \<Rightarrow> (key \<times> string) list" where
  "llm_cols s = map ll_key (llm_providers s)"

definition event_cols :: "store \<Rightarrow> run_id list" where
  "event_cols s = map re_run_id (run_events s)"

lemmas cols_defs = provider_cols_def agent_cols_def llm_cols_def thread_cols_def run_cols_def message_cols_def event_cols_def

lemma schema_ok_cols:
  "schema_ok s \<longleftrightarrow>
     distinct (map fst (provider_cols s)) \<and> distinct (map snd (provider_cols s)) \<and>
     distinct (agent_cols s) \<and> fst ` set (agent_cols s) \<subseteq> fst ` set (provider_cols s) \<and>
     distinct (llm_cols s) \<and> fst ` set (llm_cols s) \<subseteq> fst ` set (provider_cols s) \<and>
     distinct (map fst (thread_cols s)) \<and>
     (\<forall>(i, a, p) \<in> set (thread_cols s). a \<in> set (agent_cols s) \<and> p \<in> insert None (Some ` fst ` set (thread_cols s))) \<and>
     distinct (map fst (run_cols s)) \<and>
     (\<forall>(i, x, a) \<in> set (run_cols s). x \<in> fst ` set (thread_cols s) \<and> a \<in> set (agent_cols s)) \<and>
     distinct (map snd (message_cols s)) \<and>
     (\<forall>(x, i, m) \<in> set (message_cols s). x \<in> fst ` set (thread_cols s) \<and> i \<in> fst ` set (run_cols s)) \<and>
     set (event_cols s) \<subseteq> fst ` set (run_cols s)"
  unfolding schema_ok_def cols_defs by (simp add: comp_def image_image ag_key_def ll_key_def image_subset_iff)

definition same_cols :: "store \<Rightarrow> store \<Rightarrow> bool" where
  "same_cols s s' \<longleftrightarrow> provider_cols s' = provider_cols s \<and> agent_cols s' = agent_cols s \<and> llm_cols s' = llm_cols s \<and>
     thread_cols s' = thread_cols s \<and> run_cols s' = run_cols s \<and> message_cols s' = message_cols s \<and> event_cols s' = event_cols s"

lemma same_cols_ok: "same_cols s s' \<Longrightarrow> schema_ok s \<Longrightarrow> schema_ok s'"
  by (simp add: same_cols_def schema_ok_cols)

section \<open>Writes that leave the key columns alone\<close>

lemma update_runs_cols:
  assumes "\<And>r. (rr_run_id (f r), rr_thread_id (f r), rr_provider_key (f r), rr_agent_name (f r)) =
    (rr_run_id r, rr_thread_id r, rr_provider_key r, rr_agent_name r)"
  shows "same_cols s (update_runs P f s)"
  using assms by (simp add: same_cols_def cols_defs update_runs_def comp_def if_distrib [of "\<lambda>r. rr_run_id r"])

lemma status_values_keys [simp]:
  "rr_provider_key (status_values now st r) = rr_provider_key r" "rr_agent_name (status_values now st r) = rr_agent_name r"
  by (simp_all add: status_values_def Let_def split: run_status.splits)

lemma same_cols_refl [simp]: "same_cols s s"
  by (simp add: same_cols_def)

lemma same_cols_trans: "same_cols s s' \<Longrightarrow> same_cols s' s'' \<Longrightarrow> same_cols s s''"
  by (simp add: same_cols_def)

lemma run_writes_cols:
  "mark_run_status s now i st = Inr (applied, s') \<Longrightarrow> same_cols s s'"
  "same_cols s (record_cancel_request s i k)" "same_cols s (touch_run_activity s now i)"
  "same_cols s (snd (fail_orphaned_runs s now))"
  by (auto simp: mark_run_status_def record_cancel_request_def touch_run_activity_def fail_orphaned_runs_def Let_def
      intro!: update_runs_cols split: option.splits if_splits)

lemma fold_cols: "(\<And>i x. same_cols (snd x) (snd (step i x))) \<Longrightarrow> same_cols (snd x) (snd (fold step is x))"
proof (induction "is" arbitrary: x)
  case (Cons i "is")
  from same_cols_trans [OF Cons.prems Cons.IH [OF Cons.prems]] show ?case by simp
qed simp

lemma fail_runs_cols: "same_cols s (snd (fail_runs now where_clause s))"
  using fold_cols [of "\<lambda>i (failed, s). let P = (\<lambda>r. rr_run_id r = i \<and> where_clause r) in
      (if rowcount P s > 0 then failed @ [i] else failed,
       update_runs P (\<lambda>r. r\<lparr>rr_status := Failed, rr_completed_at := Some now\<rparr>) s)" "([], s)"]
  by (simp add: fail_runs_def Let_def case_prod_unfold update_runs_cols)

lemma touch_cols:
  "same_cols s (touch_agents now s k names)" "same_cols s (touch_llm_providers now s k names)"
  "same_cols s (touch_thread now i s)" "same_cols s (set_provider_name now s k name)"
  by (simp_all add: same_cols_def cols_defs touch_agents_def touch_llm_providers_def touch_thread_def set_provider_name_def
      ag_key_def ll_key_def)

section \<open>Writes that add or take away a row\<close>

lemma get_iff:
  "get_provider s k = None \<longleftrightarrow> k \<notin> fst ` set (provider_cols s)"
  "get_agent s a = None \<longleftrightarrow> (ar_provider_key a, ar_name a) \<notin> set (agent_cols s)"
  "get_thread s x = None \<longleftrightarrow> x \<notin> fst ` set (thread_cols s)"
  "get_run s i = None \<longleftrightarrow> i \<notin> fst ` set (run_cols s)"
  by (simp_all add: get_provider_def get_agent_def get_thread_def get_run_def fetch_None_iff fetch_None_iff [unfolded fetch_def] cols_defs image_image)

lemma ensure_provider_cols:
  assumes "ensure_provider H now s k = Inr s'"
  shows "s' = s \<and> k \<in> fst ` set (provider_cols s) \<or>
    (\<exists>fp. s' = s\<lparr>providers := providers s @ [\<lparr>pr_public_key = k, pr_fingerprint = fp, pr_display_name = None, pr_updated_at = now\<rparr>]\<rparr> \<and>
      k \<notin> fst ` set (provider_cols s) \<and> fp \<notin> snd ` set (provider_cols s))"
proof (cases "get_provider s k")
  case None
  then obtain fp where "s' = s\<lparr>providers := providers s @ [\<lparr>pr_public_key = k, pr_fingerprint = fp, pr_display_name = None, pr_updated_at = now\<rparr>]\<rparr>"
    "\<forall>p \<in> set (providers s). pr_fingerprint p \<noteq> fp"
    using assms by (auto simp: ensure_provider_def list_ex_iff split: option.splits if_splits)
  then show ?thesis using None by (intro disjI2 exI [of _ fp]) (auto simp: get_iff provider_cols_def)
next
  case (Some p)
  then have "k \<in> fst ` set (provider_cols s)" using get_iff(1) [of s k] by simp
  then show ?thesis using assms Some by (simp add: ensure_provider_def split: option.splits)
qed

lemma ensure_provider_ok:
  assumes "schema_ok s" "ensure_provider H now s k = Inr s'"
  shows "schema_ok s' \<and> k \<in> fst ` set (provider_cols s')"
  using ensure_provider_cols [OF assms(2)]
proof (elim disjE exE conjE)
  fix fp
  assume s': "s' = s\<lparr>providers := providers s @ [\<lparr>pr_public_key = k, pr_fingerprint = fp, pr_display_name = None, pr_updated_at = now\<rparr>]\<rparr>"
    and new: "k \<notin> fst ` set (provider_cols s)" "fp \<notin> snd ` set (provider_cols s)"
  have "provider_cols s' = provider_cols s @ [(k, fp)]" "agent_cols s' = agent_cols s" "llm_cols s' = llm_cols s"
    "thread_cols s' = thread_cols s" "run_cols s' = run_cols s" "message_cols s' = message_cols s" "event_cols s' = event_cols s"
    by (simp_all add: s' cols_defs)
  then show ?thesis using new assms(1) by (simp add: schema_ok_cols) blast
qed (use assms(1) in simp)

lemma upsert_agent_ok:
  assumes "schema_ok s" "k \<in> fst ` set (provider_cols s)"
  shows "schema_ok (upsert_agent now k name c m s) \<and> provider_cols (upsert_agent now k name c m s) = provider_cols s"
proof -
  have "agent_cols (upsert_agent now k name c m s) = agent_cols s @ (if (k, name) \<in> set (agent_cols s) then [] else [(k, name)])"
    by (simp add: agent_cols_def upsert_agent_keys)
  moreover have "provider_cols (upsert_agent now k name c m s) = provider_cols s" "llm_cols (upsert_agent now k name c m s) = llm_cols s"
    "thread_cols (upsert_agent now k name c m s) = thread_cols s" "run_cols (upsert_agent now k name c m s) = run_cols s"
    "message_cols (upsert_agent now k name c m s) = message_cols s" "event_cols (upsert_agent now k name c m s) = event_cols s"
    by (simp_all add: upsert_agent_def cols_defs)
  ultimately show ?thesis using assms by (auto simp: schema_ok_cols)
qed

lemma upsert_llm_ok:
  assumes "schema_ok s" "k \<in> fst ` set (provider_cols s)"
  shows "schema_ok (upsert_llm now k m name s) \<and> provider_cols (upsert_llm now k m name s) = provider_cols s"
proof -
  have "llm_cols (upsert_llm now k m name s) = llm_cols s @ (if (k, name) \<in> set (llm_cols s) then [] else [(k, name)])"
    by (simp add: llm_cols_def upsert_llm_keys)
  moreover have "provider_cols (upsert_llm now k m name s) = provider_cols s" "agent_cols (upsert_llm now k m name s) = agent_cols s"
    "thread_cols (upsert_llm now k m name s) = thread_cols s" "run_cols (upsert_llm now k m name s) = run_cols s"
    "message_cols (upsert_llm now k m name s) = message_cols s" "event_cols (upsert_llm now k m name s) = event_cols s"
    by (simp_all add: upsert_llm_def cols_defs)
  ultimately show ?thesis using assms by (auto simp: schema_ok_cols)
qed

lemma register_agents_ok:
  assumes "schema_ok s" "register_agents H now s k batch provider_name = Inr (registered, s')"
  shows "schema_ok s'"
proof -
  have batch: "schema_ok s2" if "mfold (register_agent now k) as (d, s1) = Inr (d2, s2)"
      "schema_ok s1" "k \<in> fst ` set (provider_cols s1)" for as d d2 s1 s2
    using that
  proof (induction as arbitrary: d s1)
    case (Cons a as)
    have step: "register_agent now k a (d, s1) = Inr x \<Longrightarrow> \<exists>c. x =
        (dput (rg_name a) \<lparr>ar_provider_key = k, ar_name = rg_name a\<rparr> d, upsert_agent now k (rg_name a) c (rg_metadata a) s1)" for x
      by (auto simp: register_agent_def rbind_Inr_iff)
    from Cons.prems(1) obtain c where "mfold (register_agent now k) as
        (dput (rg_name a) \<lparr>ar_provider_key = k, ar_name = rg_name a\<rparr> d, upsert_agent now k (rg_name a) c (rg_metadata a) s1) = Inr (d2, s2)"
      by (auto simp: rbind_Inr_iff dest!: step)
    then show ?case using Cons.IH upsert_agent_ok [OF Cons.prems(2,3)] Cons.prems(3) by metis
  qed simp
  from assms(2) obtain s1 where s1: "ensure_provider H now s k = Inr s1"
    and rest: "mfold (register_agent now k) batch ([], case provider_name of None \<Rightarrow> s1 | Some n \<Rightarrow> set_provider_name now s1 k n) =
      Inr (registered, s')"
    by (auto simp: register_agents_def rbind_Inr_iff)
  have named: "same_cols s1 (case provider_name of None \<Rightarrow> s1 | Some n \<Rightarrow> set_provider_name now s1 k n)"
    by (simp add: touch_cols split: option.splits)
  then show ?thesis
    using batch [OF rest] same_cols_ok [OF named] ensure_provider_ok [OF assms(1) s1] by (simp add: same_cols_def)
qed

lemma register_llm_providers_ok:
  assumes "schema_ok s" "register_llm_providers H now s k names m = Inr (registered, s')"
  shows "schema_ok s'"
proof -
  have batch: "schema_ok (fold (upsert_llm now k x) names s1)"
    if "schema_ok s1" "k \<in> fst ` set (provider_cols s1)" for names s1 x
    using that
  proof (induction names arbitrary: s1)
    case (Cons n names)
    show ?case using Cons.IH [of "upsert_llm now k x n s1"] upsert_llm_ok [OF Cons.prems] Cons.prems(2) by simp
  qed simp
  from assms(2) obtain s1 where "ensure_provider H now s k = Inr s1"
    "s' = fold (upsert_llm now k (jor m (JObj []))) names s1"
    by (auto simp: register_llm_providers_def rbind_Inr_iff)
  then show ?thesis using batch ensure_provider_ok [OF assms(1)] by simp
qed

lemma delete_agent_ok:
  assumes "schema_ok s" "delete_agent s a = Inr (b, s')"
  shows "schema_ok s'"
proof -
  let ?k = "(ar_provider_key a, ar_name a)"
  from assms(2) have s': "s' = s\<lparr>agents := filter (\<lambda>r. ag_key r \<noteq> ?k) (agents s)\<rparr>"
    and free: "get_agent s a = None \<or> count_threads_for_agent s a = 0 \<and> count_runs_for_agent s a None = 0"
    by (auto simp: delete_agent_eq Let_def split: if_splits)
  have "\<forall>t \<in> set (threads s). (th_provider_key t, th_agent_name t) \<noteq> ?k" "\<forall>r \<in> set (runs s). (rr_provider_key r, rr_agent_name r) \<noteq> ?k"
    using free assms(1)
    by (auto simp: count_threads_for_agent_def count_runs_for_agent_def filter_empty_conv get_iff agent_cols_def schema_ok_def)
  then have kept: "\<forall>t \<in> set (threads s). (th_provider_key t, th_agent_name t) \<in> ag_key ` set (agents s')"
    "\<forall>r \<in> set (runs s). (rr_provider_key r, rr_agent_name r) \<in> ag_key ` set (agents s')"
    using assms(1) by (fastforce simp: schema_ok_def s')+
  have "distinct (map ag_key (agents s'))" "set (agents s') \<subseteq> set (agents s)"
    using assms(1) by (auto simp: schema_ok_def s' distinct_map_filter)
  then show ?thesis using assms(1) kept by (auto simp: schema_ok_def s')
qed

lemma delete_llm_provider_ok: "schema_ok s \<Longrightarrow> schema_ok (snd (delete_llm_provider s ref))"
  by (auto simp: schema_ok_def delete_llm_provider_def Let_def distinct_map_filter)

lemma create_thread_schema:
  assumes "schema_ok s" "create_thread now i s a parent m h = Inr (j, s')"
  shows "schema_ok s'"
proof -
  from assms(2) have cols: "thread_cols s' = thread_cols s @ [(i, (ar_provider_key a, ar_name a), parent)]"
    and free: "i \<notin> fst ` set (thread_cols s)" and there: "(ar_provider_key a, ar_name a) \<in> set (agent_cols s)"
    and par: "parent \<in> insert None (Some ` insert i (fst ` set (thread_cols s)))"
    and rest: "provider_cols s' = provider_cols s" "agent_cols s' = agent_cols s" "llm_cols s' = llm_cols s"
      "run_cols s' = run_cols s" "message_cols s' = message_cols s" "event_cols s' = event_cols s"
    by (auto simp: create_thread_def insert_thread_def agent_ref_eta rbind_Inr_iff get_iff cols_defs split: if_splits option.splits)
  show ?thesis using assms(1) free there par unfolding schema_ok_cols rest cols by auto
qed

lemma ensure_thread_ok:
  assumes "schema_ok s" "ensure_thread now i s a x parent m c h = Inr (j, s')"
  shows "schema_ok s'"
  using assms create_thread_schema same_cols_ok [OF touch_cols(3)]
  by (auto simp: ensure_thread_def split: option.splits if_splits)

lemma create_run_ok:
  assumes "schema_ok s" "create_run now s x a run_input chain i = Inr s'"
  shows "schema_ok s'"
proof -
  from assms(2) have cols: "run_cols s' = run_cols s @ [(i, x, ar_provider_key a, ar_name a)]"
    and free: "i \<notin> fst ` set (run_cols s)" and there: "(ar_provider_key a, ar_name a) \<in> set (agent_cols s)"
      "x \<in> fst ` set (thread_cols s)"
    and rest: "provider_cols s' = provider_cols s" "agent_cols s' = agent_cols s" "llm_cols s' = llm_cols s"
      "thread_cols s' = thread_cols s" "message_cols s' = message_cols s" "event_cols s' = event_cols s"
    by (auto simp: create_run_def insert_run_def agent_ref_eta rbind_Inr_iff get_iff cols_defs split: if_splits)
  show ?thesis using assms(1) free there unfolding schema_ok_cols rest cols by auto
qed

lemma append_message_ok:
  assumes "schema_ok s" "append_message x i message s = Inr s'"
  shows "schema_ok s'"
proof -
  from assms(2) obtain mid where cols: "message_cols s' = message_cols s @ [(x, i, mid)]"
    and free: "\<forall>m \<in> set (thread_messages s). tm_run_id m = i \<longrightarrow> tm_message_id m \<noteq> mid"
    and there: "x \<in> fst ` set (thread_cols s)" "i \<in> fst ` set (run_cols s)"
    and rest: "provider_cols s' = provider_cols s" "agent_cols s' = agent_cols s" "llm_cols s' = llm_cols s"
      "thread_cols s' = thread_cols s" "run_cols s' = run_cols s" "event_cols s' = event_cols s"
    by (auto simp: append_message_def insert_message_def get_iff cols_defs list_ex_iff split: if_splits option.splits json.splits)
  have free: "(i, mid) \<notin> snd ` set (message_cols s)" using free by (auto simp: message_cols_def)
  show ?thesis using assms(1) free there unfolding schema_ok_cols rest cols by auto
qed

lemma append_thread_messages_ok:
  "schema_ok s \<Longrightarrow> append_thread_messages s x i messages = Inr s' \<Longrightarrow> schema_ok s'"
  unfolding append_thread_messages_def
  by (induction messages arbitrary: s) (auto simp: rbind_Inr_iff intro: append_message_ok)

lemma append_run_event_ok:
  assumes "schema_ok s" "append_run_event s now i n e = Inr s'"
  shows "schema_ok s'"
proof -
  from assms(2) have cols: "event_cols s' = event_cols s @ [i]" and there: "i \<in> fst ` set (run_cols s)"
    and rest: "provider_cols s' = provider_cols s" "agent_cols s' = agent_cols s" "llm_cols s' = llm_cols s"
      "thread_cols s' = thread_cols s" "run_cols s' = run_cols s" "message_cols s' = message_cols s"
    by (auto simp: append_run_event_def insert_run_event_def get_iff cols_defs split: if_splits)
  show ?thesis using assms(1) there unfolding schema_ok_cols rest cols by auto
qed

section \<open>Every write\<close>

inductive repo_write :: "(string \<Rightarrow> string) \<Rightarrow> store \<Rightarrow> store \<Rightarrow> bool" for H where
  w_provider: "ensure_provider H now s k = Inr s' \<Longrightarrow> repo_write H s s'"
| w_name: "repo_write H s (set_provider_name now s k name)"
| w_agents: "register_agents H now s k batch name = Inr (registered, s') \<Longrightarrow> repo_write H s s'"
| w_llms: "register_llm_providers H now s k names m = Inr (registered', s') \<Longrightarrow> repo_write H s s'"
| w_touch_agents: "repo_write H s (touch_agents now s k names)"
| w_touch_llms: "repo_write H s (touch_llm_providers now s k names)"
| w_delete_agent: "delete_agent s a = Inr (b, s') \<Longrightarrow> repo_write H s s'"
| w_delete_llm: "repo_write H s (snd (delete_llm_provider s ref))"
| w_create_thread: "create_thread now i s a parent m h = Inr (j, s') \<Longrightarrow> repo_write H s s'"
| w_ensure_thread: "ensure_thread now i s a x parent m c h = Inr (j, s') \<Longrightarrow> repo_write H s s'"
| w_create_run: "create_run now s x a run_input chain i = Inr s' \<Longrightarrow> repo_write H s s'"
| w_messages: "append_thread_messages s x i messages = Inr s' \<Longrightarrow> repo_write H s s'"
| w_event: "append_run_event s now i n e = Inr s' \<Longrightarrow> repo_write H s s'"
| w_status: "mark_run_status s now i st = Inr (applied, s') \<Longrightarrow> repo_write H s s'"
| w_cancel: "repo_write H s (record_cancel_request s i k')"
| w_activity: "repo_write H s (touch_run_activity s now i)"
| w_orphans: "repo_write H s (snd (fail_orphaned_runs s now))"
| w_fail: "repo_write H s (snd (fail_runs now where_clause s))"

inductive repo_reach :: "(string \<Rightarrow> string) \<Rightarrow> store \<Rightarrow> bool" for H where
  created: "repo_reach H \<lparr>providers = [], agents = [], llm_providers = [], threads = [], runs = [], thread_messages = [], run_events = []\<rparr>"
| written: "repo_reach H s \<Longrightarrow> repo_write H s s' \<Longrightarrow> repo_reach H s'"

lemma repo_write_ok: "repo_write H s s' \<Longrightarrow> schema_ok s \<Longrightarrow> schema_ok s'"
proof (induction rule: repo_write.induct)
  case (w_provider now s k s')
  then show ?case using ensure_provider_ok by blast
qed (blast intro: register_agents_ok register_llm_providers_ok delete_agent_ok delete_llm_provider_ok create_thread_schema ensure_thread_ok
      create_run_ok append_thread_messages_ok append_run_event_ok same_cols_ok [OF run_writes_cols(1)]
      same_cols_ok [OF run_writes_cols(2)] same_cols_ok [OF run_writes_cols(3)] same_cols_ok [OF run_writes_cols(4)]
      same_cols_ok [OF fail_runs_cols] same_cols_ok [OF touch_cols(1)] same_cols_ok [OF touch_cols(2)] same_cols_ok [OF touch_cols(4)])+

section \<open>Every written store\<close>

text \<open>
  Whatever sequence of writes the repository's functions make on a new database, its rows stay well formed: keys, fingerprints and
  message ids of a run are unique, every agent and offering has its provider, every thread its agent and its parent thread, every
  run its thread and its agent, and every message and event its run.
\<close>

lemma writes_keep_the_schema:
  assumes "repo_reach H s"
  shows "schema_ok s"
  using assms
proof (induction rule: repo_reach.induct)
  case created
  then show ?case by (simp add: schema_ok_def)
next
  case (written s s')
  then show ?case by (blast intro: repo_write_ok)
qed

end
