(* ===== verification/Migrations.thy ===== *)
theory Migrations
  imports Run_Store
begin

text \<open>
  The schema of \<^verbatim>\<open>funduq/schema.py\<close> as a value, and how a database gets there: the revisions of \<^verbatim>\<open>funduq/alembic/versions\<close> as scripts of
  the operations they issue, in the order they issue them, and \<^verbatim>\<open>migrate.py\<close>. Each operation has its SQL meaning, on the declared tables (\<open>alter\<close>)
  and on the rows (\<open>move\<close>); what a database refuses is an error, and a script runs in one transaction. \<^verbatim>\<open>batch_alter_table\<close> is the operations inside it;
  that SQLite copies the table for them changes no table but for the order of its columns, which is not compared.

  The lemmas: the scripts build what \<^verbatim>\<open>schema.py\<close> declares, every downgrade undoes its upgrade up to server
  defaults, what an upgrade does to the rows that are there, and a downgrade that ordinary rows make fail.
\<close>

section \<open>Tables as they are declared\<close>

datatype col_type = StringT | JsonT | TimestampT | BigSerialT | IntegerT | BooleanT

datatype cell = Null | Text string | Truth_value bool | Json_value json

type_synonym row = "(string, cell) dict"

record column =
  cl_name :: string
  cl_type :: col_type
  cl_nullable :: bool
  cl_server_default :: "cell option"

datatype tconstraint =
    PrimaryKey "string list"
  | Unique "string option" "string list"
  | ForeignKey "string option" "string list" string "string list"
  | CheckIn string string "string list"

record table =
  tb_name :: string
  tb_columns :: "column list"
  tb_constraints :: "tconstraint list"
  tb_indexes :: "(string \<times> string list) list"

definition col :: "string \<Rightarrow> col_type \<Rightarrow> column" where
  "col n ty = \<lparr>cl_name = n, cl_type = ty, cl_nullable = False, cl_server_default = None\<rparr>"

definition ncol :: "string \<Rightarrow> col_type \<Rightarrow> column" where
  "ncol n ty = \<lparr>cl_name = n, cl_type = ty, cl_nullable = True, cl_server_default = None\<rparr>"

definition dcol :: "string \<Rightarrow> col_type \<Rightarrow> cell \<Rightarrow> column" where
  "dcol n ty d = \<lparr>cl_name = n, cl_type = ty, cl_nullable = False, cl_server_default = Some d\<rparr>"

section \<open>schema.py\<close>

definition status_text :: "run_status \<Rightarrow> string" where
  "status_text st = (case st of Queued \<Rightarrow> ''queued'' | Offering \<Rightarrow> ''offering'' | Running \<Rightarrow> ''running'' | Cancelling \<Rightarrow> ''cancelling''
     | Completed \<Rightarrow> ''completed'' | Failed \<Rightarrow> ''failed'' | Cancelled \<Rightarrow> ''cancelled'')"

definition RUN_STATUS_CHECK :: tconstraint where
  "RUN_STATUS_CHECK = CheckIn ''ck_runs_status'' ''status'' (map status_text RUN_STATUSES)"

definition providers_table :: table where
  "providers_table = \<lparr>tb_name = ''providers'',
     tb_columns = [col ''public_key'' StringT, col ''fingerprint'' StringT, ncol ''display_name'' StringT, col ''updated_at'' TimestampT],
     tb_constraints = [PrimaryKey [''public_key''], Unique None [''fingerprint'']], tb_indexes = []\<rparr>"

definition agents_table :: table where
  "agents_table = \<lparr>tb_name = ''agents'',
     tb_columns = [col ''provider_key'' StringT, col ''name'' StringT, col ''agent_card'' JsonT, col ''metadata'' JsonT,
       col ''joined_at'' TimestampT, col ''last_seen_at'' TimestampT],
     tb_constraints = [ForeignKey None [''provider_key''] ''providers'' [''public_key''], PrimaryKey [''provider_key'', ''name'']],
     tb_indexes = []\<rparr>"

definition llm_providers_table :: table where
  "llm_providers_table = \<lparr>tb_name = ''llm_providers'',
     tb_columns = [col ''provider_key'' StringT, col ''name'' StringT, col ''metadata'' JsonT,
       col ''joined_at'' TimestampT, col ''last_seen_at'' TimestampT],
     tb_constraints = [ForeignKey None [''provider_key''] ''providers'' [''public_key''], PrimaryKey [''provider_key'', ''name'']],
     tb_indexes = []\<rparr>"

definition threads_table :: table where
  "threads_table = \<lparr>tb_name = ''threads'',
     tb_columns = [col ''thread_id'' StringT, col ''provider_key'' StringT, col ''agent_name'' StringT,
       ncol ''parent_thread_id'' StringT, ncol ''head_key'' StringT, col ''metadata'' JsonT,
       col ''created_at'' TimestampT, col ''last_activity_at'' TimestampT],
     tb_constraints = [PrimaryKey [''thread_id''], ForeignKey None [''parent_thread_id''] ''threads'' [''thread_id''],
       ForeignKey (Some ''fk_threads_agent'') [''provider_key'', ''agent_name''] ''agents'' [''provider_key'', ''name'']],
     tb_indexes = [(''idx_threads_parent'', [''parent_thread_id''])]\<rparr>"

definition runs_table :: table where
  "runs_table = \<lparr>tb_name = ''runs'',
     tb_columns = [col ''run_id'' StringT, col ''thread_id'' StringT, col ''provider_key'' StringT, col ''agent_name'' StringT,
       col ''status'' StringT, ncol ''actor_chain'' JsonT, ncol ''started_at'' TimestampT, ncol ''completed_at'' TimestampT,
       ncol ''last_activity_at'' TimestampT, col ''created_at'' TimestampT,
       ncol ''parent_run_id'' StringT, ncol ''state'' JsonT, col ''tools'' JsonT, col ''context'' JsonT,
       ncol ''forwarded_props'' JsonT, ncol ''resume'' JsonT,
       dcol ''cancel_requested'' BooleanT (Truth_value False), ncol ''cancel_requested_by'' StringT],
     tb_constraints = [PrimaryKey [''run_id''], ForeignKey None [''thread_id''] ''threads'' [''thread_id''], RUN_STATUS_CHECK,
       ForeignKey (Some ''fk_runs_agent'') [''provider_key'', ''agent_name''] ''agents'' [''provider_key'', ''name'']],
     tb_indexes = [(''idx_runs_thread'', [''thread_id'', ''created_at'']),
       (''idx_runs_agent_status'', [''provider_key'', ''agent_name'', ''status''])]\<rparr>"

definition thread_messages_table :: table where
  "thread_messages_table = \<lparr>tb_name = ''thread_messages'',
     tb_columns = [col ''id'' BigSerialT, col ''thread_id'' StringT, col ''run_id'' StringT, col ''message_id'' StringT,
       col ''message_json'' JsonT, col ''metadata'' JsonT, col ''created_at'' TimestampT],
     tb_constraints = [PrimaryKey [''id''], ForeignKey None [''thread_id''] ''threads'' [''thread_id''],
       ForeignKey None [''run_id''] ''runs'' [''run_id''], Unique (Some ''uq_thread_messages_run_message'') [''run_id'', ''message_id'']],
     tb_indexes = [(''idx_thread_messages_thread'', [''thread_id'', ''id''])]\<rparr>"

definition run_events_table :: table where
  "run_events_table = \<lparr>tb_name = ''run_events'',
     tb_columns = [col ''id'' BigSerialT, col ''run_id'' StringT, col ''seq'' IntegerT, col ''event_json'' JsonT, col ''created_at'' TimestampT],
     tb_constraints = [PrimaryKey [''id''], ForeignKey None [''run_id''] ''runs'' [''run_id'']],
     tb_indexes = [(''idx_run_events_run'', [''run_id'', ''seq''])]\<rparr>"

definition metadata :: "table list" where
  "metadata = [providers_table, agents_table, llm_providers_table, threads_table, runs_table, thread_messages_table, run_events_table]"

section \<open>The operations a script issues\<close>

datatype cond = Always | IsNull string | IsNotNull string | Equals string cell | IsTrue string | And cond cond

datatype op =
    CreateTable table
  | DropTable string
  | CreateIndex string string "string list"
  | DropIndex string string
  | AddColumn string column
  | DropColumn string string
  | AddConstraint string tconstraint
  | DropConstraint string string
  | DeleteWhere string cond
  | UpdateWhere string string cell cond

datatype migration_error =
    NoSuchTable string | TableExists string | StillReferenced string | NoSuchColumn string | ColumnExists string
  | NoSuchConstraint string | ConstraintExists string | NoSuchIndex string | IndexExists string
  | NotNullViolated string | CheckViolated string | UniqueViolated string

definition table_at :: "table list \<Rightarrow> string \<Rightarrow> table option" where
  "table_at ts n = List.find (\<lambda>t. tb_name t = n) ts"

definition constraint_name :: "tconstraint \<Rightarrow> string option" where
  "constraint_name c = (case c of PrimaryKey _ \<Rightarrow> None | Unique n _ \<Rightarrow> n | ForeignKey n _ _ _ \<Rightarrow> n | CheckIn n _ _ \<Rightarrow> Some n)"

definition constraint_columns :: "tconstraint \<Rightarrow> string list" where
  "constraint_columns c = (case c of PrimaryKey cs \<Rightarrow> cs | Unique _ cs \<Rightarrow> cs | ForeignKey _ cs _ _ \<Rightarrow> cs | CheckIn _ c _ \<Rightarrow> [c])"

definition refers_to :: "string \<Rightarrow> tconstraint \<Rightarrow> bool" where
  "refers_to n c = (case c of ForeignKey _ _ t _ \<Rightarrow> t = n | _ \<Rightarrow> False)"

definition with_table :: "string \<Rightarrow> (table \<Rightarrow> (migration_error, table) res) \<Rightarrow> table list \<Rightarrow> (migration_error, table list) res" where
  "with_table n f ts =
     (case table_at ts n of
        None \<Rightarrow> Inl (NoSuchTable n)
      | Some t \<Rightarrow> rbind (f t) (\<lambda>t'. Inr (map (\<lambda>x. if tb_name x = n then t' else x) ts)))"

definition index_names :: "table list \<Rightarrow> string list" where
  "index_names ts = concat (map (\<lambda>t. map fst (tb_indexes t)) ts)"

text \<open>A column that goes takes the constraints and indexes over it along.\<close>

definition drop_col :: "string \<Rightarrow> table \<Rightarrow> (migration_error, table) res" where
  "drop_col c t =
     (if c \<notin> set (map cl_name (tb_columns t)) then Inl (NoSuchColumn c)
      else Inr (t\<lparr>tb_columns := filter (\<lambda>x. cl_name x \<noteq> c) (tb_columns t),
                  tb_constraints := filter (\<lambda>k. c \<notin> set (constraint_columns k)) (tb_constraints t),
                  tb_indexes := filter (\<lambda>(_, cs). c \<notin> set cs) (tb_indexes t)\<rparr>))"

definition add_constraint :: "tconstraint \<Rightarrow> table \<Rightarrow> (migration_error, table) res" where
  "add_constraint k t =
     (if constraint_name k \<noteq> None \<and> constraint_name k \<in> constraint_name ` set (tb_constraints t)
      then Inl (ConstraintExists (the (constraint_name k)))
      else if \<not> set (constraint_columns k) \<subseteq> set (map cl_name (tb_columns t)) then Inl (NoSuchColumn (hd (constraint_columns k)))
      else Inr (t\<lparr>tb_constraints := tb_constraints t @ [k]\<rparr>))"

fun alter :: "op \<Rightarrow> table list \<Rightarrow> (migration_error, table list) res" where
  "alter (CreateTable t) ts =
     (if table_at ts (tb_name t) \<noteq> None then Inl (TableExists (tb_name t))
      else case List.find (\<lambda>k. case k of ForeignKey _ _ n _ \<Rightarrow> n \<noteq> tb_name t \<and> table_at ts n = None | _ \<Rightarrow> False) (tb_constraints t) of
        Some (ForeignKey _ _ n _) \<Rightarrow> Inl (NoSuchTable n)
      | _ \<Rightarrow> Inr (ts @ [t]))"
| "alter (DropTable n) ts =
     (if table_at ts n = None then Inl (NoSuchTable n)
      else if list_ex (\<lambda>t. tb_name t \<noteq> n \<and> list_ex (refers_to n) (tb_constraints t)) ts then Inl (StillReferenced n)
      else Inr (filter (\<lambda>t. tb_name t \<noteq> n) ts))"
| "alter (CreateIndex i n cs) ts =
     (if i \<in> set (index_names ts) then Inl (IndexExists i)
      else with_table n (\<lambda>t. if set cs \<subseteq> set (map cl_name (tb_columns t)) then Inr (t\<lparr>tb_indexes := tb_indexes t @ [(i, cs)]\<rparr>)
             else Inl (NoSuchColumn (hd cs))) ts)"
| "alter (DropIndex i n) ts =
     with_table n (\<lambda>t. if i \<in> set (map fst (tb_indexes t)) then Inr (t\<lparr>tb_indexes := filter (\<lambda>x. fst x \<noteq> i) (tb_indexes t)\<rparr>)
       else Inl (NoSuchIndex i)) ts"
| "alter (AddColumn n c) ts =
     with_table n (\<lambda>t. if cl_name c \<in> set (map cl_name (tb_columns t)) then Inl (ColumnExists (cl_name c))
       else Inr (t\<lparr>tb_columns := tb_columns t @ [c]\<rparr>)) ts"
| "alter (DropColumn n c) ts = with_table n (drop_col c) ts"
| "alter (AddConstraint n k) ts = with_table n (add_constraint k) ts"
| "alter (DropConstraint n k) ts =
     with_table n (\<lambda>t. if Some k \<in> constraint_name ` set (tb_constraints t)
       then Inr (t\<lparr>tb_constraints := filter (\<lambda>x. constraint_name x \<noteq> Some k) (tb_constraints t)\<rparr>)
       else Inl (NoSuchConstraint k)) ts"
| "alter (DeleteWhere n c) ts = with_table n Inr ts"
| "alter (UpdateWhere n c v w) ts =
     with_table n (\<lambda>t. if c \<in> set (map cl_name (tb_columns t)) then Inr t else Inl (NoSuchColumn c)) ts"

section \<open>Rows\<close>

type_synonym rows = "string \<Rightarrow> row list"

definition cell_at :: "row \<Rightarrow> string \<Rightarrow> cell" where
  "cell_at x c = (case dget x c of None \<Rightarrow> Null | Some v \<Rightarrow> v)"

text \<open>SQL's conditions are three-valued; a row is taken when its condition is true, which no comparison with NULL is.\<close>

fun holds :: "cond \<Rightarrow> row \<Rightarrow> bool" where
  "holds Always x = True"
| "holds (IsNull c) x = (cell_at x c = Null)"
| "holds (IsNotNull c) x = (cell_at x c \<noteq> Null)"
| "holds (Equals c v) x = (cell_at x c = v \<and> v \<noteq> Null)"
| "holds (IsTrue c) x = (cell_at x c = Truth_value True)"
| "holds (And p q) x = (holds p x \<and> holds q x)"

definition key_of :: "string list \<Rightarrow> row \<Rightarrow> cell list" where
  "key_of cs x = map (cell_at x) cs"

text \<open>A constraint on rows: NULL passes a check, and a key with a NULL in it equals no other.\<close>

definition unique_rows :: "string list \<Rightarrow> row list \<Rightarrow> bool" where
  "unique_rows cs xs = distinct (filter (\<lambda>k. Null \<notin> set k) (map (key_of cs) xs))"

definition in_check :: "string \<Rightarrow> string list \<Rightarrow> row \<Rightarrow> bool" where
  "in_check c vs x = (cell_at x c = Null \<or> cell_at x c \<in> Text ` set vs)"

definition constraint_error :: "tconstraint \<Rightarrow> row list \<Rightarrow> migration_error option" where
  "constraint_error k xs = (case k of
     Unique n cs \<Rightarrow> if unique_rows cs xs then None else Some (UniqueViolated (hd cs))
   | CheckIn n c vs \<Rightarrow> if list_all (in_check c vs) xs then None else Some (CheckViolated n)
   | _ \<Rightarrow> None)"

text \<open>Whether rows elsewhere still refer to a row of a table: what makes a DELETE fail.\<close>

definition still_refers :: "table list \<Rightarrow> rows \<Rightarrow> string \<Rightarrow> bool" where
  "still_refers ts R n =
     list_ex (\<lambda>t. list_ex (\<lambda>k. case k of
         ForeignKey _ cs n' cs' \<Rightarrow> n' = n \<and>
           list_ex (\<lambda>x. Null \<notin> set (key_of cs x) \<and> key_of cs x \<notin> key_of cs' ` set (R n)) (R (tb_name t))
       | _ \<Rightarrow> False) (tb_constraints t)) ts"

definition assign :: "string \<Rightarrow> cell \<Rightarrow> cond \<Rightarrow> row \<Rightarrow> row" where
  "assign c v w x = (if holds w x then dput c v x else x)"

definition table_constraints :: "table list \<Rightarrow> string \<Rightarrow> tconstraint list" where
  "table_constraints ts n = (case table_at ts n of None \<Rightarrow> [] | Some t \<Rightarrow> tb_constraints t)"

definition nullable_at :: "table list \<Rightarrow> string \<Rightarrow> string \<Rightarrow> bool" where
  "nullable_at ts n c = (case table_at ts n of None \<Rightarrow> True | Some t \<Rightarrow> list_all (\<lambda>x. cl_name x = c \<longrightarrow> cl_nullable x) (tb_columns t))"

definition checked :: "migration_error option \<Rightarrow> 'a \<Rightarrow> (migration_error, 'a) res" where
  "checked e x = (case e of None \<Rightarrow> Inr x | Some e \<Rightarrow> Inl e)"

fun move :: "op \<Rightarrow> table list \<Rightarrow> rows \<Rightarrow> (migration_error, rows) res" where
  "move (CreateTable t) ts R = Inr (R(tb_name t := []))"
| "move (DropTable n) ts R = Inr (R(n := []))"
| "move (AddColumn n c) ts R =
     (if \<not> cl_nullable c \<and> cl_server_default c = None \<and> R n \<noteq> [] then Inl (NotNullViolated (cl_name c))
      else Inr (R(n := map (\<lambda>x. x @ [(cl_name c, case cl_server_default c of None \<Rightarrow> Null | Some d \<Rightarrow> d)]) (R n))))"
| "move (DropColumn n c) ts R = Inr (R(n := map (dpop c) (R n)))"
| "move (AddConstraint n k) ts R = checked (constraint_error k (R n)) R"
| "move (DeleteWhere n w) ts R =
     (let R' = R(n := filter (\<lambda>x. \<not> holds w x) (R n)) in
      if still_refers ts R' n then Inl (StillReferenced n) else Inr R')"
| "move (UpdateWhere n c v w) ts R =
     (let xs = map (assign c v w) (R n) in
      if v = Null \<and> \<not> nullable_at ts n c \<and> list_ex (holds w) (R n) then Inl (NotNullViolated c)
      else rbind (mfold (\<lambda>k _. checked (constraint_error k xs) ()) (filter (\<lambda>k. c \<in> set (constraint_columns k)) (table_constraints ts n)) ())
        (\<lambda>_. Inr (R(n := xs))))"
| "move _ ts R = Inr R"

record database =
  db_tables :: "table list"
  db_rows :: rows

definition apply_op :: "op \<Rightarrow> database \<Rightarrow> (migration_error, database) res" where
  "apply_op p db = rbind (alter p (db_tables db)) (\<lambda>ts. rbind (move p ts (db_rows db)) (\<lambda>R. Inr \<lparr>db_tables = ts, db_rows = R\<rparr>))"

definition run_script :: "op list \<Rightarrow> database \<Rightarrow> (migration_error, database) res" where
  "run_script ops db = mfold apply_op ops db"

section \<open>The revisions\<close>

record revision =
  rv_revision :: string
  rv_down_revision :: "string option"
  rv_upgrade :: "op list"
  rv_downgrade :: "op list"

definition initial_schema :: revision where
  "initial_schema = \<lparr>rv_revision = ''ff342e6c6b85'', rv_down_revision = None,
     rv_upgrade = [
       CreateTable \<lparr>tb_name = ''providers'',
         tb_columns = [col ''public_key'' StringT, col ''fingerprint'' StringT, ncol ''display_name'' StringT, col ''updated_at'' TimestampT],
         tb_constraints = [PrimaryKey [''public_key''], Unique None [''fingerprint'']], tb_indexes = []\<rparr>,
       CreateTable \<lparr>tb_name = ''agents'',
         tb_columns = [col ''provider_key'' StringT, col ''name'' StringT, col ''agent_card'' JsonT, col ''metadata'' JsonT,
           col ''joined_at'' TimestampT, col ''last_seen_at'' TimestampT],
         tb_constraints = [ForeignKey None [''provider_key''] ''providers'' [''public_key''], PrimaryKey [''provider_key'', ''name'']],
         tb_indexes = []\<rparr>,
       CreateTable \<lparr>tb_name = ''llm_providers'',
         tb_columns = [col ''provider_key'' StringT, col ''name'' StringT, col ''metadata'' JsonT,
           col ''joined_at'' TimestampT, col ''last_seen_at'' TimestampT],
         tb_constraints = [ForeignKey None [''provider_key''] ''providers'' [''public_key''], PrimaryKey [''provider_key'', ''name'']],
         tb_indexes = []\<rparr>,
       CreateTable \<lparr>tb_name = ''threads'',
         tb_columns = [col ''thread_id'' StringT, col ''provider_key'' StringT, col ''agent_name'' StringT,
           ncol ''parent_thread_id'' StringT, col ''metadata'' JsonT, col ''created_at'' TimestampT, col ''last_activity_at'' TimestampT],
         tb_constraints = [ForeignKey None [''parent_thread_id''] ''threads'' [''thread_id''],
           ForeignKey (Some ''fk_threads_agent'') [''provider_key'', ''agent_name''] ''agents'' [''provider_key'', ''name''],
           PrimaryKey [''thread_id'']], tb_indexes = []\<rparr>,
       CreateIndex ''idx_threads_parent'' ''threads'' [''parent_thread_id''],
       CreateTable \<lparr>tb_name = ''runs'',
         tb_columns = [col ''run_id'' StringT, col ''thread_id'' StringT, col ''provider_key'' StringT, col ''agent_name'' StringT,
           col ''protocol'' StringT, col ''status'' StringT, col ''input_json'' JsonT, ncol ''started_at'' TimestampT,
           ncol ''completed_at'' TimestampT, ncol ''last_activity_at'' TimestampT, col ''metadata'' JsonT, col ''created_at'' TimestampT],
         tb_constraints = [CheckIn ''ck_runs_protocol'' ''protocol'' [''ag-ui'', ''a2a''],
           CheckIn ''ck_runs_status'' ''status''
             [''queued'', ''running'', ''input-required'', ''cancelling'', ''completed'', ''failed'', ''cancelled''],
           ForeignKey (Some ''fk_runs_agent'') [''provider_key'', ''agent_name''] ''agents'' [''provider_key'', ''name''],
           ForeignKey None [''thread_id''] ''threads'' [''thread_id''], PrimaryKey [''run_id'']], tb_indexes = []\<rparr>,
       CreateIndex ''idx_runs_agent_status'' ''runs'' [''provider_key'', ''agent_name'', ''status''],
       CreateIndex ''idx_runs_thread'' ''runs'' [''thread_id'', ''created_at''],
       CreateTable \<lparr>tb_name = ''run_events'',
         tb_columns = [col ''id'' BigSerialT, col ''run_id'' StringT, col ''seq'' IntegerT, col ''event_json'' JsonT, col ''created_at'' TimestampT],
         tb_constraints = [ForeignKey None [''run_id''] ''runs'' [''run_id''], PrimaryKey [''id'']], tb_indexes = []\<rparr>,
       CreateIndex ''idx_run_events_run'' ''run_events'' [''run_id'', ''seq''],
       CreateTable \<lparr>tb_name = ''thread_messages'',
         tb_columns = [col ''id'' BigSerialT, col ''thread_id'' StringT, col ''run_id'' StringT, col ''message_id'' StringT,
           col ''message_json'' JsonT, col ''metadata'' JsonT, col ''created_at'' TimestampT],
         tb_constraints = [ForeignKey None [''run_id''] ''runs'' [''run_id''], ForeignKey None [''thread_id''] ''threads'' [''thread_id''],
           PrimaryKey [''id''], Unique (Some ''uq_thread_messages_thread_message'') [''thread_id'', ''message_id'']], tb_indexes = []\<rparr>,
       CreateIndex ''idx_thread_messages_thread'' ''thread_messages'' [''thread_id'', ''id'']],
     rv_downgrade = [
       DropIndex ''idx_thread_messages_thread'' ''thread_messages'', DropTable ''thread_messages'',
       DropIndex ''idx_run_events_run'' ''run_events'', DropTable ''run_events'',
       DropIndex ''idx_runs_thread'' ''runs'', DropIndex ''idx_runs_agent_status'' ''runs'', DropTable ''runs'',
       DropIndex ''idx_threads_parent'' ''threads'', DropTable ''threads'',
       DropTable ''llm_providers'', DropTable ''agents'', DropTable ''providers'']\<rparr>"

definition head_keys :: revision where
  "head_keys = \<lparr>rv_revision = ''a11c3b7d42e9'', rv_down_revision = Some ''ff342e6c6b85'',
     rv_upgrade = [AddColumn ''threads'' (ncol ''head_key'' StringT), AddColumn ''runs'' (ncol ''head_key'' StringT)],
     rv_downgrade = [DropColumn ''runs'' ''head_key'', DropColumn ''threads'' ''head_key'']\<rparr>"

definition STATUSES_BEFORE :: "string list" where
  "STATUSES_BEFORE = [''queued'', ''running'', ''input-required'', ''cancelling'', ''completed'', ''failed'', ''cancelled'']"

definition STATUSES_AFTER :: "string list" where
  "STATUSES_AFTER = [''queued'', ''offering'', ''running'', ''input-required'', ''cancelling'', ''completed'', ''failed'', ''cancelled'']"

text \<open>
  The table SQLite's copy is made from, written down in the revision; \<open>status_check_copies_the_table\<close> shows that it is the table the revision finds, with
  the check to be put in place.
\<close>

definition frozen_runs :: "string list \<Rightarrow> table" where
  "frozen_runs status_check = \<lparr>tb_name = ''runs'',
     tb_columns = [col ''run_id'' StringT, col ''thread_id'' StringT, col ''provider_key'' StringT, col ''agent_name'' StringT,
       col ''protocol'' StringT, col ''status'' StringT, ncol ''head_key'' StringT, col ''input_json'' JsonT, ncol ''started_at'' TimestampT,
       ncol ''completed_at'' TimestampT, ncol ''last_activity_at'' TimestampT, col ''metadata'' JsonT, col ''created_at'' TimestampT],
     tb_constraints = [PrimaryKey [''run_id''], ForeignKey None [''thread_id''] ''threads'' [''thread_id''],
       CheckIn ''ck_runs_protocol'' ''protocol'' [''ag-ui'', ''a2a''], CheckIn ''ck_runs_status'' ''status'' status_check,
       ForeignKey (Some ''fk_runs_agent'') [''provider_key'', ''agent_name''] ''agents'' [''provider_key'', ''name'']],
     tb_indexes = [(''idx_runs_thread'', [''thread_id'', ''created_at'']),
       (''idx_runs_agent_status'', [''provider_key'', ''agent_name'', ''status''])]\<rparr>"

definition replace_status_check :: "string list \<Rightarrow> op list" where
  "replace_status_check new_check =
     [DropConstraint ''runs'' ''ck_runs_status'', AddConstraint ''runs'' (CheckIn ''ck_runs_status'' ''status'' new_check)]"

definition offering_status :: revision where
  "offering_status = \<lparr>rv_revision = ''c4d9e17b52aa'', rv_down_revision = Some ''a11c3b7d42e9'',
     rv_upgrade = replace_status_check STATUSES_AFTER,
     rv_downgrade = UpdateWhere ''runs'' ''status'' (Text ''queued'') (Equals ''status'' (Text ''offering'')) #
       replace_status_check STATUSES_BEFORE\<rparr>"

definition runs_actor_chain :: revision where
  "runs_actor_chain = \<lparr>rv_revision = ''e7b3a94c1f60'', rv_down_revision = Some ''c4d9e17b52aa'',
     rv_upgrade = [AddColumn ''runs'' (ncol ''actor_chain'' JsonT)], rv_downgrade = [DropColumn ''runs'' ''actor_chain'']\<rparr>"

definition runs_is_the_run :: revision where
  "runs_is_the_run = \<lparr>rv_revision = ''a1f4c9d27e3b'', rv_down_revision = Some ''e7b3a94c1f60'',
     rv_upgrade = [
       DeleteWhere ''run_events'' Always, DeleteWhere ''thread_messages'' Always, DeleteWhere ''runs'' Always,
       DropConstraint ''runs'' ''ck_runs_protocol'', DropConstraint ''runs'' ''ck_runs_status'',
       DropColumn ''runs'' ''protocol'', DropColumn ''runs'' ''head_key'', DropColumn ''runs'' ''input_json'', DropColumn ''runs'' ''metadata'',
       AddColumn ''runs'' (ncol ''parent_run_id'' StringT), AddColumn ''runs'' (ncol ''state'' JsonT),
       AddColumn ''runs'' (col ''tools'' JsonT), AddColumn ''runs'' (col ''context'' JsonT),
       AddColumn ''runs'' (ncol ''forwarded_props'' JsonT), AddColumn ''runs'' (ncol ''resume'' JsonT),
       AddColumn ''runs'' (ncol ''cancel_requested_by'' StringT),
       AddConstraint ''runs'' (CheckIn ''ck_runs_status'' ''status''
         [''queued'', ''offering'', ''running'', ''cancelling'', ''completed'', ''failed'', ''cancelled'']),
       AddColumn ''thread_messages'' (col ''origin'' StringT),
       AddConstraint ''thread_messages'' (CheckIn ''ck_thread_messages_origin'' ''origin'' [''caller'', ''agent''])],
     rv_downgrade = [
       DeleteWhere ''run_events'' Always, DeleteWhere ''thread_messages'' Always, DeleteWhere ''runs'' Always,
       DropConstraint ''thread_messages'' ''ck_thread_messages_origin'', DropColumn ''thread_messages'' ''origin'',
       DropConstraint ''runs'' ''ck_runs_status''] @
       map (DropColumn ''runs'') [''cancel_requested_by'', ''resume'', ''forwarded_props'', ''context'', ''tools'', ''state'', ''parent_run_id''] @
       [AddColumn ''runs'' (dcol ''protocol'' StringT (Text ''ag-ui'')), AddColumn ''runs'' (ncol ''head_key'' StringT),
        AddColumn ''runs'' (col ''input_json'' JsonT), AddColumn ''runs'' (col ''metadata'' JsonT),
        AddConstraint ''runs'' (CheckIn ''ck_runs_protocol'' ''protocol'' [''ag-ui'', ''a2a'']),
        AddConstraint ''runs'' (CheckIn ''ck_runs_status'' ''status''
          [''queued'', ''offering'', ''running'', ''input-required'', ''cancelling'', ''completed'', ''failed'', ''cancelled''])]\<rparr>"

definition message_ids_unique_per_run :: revision where
  "message_ids_unique_per_run = \<lparr>rv_revision = ''b5d2e8f0a7c4'', rv_down_revision = Some ''a1f4c9d27e3b'',
     rv_upgrade = [DropConstraint ''thread_messages'' ''uq_thread_messages_thread_message'',
       AddConstraint ''thread_messages'' (Unique (Some ''uq_thread_messages_run_message'') [''run_id'', ''message_id''])],
     rv_downgrade = [DropConstraint ''thread_messages'' ''uq_thread_messages_run_message'',
       AddConstraint ''thread_messages'' (Unique (Some ''uq_thread_messages_thread_message'') [''thread_id'', ''message_id''])]\<rparr>"

definition thread_messages_are_run_inputs :: revision where
  "thread_messages_are_run_inputs = \<lparr>rv_revision = ''c8e1f3a6b902'', rv_down_revision = Some ''b5d2e8f0a7c4'',
     rv_upgrade = [DeleteWhere ''thread_messages'' (Equals ''origin'' (Text ''agent'')),
       DropConstraint ''thread_messages'' ''ck_thread_messages_origin'', DropColumn ''thread_messages'' ''origin''],
     rv_downgrade = [AddColumn ''thread_messages'' (dcol ''origin'' StringT (Text ''caller'')),
       AddConstraint ''thread_messages'' (CheckIn ''ck_thread_messages_origin'' ''origin'' [''caller'', ''agent''])]\<rparr>"

definition cancel_requested_is_its_own_column :: revision where
  "cancel_requested_is_its_own_column = \<lparr>rv_revision = ''d4a7c2e9f150'', rv_down_revision = Some ''c8e1f3a6b902'',
     rv_upgrade = [AddColumn ''runs'' (dcol ''cancel_requested'' BooleanT (Truth_value False)),
       UpdateWhere ''runs'' ''cancel_requested'' (Truth_value True) (IsNotNull ''cancel_requested_by''),
       UpdateWhere ''runs'' ''cancel_requested_by'' Null (Equals ''cancel_requested_by'' (Text []))],
     rv_downgrade = [UpdateWhere ''runs'' ''cancel_requested_by'' (Text []) (And (IsTrue ''cancel_requested'') (IsNull ''cancel_requested_by'')),
       DropColumn ''runs'' ''cancel_requested'']\<rparr>"

text \<open>The files of the directory; their order there means nothing.\<close>

definition versions :: "revision list" where
  "versions = [runs_actor_chain, head_keys, initial_schema, thread_messages_are_run_inputs, offering_status, runs_is_the_run,
     cancel_requested_is_its_own_column, message_ids_unique_per_run]"

section \<open>Migrating\<close>

text \<open>The revisions after the one a database is at, along \<^verbatim>\<open>down_revision\<close>.\<close>

fun upgrade_path :: "nat \<Rightarrow> string option \<Rightarrow> revision list" where
  "upgrade_path 0 at_rev = []"
| "upgrade_path (Suc n) at_rev =
     (case List.find (\<lambda>v. rv_down_revision v = at_rev) versions of
        None \<Rightarrow> []
      | Some v \<Rightarrow> v # upgrade_path n (Some (rv_revision v)))"

text \<open>\<^verbatim>\<open>command.upgrade(cfg, "head")\<close> on a database with its version row, in one transaction: an error leaves everything as it was.\<close>

definition migrate :: "string option \<times> database \<Rightarrow> (migration_error, string option \<times> database) res" where
  "migrate = (\<lambda>(at_rev, db).
     mfold (\<lambda>v (_, db). rbind (run_script (rv_upgrade v) db) (\<lambda>db. Inr (Some (rv_revision v), db)))
       (upgrade_path (length versions) at_rev) (at_rev, db))"

definition empty_database :: database where
  "empty_database = \<lparr>db_tables = [], db_rows = (\<lambda>_. [])\<rparr>"

section \<open>The same tables\<close>

text \<open>Two declarations of a table that differ in the order of columns, constraints and indexes are the same declaration.\<close>

definition same_list :: "'a list \<Rightarrow> 'a list \<Rightarrow> bool" where
  "same_list xs ys \<longleftrightarrow> length xs = length ys \<and> list_all (\<lambda>x. x \<in> set ys) xs \<and> list_all (\<lambda>y. y \<in> set xs) ys"

definition same_table :: "table \<Rightarrow> table \<Rightarrow> bool" where
  "same_table t u \<longleftrightarrow> tb_name t = tb_name u \<and> same_list (tb_columns t) (tb_columns u) \<and>
     same_list (tb_constraints t) (tb_constraints u) \<and> same_list (tb_indexes t) (tb_indexes u)"

definition same_tables :: "table list \<Rightarrow> table list \<Rightarrow> bool" where
  "same_tables ts us \<longleftrightarrow> length ts = length us \<and> list_all (\<lambda>t. list_ex (same_table t) us) ts \<and> list_all (\<lambda>u. list_ex (same_table u) ts) us"

section \<open>The chain of revisions\<close>

abbreviation chain_of_revisions :: "revision list" where
  "chain_of_revisions \<equiv> [initial_schema, head_keys, offering_status, runs_actor_chain, runs_is_the_run, message_ids_unique_per_run,
     thread_messages_are_run_inputs, cancel_requested_is_its_own_column]"

lemma upgrade_path_all:
  "upgrade_path (length versions) None = chain_of_revisions"
  "upgrade_path (length versions) (Some ''ff342e6c6b85'') = tl chain_of_revisions"
  "upgrade_path (length versions) (Some ''d4a7c2e9f150'') = []"
  by code_simp+

lemma no_rows_ok [simp]: "checked (constraint_error k []) x = Inr x" "mfold (\<lambda>k. checked (constraint_error k [])) ks () = Inr ()"
proof -
  show one: "checked (constraint_error k []) x = Inr x" for k and x :: 'b
    by (auto simp: checked_def constraint_error_def unique_rows_def split: tconstraint.splits)
  show "mfold (\<lambda>k. checked (constraint_error k [])) ks () = Inr ()" by (induction ks) (simp_all add: one)
qed

lemma move_nothing: "move p ts (\<lambda>_. []) = Inr (\<lambda>_. [])"
proof -
  have "\<not> still_refers ts (\<lambda>_. []) n" for n
    by (auto simp: still_refers_def list_ex_iff split: tconstraint.splits)
  then show ?thesis by (cases p) (auto simp: Let_def fun_upd_idem)
qed

text \<open>A script on a database without rows does what its operations do to the tables.\<close>

lemma script_without_rows:
  "run_script ops \<lparr>db_tables = ts, db_rows = \<lambda>_. []\<rparr> =
     rbind (mfold alter ops ts) (\<lambda>ts. Inr \<lparr>db_tables = ts, db_rows = \<lambda>_. []\<rparr>)"
  unfolding run_script_def
proof (induction ops arbitrary: ts)
  case (Cons p ops)
  then show ?case by (cases "alter p ts") (simp_all add: apply_op_def move_nothing)
qed simp

lemma migrate_without_rows:
  "mfold (\<lambda>v (_, db). rbind (run_script (rv_upgrade v) db) (\<lambda>db. Inr (Some (rv_revision v), db))) vs (at_rev, \<lparr>db_tables = ts, db_rows = \<lambda>_. []\<rparr>) =
     rbind (mfold alter (concat (map rv_upgrade vs)) ts)
       (\<lambda>ts. Inr (if vs = [] then at_rev else Some (rv_revision (last vs)), \<lparr>db_tables = ts, db_rows = \<lambda>_. []\<rparr>))"
proof (induction vs arbitrary: at_rev ts)
  case (Cons v vs)
  then show ?case by (cases "mfold alter (rv_upgrade v) ts") (simp_all add: script_without_rows mfold_append)
qed simp

lemma tables_built:
  "case mfold alter (concat (map rv_upgrade chain_of_revisions)) [] of Inl _ \<Rightarrow> False | Inr ts \<Rightarrow> same_tables ts metadata"
  by code_simp

text \<open>
  C32. Migrating an empty database succeeds, leaves it at the last revision with no rows, and its tables are the ones
  \<^verbatim>\<open>schema.py\<close> declares: the same columns with their types, nullability and server defaults, the same keys, foreign keys, checks and indexes. Migrating
  again changes nothing.
\<close>

theorem migrations_build_the_schema:
  "\<exists>db. migrate (None, empty_database) = Inr (Some ''d4a7c2e9f150'', db) \<and> same_tables (db_tables db) metadata \<and>
     db_rows db = (\<lambda>_. []) \<and> migrate (Some ''d4a7c2e9f150'', db) = Inr (Some ''d4a7c2e9f150'', db)"
proof -
  obtain ts where ts: "mfold alter (concat (map rv_upgrade chain_of_revisions)) [] = Inr ts" "same_tables ts metadata"
    using tables_built by (cases "mfold alter (concat (map rv_upgrade chain_of_revisions)) []") auto
  have "migrate (None, empty_database) = Inr (Some ''d4a7c2e9f150'', \<lparr>db_tables = ts, db_rows = \<lambda>_. []\<rparr>)"
    unfolding migrate_def empty_database_def prod.case upgrade_path_all(1) migrate_without_rows ts(1)
    by (simp add: cancel_requested_is_its_own_column_def)
  then show ?thesis using ts(2) by (simp add: migrate_def upgrade_path_all(3))
qed

section \<open>Downgrades\<close>

definition without_defaults :: "table list \<Rightarrow> table list" where
  "without_defaults = map (\<lambda>t. t\<lparr>tb_columns := map (\<lambda>c. c\<lparr>cl_server_default := None\<rparr>) (tb_columns t)\<rparr>)"

fun undone :: "revision list \<Rightarrow> table list \<Rightarrow> bool" where
  "undone [] ts = True"
| "undone (v # vs) ts =
     (case mfold alter (rv_upgrade v) ts of
        Inl _ \<Rightarrow> False
      | Inr us \<Rightarrow>
          (case mfold alter (rv_downgrade v) us of
             Inl _ \<Rightarrow> False
           | Inr ts' \<Rightarrow> same_tables (without_defaults ts') (without_defaults ts)) \<and> undone vs us)"

text \<open>
  Every revision's downgrade undoes what its upgrade did to the tables, up to the server defaults two downgrades leave on the
  columns they put back.
\<close>

lemma downgrades_undo_upgrades: "undone (upgrade_path (length versions) None) []"
  unfolding upgrade_path_all(1) by code_simp

section \<open>What an upgrade does to the rows\<close>

text \<open>The tables after so many of the revisions.\<close>

definition tables_along :: "revision list \<Rightarrow> table list" where
  "tables_along vs = (case mfold alter (concat (map rv_upgrade vs)) [] of Inl _ \<Rightarrow> [] | Inr ts \<Rightarrow> ts)"

definition tables_after :: "nat \<Rightarrow> table list" where
  "tables_after n = tables_along (take n chain_of_revisions)"

lemma tables_along_next:
  assumes "\<not> isl (mfold alter (concat (map rv_upgrade (vs @ v # ws))) [])"
  shows "mfold alter (rv_upgrade v) (tables_along vs) = Inr (tables_along (vs @ [v]))"
proof -
  obtain ts where ts: "mfold alter (concat (map rv_upgrade vs)) [] = Inr ts" using assms
    by (cases "mfold alter (concat (map rv_upgrade vs)) []") (auto simp: mfold_append)
  then obtain us where "mfold alter (rv_upgrade v) ts = Inr us" using assms
    by (cases "mfold alter (rv_upgrade v) ts") (auto simp: mfold_append)
  then show ?thesis using ts by (simp add: tables_along_def mfold_append)
qed

lemma tables_after_Suc:
  assumes "n < length chain_of_revisions" "chain_of_revisions ! n = v"
  shows "mfold alter (rv_upgrade v) (tables_after n) = Inr (tables_after (Suc n))"
proof -
  have "take n chain_of_revisions @ v # drop (Suc n) chain_of_revisions = chain_of_revisions"
    unfolding assms(2) [symmetric] by (rule id_take_nth_drop [OF assms(1), symmetric])
  moreover have "\<not> isl (mfold alter (concat (map rv_upgrade chain_of_revisions)) [])" using tables_built by (auto split: sum.splits)
  ultimately have ok: "\<not> isl (mfold alter (concat (map rv_upgrade (take n chain_of_revisions @ v # drop (Suc n) chain_of_revisions))) [])" by presburger
  have "take (Suc n) chain_of_revisions = take n chain_of_revisions @ [v]"
    unfolding assms(2) [symmetric] by (rule take_Suc_conv_app_nth [OF assms(1)])
  then show ?thesis unfolding tables_after_def using tables_along_next [OF ok] by presburger
qed

lemma status_check_copies_the_table:
  "map_option (same_table (frozen_runs STATUSES_BEFORE)) (table_at (tables_after 2) ''runs'') = Some True \<and>
   map_option (same_table (frozen_runs STATUSES_AFTER)) (table_at (tables_after 3) ''runs'') = Some True"
  by code_simp

text \<open>The operations whose effect on rows does not look at the tables.\<close>

fun plain :: "op \<Rightarrow> bool" where
  "plain (DeleteWhere n w) = False"
| "plain (UpdateWhere n c v w) = False"
| "plain _ = True"

lemma plain_script:
  assumes "list_all plain ops" "mfold alter ops ts = Inr ts'"
  shows "run_script ops \<lparr>db_tables = ts, db_rows = R\<rparr> = rbind (mfold (\<lambda>p. move p []) ops R) (\<lambda>R. Inr \<lparr>db_tables = ts', db_rows = R\<rparr>)"
  using assms unfolding run_script_def
proof (induction ops arbitrary: ts R)
  case (Cons p ops)
  from Cons.prems obtain ts1 where ts1: "alter p ts = Inr ts1" "mfold alter ops ts1 = Inr ts'" by (auto simp: rbind_Inr_iff)
  have "move p ts1 R = move p [] R" using Cons.prems(1) by (cases p) simp_all
  then show ?case using Cons.IH [OF _ ts1(2)] Cons.prems(1) ts1(1) by (cases "move p [] R") (simp_all add: apply_op_def)
qed simp

text \<open>An operation on a table without rows leaves the rows as they are.\<close>

fun target :: "op \<Rightarrow> string" where
  "target (CreateTable t) = tb_name t"
| "target (DropTable n) = n"
| "target (CreateIndex i n cs) = n"
| "target (DropIndex i n) = n"
| "target (AddColumn n c) = n"
| "target (DropColumn n c) = n"
| "target (AddConstraint n k) = n"
| "target (DropConstraint n k) = n"
| "target (DeleteWhere n w) = n"
| "target (UpdateWhere n c v w) = n"

lemma move_rowless:
  assumes "R (target p) = []" "\<And>n w. p = DeleteWhere n w \<Longrightarrow> \<not> still_refers ts R n"
  shows "move p ts R = Inr R"
  using assms
  by (cases p) (auto simp: Let_def fun_upd_idem)

text \<open>Nothing refers to a table whose referring tables have no rows.\<close>

definition referrers :: "table list \<Rightarrow> string \<Rightarrow> string list" where
  "referrers ts n = map tb_name (filter (\<lambda>t. list_ex (refers_to n) (tb_constraints t)) ts)"

lemma not_referred:
  assumes "list_all (\<lambda>t. R t = []) (referrers ts n)"
  shows "\<not> still_refers ts R n"
proof
  assume "still_refers ts R n"
  then obtain t k where t: "t \<in> set ts" "k \<in> set (tb_constraints t)" "refers_to n k" "R (tb_name t) \<noteq> []"
    unfolding still_refers_def list_ex_iff by (fastforce simp: refers_to_def split: tconstraint.splits)
  then have "tb_name t \<in> set (referrers ts n)" by (auto simp: referrers_def list_ex_iff)
  then show False using assms t(4) by (auto simp: list_all_iff)
qed

definition rowless_at :: "string list \<Rightarrow> op \<Rightarrow> table list \<Rightarrow> bool" where
  "rowless_at ns p ts \<longleftrightarrow> target p \<in> set ns \<and> (case p of DeleteWhere n w \<Rightarrow> set (referrers ts n) \<subseteq> set ns | _ \<Rightarrow> True)"

fun rowless :: "string list \<Rightarrow> op list \<Rightarrow> table list \<Rightarrow> bool" where
  "rowless ns [] ts = True"
| "rowless ns (p # ops) ts = (case alter p ts of Inl _ \<Rightarrow> False | Inr us \<Rightarrow> rowless_at ns p us \<and> rowless ns ops us)"

lemma rowless_script:
  assumes "rowless ns ops ts" "\<forall>n \<in> set ns. R n = []" "mfold alter ops ts = Inr ts'"
  shows "run_script ops \<lparr>db_tables = ts, db_rows = R\<rparr> = Inr \<lparr>db_tables = ts', db_rows = R\<rparr>"
  using assms unfolding run_script_def
proof (induction ops arbitrary: ts)
  case (Cons p ops)
  from Cons.prems obtain ts1 where ts1: "alter p ts = Inr ts1" "mfold alter ops ts1 = Inr ts'" "rowless_at ns p ts1" "rowless ns ops ts1"
    by (auto simp: rbind_Inr_iff)
  have "\<not> still_refers ts1 R n" if "p = DeleteWhere n w" for n w
    using ts1(3) that Cons.prems(2) by (intro not_referred) (auto simp: rowless_at_def list_all_iff)
  then have "move p ts1 R = Inr R" using ts1(3) Cons.prems(2) by (intro move_rowless) (auto simp: rowless_at_def)
  then show ?case using Cons.IH [OF ts1(4) Cons.prems(2) ts1(2)] ts1(1) by (simp add: apply_op_def)
qed simp

lemma run_script_append: "run_script (a @ b) db = rbind (run_script a db) (run_script b)"
  by (simp add: run_script_def [abs_def] mfold_append)

abbreviation run_tables :: "string list" where
  "run_tables \<equiv> [''runs'', ''thread_messages'', ''run_events'']"

lemma runs_emptied:
  "mfold alter (take 3 (rv_upgrade runs_is_the_run)) (tables_after 4) = Inr (tables_after 4)"
  "referrers (tables_after 4) ''run_events'' = [] \<and> referrers (tables_after 4) ''thread_messages'' = [] \<and>
     set (referrers (tables_after 4) ''runs'') \<subseteq> {''run_events'', ''thread_messages''}"
  "rowless run_tables (drop 3 (rv_upgrade runs_is_the_run)) (tables_after 4)"
  by code_simp+

lemma later_revisions_rowless:
  "rowless run_tables (rv_upgrade message_ids_unique_per_run) (tables_after 5)"
  "rowless run_tables (rv_upgrade thread_messages_are_run_inputs) (tables_after 6)"
  "rowless run_tables (rv_upgrade cancel_requested_is_its_own_column) (tables_after 7)"
  by code_simp+

lemma runs_is_the_run_rows:
  "run_script (rv_upgrade runs_is_the_run) \<lparr>db_tables = tables_after 4, db_rows = R\<rparr> =
     Inr \<lparr>db_tables = tables_after 5, db_rows = R(''run_events'' := [], ''thread_messages'' := [], ''runs'' := [])\<rparr>"
proof -
  let ?ts = "tables_after 4" and ?ops = "rv_upgrade runs_is_the_run"
  let ?R1 = "R(''run_events'' := [])" and ?R2 = "R(''run_events'' := [], ''thread_messages'' := [])"
    and ?R3 = "R(''run_events'' := [], ''thread_messages'' := [], ''runs'' := [])"
  have dels: "take 3 ?ops = [DeleteWhere ''run_events'' Always, DeleteWhere ''thread_messages'' Always, DeleteWhere ''runs'' Always]"
    by (simp add: runs_is_the_run_def)
  have "\<not> still_refers ?ts ?R1 ''run_events''" "\<not> still_refers ?ts ?R2 ''thread_messages''" "\<not> still_refers ?ts ?R3 ''runs''"
    using runs_emptied(2) by (auto intro!: not_referred simp: list_all_iff)
  moreover have "with_table ''run_events'' Inr ?ts = Inr ?ts" "with_table ''thread_messages'' Inr ?ts = Inr ?ts"
    "with_table ''runs'' Inr ?ts = Inr ?ts"
    by code_simp+
  ultimately have "run_script (take 3 ?ops) \<lparr>db_tables = ?ts, db_rows = R\<rparr> = Inr \<lparr>db_tables = ?ts, db_rows = ?R3\<rparr>"
    unfolding dels by (simp add: run_script_def apply_op_def Let_def)
  moreover have "mfold alter (drop 3 ?ops) ?ts = Inr (tables_after 5)"
    using tables_after_Suc [of 4 runs_is_the_run] runs_emptied(1) mfold_append [of alter "take 3 ?ops" "drop 3 ?ops" ?ts] by simp
  then have "run_script (drop 3 ?ops) \<lparr>db_tables = ?ts, db_rows = ?R3\<rparr> = Inr \<lparr>db_tables = tables_after 5, db_rows = ?R3\<rparr>"
    by (intro rowless_script [OF runs_emptied(3)]) auto
  ultimately show ?thesis using run_script_append [of "take 3 ?ops" "drop 3 ?ops"] by simp
qed

text \<open>
  C33. Upgrading a database from the first revision to the last succeeds whatever rows it holds, as long as they keep the
  first revision's status check; the tables are then \<^verbatim>\<open>schema.py\<close>'s, providers, agents and model offerings are untouched, every thread
  is kept and unbound, and runs, their events and messages are gone.
\<close>

theorem upgrade_keeps_registry_and_threads:
  assumes "\<forall>x \<in> set (R ''runs''). in_check ''status'' STATUSES_BEFORE x"
  shows "\<exists>db. migrate (Some ''ff342e6c6b85'', \<lparr>db_tables = tables_after 1, db_rows = R\<rparr>) = Inr (Some ''d4a7c2e9f150'', db) \<and>
    same_tables (db_tables db) metadata \<and>
    db_rows db = R(''threads'' := map (\<lambda>x. x @ [(''head_key'', Null)]) (R ''threads''),
      ''run_events'' := [], ''thread_messages'' := [], ''runs'' := [])"
proof -
  let ?x = "\<lambda>x. x @ [(''head_key'', Null)]" and ?db = "\<lambda>n R. \<lparr>db_tables = tables_after n, db_rows = R\<rparr>"
  define R2 where "R2 = R(''threads'' := map ?x (R ''threads''), ''runs'' := map ?x (R ''runs''))"
  define R4 where "R4 = R2(''runs'' := map (\<lambda>x. x @ [(''actor_chain'', Null)]) (R2 ''runs''))"
  define R5 where "R5 = R4(''run_events'' := [], ''thread_messages'' := [], ''runs'' := [])"
  have 2: "run_script (rv_upgrade head_keys) (?db 1 R) = Inr (?db 2 R2)"
    using plain_script [OF _ tables_after_Suc [of 1 head_keys], of R] by (simp add: head_keys_def ncol_def R2_def numeral_2_eq_2)
  have "cell_at (?x x) ''status'' = cell_at x ''status''" for x by (simp add: cell_at_def map_add_def split: option.splits)
  then have "list_all (in_check ''status'' STATUSES_AFTER) (R2 ''runs'')"
    using assms by (auto simp: R2_def list_all_iff in_check_def STATUSES_BEFORE_def STATUSES_AFTER_def)
  then have 3: "run_script (rv_upgrade offering_status) (?db 2 R2) = Inr (?db 3 R2)"
    using plain_script [OF _ tables_after_Suc [of 2 offering_status], of R2]
    by (simp add: offering_status_def replace_status_check_def checked_def constraint_error_def)
  have 4: "run_script (rv_upgrade runs_actor_chain) (?db 3 R2) = Inr (?db 4 R4)"
    using plain_script [OF _ tables_after_Suc [of 3 runs_actor_chain], of R2] by (simp add: runs_actor_chain_def ncol_def R4_def)
  have 5: "run_script (rv_upgrade runs_is_the_run) (?db 4 R4) = Inr (?db 5 R5)" unfolding R5_def by (rule runs_is_the_run_rows)
  have none: "\<forall>n \<in> set run_tables. R5 n = []" by (simp add: R5_def)
  have rest: "run_script (rv_upgrade message_ids_unique_per_run) (?db 5 R5) = Inr (?db 6 R5)"
    "run_script (rv_upgrade thread_messages_are_run_inputs) (?db 6 R5) = Inr (?db 7 R5)"
    "run_script (rv_upgrade cancel_requested_is_its_own_column) (?db 7 R5) = Inr (?db 8 R5)"
    using rowless_script [OF later_revisions_rowless(1) none tables_after_Suc [of 5 message_ids_unique_per_run]]
      rowless_script [OF later_revisions_rowless(2) none tables_after_Suc [of 6 thread_messages_are_run_inputs]]
      rowless_script [OF later_revisions_rowless(3) none tables_after_Suc [of 7 cancel_requested_is_its_own_column]] by simp_all
  have "migrate (Some ''ff342e6c6b85'', ?db 1 R) = Inr (Some (rv_revision cancel_requested_is_its_own_column), ?db 8 R5)"
    unfolding migrate_def prod.case upgrade_path_all(2) by (simp add: 2 [unfolded One_nat_def] 3 4 5 rest)
  moreover have "same_tables (tables_after 8) metadata"
    using tables_built unfolding tables_after_def tables_along_def by (auto split: sum.splits)
  moreover have "R5 = R(''threads'' := map ?x (R ''threads''), ''run_events'' := [], ''thread_messages'' := [], ''runs'' := [])"
    by (auto simp: R5_def R4_def R2_def fun_eq_iff)
  moreover have "rv_revision cancel_requested_is_its_own_column = ''d4a7c2e9f150''" by (simp add: cancel_requested_is_its_own_column_def)
  ultimately show ?thesis by auto
qed

definition demo_old_rows :: rows where
  "demo_old_rows = (\<lambda>_. [])(''threads'' := [[(''thread_id'', Text ''t1'')]], ''runs'' := [[(''run_id'', Text ''r1''), (''status'', Text ''input-required'')]])"

theorem upgrade_keeps_registry_and_threads_witness:
  "\<exists>db. migrate (Some ''ff342e6c6b85'', \<lparr>db_tables = tables_after 1, db_rows = demo_old_rows\<rparr>) = Inr (Some ''d4a7c2e9f150'', db) \<and>
     db_rows db ''threads'' = [[(''thread_id'', Text ''t1''), (''head_key'', Null)]] \<and> db_rows db ''runs'' = []"
proof -
  have "\<forall>x \<in> set (demo_old_rows ''runs''). in_check ''status'' STATUSES_BEFORE x" by code_simp
  from upgrade_keeps_registry_and_threads [where R = demo_old_rows, OF this] show ?thesis by (auto simp: demo_old_rows_def)
qed

section \<open>Who asked a run to stop\<close>

text \<open>
  The last revision splits one column in two. What its upgrade makes of a row, and what its downgrade makes of one.
\<close>

definition split_cancel :: "row \<Rightarrow> row" where
  "split_cancel x =
     assign ''cancel_requested_by'' Null (Equals ''cancel_requested_by'' (Text []))
       (assign ''cancel_requested'' (Truth_value True) (IsNotNull ''cancel_requested_by'') (x @ [(''cancel_requested'', Truth_value False)]))"

definition merge_cancel :: "row \<Rightarrow> row" where
  "merge_cancel x =
     dpop ''cancel_requested'' (assign ''cancel_requested_by'' (Text []) (And (IsTrue ''cancel_requested'') (IsNull ''cancel_requested_by'')) x)"

lemma cancel_tables:
  "list_all (\<lambda>p. alter p (tables_after 8) = Inr (tables_after 8)) (tl (rv_upgrade cancel_requested_is_its_own_column)) \<and>
   alter (hd (rv_upgrade cancel_requested_is_its_own_column)) (tables_after 7) = Inr (tables_after 8)"
  "filter (\<lambda>k. ''cancel_requested'' \<in> set (constraint_columns k) \<or> ''cancel_requested_by'' \<in> set (constraint_columns k))
     (table_constraints (tables_after 8) ''runs'') = [] \<and> nullable_at (tables_after 8) ''runs'' ''cancel_requested_by''"
  "map (\<lambda>p. alter p (tables_after 8)) (rv_downgrade cancel_requested_is_its_own_column) = [Inr (tables_after 8), Inr (tables_after 7)]"
  by code_simp+

lemma split_rows:
  "run_script (rv_upgrade cancel_requested_is_its_own_column) \<lparr>db_tables = tables_after 7, db_rows = R\<rparr> =
     Inr \<lparr>db_tables = tables_after 8, db_rows = R(''runs'' := map split_cancel (R ''runs''))\<rparr>"
proof -
  let ?up = "rv_upgrade cancel_requested_is_its_own_column" and ?ts = "tables_after 8"
  have up: "?up = [AddColumn ''runs'' (dcol ''cancel_requested'' BooleanT (Truth_value False)),
       UpdateWhere ''runs'' ''cancel_requested'' (Truth_value True) (IsNotNull ''cancel_requested_by''),
       UpdateWhere ''runs'' ''cancel_requested_by'' Null (Equals ''cancel_requested_by'' (Text []))]"
    by (simp add: cancel_requested_is_its_own_column_def)
  have free: "filter (\<lambda>k. ''cancel_requested'' \<in> set (constraint_columns k)) (table_constraints ?ts ''runs'') = []"
    "filter (\<lambda>k. ''cancel_requested_by'' \<in> set (constraint_columns k)) (table_constraints ?ts ''runs'') = []"
    "nullable_at ?ts ''runs'' ''cancel_requested_by''"
    using cancel_tables(2) by (auto simp: filter_empty_conv)
  show ?thesis
    using cancel_tables(1) unfolding run_script_def up
    by (simp add: apply_op_def free Let_def dcol_def split_cancel_def [abs_def] comp_def del: alter.simps)
qed

lemma merge_rows:
  "run_script (rv_downgrade cancel_requested_is_its_own_column) \<lparr>db_tables = tables_after 8, db_rows = R\<rparr> =
     Inr \<lparr>db_tables = tables_after 7, db_rows = R(''runs'' := map merge_cancel (R ''runs''))\<rparr>"
proof -
  let ?down = "rv_downgrade cancel_requested_is_its_own_column" and ?ts = "tables_after 8"
  have down: "?down = [UpdateWhere ''runs'' ''cancel_requested_by'' (Text []) (And (IsTrue ''cancel_requested'') (IsNull ''cancel_requested_by'')),
       DropColumn ''runs'' ''cancel_requested'']"
    by (simp add: cancel_requested_is_its_own_column_def)
  have "filter (\<lambda>k. ''cancel_requested_by'' \<in> set (constraint_columns k)) (table_constraints ?ts ''runs'') = []"
    using cancel_tables(2) by (auto simp: filter_empty_conv)
  then show ?thesis
    using cancel_tables(3) unfolding run_script_def down
    by (simp add: apply_op_def Let_def merge_cancel_def [abs_def] comp_def del: alter.simps)
qed

lemma dput_in_place: "k \<in> set (dkeys x) \<Longrightarrow> dput k v (x @ y) = dput k v x @ y"
  by (induction x) auto

lemma dpop_last: "k \<notin> set (dkeys x) \<Longrightarrow> dpop k (x @ [(k, v)]) = x"
  by (induction x) auto

lemma split_cancel_cases:
  assumes "''cancel_requested'' \<notin> set (dkeys x)" "''cancel_requested_by'' \<in> set (dkeys x)"
  shows "split_cancel x =
    (if cell_at x ''cancel_requested_by'' = Null then x @ [(''cancel_requested'', Truth_value False)]
     else if cell_at x ''cancel_requested_by'' = Text [] then dput ''cancel_requested_by'' Null x @ [(''cancel_requested'', Truth_value True)]
     else x @ [(''cancel_requested'', Truth_value True)])"
proof -
  have put: "dput ''cancel_requested'' v (x @ [(''cancel_requested'', u)]) = x @ [(''cancel_requested'', v)]" for u v
    using assms(1) by (induction x) auto
  have same: "cell_at (x @ [(''cancel_requested'', u)]) ''cancel_requested_by'' = cell_at x ''cancel_requested_by''" for u
    by (simp add: cell_at_def map_add_def split: option.splits)
  show ?thesis using same put by (auto simp: split_cancel_def assign_def dput_in_place [OF assms(2)])
qed

lemma merge_split:
  assumes "''cancel_requested'' \<notin> set (dkeys x)" "''cancel_requested_by'' \<in> set (dkeys x)"
  shows "merge_cancel (split_cancel x) = x"
proof -
  have asked: "cell_at (y @ [(''cancel_requested'', v)]) ''cancel_requested'' = v" if "''cancel_requested'' \<notin> set (dkeys y)" for y v
    using that by (simp add: cell_at_def map_add_def dget_None_keys [THEN iffD2] split: option.splits)
  have who: "cell_at (y @ [(''cancel_requested'', v)]) ''cancel_requested_by'' = cell_at y ''cancel_requested_by''" for y v
    by (simp add: cell_at_def map_add_def split: option.splits)
  consider (nobody) "cell_at x ''cancel_requested_by'' = Null" | (unbound) "cell_at x ''cancel_requested_by'' = Text []"
    | (someone) "cell_at x ''cancel_requested_by'' \<noteq> Null" "cell_at x ''cancel_requested_by'' \<noteq> Text []" by blast
  then show ?thesis
  proof cases
    case unbound
    let ?y = "dput ''cancel_requested_by'' Null x"
    have keys: "''cancel_requested'' \<notin> set (dkeys ?y)" "''cancel_requested_by'' \<in> set (dkeys ?y)"
      using assms unfolding set_keys_dput by auto
    have "dget x ''cancel_requested_by'' = Some (Text [])" using unbound by (auto simp: cell_at_def split: option.splits)
    then have "dput ''cancel_requested_by'' (Text []) ?y = x" by (simp add: update_triv)
    then show ?thesis
      using unbound asked [OF keys(1)] who [of ?y] dpop_last [OF assms(1)]
      by (simp add: split_cancel_cases [OF assms] merge_cancel_def assign_def dput_in_place [OF keys(2)] cell_at_def)
  qed (use asked [OF assms(1)] who dpop_last [OF assms(1)] in \<open>auto simp: split_cancel_cases [OF assms] merge_cancel_def assign_def\<close>)
qed

text \<open>The row after the split, by what its cells say.\<close>

definition cancel_split_of :: "row \<Rightarrow> row \<Rightarrow> bool" where
  "cancel_split_of x y \<longleftrightarrow>
     cell_at y ''cancel_requested'' = Truth_value (cell_at x ''cancel_requested_by'' \<noteq> Null) \<and>
     cell_at y ''cancel_requested_by'' = (if cell_at x ''cancel_requested_by'' = Text [] then Null else cell_at x ''cancel_requested_by'') \<and>
     (\<forall>c. c \<noteq> ''cancel_requested'' \<longrightarrow> c \<noteq> ''cancel_requested_by'' \<longrightarrow> cell_at y c = cell_at x c)"

text \<open>
  C34. The last upgrade keeps what a run's row says and can be undone. It succeeds on every table of runs whose rows have the column it splits; a run
  then says it was asked to stop exactly if it said by whom (be it nobody in particular, the empty name), names the same
  asker, with no name for the empty one, and every other column is as it was; and the downgrade gives back the very rows.
\<close>

theorem cancel_column_round_trip:
  assumes "\<forall>x \<in> set (R ''runs''). ''cancel_requested'' \<notin> set (dkeys x) \<and> ''cancel_requested_by'' \<in> set (dkeys x)"
  shows "\<exists>R'. run_script (rv_upgrade cancel_requested_is_its_own_column) \<lparr>db_tables = tables_after 7, db_rows = R\<rparr> =
      Inr \<lparr>db_tables = tables_after 8, db_rows = R'\<rparr> \<and>
    run_script (rv_downgrade cancel_requested_is_its_own_column) \<lparr>db_tables = tables_after 8, db_rows = R'\<rparr> =
      Inr \<lparr>db_tables = tables_after 7, db_rows = R\<rparr> \<and>
    list_all2 cancel_split_of (R ''runs'') (R' ''runs'')"
proof -
  let ?R' = "R(''runs'' := map split_cancel (R ''runs''))"
  have "map merge_cancel (map split_cancel (R ''runs'')) = R ''runs''"
    using assms by (simp add: merge_split comp_def map_idI)
  then have "run_script (rv_downgrade cancel_requested_is_its_own_column) \<lparr>db_tables = tables_after 8, db_rows = ?R'\<rparr> =
      Inr \<lparr>db_tables = tables_after 7, db_rows = R\<rparr>"
    unfolding merge_rows by simp
  moreover have "cancel_split_of x (split_cancel x)"
    if "x \<in> set (R ''runs'')" for x
  proof -
    have k: "''cancel_requested'' \<notin> set (dkeys x)" "''cancel_requested_by'' \<in> set (dkeys x)" using assms that by auto
    then have "dget x ''cancel_requested'' = None" by (simp add: dget_None_keys)
    then show ?thesis unfolding cancel_split_of_def split_cancel_cases [OF k] by (auto simp: cell_at_def map_add_def split: option.splits)
  qed
  ultimately show ?thesis using split_rows by (intro exI [of _ ?R']) (simp add: list_all2_map2 list.rel_refl_strong list_all2_conv_all_nth)
qed

definition demo_asked :: rows where
  "demo_asked = (\<lambda>_. [])(''runs'' := [[(''run_id'', Text ''r1''), (''cancel_requested_by'', Text [])], [(''run_id'', Text ''r2''), (''cancel_requested_by'', Null)]])"

theorem cancel_column_round_trip_witness:
  "\<exists>R'. run_script (rv_downgrade cancel_requested_is_its_own_column) \<lparr>db_tables = tables_after 8, db_rows = R'\<rparr> =
      Inr \<lparr>db_tables = tables_after 7, db_rows = demo_asked\<rparr> \<and> map (\<lambda>y. cell_at y ''cancel_requested'') (R' ''runs'') = [Truth_value True, Truth_value False]"
proof -
  have "\<forall>x \<in> set (demo_asked ''runs''). ''cancel_requested'' \<notin> set (dkeys x) \<and> ''cancel_requested_by'' \<in> set (dkeys x)" by code_simp
  from cancel_column_round_trip [where R = demo_asked, OF this] obtain R' where
    down: "run_script (rv_downgrade cancel_requested_is_its_own_column) \<lparr>db_tables = tables_after 8, db_rows = R'\<rparr> =
      Inr \<lparr>db_tables = tables_after 7, db_rows = demo_asked\<rparr>"
    and rows: "list_all2 cancel_split_of (demo_asked ''runs'') (R' ''runs'')"
    by blast
  have "map (\<lambda>y. cell_at y ''cancel_requested'') (R' ''runs'') =
      map (\<lambda>x. Truth_value (cell_at x ''cancel_requested_by'' \<noteq> Null)) (demo_asked ''runs'')"
    using rows by (induction rule: list_all2_induct) (simp_all add: cancel_split_of_def)
  also have "\<dots> = [Truth_value True, Truth_value False]" by code_simp
  finally show ?thesis using down by (intro exI [of _ R'] conjI)
qed

section \<open>A downgrade that fails\<close>

text \<open>
  The revision that made message ids unique within a run, rather than within a thread, cannot be undone once two runs of a thread carry the same
  message, which is what the revision was made for: the older constraint refuses the rows.
\<close>

definition demo_resent :: rows where
  "demo_resent = (\<lambda>_. [])(''thread_messages'' :=
     [[(''thread_id'', Text ''t1''), (''run_id'', Text ''r1''), (''message_id'', Text ''m1'')],
      [(''thread_id'', Text ''t1''), (''run_id'', Text ''r2''), (''message_id'', Text ''m1'')]])"

lemma message_ids_downgrade_refused:
  "run_script (rv_upgrade message_ids_unique_per_run) \<lparr>db_tables = tables_after 5, db_rows = demo_resent\<rparr> =
     Inr \<lparr>db_tables = tables_after 6, db_rows = demo_resent\<rparr> \<and>
   run_script (rv_downgrade message_ids_unique_per_run) \<lparr>db_tables = tables_after 6, db_rows = demo_resent\<rparr> = Inl (UniqueViolated ''thread_id'')"
proof -
  have "list_all plain (rv_upgrade message_ids_unique_per_run)" "list_all plain (rv_downgrade message_ids_unique_per_run)" by code_simp+
  moreover have "\<not> isl (mfold alter (rv_downgrade message_ids_unique_per_run) (tables_after 6))" by code_simp
  then obtain ts where "mfold alter (rv_downgrade message_ids_unique_per_run) (tables_after 6) = Inr ts"
    by (cases "mfold alter (rv_downgrade message_ids_unique_per_run) (tables_after 6)") auto
  moreover have "unique_rows [''run_id'', ''message_id''] (demo_resent ''thread_messages'')"
    "\<not> unique_rows [''thread_id'', ''message_id''] (demo_resent ''thread_messages'')" by code_simp+
  ultimately show ?thesis
    using plain_script [OF _ tables_after_Suc [of 5 message_ids_unique_per_run], of demo_resent]
      plain_script [of "rv_downgrade message_ids_unique_per_run" "tables_after 6" ts demo_resent]
    by (simp add: message_ids_unique_per_run_def checked_def constraint_error_def)
qed

end
