(* ===== verification/Kyok_Adapter.thy ===== *)
theory Kyok_Adapter
  imports Kyok Identity Handlers
begin

text \<open>
  The completion door (\<^verbatim>\<open>funduq/protocols/kyok.py\<close>): a provider's call on behalf of a run is
  authenticated, forwarded to the LLM link the run is bound to, counted, and handed back as a
  stream or collapsed into one completion. OpenAI's request validation, \<^verbatim>\<open>json.loads\<close>, SHA-256 and
  what the LLM link yields are parameters.

  The lemmas show what an accepted call has proved, that the collapsed completion says for every
  choice exactly what its chunks said, and that a drained completion is counted once.
\<close>

section \<open>Chunks and completions\<close>

record chunk_choice =
  cc_index :: int
  cc_content :: "string option"
  cc_finish_reason :: "string option"

record chat_chunk =
  ck_id :: string
  ck_created :: int
  ck_model :: string
  ck_choices :: "chunk_choice list"

record choice =
  ch_index :: int
  ch_content :: string
  ch_finish_reason :: string

record chat_completion =
  co_id :: string
  co_created :: int
  co_model :: string
  co_choices :: "choice list"

definition or_empty :: "string option \<Rightarrow> string" where
  "or_empty x = (case x of None \<Rightarrow> [] | Some y \<Rightarrow> y)"

text \<open>The body of the loop: content per index, and the last non-empty finish reason per index.\<close>

type_synonym collapse_state = "(int, string) dict \<times> (int, string) dict"

definition collapse_choice :: "chunk_choice \<Rightarrow> collapse_state \<Rightarrow> collapse_state" where
  "collapse_choice c = (\<lambda>(content_by_index, finish_reason_by_index).
     (dput (cc_index c) (or_empty (dget content_by_index (cc_index c)) @ or_empty (cc_content c)) content_by_index,
      if or_empty (cc_finish_reason c) \<noteq> []
      then dput (cc_index c) (or_empty (cc_finish_reason c)) finish_reason_by_index else finish_reason_by_index))"

definition collapse_chunk :: "chat_chunk \<Rightarrow> collapse_state \<Rightarrow> collapse_state" where
  "collapse_chunk chunk st = fold collapse_choice (ck_choices chunk) st"

definition collapse_stream :: "chat_chunk list \<Rightarrow> chat_completion" where
  "collapse_stream chunks =
     (case chunks of
        [] \<Rightarrow> \<lparr>co_id = [], co_created = 0, co_model = [],
               co_choices = [\<lparr>ch_index = 0, ch_content = [], ch_finish_reason = ''stop''\<rparr>]\<rparr>
      | first # _ \<Rightarrow>
          (let (content_by_index, finish_reason_by_index) = fold collapse_chunk chunks ([], [])
           in \<lparr>co_id = ck_id first, co_created = ck_created first, co_model = ck_model first,
               co_choices = map (\<lambda>(index, content).
                 \<lparr>ch_index = index, ch_content = content,
                  ch_finish_reason = (case dget finish_reason_by_index index of None \<Rightarrow> ''stop'' | Some f \<Rightarrow> f)\<rparr>)
                 (sort_key fst content_by_index)\<rparr>))"

section \<open>A relayed completion\<close>

text \<open>How the link's stream ended: exhausted, or it raised, with the refusal its exception carries.\<close>

datatype stream_end = Exhausted | RaisedWith string "event option"

record completion_relay =
  cr_stream_requested :: bool
  cr_public_key :: key
  cr_chunks :: "chat_chunk list"
  cr_end :: stream_end

datatype kyok_error = KyokRejected string int "event option" | KyokRaises py_error

text \<open>\<^verbatim>\<open>_counted\<close>: what draining the chunks notes in the relay's counters.\<close>

definition outcome_of :: "stream_end \<Rightarrow> string" where
  "outcome_of e =
     (case e of Exhausted \<Rightarrow> ''completions''
      | RaisedWith _ refusal \<Rightarrow> if refusal \<noteq> None then ''refused'' else ''failed'')"

definition counted :: "completion_relay \<Rightarrow> kyok_relay \<Rightarrow> (py_error, kyok_relay) res" where
  "counted r k = note_outcome (cr_public_key r) (outcome_of (cr_end r)) k"

definition collapsed :: "completion_relay \<Rightarrow> (kyok_error, chat_completion) res" where
  "collapsed r =
     (case cr_end r of
        Exhausted \<Rightarrow> Inr (collapse_stream (cr_chunks r))
      | RaisedWith msg refusal \<Rightarrow> Inl (KyokRejected (''KYOK bridge failed to complete: '' @ msg) 502 refusal))"

datatype streamed = Chunk chat_chunk | CompletionFailure event bool

text \<open>\<open>error_object\<close> is the dump of OpenAI's \<^verbatim>\<open>ErrorObject\<close> with that message and the type \<^verbatim>\<open>funduq_relay_failed\<close>.\<close>

definition relay_stream :: "(string \<Rightarrow> event) \<Rightarrow> completion_relay \<Rightarrow> streamed list" where
  "relay_stream error_object r =
     map Chunk (cr_chunks r) @
     (case cr_end r of
        Exhausted \<Rightarrow> []
      | RaisedWith msg refusal \<Rightarrow>
          [CompletionFailure (case refusal of Some d \<Rightarrow> d | None \<Rightarrow> error_object msg) (refusal \<noteq> None)])"

section \<open>The door\<close>

record delivered_completion =
  dc_run_id :: run_id
  dc_provider_key :: key
  dc_agent_name :: string
  dc_body :: json
  dc_llm_name :: string
  dc_context :: json
  dc_actor_chain :: "string list option"

text \<open>\<^verbatim>\<open>json.loads\<close> on bytes: bytes that are not UTF-8 raise UnicodeDecodeError, which is no JSONDecodeError.\<close>

datatype loaded = Loaded json | NotJson | NotUnicode

record completion_env =
  ce_codec :: token_codec
  ce_ed25519 :: ed25519
  ce_sha256_hex :: "string \<Rightarrow> string"
  ce_loads :: "string \<Rightarrow> loaded"
  ce_valid_body :: "json \<Rightarrow> json option"
  ce_complete :: "llm_conn \<Rightarrow> delivered_completion \<Rightarrow> chat_chunk list \<times> stream_end"

definition reject :: "string \<Rightarrow> int \<Rightarrow> (kyok_error, 'a) res" where
  "reject msg status = Inl (KyokRejected msg status None)"

definition verify_kyok_caller ::
  "completion_env \<Rightarrow> rat \<Rightarrow> store \<Rightarrow> kyok_token \<Rightarrow> string \<Rightarrow> string \<Rightarrow> string \<Rightarrow> string \<Rightarrow> (kyok_error, unit) res" where
  "verify_kyok_caller E now s token bearer body timestamp signature =
     (if timestamp = [] \<or> signature = [] then reject ''missing KYOK call-time signature'' 401
      else case py_int_of_str timestamp of
        None \<Rightarrow> reject ''malformed KYOK signature timestamp'' 401
      | Some t \<Rightarrow>
          if \<not> is_timestamp_fresh now t then reject ''KYOK signature timestamp is stale'' 401
          else if get_agent s (kt_agent token) = None then reject ''agent is not registered'' 403
          else if \<not> verify_signature (ce_ed25519 E) (ar_provider_key (kt_agent token)) signature
                   (kyok_call_payload bearer t (ce_sha256_hex E body))
          then reject ''KYOK call-time signature verification failed'' 401
          else Inr ())"

definition complete ::
  "completion_env \<Rightarrow> rat \<Rightarrow> string \<Rightarrow> world broker \<Rightarrow> kyok_relay \<Rightarrow> string \<Rightarrow> string \<Rightarrow> string \<Rightarrow> string \<Rightarrow>
   (kyok_error, completion_relay) res" where
  "complete E now signing_secret b k bearer body timestamp signature =
     (case verify_kyok_token (ce_codec E) now bearer signing_secret of
        Inl e \<Rightarrow> Inl (KyokRaises e)
      | Inr None \<Rightarrow> reject ''invalid or expired KYOK token'' 401
      | Inr (Some token) \<Rightarrow>
          (case broker_get (kt_run_id token) b of
             None \<Rightarrow> reject ''run is not currently active for this token'' 403
           | Some run \<Rightarrow>
               if rs_cancel_requested run \<or> rs_agent run \<noteq> kt_agent token
               then reject ''run is not currently active for this token'' 403
               else rbind (verify_kyok_caller E now (w_store (b_world b)) token bearer body timestamp signature) (\<lambda>_.
                 case ce_loads E body of
                   NotUnicode \<Rightarrow> Inl (KyokRaises ValueError)
                 | NotJson \<Rightarrow> reject ''KYOK completion body is not valid JSON'' 400
                 | Loaded payload \<Rightarrow>
                     (case binding_for (kt_run_id token) k of
                        None \<Rightarrow> reject ''run has no KYOK binding any more'' 503
                      | Some binding \<Rightarrow>
                          (case relay_serving (kb_llm_provider binding) k of
                             None \<Rightarrow> reject ''LLM provider is not attached'' 503
                           | Some link \<Rightarrow>
                               (case ce_valid_body E payload of
                                  None \<Rightarrow> reject ''KYOK completion body is not a chat-completion request'' 400
                                | Some valid \<Rightarrow>
                                    let (chunks, ended) = ce_complete E link
                                      \<lparr>dc_run_id = kt_run_id token, dc_provider_key = ar_provider_key (kt_agent token),
                                       dc_agent_name = ar_name (kt_agent token), dc_body = valid,
                                       dc_llm_name = lr_name (kb_llm_provider binding),
                                       dc_context = kb_context binding, dc_actor_chain = kb_actor_chain binding\<rparr>
                                    in Inr \<lparr>cr_stream_requested = truthy (jget ''stream'' payload),
                                            cr_public_key = lr_provider_key (kb_llm_provider binding),
                                            cr_chunks = chunks, cr_end = ended\<rparr>))))))"

section \<open>Collapsing says what the chunks said\<close>

definition said_at :: "int \<Rightarrow> chunk_choice list \<Rightarrow> string" where
  "said_at i cs = concat (map (or_empty \<circ> cc_content) (filter (\<lambda>c. cc_index c = i) cs))"

definition reasons_at :: "int \<Rightarrow> chunk_choice list \<Rightarrow> string list" where
  "reasons_at i cs = filter (\<lambda>f. f \<noteq> []) (map (or_empty \<circ> cc_finish_reason) (filter (\<lambda>c. cc_index c = i) cs))"

lemma collapse_choices:
  fixes cs
  defines "st \<equiv> fold collapse_choice cs ([], [])"
  shows "dget (fst st) i = (if i \<in> cc_index ` set cs then Some (said_at i cs) else None)"
    and "dget (snd st) i = (if reasons_at i cs = [] then None else Some (last (reasons_at i cs)))"
    and "distinct (dkeys (fst st))" "set (dkeys (fst st)) = cc_index ` set cs"
proof -
  have "(\<forall>i. dget (fst (fold collapse_choice cs ([], []))) i = (if i \<in> cc_index ` set cs then Some (said_at i cs) else None)) \<and>
    (\<forall>i. dget (snd (fold collapse_choice cs ([], []))) i = (if reasons_at i cs = [] then None else Some (last (reasons_at i cs)))) \<and>
    distinct (dkeys (fst (fold collapse_choice cs ([], []))))"
  proof (induction cs rule: rev_induct)
    case Nil
    show ?case by (simp add: reasons_at_def)
  next
    case (snoc c cs)
    obtain a b where ab: "fold collapse_choice cs ([], []) = (a, b)" by fastforce
    have said: "said_at i (cs @ [c]) = said_at i cs @ (if cc_index c = i then or_empty (cc_content c) else [])" for i
      by (simp add: said_at_def)
    have reasons: "reasons_at i (cs @ [c]) = reasons_at i cs @
        (if cc_index c = i \<and> or_empty (cc_finish_reason c) \<noteq> [] then [or_empty (cc_finish_reason c)] else [])" for i
      by (simp add: reasons_at_def)
    have "i \<notin> cc_index ` set cs \<Longrightarrow> said_at i cs = []" for i by (auto simp: said_at_def filter_empty_conv image_iff)
    then have "or_empty (dget a i) = said_at i cs" for i using snoc ab by (auto simp: or_empty_def)
    then have eq: "fold collapse_choice (cs @ [c]) ([], []) =
        (dput (cc_index c) (said_at (cc_index c) cs @ or_empty (cc_content c)) a,
         if or_empty (cc_finish_reason c) \<noteq> [] then dput (cc_index c) (or_empty (cc_finish_reason c)) b else b)"
      using ab by (simp add: collapse_choice_def)
    have a: "dget a i = (if i \<in> cc_index ` set cs then Some (said_at i cs) else None)"
      and b: "dget b i = (if reasons_at i cs = [] then None else Some (last (reasons_at i cs)))"
      and d: "distinct (dkeys a)" for i using snoc ab by simp_all
    show ?case unfolding eq using distinct_keys_dput [OF d] by (auto simp: a b said reasons)
  qed
  then show g: "dget (fst st) i = (if i \<in> cc_index ` set cs then Some (said_at i cs) else None)"
    and "dget (snd st) i = (if reasons_at i cs = [] then None else Some (last (reasons_at i cs)))"
    and "distinct (dkeys (fst st))" for i by (simp_all add: st_def)
  show "set (dkeys (fst st)) = cc_index ` set cs"
    using g dget_None_keys [of "fst st"] by (metis (no_types, lifting) option.distinct(1) subsetI subset_antisym)
qed

lemma sort_key_fst_dict:
  assumes "distinct (dkeys d)"
  shows "sort_key fst d = map (\<lambda>i. (i, the (dget d i))) (sorted_list_of_set (set (dkeys d)))"
proof -
  have "map fst (sort_key fst d) = sorted_list_of_set (set (dkeys d))"
    using assms by (intro sorted_distinct_set_unique) (simp_all add: distinct_map)
  moreover have "(fst p, the (dget d (fst p))) = p" if "p \<in> set d" for p
    using map_of_is_SomeI [OF assms, of "fst p" "snd p"] that by simp
  then have "map (\<lambda>i. (i, the (dget d i))) (map fst (sort_key fst d)) = sort_key fst d"
    by (auto simp: comp_def intro: map_idI)
  ultimately show ?thesis by simp
qed

text \<open>
  C37. Collapsing a stream of chunks gives one choice per index that occurs, in order of index, whose content is
  the concatenation of that index's deltas and whose finish reason is its last one (or stop).
\<close>

theorem collapse_is_concatenation:
  fixes chunks
  defines "cs \<equiv> concat (map ck_choices chunks)"
  assumes "chunks \<noteq> []"
  shows "collapse_stream chunks =
    \<lparr>co_id = ck_id (hd chunks), co_created = ck_created (hd chunks), co_model = ck_model (hd chunks),
     co_choices = map (\<lambda>i. \<lparr>ch_index = i,
         ch_content = concat (map (or_empty \<circ> cc_content) (filter (\<lambda>c. cc_index c = i) cs)),
         ch_finish_reason = last (''stop'' # filter (\<lambda>f. f \<noteq> [])
           (map (or_empty \<circ> cc_finish_reason) (filter (\<lambda>c. cc_index c = i) cs)))\<rparr>)
       (sorted_list_of_set (cc_index ` set cs))\<rparr>"
proof -
  have "fold collapse_chunk chunks st = fold collapse_choice (concat (map ck_choices chunks)) st" for st
    by (induction chunks arbitrary: st) (simp_all add: collapse_chunk_def)
  then have fold: "fold collapse_chunk chunks ([], []) = fold collapse_choice cs ([], [])" by (simp add: cs_def)
  note st = collapse_choices [of cs, unfolded said_at_def]
  obtain first rest where "chunks = first # rest" using assms(2) by (cases chunks) auto
  then show ?thesis
    using fold sort_key_fst_dict [OF st(3)] st(4) [simplified]
    by (auto simp: collapse_stream_def st case_prod_unfold reasons_at_def [symmetric] intro!: map_cong)
qed

lemma collapse_is_concatenation_witness:
  "co_choices (collapse_stream [\<lparr>ck_id = ''c'', ck_created = 1, ck_model = ''m'',
      ck_choices = [\<lparr>cc_index = 0, cc_content = Some ''a'', cc_finish_reason = None\<rparr>,
                    \<lparr>cc_index = 0, cc_content = Some ''b'', cc_finish_reason = Some ''length''\<rparr>]\<rparr>]) =
   [\<lparr>ch_index = 0, ch_content = ''ab'', ch_finish_reason = ''length''\<rparr>]"
  using collapse_is_concatenation [of "[\<lparr>ck_id = ''c'', ck_created = 1, ck_model = ''m'',
      ck_choices = [\<lparr>cc_index = 0, cc_content = Some ''a'', cc_finish_reason = None\<rparr>,
                    \<lparr>cc_index = 0, cc_content = Some ''b'', cc_finish_reason = Some ''length''\<rparr>]\<rparr>]"]
  by (simp add: or_empty_def)

section \<open>Accepted calls\<close>

lemma verify_kyok_caller_Inr:
  "verify_kyok_caller E now s token bearer body timestamp signature = Inr u \<longleftrightarrow>
     (\<exists>t. py_int_of_str timestamp = Some t \<and> is_timestamp_fresh now t \<and> signature \<noteq> [] \<and>
        get_agent s (kt_agent token) \<noteq> None \<and>
        verify_signature (ce_ed25519 E) (ar_provider_key (kt_agent token)) signature
          (kyok_call_payload bearer t (ce_sha256_hex E body)))"
proof -
  have "py_int_of_str [] = None" by (simp add: py_int_of_str_def py_strip_def)
  then show ?thesis
    unfolding verify_kyok_caller_def by (auto simp: reject_def split: option.splits)
qed

text \<open>
  C36. A completion call is forwarded only when it proves everything: the bearer is a token funduq signed,
  unexpired; its run is tracked (claimed or still waiting), not asked to stop, and addressed to the agent the token names; that
  agent's registered provider signed this bearer, this body and a fresh timestamp; and what goes out, to the
  link serving the model the run was bound to, is that body as parsed and validated, counted on that link's provider.
\<close>

theorem accepted_completion_is_authorized:
  assumes "complete E now secret b k bearer body timestamp signature = Inr relay"
  shows "\<exists>tbody claims r run t binding link payload valid.
    bearer = tbody @ CHR ''.'' # tc_hmac_hex (ce_codec E) secret tbody \<and>
    tc_decode (ce_codec E) tbody = Some (JObj claims) \<and> dget_j ''runId'' claims = JStr r \<and>
    expired now (case dget claims ''exp'' of None \<Rightarrow> JNum 0 | Some e \<Rightarrow> e) = Inr False \<and>
    broker_get r b = Some run \<and> \<not> rs_cancel_requested run \<and>
    dget_j ''providerKey'' claims = JStr (ar_provider_key (rs_agent run)) \<and> dget_j ''agentName'' claims = JStr (ar_name (rs_agent run)) \<and>
    get_agent (w_store (b_world b)) (rs_agent run) \<noteq> None \<and>
    py_int_of_str timestamp = Some t \<and> is_timestamp_fresh now t \<and>
    verify_signature (ce_ed25519 E) (ar_provider_key (rs_agent run)) signature
      (kyok_call_payload bearer t (ce_sha256_hex E body)) \<and>
    binding_for r k = Some binding \<and> relay_serving (kb_llm_provider binding) k = Some link \<and>
    cr_public_key relay = lr_provider_key (kb_llm_provider binding) \<and>
    ce_loads E body = Loaded payload \<and> ce_valid_body E payload = Some valid \<and>
    cr_stream_requested relay = truthy (jget ''stream'' payload) \<and>
    (cr_chunks relay, cr_end relay) = ce_complete E link
       \<lparr>dc_run_id = r, dc_provider_key = ar_provider_key (rs_agent run),
        dc_agent_name = ar_name (rs_agent run), dc_body = valid, dc_llm_name = lr_name (kb_llm_provider binding),
        dc_context = kb_context binding, dc_actor_chain = kb_actor_chain binding\<rparr>"
proof -
  from assms obtain token where tok: "verify_kyok_token (ce_codec E) now bearer secret = Inr (Some token)"
    by (auto simp: complete_def reject_def split: sum.splits option.splits)
  note a = assms [unfolded complete_def tok, simplified]
  from a obtain run where run: "broker_get (kt_run_id token) b = Some run" "\<not> rs_cancel_requested run" "rs_agent run = kt_agent token"
    by (auto simp: reject_def split: option.splits if_splits)
  note a = a [unfolded run(1), simplified, unfolded run(3), simplified]
  from a run(2) have ver: "verify_kyok_caller E now (w_store (b_world b)) token bearer body timestamp signature = Inr ()"
    by (auto simp: rbind_Inr_iff)
  from a run(2) ver obtain payload binding link valid where
    p: "ce_loads E body = Loaded payload" and bl: "binding_for (kt_run_id token) k = Some binding"
      "relay_serving (kb_llm_provider binding) k = Some link" and v: "ce_valid_body E payload = Some valid"
    by (auto simp: reject_def split: loaded.splits option.splits)
  obtain chunks ended where c: "ce_complete E link
       \<lparr>dc_run_id = kt_run_id token, dc_provider_key = ar_provider_key (kt_agent token),
        dc_agent_name = ar_name (kt_agent token), dc_body = valid, dc_llm_name = lr_name (kb_llm_provider binding),
        dc_context = kb_context binding, dc_actor_chain = kb_actor_chain binding\<rparr> = (chunks, ended)" by fastforce
  from a run(2) ver p bl v c have relay: "relay = \<lparr>cr_stream_requested = truthy (jget ''stream'' payload),
      cr_public_key = lr_provider_key (kb_llm_provider binding), cr_chunks = chunks, cr_end = ended\<rparr>" by simp
  from verify_kyok_token_signed [OF tok] obtain tbody claims where
    t: "bearer = tbody @ CHR ''.'' # tc_hmac_hex (ce_codec E) secret tbody"
      "tc_decode (ce_codec E) tbody = Some (JObj claims)" "dget_j ''runId'' claims = JStr (kt_run_id token)"
      "dget_j ''providerKey'' claims = JStr (ar_provider_key (rs_agent run))" "dget_j ''agentName'' claims = JStr (ar_name (rs_agent run))"
      "expired now (case dget claims ''exp'' of None \<Rightarrow> JNum 0 | Some e \<Rightarrow> e) = Inr False" unfolding run(3) by blast
  from ver obtain ts where "py_int_of_str timestamp = Some ts" "is_timestamp_fresh now ts"
    "get_agent (w_store (b_world b)) (rs_agent run) \<noteq> None"
    "verify_signature (ce_ed25519 E) (ar_provider_key (rs_agent run)) signature
          (kyok_call_payload bearer ts (ce_sha256_hex E body))"
    unfolding verify_kyok_caller_Inr run(3) [symmetric] by blast
  moreover have "(cr_chunks relay, cr_end relay) = ce_complete E link
       \<lparr>dc_run_id = kt_run_id token, dc_provider_key = ar_provider_key (rs_agent run),
        dc_agent_name = ar_name (rs_agent run), dc_body = valid, dc_llm_name = lr_name (kb_llm_provider binding),
        dc_context = kb_context binding, dc_actor_chain = kb_actor_chain binding\<rparr>"
    using c relay run(3) by simp
  moreover have "cr_public_key relay = lr_provider_key (kb_llm_provider binding)"
    "cr_stream_requested relay = truthy (jget ''stream'' payload)" using relay by simp_all
  ultimately show ?thesis
    using t run(1,2) bl p v
    by - (rule exI [of _ tbody], rule exI [of _ claims], rule exI [of _ "kt_run_id token"], rule exI [of _ run],
        rule exI [of _ ts], rule exI [of _ binding], rule exI [of _ link], rule exI [of _ payload], rule exI [of _ valid],
        (intro conjI; assumption))
qed

text \<open>A drained completion moves exactly one counter of its provider by one.\<close>

lemma counted_bumps_one:
  assumes names: "lv_counter_names (kr_live k) = [''completions'', ''refused'', ''failed'']"
    and buckets: "\<And>b. dget (lv_counters (kr_live k)) (cr_public_key r) = Some b \<Longrightarrow>
      {''completions'', ''refused'', ''failed''} \<subseteq> set (dkeys b)"
  obtains k' where "counted r k = Inr k'" "kr_bindings k' = kr_bindings k"
    "live_count key counter (kr_live k') = live_count key counter (kr_live k) +
       (if key = cr_public_key r \<and> counter = outcome_of (cr_end r) then 1 else 0)"
proof -
  let ?t = "kr_live k" and ?o = "outcome_of (cr_end r)"
  define bucket where "bucket = (case dget (lv_counters ?t) (cr_public_key r) of
      None \<Rightarrow> map (\<lambda>n. (n, 0)) (lv_counter_names ?t) | Some b \<Rightarrow> b)"
  have o: "?o \<in> {''completions'', ''refused'', ''failed''}" by (simp add: outcome_of_def split: stream_end.splits)
  have "?o \<in> set (dkeys bucket)"
  proof (cases "dget (lv_counters ?t) (cr_public_key r)")
    case None
    then show ?thesis using o by (auto simp: bucket_def names)
  next
    case (Some b)
    then show ?thesis using subsetD [OF buckets [OF Some] o] by (simp add: bucket_def)
  qed
  then obtain n where n: "dget bucket ?o = Some n" using dget_None_keys [of bucket ?o] by auto
  have zero: "live_count (cr_public_key r) c ?t = (case dget bucket c of None \<Rightarrow> 0 | Some m \<Rightarrow> m)" for c
    by (cases "dget (lv_counters ?t) (cr_public_key r)")
      (auto simp: live_count_def bucket_def names map_of_map_keys split: option.splits)
  let ?t' = "?t\<lparr>lv_counters := dput (cr_public_key r) (dput ?o (Suc n) bucket) (lv_counters ?t)\<rparr>"
  have "counted r k = Inr (k\<lparr>kr_live := ?t'\<rparr>)"
    using n o by (simp add: counted_def note_outcome_def live_note_def names bucket_def [symmetric] Let_def)
  moreover have "live_count key counter ?t' = live_count key counter ?t +
      (if key = cr_public_key r \<and> counter = ?o then 1 else 0)"
  proof (cases "key = cr_public_key r")
    case True
    then show ?thesis using zero [of counter] n by (auto simp: live_count_def [of _ _ ?t'])
  qed (simp add: live_count_def)
  ultimately show ?thesis using that by simp
qed

definition demo_completion_env :: completion_env where
  "demo_completion_env = \<lparr>ce_codec = demo_codec, ce_ed25519 = (\<lambda>k s p. True), ce_sha256_hex = (\<lambda>b. ''h''),
     ce_loads = (\<lambda>b. Loaded (JObj [])), ce_valid_body = (\<lambda>b. Some b), ce_complete = (\<lambda>c d. ([], Exhausted))\<rparr>"

definition demo_llm :: llm_ref where "demo_llm = \<lparr>lr_provider_key = ''bb'', lr_name = ''m''\<rparr>"

definition demo_relay :: kyok_relay where
  "demo_relay = relay_attach [(demo_llm, \<lparr>lc_id = 0, lc_public_key = ''bb''\<rparr>)]
     (bind_run ''r1'' \<lparr>kb_llm_provider = demo_llm, kb_context = JNull, kb_actor_chain = None\<rparr> new_kyok_relay)"

definition demo_kyok_broker :: "world broker" where
  "demo_kyok_broker =
     (let w = \<lparr>w_store = demo_registry [] [\<lparr>ag_provider_key = ''aa'', ag_name = ''n'', ag_agent_card = [], ag_metadata = JNull,
            ag_joined_at = 0, ag_last_seen_at = 0\<rparr>], w_now = 0, w_changes = [], w_asked = []\<rparr>
      in the (enqueue_run ''r1'' \<lparr>ar_provider_key = ''aa'', ar_name = ''n''\<rparr> ''t1'' JNull 0 None (start_broker (new_broker None 0 w))))"

lemma accepted_completion_is_authorized_witness:
  "\<exists>r run binding. broker_get r demo_kyok_broker = Some run \<and> binding_for r demo_relay = Some binding \<and>
     ce_loads demo_completion_env ''{}'' = Loaded (JObj [])"
proof -
  let ?bearer = "issue_kyok_token demo_codec 0 ''r1'' \<lparr>ar_provider_key = ''aa'', ar_name = ''n''\<rparr> ''s''"
  let ?r = "complete demo_completion_env 0 ''s'' demo_kyok_broker demo_relay ?bearer ''{}'' ''0'' ''00''"
  have "\<not> isl ?r" by code_simp
  then obtain relay where r: "?r = Inr relay" by (cases ?r) auto
  from accepted_completion_is_authorized [OF r] show ?thesis by (auto simp: demo_completion_env_def)
qed

end
