(* ===== verification/A2A_Translate.thy ===== *)
theory A2A_Translate
  imports Doors Reduce
begin

text \<open>
  The translation between AG-UI's vocabulary and A2A's (\<^verbatim>\<open>funduq/protocols/a2a_translate.py\<close>). The
  protobuf messages are records of the fields the code sets; assigning something that is no string to
  a string field raises TypeError. \<open>al_py_str\<close> is Python's \<^verbatim>\<open>str\<close> on a value that is no string, and
  \<open>al_dump_message\<close> the AG-UI library's dump of a message with a role, an id and a text. Structs
  are kept as the JSON put into them.

  The lemmas show that the stream of updates a caller follows and the task a caller reads are the same
  account of the run: the same artifacts, text by text, and the same events carried along.
\<close>

section \<open>States\<close>

datatype task_state = Submitted | Working | TaskCompleted | TaskFailed | Canceled | InputRequired

definition state_for_run_status :: "run_status \<Rightarrow> task_state" where
  "state_for_run_status status =
     (case status of
        Queued \<Rightarrow> Submitted
      | Offering \<Rightarrow> Submitted
      | Running \<Rightarrow> Working
      | Cancelling \<Rightarrow> Working
      | Completed \<Rightarrow> TaskCompleted
      | Failed \<Rightarrow> TaskFailed
      | Cancelled \<Rightarrow> Canceled)"

definition TERMINAL_STATES :: "task_state list" where
  "TERMINAL_STATES = [TaskCompleted, TaskFailed, Canceled]"

definition task_state_of :: "run_status \<Rightarrow> event list \<Rightarrow> bool \<Rightarrow> (py_error, task_state) res" where
  "task_state_of status events cancel_requested =
     (if status = Completed then
        rbind (open_asks events) (\<lambda>asks.
          Inr (if asks \<noteq> {} then (if cancel_requested then Canceled else InputRequired) else state_for_run_status status))
      else Inr (state_for_run_status status))"

section \<open>Which events have a word of A2A's\<close>

definition LIFECYCLE_EVENT_TYPES :: "json list" where
  "LIFECYCLE_EVENT_TYPES = [JStr ''RUN_STARTED'', RUN_FINISHED, JStr ''RUN_ERROR'']"

definition TEXT_EVENT_TYPES :: "json list" where
  "TEXT_EVENT_TYPES = [TEXT_MESSAGE_CONTENT, JStr ''TEXT_MESSAGE_CHUNK'']"

definition MAPPED_EVENT_TYPES :: "json list" where
  "MAPPED_EVENT_TYPES = LIFECYCLE_EVENT_TYPES @ TEXT_EVENT_TYPES"

text \<open>\<^verbatim>\<open>event.get("type") in S\<close> for a frozenset \<open>S\<close>.\<close>

definition type_in :: "json list \<Rightarrow> event \<Rightarrow> (py_error, bool) res" where
  "type_in S e = (if hashable (event_type e) then Inr (event_type e \<in> set S) else Inl TypeError)"

definition is_mapped :: "event \<Rightarrow> (py_error, bool) res" where
  "is_mapped e = type_in MAPPED_EVENT_TYPES e"

definition text_delta_of :: "event \<Rightarrow> (py_error, (json \<times> json) option) res" where
  "text_delta_of e =
     rbind (type_in TEXT_EVENT_TYPES e) (\<lambda>is_text.
       Inr (if \<not> is_text then None
            else Some (jor (dget_j ''messageId'' e) (JStr ''text''),
                       jor (jor (dget_j ''delta'' e) (dget_j ''content'' e)) (JStr []))))"

section \<open>Updates\<close>

record a2a_lib =
  al_py_str :: "json \<Rightarrow> string"
  al_dump_message :: "string \<Rightarrow> string \<Rightarrow> string \<Rightarrow> event"

definition py_str :: "a2a_lib \<Rightarrow> json \<Rightarrow> string" where
  "py_str A v = (case v of JStr x \<Rightarrow> x | _ \<Rightarrow> al_py_str A v)"

record status_update =
  su_task_id :: string
  su_context_id :: string
  su_state :: task_state
  su_message :: "string option"
  su_metadata :: event

record artifact_update =
  au_task_id :: string
  au_context_id :: string
  au_artifact_id :: string
  au_text :: string
  au_append :: bool

datatype a2a_update = StatusUpdate status_update | ArtifactUpdate artifact_update

text \<open>\<^verbatim>\<open>_status_update\<close>: \<open>su_metadata\<close> is what is put under funduq's key, nothing when it is empty.\<close>

definition make_status_update ::
  "a2a_lib \<Rightarrow> string \<Rightarrow> string \<Rightarrow> task_state \<Rightarrow> json \<Rightarrow> event option \<Rightarrow> event \<Rightarrow> a2a_update" where
  "make_status_update A task_id context_id state message agui_event metadata =
     StatusUpdate \<lparr>su_task_id = task_id, su_context_id = context_id, su_state = state,
       su_message = (if message = JNull then None else Some (py_str A message)),
       su_metadata = (case agui_event of None \<Rightarrow> metadata | Some e \<Rightarrow> dput ''agui_event'' (JObj e) metadata)\<rparr>"

definition cancel_metadata :: "run_status \<Rightarrow> bool \<Rightarrow> event" where
  "cancel_metadata status cancel_requested =
     (if status = Cancelling \<or> cancel_requested then [(''cancelRequested'', JBool True)] else [])"

definition status_update_for_run_status :: "a2a_lib \<Rightarrow> string \<Rightarrow> string \<Rightarrow> run_status \<Rightarrow> a2a_update" where
  "status_update_for_run_status A task_id context_id status =
     make_status_update A task_id context_id (state_for_run_status status) JNull None (cancel_metadata status False)"

definition agui_event_to_a2a_update ::
  "a2a_lib \<Rightarrow> event \<Rightarrow> string \<Rightarrow> string \<Rightarrow> string set \<Rightarrow> (py_error, a2a_update \<times> string set) res" where
  "agui_event_to_a2a_update A e task_id context_id opened =
     (if event_type e = JStr ''RUN_STARTED'' then
        Inr (make_status_update A task_id context_id Working JNull None [], opened)
      else if event_type e = RUN_FINISHED then
        Inr (case interrupt_outcome_of e of
               Some interrupts \<Rightarrow>
                 make_status_update A task_id context_id InputRequired JNull None [(''interrupts'', interrupts)]
             | None \<Rightarrow> make_status_update A task_id context_id TaskCompleted JNull None [], opened)
      else if event_type e = JStr ''RUN_ERROR'' then
        Inr (make_status_update A task_id context_id TaskFailed (dget_j ''message'' e) None [], opened)
      else rbind (text_delta_of e) (\<lambda>delta.
        case delta of
          Some (artifact_id, text) \<Rightarrow>
            (case (artifact_id, text) of
               (JStr i, JStr x) \<Rightarrow>
                 Inr (ArtifactUpdate \<lparr>au_task_id = task_id, au_context_id = context_id, au_artifact_id = i, au_text = x,
                        au_append = (i \<in> opened)\<rparr>, insert i opened)
             | _ \<Rightarrow> Inl TypeError)
        | None \<Rightarrow> Inr (make_status_update A task_id context_id Working JNull (Some e) [], opened)))"

section \<open>Tasks\<close>

record a2a_message =
  am_message_id :: string
  am_context_id :: string
  am_from_agent :: bool
  am_text :: string

record a2a_task =
  tk_id :: string
  tk_context_id :: string
  tk_state :: task_state
  tk_status_at :: "time option"
  tk_history :: "a2a_message list"
  tk_artifacts :: "(string, string) dict"
  tk_metadata :: event

text \<open>\<^verbatim>\<open>history[-limit:] if limit else []\<close>: Python's slice, a negative limit included.\<close>

definition last_of :: "int option \<Rightarrow> 'a list \<Rightarrow> 'a list" where
  "last_of limit xs =
     (case limit of
        None \<Rightarrow> xs
      | Some n \<Rightarrow> if n = 0 then [] else if n > 0 then drop (length xs - nat n) xs else drop (nat (- n)) xs)"

definition history_of :: "a2a_lib \<Rightarrow> event list \<Rightarrow> string \<Rightarrow> int option \<Rightarrow> a2a_message list" where
  "history_of A messages context_id limit =
     last_of limit
       (map (\<lambda>m. \<lparr>am_message_id = py_str A (jor (dget_j ''id'' m) (JStr [])), am_context_id = context_id,
                  am_from_agent = (dget_j ''role'' m = JStr ''assistant''),
                  am_text = py_str A (jor (dget_j ''content'' m) (JStr []))\<rparr>)
         (filter (\<lambda>m. dget_j ''role'' m \<in> {JStr ''user'', JStr ''assistant''} \<and> truthy (dget_j ''content'' m)) messages))"

definition merge_event ::
  "event \<Rightarrow> (json, json list) dict \<times> event list \<Rightarrow> (py_error, (json, json list) dict \<times> event list) res" where
  "merge_event e = (\<lambda>(merged, overflow).
     rbind (text_delta_of e) (\<lambda>delta.
       case delta of
         Some (artifact_id, text) \<Rightarrow>
           if hashable artifact_id
           then Inr (dput artifact_id ((case dget merged artifact_id of None \<Rightarrow> [] | Some xs \<Rightarrow> xs) @ [text]) merged, overflow)
           else Inl TypeError
       | None \<Rightarrow> rbind (is_mapped e) (\<lambda>mapped. Inr (merged, if mapped then overflow else overflow @ [e]))))"

definition artifact_of :: "json \<times> json list \<Rightarrow> (py_error, string \<times> string) res" where
  "artifact_of = (\<lambda>(artifact_id, chunks).
     if jis_str artifact_id \<and> list_all jis_str chunks then Inr (jstr artifact_id, concat (map jstr chunks))
     else Inl TypeError)"

definition build_task ::
  "a2a_lib \<Rightarrow> string \<Rightarrow> string \<Rightarrow> run_status \<Rightarrow> event list \<Rightarrow> event list \<Rightarrow> int option \<Rightarrow> bool \<Rightarrow>
   event list option \<Rightarrow> time option \<Rightarrow> (py_error, a2a_task) res" where
  "build_task A task_id context_id status events messages history_length cancel_requested tail_events status_at =
     rbind (mfold merge_event events ([], [])) (\<lambda>(merged, overflow).
     rbind (task_state_of status (case tail_events of None \<Rightarrow> events | Some es \<Rightarrow> es) cancel_requested) (\<lambda>state.
     rbind (mmap artifact_of merged) (\<lambda>artifacts.
       Inr \<lparr>tk_id = task_id, tk_context_id = context_id, tk_state = state, tk_status_at = status_at,
            tk_history = history_of A messages context_id history_length, tk_artifacts = artifacts,
            tk_metadata = (if overflow = [] then [] else [(''agui_events'', JArr (map JObj overflow))]) @
              cancel_metadata status cancel_requested\<rparr>)))"

section \<open>A message coming in\<close>

datatype a2a_error =
    ContentTypeNotSupported
  | InvalidParams
  | TaskNotFound
  | UnsupportedOperation
  | TaskNotCancelable
  | PushNotificationNotSupported
  | A2aDoor door_error
  | A2aRaises py_error

definition ascii_upper :: "string \<Rightarrow> string" where
  "ascii_upper s = map (\<lambda>c. if CHR ''a'' \<le> c \<and> c \<le> CHR ''z'' then char_of (of_char c - (32 :: nat)) else c) s"

definition from_agent :: "json \<Rightarrow> bool" where
  "from_agent role = (case role of JStr r \<Rightarrow> ascii_upper r \<in> {''ROLE_AGENT'', ''AGENT''} | _ \<Rightarrow> False)"

definition a2a_message_to_agui_messages :: "a2a_lib \<Rightarrow> event \<Rightarrow> (a2a_error, event list) res" where
  "a2a_message_to_agui_messages A m =
     (case py_iter (case dget m ''parts'' of None \<Rightarrow> JArr [] | Some v \<Rightarrow> v) of
        Inl e \<Rightarrow> Inl (A2aRaises e)
      | Inr parts \<Rightarrow>
          if \<not> list_all jis_dict parts then Inl (A2aRaises AttributeError)
          else if \<not> list_all (\<lambda>p. jis_str (jget ''text'' p)) parts then Inl ContentTypeNotSupported
          else
            let content = concat (map (\<lambda>p. jstr (jget ''text'' p)) parts); message_id = dget_j ''messageId'' m in
            if \<not> truthy message_id then Inl InvalidParams
            else case message_id of
              JStr i \<Rightarrow>
                let dumped = al_dump_message A (if from_agent (dget_j ''role'' m) then ''assistant'' else ''user'') i content;
                    metadata = dget_j ''metadata'' m
                in Inr [if jis_dict metadata \<and> truthy metadata then dput ''metadata'' metadata dumped else dumped]
            | _ \<Rightarrow> Inl (A2aRaises ValueError))"

section \<open>The stream and the snapshot agree\<close>

text \<open>\<^verbatim>\<open>async for item in events: yield agui_event_to_a2a_update(...)\<close>, on the items the stream carried.\<close>

fun stream_updates :: "a2a_lib \<Rightarrow> string \<Rightarrow> string \<Rightarrow> event list \<Rightarrow> string set \<Rightarrow> (py_error, a2a_update list) res" where
  "stream_updates A task_id context_id [] opened = Inr []"
| "stream_updates A task_id context_id (e # es) opened =
     rbind (agui_event_to_a2a_update A e task_id context_id opened) (\<lambda>(u, opened).
     rbind (stream_updates A task_id context_id es opened) (\<lambda>us. Inr (u # us)))"

text \<open>
  What A2A asks of a receiver: an artifact update that does not append (re)places the artifact, one that
  appends adds to it. \<open>carried\<close> are the events the status updates carry along.
\<close>

fun receive :: "a2a_update list \<Rightarrow> (string, string) dict \<Rightarrow> (string, string) dict" where
  "receive [] d = d"
| "receive (StatusUpdate u # us) d = receive us d"
| "receive (ArtifactUpdate u # us) d =
     receive us (dput (au_artifact_id u)
       ((if au_append u then (case dget d (au_artifact_id u) of None \<Rightarrow> [] | Some x \<Rightarrow> x) else []) @ au_text u) d)"

fun carried :: "a2a_update list \<Rightarrow> json list" where
  "carried [] = []"
| "carried (StatusUpdate u # us) = (case dget (su_metadata u) ''agui_event'' of None \<Rightarrow> [] | Some e \<Rightarrow> [e]) @ carried us"
| "carried (ArtifactUpdate u # us) = carried us"

definition overflow_of :: "a2a_task \<Rightarrow> json list" where
  "overflow_of task = jlist (dget_j ''agui_events'' (tk_metadata task))"

lemma artifact_of_Inr_iff:
  "artifact_of p = Inr (i, x) \<longleftrightarrow> (\<exists>cs. p = (JStr i, map JStr cs) \<and> x = concat cs)"
proof -
  have "list_all jis_str js \<longleftrightarrow> (\<exists>cs. js = map JStr cs)" for js
  proof (induction js)
    case (Cons j js)
    then show ?case by (cases j) (auto simp: jis_str_def Cons_eq_map_conv)
  qed simp
  moreover have "map jstr (map JStr cs) = cs" for cs by (simp add: comp_def)
  ultimately show ?thesis
    by (cases p; cases "fst p") (auto simp: artifact_of_def jis_str_def)
qed

lemma artifact_grows:
  assumes "mmap artifact_of merged = Inr d"
  shows "mmap artifact_of (dput (JStr i) ((case dget merged (JStr i) of None \<Rightarrow> [] | Some js \<Rightarrow> js) @ [JStr x]) merged) =
    Inr (dput i ((case dget d i of None \<Rightarrow> [] | Some y \<Rightarrow> y) @ x) d)"
  using assms
proof (induction merged arbitrary: d)
  case Nil
  then show ?case by (auto simp: artifact_of_def)
next
  case (Cons p merged)
  obtain q d' where d: "d = q # d'" "artifact_of p = Inr q" "mmap artifact_of merged = Inr d'"
    using Cons.prems by (auto simp: rbind_Inr_iff)
  obtain j y where q: "q = (j, y)" by fastforce
  then obtain cs where p: "p = (JStr j, map JStr cs)" "y = concat cs" using d(2) artifact_of_Inr_iff by blast
  have grown: "artifact_of (JStr j, map JStr cs @ [JStr x]) = Inr (j, concat cs @ x)"
    using artifact_of_Inr_iff [of "(JStr j, map JStr cs @ [JStr x])" j "concat cs @ x"] by (metis concat.simps(1,2) concat_append list.simps(8,9) map_append append_Nil2)
  show ?case using Cons.IH [OF d(3)] d q p grown by (auto simp: rbind_Inr_iff)
qed

lemma artifact_keys: "mmap artifact_of merged = Inr d \<Longrightarrow> dget d i = None \<longleftrightarrow> dget merged (JStr i) = None"
proof (induction merged arbitrary: d)
  case (Cons p merged)
  then obtain j y d' where d: "d = (j, y) # d'" "artifact_of p = Inr (j, y)" "mmap artifact_of merged = Inr d'"
    by (fastforce simp: rbind_Inr_iff)
  with Cons.IH [OF d(3)] show ?case by (auto simp: artifact_of_Inr_iff)
qed simp

lemmas a2a_types = LIFECYCLE_EVENT_TYPES_def TEXT_EVENT_TYPES_def MAPPED_EVENT_TYPES_def event_types TEXT_MESSAGE_CONTENT_def

lemma merge_lifecycle:
  assumes "event_type e \<in> set LIFECYCLE_EVENT_TYPES"
  shows "merge_event e (merged, ov) = Inr (merged, ov)"
  using assms by (auto simp: merge_event_def text_delta_of_def is_mapped_def type_in_def a2a_types)

lemma merge_other:
  assumes "text_delta_of e = Inr None" "event_type e \<notin> set LIFECYCLE_EVENT_TYPES"
  shows "merge_event e (merged, ov) = Inr (merged, ov @ [e])"
  using assms
  by (auto simp: merge_event_def text_delta_of_def is_mapped_def type_in_def MAPPED_EVENT_TYPES_def split: if_splits)

lemma update_merges:
  assumes up: "agui_event_to_a2a_update A e tid ctx opened = Inr (u, opened')" and d: "mmap artifact_of merged = Inr d"
    and opened: "opened = set (dkeys d)"
  shows "\<exists>merged' ov'. merge_event e (merged, ov) = Inr (merged', ov') \<and> mmap artifact_of merged' = Inr (receive [u] d) \<and>
    opened' = set (dkeys (receive [u] d)) \<and> map JObj ov' = map JObj ov @ carried [u]"
proof (cases "event_type e \<in> set LIFECYCLE_EVENT_TYPES")
  case True
  then have "(\<exists>x. u = StatusUpdate x \<and> dget (su_metadata x) ''agui_event'' = None) \<and> opened' = opened"
    using up by (auto simp: agui_event_to_a2a_update_def make_status_update_def LIFECYCLE_EVENT_TYPES_def split: option.splits if_splits)
  with merge_lifecycle [OF True] d opened show ?thesis by auto
next
  case False
  then have other: "event_type e \<noteq> JStr ''RUN_STARTED''" "event_type e \<noteq> RUN_FINISHED" "event_type e \<noteq> JStr ''RUN_ERROR''"
    by (auto simp: LIFECYCLE_EVENT_TYPES_def)
  from up other obtain delta where delta: "text_delta_of e = Inr delta"
    by (auto simp: agui_event_to_a2a_update_def rbind_Inr_iff)
  note up' = up [unfolded agui_event_to_a2a_update_def delta rbind_simps if_not_P [OF other(1)] if_not_P [OF other(2)]
    if_not_P [OF other(3)]]
  show ?thesis
  proof (cases delta)
    case None
    with up' delta have "u = make_status_update A tid ctx Working JNull (Some e) []" "opened' = opened" by auto
    with merge_other [OF _ False, of merged ov] delta None d opened show ?thesis by (simp add: make_status_update_def)
  next
    case (Some p)
    with up' delta obtain i x where p: "p = (JStr i, JStr x)"
      and u: "u = ArtifactUpdate \<lparr>au_task_id = tid, au_context_id = ctx, au_artifact_id = i, au_text = x, au_append = (i \<in> opened)\<rparr>"
        "opened' = insert i opened"
      by (cases p) (auto split: json.splits)
    have "dget d i = None" if "i \<notin> opened" using that opened by (simp add: dget_None_keys)
    then have got: "receive [u] d = dput i ((case dget d i of None \<Rightarrow> [] | Some y \<Rightarrow> y) @ x) d" by (auto simp: u)
    have "merge_event e (merged, ov) =
        Inr (dput (JStr i) ((case dget merged (JStr i) of None \<Rightarrow> [] | Some js \<Rightarrow> js) @ [JStr x]) merged, ov)"
      using delta Some p by (simp add: merge_event_def)
    moreover have "opened' = set (dkeys (receive [u] d))" unfolding got set_keys_dput using opened u(2) by simp
    moreover have "carried [u] = []" by (simp add: u)
    ultimately show ?thesis using artifact_grows [OF d, of i x] unfolding got by simp
  qed
qed

lemma receive_Cons: "receive (u # us) d = receive us (receive [u] d)"
  by (cases u) simp_all

lemma carried_Cons: "carried (u # us) = carried [u] @ carried us"
  by (cases u) simp_all

lemma stream_merges:
  assumes "stream_updates A tid ctx es opened = Inr us" "mmap artifact_of merged = Inr d" "opened = set (dkeys d)"
  shows "\<exists>merged' ov'. mfold merge_event es (merged, ov) = Inr (merged', ov') \<and> mmap artifact_of merged' = Inr (receive us d) \<and>
    map JObj ov' = map JObj ov @ carried us"
  using assms
proof (induction es arbitrary: opened us merged d ov)
  case (Cons e es)
  then obtain u opened' vs where u: "agui_event_to_a2a_update A e tid ctx opened = Inr (u, opened')"
    "stream_updates A tid ctx es opened' = Inr vs" "us = u # vs" by (auto simp: rbind_Inr_iff)
  from update_merges [OF u(1) Cons.prems(2, 3), of ov] obtain m ov1 where
    one: "merge_event e (merged, ov) = Inr (m, ov1)" "mmap artifact_of m = Inr (receive [u] d)"
      "opened' = set (dkeys (receive [u] d))" "map JObj ov1 = map JObj ov @ carried [u]" by blast
  from Cons.IH [OF u(2) one(2, 3), of ov1] one(1, 4) show ?case by (auto simp: u(3) receive_Cons [of u vs] carried_Cons [of u vs])
qed simp

text \<open>
  C21. A caller that follows the stream and a caller that reads the task learn the same. Starting from the
  task as it stood, applying the updates the stream sends for the events since gives the artifacts of the task read
  afterwards, text by text and in the same order; and the events with no A2A word of their own are the same
  list on both sides.
\<close>

theorem stream_continues_the_task:
  assumes stood: "build_task A tid ctx status0 es0 ms0 hl0 cr0 tail0 at0 = Inr task0"
    and stream: "stream_updates A tid ctx es (set (dkeys (tk_artifacts task0))) = Inr us"
    and state: "task_state_of status (case tail of None \<Rightarrow> es0 @ es | Some ts \<Rightarrow> ts) cr = Inr state"
  shows "\<exists>later. build_task A tid ctx status (es0 @ es) ms hl cr tail since = Inr later \<and> tk_state later = state \<and>
    tk_artifacts later = receive us (tk_artifacts task0) \<and> overflow_of later = overflow_of task0 @ carried us"
proof -
  from stood obtain merged ov where before: "mfold merge_event es0 ([], []) = Inr (merged, ov)"
    "mmap artifact_of merged = Inr (tk_artifacts task0)"
    and meta: "tk_metadata task0 = (if ov = [] then [] else [(''agui_events'', JArr (map JObj ov))]) @ cancel_metadata status0 cr0"
    by (auto simp: build_task_def rbind_Inr_iff)
  from stream_merges [OF stream before(2) refl, of ov] obtain merged' ov' where after: "mfold merge_event es (merged, ov) = Inr (merged', ov')"
    "mmap artifact_of merged' = Inr (receive us (tk_artifacts task0))" "map JObj ov' = map JObj ov @ carried us" by blast
  have over: "jlist (dget_j ''agui_events'' ((if o' = [] then [] else [(''agui_events'', JArr (map JObj o'))]) @ cancel_metadata st c)) =
      map JObj o'" for o' st c
    by (simp add: dget_j_def jlist_def cancel_metadata_def)
  show ?thesis
    using before after state over meta by (auto simp: build_task_def mfold_append overflow_of_def)
qed

section \<open>A scenario\<close>

definition demo_a2a :: a2a_lib where
  "demo_a2a = \<lparr>al_py_str = (\<lambda>v. []), al_dump_message = (\<lambda>role i x. [(''id'', JStr i), (''role'', JStr role), (''content'', JStr x)])\<rparr>"

definition demo_text :: "string \<Rightarrow> event" where
  "demo_text x = [(''type'', JStr ''TEXT_MESSAGE_CONTENT''), (''messageId'', JStr ''m1''), (''delta'', JStr x)]"

theorem stream_continues_the_task_witness:
  "\<exists>us later. stream_updates demo_a2a ''r1'' ''t1'' [demo_text ''lo''] {''m1''} = Inr us \<and>
     build_task demo_a2a ''r1'' ''t1'' Running [demo_text ''hel'', demo_text ''lo''] [] None False None None = Inr later \<and>
     tk_artifacts later = receive us [(''m1'', ''hel'')]"
proof -
  let ?b = "build_task demo_a2a ''r1'' ''t1'' Running [demo_text ''hel''] [] None False None None"
  let ?u = "stream_updates demo_a2a ''r1'' ''t1'' [demo_text ''lo''] {''m1''}"
  have "map_sum (\<lambda>_. ()) tk_artifacts ?b = Inr [(''m1'', ''hel'')]" by code_simp
  then obtain task0 where task0: "?b = Inr task0" "tk_artifacts task0 = [(''m1'', ''hel'')]" by (cases ?b) auto
  have "\<not> isl ?u" by code_simp
  then obtain us where "?u = Inr us" by (cases ?u) auto
  then have us: "stream_updates demo_a2a ''r1'' ''t1'' [demo_text ''lo''] (set (dkeys (tk_artifacts task0))) = Inr us"
    by (simp only: task0) simp
  have "task_state_of Running (case None of None \<Rightarrow> [demo_text ''hel''] @ [demo_text ''lo''] | Some ts \<Rightarrow> ts) False = Inr Working"
    by (simp add: task_state_of_def state_for_run_status_def)
  from stream_continues_the_task [OF task0(1) us this, of "[]" None None] us task0(2) show ?thesis by (auto simp del: stream_updates.simps)
qed

text \<open>
  The state is where the two accounts part. A run that finished with a tool call unanswered is a task
  waiting for input, but its stream ends saying the task completed; and one that finished on an empty
  list of interrupts is a completed task whose stream asks for input.
\<close>

definition demo_asked :: "event list" where
  "demo_asked = [[(''type'', JStr ''TOOL_CALL_START''), (''toolCallId'', JStr ''c1'')], [(''type'', JStr ''RUN_FINISHED'')]]"

definition demo_empty_interrupt :: "event list" where
  "demo_empty_interrupt = [[(''type'', JStr ''RUN_FINISHED''), (''outcome'', JObj [(''type'', JStr ''interrupt''), (''interrupts'', JArr [])])]]"

definition final_state :: "event list \<Rightarrow> task_state option" where
  "final_state es = (case stream_updates demo_a2a ''r1'' ''t1'' es {} of
     Inr us \<Rightarrow> (case rev us of StatusUpdate u # _ \<Rightarrow> Some (su_state u) | _ \<Rightarrow> None) | Inl _ \<Rightarrow> None)"

lemma stream_calls_an_asking_run_completed:
  "task_state_of Completed demo_asked False = Inr InputRequired \<and> final_state demo_asked = Some TaskCompleted \<and>
   task_state_of Completed demo_empty_interrupt False = Inr TaskCompleted \<and> final_state demo_empty_interrupt = Some InputRequired"
  by code_simp

end
