(* ===== verification/A2A.thy ===== *)
theory A2A
  imports A2A_Translate Facade
begin

text \<open>
  The A2A door (\<^verbatim>\<open>funduq/protocols/a2a.py\<close>): opening the run a message asks for, reading a task as its lineage,
  following it, cancelling it and listing the tasks of a context. A task is a lineage of runs, named by
  its root. \<open>raised_by\<close> brings the errors of the doors into A2A's; \<open>in_a2as_words\<close> is
  \<^verbatim>\<open>_in_a2as_words\<close>.

  The request handler and the agent card are in \<open>A2A_Server\<close>. The lemmas show that a context's pages are its
  tasks, each once.
\<close>

section \<open>Errors\<close>

definition raised_by :: "('e \<Rightarrow> a2a_error) \<Rightarrow> ('e, 'a) res \<Rightarrow> (a2a_error, 'a) res" where
  "raised_by f m = (case m of Inl e \<Rightarrow> Inl (f e) | Inr x \<Rightarrow> Inr x)"

definition in_a2as_words :: "a2a_error \<Rightarrow> a2a_error" where
  "in_a2as_words e =
     (if e \<in> A2aDoor ` {DoorRepo ThreadNotFound, DoorRepo ThreadOwnershipMismatch, LlmUnknown, InvalidRunInput}
      then InvalidParams else e)"

section \<open>What a message addresses\<close>

record a2a_params =
  ap_message :: event
  ap_context_id :: json
  ap_task_id :: json
  ap_metadata :: event

definition a2a_params_of :: "event \<Rightarrow> string list option \<Rightarrow> event \<Rightarrow> a2a_params" where
  "a2a_params_of message actor_chain metadata =
     \<lparr>ap_message = message, ap_context_id = dget_j ''contextId'' message, ap_task_id = dget_j ''taskId'' message,
      ap_metadata = (case actor_chain of
          None \<Rightarrow> metadata
        | Some c \<Rightarrow> if c = [] then metadata else dput ''actorChain'' (JArr (map JStr c)) metadata)\<rparr>"

text \<open>A value used as an id in a query; the database refuses one that is no string.\<close>

definition id_of :: "json \<Rightarrow> (a2a_error, string) res" where
  "id_of v = (case v of JStr i \<Rightarrow> Inr i | _ \<Rightarrow> Inl (A2aRaises TypeError))"

definition lineage_parent :: "store \<Rightarrow> a2a_params \<Rightarrow> (a2a_error, thread_id option) res" where
  "lineage_parent st params =
     (let ids = dget_j ''referenceTaskIds'' (ap_message params) in
      if \<not> truthy ids then Inr None
      else if jis_dict ids then Inl (A2aRaises (KeyError ''0''))
      else rbind (raised_by A2aRaises (py_iter ids)) (\<lambda>xs.
           rbind (id_of (hd xs)) (\<lambda>i. Inr (map_option rr_thread_id (get_run st i)))))"

text \<open>The task a message names and the run it answers: it must be waiting.\<close>

definition addressed_task ::
  "store \<Rightarrow> agent_ref \<Rightarrow> a2a_params \<Rightarrow> (a2a_error, (run_row \<times> run_row) option) res" where
  "addressed_task st agent params =
     (if \<not> truthy (ap_task_id params) then Inr None
      else rbind (id_of (ap_task_id params)) (\<lambda>task_id.
        case get_run st task_id of
          None \<Rightarrow> Inl TaskNotFound
        | Some task \<Rightarrow>
            if rr_agent task \<noteq> agent then Inl TaskNotFound
            else if truthy (ap_context_id params) \<and> ap_context_id params \<noteq> JStr (rr_thread_id task) then Inl InvalidParams
            else rbind (raised_by A2aDoor (returning (lineage_tail st task_id))) (\<lambda>tail.
              case tail of
                None \<Rightarrow> Inl (A2aRaises AttributeError)
              | Some t \<Rightarrow>
                  rbind (raised_by A2aDoor (waiting_on st t)) (\<lambda>waiting.
                    if waiting = None then Inl UnsupportedOperation else Inr (Some (task, t))))))"

definition context_of :: "a2a_params \<Rightarrow> (run_row \<times> run_row) option \<Rightarrow> (a2a_error, thread_id option) res" where
  "context_of params task =
     (if truthy (ap_context_id params) then rbind (id_of (ap_context_id params)) (\<lambda>i. Inr (Some i))
      else Inr (map_option (rr_thread_id \<circ> fst) task))"

text \<open>The conversation so far, completed runs only, then the message.\<close>

definition conversation_with :: "a2a_lib \<Rightarrow> store \<Rightarrow> thread_id \<Rightarrow> event \<Rightarrow> (a2a_error, event list) res" where
  "conversation_with A st thread_id message =
     rbind (raised_by (A2aDoor \<circ> DoorRepo) (conversation_of st
             (filter (\<lambda>r. rr_status r = Completed) (runs_in_thread st thread_id)))) (\<lambda>said.
     rbind (a2a_message_to_agui_messages A message) (\<lambda>new. Inr (map snd said @ new)))"

definition a2a_inbound :: "agent_ref \<Rightarrow> event list \<Rightarrow> caller \<Rightarrow> inbound_run" where
  "a2a_inbound agent messages ca =
     \<lparr>ib_agent = agent, ib_messages = JArr (map JObj messages), ib_head_key = ca_head_key ca,
      ib_actor_chain = ca_actor_chain ca, ib_kyok = ca_kyok ca,
      ib_addressed_run_id = dget_j ADDRESSED_RUN_METADATA_KEY (ca_props ca), ib_state = JNull, ib_tools = JNull,
      ib_context = JNull, ib_resume = JNull, ib_parent_run_id = JNull, ib_forwarded_props = ca_forwarded_props ca\<rparr>"

text \<open>\<^verbatim>\<open>_start_run\<close>: the run opened, the task it belongs to, and whether anybody serves its agent.\<close>

definition a2a_start_run ::
  "a2a_lib \<Rightarrow> 'p door_env \<Rightarrow> thread_id \<Rightarrow> run_id \<Rightarrow> agent_ref \<Rightarrow> a2a_params \<Rightarrow> key option \<Rightarrow> 'p facade \<Rightarrow>
   (a2a_error, run_id \<times> run_id \<times> bool) res \<times> 'p facade" where
  "a2a_start_run A E minted run_id agent params presenter_key s =
     (let st = fq_store s in
      if get_agent st agent = None then (Inl (A2aDoor NoSuchAgent), s)
      else case
        rbind (raised_by A2aDoor (read_caller (de_chain E) st (JObj (ap_metadata params)) presenter_key)) (\<lambda>ca.
        rbind (lineage_parent st params) (\<lambda>parent.
        rbind (addressed_task st agent params) (\<lambda>task.
        rbind (context_of params task) (\<lambda>context_id.
        rbind (raised_by (A2aDoor \<circ> DoorRepo) (ensure_thread (w_now (b_world (fq_broker s))) minted st agent context_id parent
                 (JObj (ca_props ca)) False (ca_head_key ca))) (\<lambda>(tid, st).
        rbind (conversation_with A st tid (ap_message params)) (\<lambda>messages.
          Inr (ca, task, tid, st, messages))))))) of
        Inl e \<Rightarrow> (Inl e, s)
      | Inr (ca, task, tid, st, messages) \<Rightarrow>
          (case enter E run_id st (a2a_inbound agent messages ca) tid (map_option snd task) s of
             (Inl e, s) \<Rightarrow> (Inl (A2aDoor e), s)
           | (Inr en, s) \<Rightarrow>
               (Inr (en_run_id en, (case task of None \<Rightarrow> en_run_id en | Some (t, _) \<Rightarrow> rr_run_id t), en_live en), s)))"

section \<open>Reading a task\<close>

definition a2a_task_of ::
  "a2a_lib \<Rightarrow> agent_ref \<Rightarrow> run_id \<Rightarrow> int option \<Rightarrow> bool \<Rightarrow> 'p facade \<Rightarrow> (a2a_error, a2a_task option) res" where
  "a2a_task_of A agent task_id history_length cancel_requested s =
     (let st = fq_store s in
      rbind (raised_by A2aDoor (returning (lineage st task_id))) (\<lambda>rows.
        if rows = [] \<or> rr_agent (hd rows) \<noteq> agent then Inr None
        else
          let tail = last rows in
          rbind (raised_by A2aDoor (task_messages task_id s)) (\<lambda>messages.
          rbind (raised_by A2aRaises (build_task A task_id (rr_thread_id tail) (rr_status tail)
                   (concat (map (\<lambda>r. get_run_events st (rr_run_id r) 0) rows)) messages history_length
                   (cancel_requested \<or> rr_cancel_requested tail) (Some (get_run_events st (rr_run_id tail) 0))
                   (Some (case rr_last_activity_at tail of None \<Rightarrow> rr_created_at tail | Some t \<Rightarrow> t)))) (\<lambda>task.
            Inr (Some task)))))"

text \<open>
  \<^verbatim>\<open>send_task\<close>. \<open>wait\<close> is what happens to the system until the run's stream has ended, when somebody serves the
  agent and the caller waits.
\<close>

definition send_task ::
  "a2a_lib \<Rightarrow> 'p door_env \<Rightarrow> ('p facade \<Rightarrow> 'p facade) \<Rightarrow> thread_id \<Rightarrow> run_id \<Rightarrow> agent_ref \<Rightarrow> event \<Rightarrow> string list option \<Rightarrow>
   event \<Rightarrow> key option \<Rightarrow> bool \<Rightarrow> int option \<Rightarrow> 'p facade \<Rightarrow> (a2a_error, a2a_task option) res \<times> 'p facade" where
  "send_task A E wait minted run_id agent message actor_chain metadata presenter_key return_immediately history_length s =
     (case a2a_start_run A E minted run_id agent (a2a_params_of message actor_chain metadata) presenter_key s of
        (Inl e, s) \<Rightarrow> (Inl (in_a2as_words e), s)
      | (Inr (r, task_id, live), s) \<Rightarrow>
          if \<not> return_immediately \<and> live \<and> broker_get r (fq_broker s) \<noteq> None then
            (case subscribe r (fq_broker s) of
               (StreamTaken, b) \<Rightarrow> (Inl (A2aDoor RunStreamTaken), s)
             | (_, b) \<Rightarrow> let s = wait (s\<lparr>fq_broker := b\<rparr>) in (a2a_task_of A agent task_id history_length False s, s))
          else (a2a_task_of A agent task_id history_length False s, s))"

section \<open>Following a task\<close>

text \<open>
  The events \<^verbatim>\<open>results\<close> yields after the task as it stood: \<open>items\<close> is what the run's stream carried (\<^term>\<open>None\<close> when
  there was none to take) and \<open>stored\<close> the run's row once it ended.
\<close>

definition follow ::
  "a2a_lib \<Rightarrow> run_id \<Rightarrow> a2a_task \<Rightarrow> event list option \<Rightarrow> run_status option \<Rightarrow> run_status \<Rightarrow> (py_error, a2a_update list) res" where
  "follow A task_id task items stored otherwise =
     (case items of
        None \<Rightarrow> Inr [status_update_for_run_status A task_id (tk_context_id task) otherwise]
      | Some es \<Rightarrow>
          rbind (stream_updates A task_id (tk_context_id task) es (set (dkeys (tk_artifacts task)))) (\<lambda>us.
            Inr (us @ (case stored of
                 None \<Rightarrow> []
               | Some status \<Rightarrow> if status \<noteq> Completed then [status_update_for_run_status A task_id (tk_context_id task) status] else []))))"

text \<open>\<^verbatim>\<open>resubscribe_task\<close> up to its stream: the task as it stood and whether there is a stream, which it takes.\<close>

definition resubscribe_task ::
  "a2a_lib \<Rightarrow> agent_ref \<Rightarrow> run_id \<Rightarrow> 'p facade \<Rightarrow> (a2a_error, a2a_task \<times> run_row \<times> bool) res \<times> 'p facade" where
  "resubscribe_task A agent task_id s =
     (case a2a_task_of A agent task_id None False s of
        Inl e \<Rightarrow> (Inl e, s)
      | Inr None \<Rightarrow> (Inl TaskNotFound, s)
      | Inr (Some task) \<Rightarrow>
          if tk_state task \<in> set TERMINAL_STATES then (Inl UnsupportedOperation, s)
          else case lineage (fq_store s) task_id of
            None \<Rightarrow> (Inl (A2aDoor NeverReturns), s)
          | Some rows \<Rightarrow>
              let tail = last rows in
              if broker_get (rr_run_id tail) (fq_broker s) = None then (Inr (task, tail, False), s)
              else case subscribe (rr_run_id tail) (fq_broker s) of
                (StreamTaken, b) \<Rightarrow> (Inl UnsupportedOperation, s)
              | (_, b) \<Rightarrow> (Inr (task, tail, True), s\<lparr>fq_broker := b\<rparr>))"

section \<open>Cancelling a task\<close>

definition cancel_task ::
  "a2a_lib \<Rightarrow> 'p door_env \<Rightarrow> agent_ref \<Rightarrow> run_id \<Rightarrow> event \<Rightarrow> 'p facade \<Rightarrow> (a2a_error, a2a_task option) res \<times> 'p facade" where
  "cancel_task A E agent task_id metadata s =
     (let st = fq_store s in
      case (if task_id = [] then None else get_run st task_id) of
        None \<Rightarrow> (Inr None, s)
      | Some run \<Rightarrow>
          if rr_agent run \<noteq> agent then (Inr None, s)
          else case
            rbind (raised_by A2aDoor (authorize_cancel (de_chain E) (de_ed25519 E) (fq_clock s) run metadata)) (\<lambda>_.
            rbind (raised_by A2aDoor (returning (lineage st task_id))) (\<lambda>rows.
              let tail = last rows in
              rbind (raised_by A2aRaises (task_state_of (rr_status tail) (get_run_events st (rr_run_id tail) 0) (rr_cancel_requested tail)))
                (\<lambda>state.
                  if state \<in> set TERMINAL_STATES then Inl TaskNotCancelable
                  else rbind (a2a_task_of A agent task_id None True s) (\<lambda>as_it_stood. Inr (tail, as_it_stood))))) of
            Inl e \<Rightarrow> (Inl e, s)
          | Inr (tail, as_it_stood) \<Rightarrow>
              (case fq_cancel_run E (rr_run_id tail) metadata s of
                 (Inl e, s) \<Rightarrow> (Inl (A2aDoor e), s)
               | (Inr asked, s) \<Rightarrow>
                   if asked then (Inr as_it_stood, s) else (a2a_task_of A agent task_id None False s, s)))"

section \<open>Listing tasks\<close>

definition py_slice :: "int \<Rightarrow> int \<Rightarrow> 'a list \<Rightarrow> 'a list" where
  "py_slice lo hi xs =
     (let n = int (length xs);
          clip = (\<lambda>i. nat (if i < 0 then max 0 (i + n) else min i n))
      in drop (clip lo) (take (clip hi) xs))"

record task_page =
  tp_tasks :: "a2a_task list"
  tp_next_page_token :: string
  tp_page_size :: nat
  tp_total_size :: nat

definition tasks_of_context ::
  "a2a_lib \<Rightarrow> agent_ref \<Rightarrow> thread_id \<Rightarrow> task_state option \<Rightarrow> int option \<Rightarrow> time option \<Rightarrow> 'p facade \<Rightarrow>
   (a2a_error, a2a_task list) res" where
  "tasks_of_context A agent context_id status history_length status_timestamp_after s =
     rbind (mmap (\<lambda>r. a2a_task_of A agent (rr_run_id r) history_length False s)
              (filter (\<lambda>r. rr_agent r = agent) (root_runs context_id s))) (\<lambda>found.
       Inr (rev (sort_key (\<lambda>t. case tk_status_at t of None \<Rightarrow> 0 | Some at' \<Rightarrow> at')
         (rev (filter (\<lambda>t. (status = None \<or> Some (tk_state t) = status) \<and>
             (case status_timestamp_after of None \<Rightarrow> True | Some after \<Rightarrow>
               \<not> (case tk_status_at t of None \<Rightarrow> 0 | Some at' \<Rightarrow> at') \<le> after))
           (map the (filter (\<lambda>t. t \<noteq> None) found)))))))"

definition per_page :: "int option \<Rightarrow> int" where
  "per_page page_size = (case page_size of None \<Rightarrow> 50 | Some n \<Rightarrow> if n > 0 then n else 50)"

definition page_of :: "a2a_task list \<Rightarrow> int \<Rightarrow> int \<Rightarrow> bool \<Rightarrow> task_page" where
  "page_of tasks offset length_of_page include_artifacts =
     (let page = py_slice offset (offset + length_of_page) tasks in
      \<lparr>tp_tasks = (if include_artifacts then page else map (\<lambda>t. t\<lparr>tk_artifacts := []\<rparr>) page),
       tp_next_page_token = (if offset + length_of_page < int (length tasks) then int_str (offset + length_of_page) else []),
       tp_page_size = length page, tp_total_size = length tasks\<rparr>)"

definition list_tasks ::
  "a2a_lib \<Rightarrow> agent_ref \<Rightarrow> thread_id option \<Rightarrow> task_state option \<Rightarrow> int option \<Rightarrow> string option \<Rightarrow> int option \<Rightarrow>
   time option \<Rightarrow> bool \<Rightarrow> 'p facade \<Rightarrow> (a2a_error, task_page) res" where
  "list_tasks A agent context_id status page_size page_token history_length status_timestamp_after include_artifacts s =
     (case context_id of
        None \<Rightarrow> Inr \<lparr>tp_tasks = [], tp_next_page_token = [], tp_page_size = 0, tp_total_size = 0\<rparr>
      | Some c \<Rightarrow>
          if c = [] then Inr \<lparr>tp_tasks = [], tp_next_page_token = [], tp_page_size = 0, tp_total_size = 0\<rparr>
          else rbind (tasks_of_context A agent c status history_length status_timestamp_after s) (\<lambda>tasks.
            case page_token of
              None \<Rightarrow> Inr (page_of tasks 0 (per_page page_size) include_artifacts)
            | Some token \<Rightarrow>
                if token = [] then Inr (page_of tasks 0 (per_page page_size) include_artifacts)
                else case py_int_of_str token of
                  None \<Rightarrow> Inl InvalidParams
                | Some offset \<Rightarrow> Inr (page_of tasks offset (per_page page_size) include_artifacts)))"

section \<open>A page token is read back\<close>

lemma of_char_digit: "n < 10 \<Longrightarrow> (of_char (digit_char n) :: int) = 48 + int n"
proof -
  assume "n < 10"
  then have "(of_char (digit_char n) :: nat) = 48 + n" by (simp add: digit_char_def)
  then show ?thesis by (metis of_nat_add of_nat_numeral of_nat_of_char)
qed

lemma nat_str_digits: "c \<in> set (nat_str n) \<Longrightarrow> 48 \<le> (of_char c :: int) \<and> of_char c \<le> (57 :: int)"
proof (induction n rule: nat_str.induct)
  case (1 n)
  then show ?case using of_char_digit [of n] of_char_digit [of "n mod 10"] by (subst (asm) nat_str.simps) (auto split: if_splits)
qed

lemma digit_step: "m < 10 \<Longrightarrow> digits_value d v (digit_char m # cs) = digits_value True (10 * v + int m) cs"
  using of_char_digit [of m] by simp

lemma digits_value_nat_str:
  "digits_value d acc (nat_str n @ cs) = digits_value True (acc * 10 ^ length (nat_str n) + int n) cs"
proof (induction n arbitrary: d acc cs rule: nat_str.induct)
  case (1 n)
  show ?case
  proof (cases "n < 10")
    case True
    then show ?thesis by (simp add: nat_str.simps [of n] digit_step mult.commute del: digits_value.simps)
  next
    case False
    then have split: "nat_str n = nat_str (n div 10) @ [digit_char (n mod 10)]" by (simp add: nat_str.simps [of n])
    have "10 * (acc * 10 ^ length (nat_str (n div 10)) + int (n div 10)) + int (n mod 10) = acc * 10 ^ length (nat_str n) + int n"
      by (simp add: split) presburger
    moreover have "digits_value d acc (nat_str n @ cs) =
        digits_value True (10 * (acc * 10 ^ length (nat_str (n div 10)) + int (n div 10)) + int (n mod 10)) cs"
      using 1 [OF False, of d acc "digit_char (n mod 10) # cs"] by (simp add: split digit_step del: digits_value.simps)
    ultimately show ?thesis by simp
  qed
qed

lemma dropWhile_none: "\<forall>c \<in> set xs. \<not> P c \<Longrightarrow> dropWhile P xs = xs"
  by (cases xs) auto

lemma nat_str_no_space: "c \<in> set (nat_str n) \<Longrightarrow> \<not> py_space c \<and> c \<noteq> CHR ''-'' \<and> c \<noteq> CHR ''+''"
proof -
  assume "c \<in> set (nat_str n)"
  then have "48 \<le> (of_char c :: int)" using nat_str_digits by blast
  then have "48 \<le> (of_char c :: nat)" by (metis nat_of_char nat_mono nat_numeral)
  then show ?thesis by (auto simp: py_space_def)
qed

lemma page_token_reads_back: "py_int_of_str (int_str (int n)) = Some (int n)"
proof -
  have "py_strip (nat_str n) = nat_str n"
    using nat_str_no_space [of _ n] by (simp add: py_strip_def dropWhile_none)
  moreover obtain c cs where "nat_str n = c # cs" by (cases "nat_str n") (auto simp: nat_str.simps [of n] split: if_splits)
  moreover have "digits_value False 0 (nat_str n) = Some (int n)" using digits_value_nat_str [of False 0 n "[]"] by simp
  ultimately show ?thesis using nat_str_no_space [of c n] by (simp add: py_int_of_str_def int_str_def)
qed

section \<open>Walking the pages\<close>

text \<open>A caller that asks for page after page until no token comes back; the fuel counts its requests.\<close>

fun walk_pages :: "nat \<Rightarrow> (string option \<Rightarrow> (a2a_error, task_page) res) \<Rightarrow> string option \<Rightarrow> a2a_task list option" where
  "walk_pages 0 ask token = None"
| "walk_pages (Suc n) ask token =
     (case ask token of
        Inl _ \<Rightarrow> None
      | Inr page \<Rightarrow>
          if tp_next_page_token page = [] then Some (tp_tasks page)
          else map_option ((@) (tp_tasks page)) (walk_pages n ask (Some (tp_next_page_token page))))"

lemma per_page_pos: "per_page page_size > 0"
  by (simp add: per_page_def split: option.splits)

lemma py_slice_nat: "py_slice (int i) (int i + int n) xs = take n (drop i xs)"
proof -
  have "nat (min (int i + int n) (int (length xs))) = min (i + n) (length xs)" "nat (min (int i) (int (length xs))) = min i (length xs)"
    by (simp_all flip: of_nat_add of_nat_min)
  then show ?thesis by (simp add: py_slice_def Let_def take_drop add.commute) (cases "i \<le> length xs"; simp add: min_def)
qed

lemma int_str_nonempty: "int_str (int n) \<noteq> []"
  by (simp add: int_str_def nat_str.simps [of n])

lemma list_tasks_page:
  assumes "tasks_of_context A agent c status hl since s = Inr tasks" "c \<noteq> []"
  shows "list_tasks A agent (Some c) status page_size (if i = 0 then None else Some (int_str (int i))) hl since True s =
    Inr (page_of tasks (int i) (per_page page_size) True)"
  using assms int_str_nonempty [of i] by (simp add: list_tasks_def page_token_reads_back)

text \<open>
  C23. Paging loses and repeats nothing. A caller that lists the tasks of a context and follows every page token
  it is given gets, after finitely many requests, exactly the context's tasks in their order, whatever page size it
  asked for.
\<close>

theorem pages_are_the_tasks:
  assumes tasks: "tasks_of_context A agent c status hl since s = Inr tasks" and named: "c \<noteq> []"
  shows "walk_pages (Suc (length tasks)) (\<lambda>token. list_tasks A agent (Some c) status page_size token hl since True s) None = Some tasks"
proof -
  let ?ask = "\<lambda>token. list_tasks A agent (Some c) status page_size token hl since True s"
  obtain n where n: "per_page page_size = int n" "n > 0"
    using per_page_pos [of page_size] by (metis of_nat_0_less_iff zero_less_imp_eq_int)
  have "walk_pages m ?ask (if i = 0 then None else Some (int_str (int i))) = Some (drop i tasks)"
    if "length tasks - i < m" for m i
    using that
  proof (induction m arbitrary: i)
    case (Suc m)
    have page: "?ask (if i = 0 then None else Some (int_str (int i))) = Inr (page_of tasks (int i) (int n) True)"
      using list_tasks_page [OF tasks named, of page_size i] n(1) by simp
    show ?case
    proof (cases "i + n < length tasks")
      case True
      then have "walk_pages m ?ask (Some (int_str (int (i + n)))) = Some (drop (i + n) tasks)"
        using Suc.IH [of "i + n"] Suc.prems n(2) by simp
      then show ?thesis using True int_str_nonempty [of "i + n"] append_take_drop_id [of n "drop i tasks"]
        by (simp add: page page_of_def py_slice_nat add.commute)
    next
      case False
      then show ?thesis by (simp add: page page_of_def py_slice_nat)
    qed
  qed simp
  from this [of 0 "Suc (length tasks)"] show ?thesis by simp
qed

definition demo_context :: "bool facade" where
  "demo_context = demo_door True (demo_asking Completed)"

theorem pages_are_the_tasks_witness:
  "\<exists>tasks. length tasks = 1 \<and> walk_pages 2 (\<lambda>token. list_tasks demo_a2a Thread_Store.demo_agent (Some ''t1'') None (Some 5) token None None True demo_context) None =
     Some tasks"
proof -
  let ?r = "tasks_of_context demo_a2a Thread_Store.demo_agent ''t1'' None None None demo_context"
  have "map_sum (\<lambda>_. ()) length ?r = Inr 1" by code_simp
  then obtain tasks where r: "?r = Inr tasks" "length tasks = 1" by (cases ?r) auto
  from pages_are_the_tasks [OF r(1), of "Some 5"] r(2) show ?thesis by (auto simp: numeral_2_eq_2 simp del: walk_pages.simps)
qed

section \<open>Where the door and its promises part\<close>

text \<open>
  A chained task that has been answered once cannot be cancelled through this door: the one proof in the request is
  checked against the task's root and, by \<^verbatim>\<open>cancel_run\<close>, against its tail, and no signature counts for
  two payloads.
\<close>

definition one_payload_per_signature :: "ed25519 \<Rightarrow> bool" where
  "one_payload_per_signature ed \<longleftrightarrow>
     (\<forall>k sig p q. verify_signature ed k sig p \<longrightarrow> verify_signature ed k sig q \<longrightarrow> p = q)"

lemma authorize_cancel_bound:
  assumes "rr_actor_chain run = Some (t # ts)" "authorize_cancel K ed now run metadata = Inr m"
  shows "\<exists>k allowed. verify_cancel ed now (jor (dget_j ''cancel'' metadata) (JObj [])) (rr_run_id run) allowed = Inr k"
  using assms verify_chain_head by (fastforce simp: authorize_cancel_def rbind_Inr_iff head_key_of_bound split: option.splits)

lemma cancel_proof_names_one_run:
  assumes "verify_cancel ed now cancel r allowed = Inr k" "verify_cancel ed now cancel r' allowed' = Inr k'" "one_payload_per_signature ed"
  shows "r = r'"
  using assms unfolding verify_cancel_Inr_iff one_payload_per_signature_def by (fastforce simp: cancel_payload_def)

lemma fq_cancel_run_authorized:
  assumes "fq_cancel_run E r metadata s = (Inr asked, s')" "get_run (fq_store s) r = Some run"
  shows "\<exists>m. authorize_cancel (de_chain E) (de_ed25519 E) (fq_clock s) run metadata = Inr m"
  using assms by (auto simp: fq_cancel_run_def split: sum.splits)

lemma answered_chained_task_cannot_be_cancelled:
  assumes named: "get_run (fq_store s) task_id = Some run" "rr_agent run = agent" "task_id \<noteq> []" and chained: "rr_actor_chain run = Some (t # ts)"
    and rows: "lineage (fq_store s) task_id = Some rows" and tail: "get_run (fq_store s) (rr_run_id (last rows)) = Some (last rows)"
      "rr_actor_chain (last rows) = Some (u # us)" "rr_run_id (last rows) \<noteq> task_id"
    and sound: "one_payload_per_signature (de_ed25519 E)"
  shows "isl (fst (cancel_task A E agent task_id metadata s))"
proof (rule ccontr)
  assume ok: "\<not> isl (fst (cancel_task A E agent task_id metadata s))"
  have id: "rr_run_id run = task_id" by (rule get_run_run_id [OF named(1)])
  obtain m where m: "authorize_cancel (de_chain E) (de_ed25519 E) (fq_clock s) run metadata = Inr m"
    using ok named by (cases "authorize_cancel (de_chain E) (de_ed25519 E) (fq_clock s) run metadata")
      (auto simp: cancel_task_def raised_by_def)
  have "isl (fst (cancel_task A E agent task_id metadata s))"
    if "fq_cancel_run E (rr_run_id (last rows)) metadata s = (Inl e, s1)" for e s1
    using that named m rows by (simp add: cancel_task_def raised_by_def returning_def Let_def rbind_def split: sum.split)
  with ok obtain asked s' where "fq_cancel_run E (rr_run_id (last rows)) metadata s = (Inr asked, s')"
    by (metis sum.exhaust prod.exhaust)
  then obtain m' where m': "authorize_cancel (de_chain E) (de_ed25519 E) (fq_clock s) (last rows) metadata = Inr m'"
    using fq_cancel_run_authorized tail(1) by blast
  show False
    using cancel_proof_names_one_run [OF _ _ sound] authorize_cancel_bound [OF chained m] authorize_cancel_bound [OF tail(2) m'] id tail(3)
    by metis
qed

text \<open>
  A negative page token, which the door never issued, is accepted and read from the end; and a caller that reattaches
  to a task waiting for input is told right after the snapshot that it completed.
\<close>

lemma negative_page_token_is_accepted:
  "map_sum (\<lambda>_. ()) tp_page_size
     (list_tasks demo_a2a Thread_Store.demo_agent (Some ''t1'') None (Some 1) (Some ''-2'') None None True demo_context) = Inr 0"
  by code_simp

lemma reattaching_to_a_question_says_completed:
  "map_sum (\<lambda>_. ()) (\<lambda>(task, tail, live). (tk_state task, live,
       map_sum (\<lambda>_. ()) (map (\<lambda>u. case u of StatusUpdate x \<Rightarrow> Some (su_state x) | _ \<Rightarrow> None))
         (follow demo_a2a ''r1'' task None None (rr_status tail))))
     (fst (resubscribe_task demo_a2a Thread_Store.demo_agent ''r1'' demo_context)) =
   Inr (InputRequired, False, Inr [Some TaskCompleted])"
  by code_simp

end
