(* ===== verification/A2A_Server.thy ===== *)
theory A2A_Server
  imports A2A
begin

text \<open>
  The rest of the A2A door (\<^verbatim>\<open>funduq/protocols/a2a.py\<close>): the agent card, following a task as it runs and
  \<^verbatim>\<open>A2ARequestHandler\<close>, the handler bound to one agent. A request is the record of the protobuf fields the handler
  reads; \<^verbatim>\<open>MessageToDict\<close> of it is its \<open>wire\<close> field, and what \<^verbatim>\<open>validate_request_params\<close> raises before the handler runs is a
  parameter, as are protobuf's own checks of a card's fields.

  The lemmas show that a handler answers about, and acts on, its own agent's tasks only, and that an agent's
  interjection hook reaches its card.
\<close>

section \<open>The agent card\<close>

record served_interface =
  si_url :: string
  si_binding :: string

text \<open>
  \<open>cl_bindings\<close> are A2A's transport names with their values; \<open>cl_string\<close> is what assigning a value to a string
  field of a message gives, and \<open>cl_parse_skill\<close> is \<^verbatim>\<open>ParseDict\<close> into a skill: \<^term>\<open>Inr None\<close> its ParseError.
\<close>

record 'k card_lib =
  cl_bindings :: "(string, string) dict"
  cl_protocol_version :: string
  cl_string :: "json \<Rightarrow> (py_error, string) res"
  cl_parse_skill :: "json \<Rightarrow> (py_error, 'k option) res"

definition new_served_interface :: "'k card_lib \<Rightarrow> string \<Rightarrow> string \<Rightarrow> (py_error, served_interface) res" where
  "new_served_interface C url binding =
     (if binding \<notin> set (dkeys (cl_bindings C)) then Inl ValueError else Inr \<lparr>si_url = url, si_binding = binding\<rparr>)"

record agent_interface =
  ai_url :: string
  ai_protocol_binding :: string
  ai_protocol_version :: string

record 'k a2a_card =
  ac_name :: string
  ac_description :: string
  ac_version :: string
  ac_interfaces :: "agent_interface list"
  ac_streaming :: bool
  ac_extensions :: "string list"
  ac_input_modes :: "string list"
  ac_output_modes :: "string list"
  ac_skills :: "'k list"

fun skills_of :: "'k card_lib \<Rightarrow> json list \<Rightarrow> (py_error, 'k list) res" where
  "skills_of C [] = Inr []"
| "skills_of C (raw # raws) =
     rbind (cl_parse_skill C raw) (\<lambda>parsed.
     rbind (skills_of C raws) (\<lambda>skills.
       Inr (case parsed of None \<Rightarrow> skills | Some k \<Rightarrow> k # skills)))"

definition interface_of :: "'k card_lib \<Rightarrow> served_interface \<Rightarrow> (py_error, agent_interface) res" where
  "interface_of C served =
     (case dget (cl_bindings C) (si_binding served) of
        None \<Rightarrow> Inl (KeyError (si_binding served))
      | Some v \<Rightarrow> Inr \<lparr>ai_url = si_url served, ai_protocol_binding = v, ai_protocol_version = cl_protocol_version C\<rparr>)"

definition card_get :: "(string, json) dict \<Rightarrow> string \<Rightarrow> json \<Rightarrow> json" where
  "card_get c k otherwise = (case dget c k of None \<Rightarrow> otherwise | Some v \<Rightarrow> v)"

definition a2a_agent_card ::
  "'k card_lib \<Rightarrow> agent_ref \<Rightarrow> served_interface list option \<Rightarrow> 'p facade \<Rightarrow> (a2a_error, 'k a2a_card) res" where
  "a2a_agent_card C agent interfaces s =
     (case get_agent (fq_store s) agent of
        None \<Rightarrow> Inl (A2aDoor NoSuchAgent)
      | Some r \<Rightarrow>
          let c = ag_agent_card r in
          raised_by A2aRaises (
            rbind (mmap (interface_of C) (case interfaces of None \<Rightarrow> [] | Some is \<Rightarrow> is)) (\<lambda>served.
            rbind (rbind (py_iter (card_get c ''extensions'' (JArr []))) (mmap (cl_string C))) (\<lambda>extensions.
            rbind (rbind (py_iter (card_get c ''skills'' (JArr []))) (skills_of C)) (\<lambda>skills.
            rbind (cl_string C (card_get c ''name'' (JStr (ag_name r)))) (\<lambda>name.
            rbind (cl_string C (card_get c ''description'' (JStr []))) (\<lambda>description.
            rbind (cl_string C (card_get c ''version'' (JStr ''0.1.0''))) (\<lambda>version.
              Inr \<lparr>ac_name = name, ac_description = description, ac_version = version, ac_interfaces = served,
                   ac_streaming = True, ac_extensions = extensions, ac_input_modes = [''text/plain''],
                   ac_output_modes = [''text/plain''], ac_skills = skills\<rparr>))))))))"

section \<open>Following a task\<close>

text \<open>
  \<^verbatim>\<open>send_task_streaming\<close> up to its stream: the run opened, the task it belongs to and whether there is a stream, which it takes.
\<close>

definition send_task_streaming ::
  "a2a_lib \<Rightarrow> 'p door_env \<Rightarrow> thread_id \<Rightarrow> run_id \<Rightarrow> agent_ref \<Rightarrow> event \<Rightarrow> string list option \<Rightarrow> event \<Rightarrow> key option \<Rightarrow>
   'p facade \<Rightarrow> (a2a_error, run_id \<times> run_id \<times> bool) res \<times> 'p facade" where
  "send_task_streaming A E minted run_id agent message actor_chain metadata presenter_key s =
     (case a2a_start_run A E minted run_id agent (a2a_params_of message actor_chain metadata) presenter_key s of
        (Inl e, s) \<Rightarrow> (Inl (in_a2as_words e), s)
      | (Inr (r, task_id, is_live), s) \<Rightarrow>
          if is_live \<and> broker_get r (fq_broker s) \<noteq> None then
            (case subscribe r (fq_broker s) of
               (StreamTaken, b) \<Rightarrow> (Inl (A2aDoor RunStreamTaken), s)
             | (_, b) \<Rightarrow> (Inr (r, task_id, True), s\<lparr>fq_broker := b\<rparr>))
          else (Inr (r, task_id, False), s))"

text \<open>
  Its \<^verbatim>\<open>results\<close>: \<open>s0\<close> is the system when the stream is first read, \<open>items\<close> what the run's stream carried and \<open>s1\<close> the
  system once that ended (\<open>s0\<close> again when there was no stream).
\<close>

definition status_or_completed :: "'p facade \<Rightarrow> run_id \<Rightarrow> run_status" where
  "status_or_completed s r = (case get_run (fq_store s) r of None \<Rightarrow> Completed | Some row \<Rightarrow> rr_status row)"

definition streaming_results ::
  "a2a_lib \<Rightarrow> agent_ref \<Rightarrow> run_id \<times> run_id \<times> bool \<Rightarrow> event list \<Rightarrow> 'p facade \<Rightarrow> 'p facade \<Rightarrow>
   (a2a_error, a2a_task \<times> a2a_update list) res" where
  "streaming_results A agent opened items s0 s1 =
     (case opened of (r, task_id, live) \<Rightarrow>
        rbind (a2a_task_of A agent task_id None False s0) (\<lambda>task.
          case task of
            None \<Rightarrow> Inl (A2aRaises AttributeError)
          | Some task \<Rightarrow>
              rbind (raised_by A2aRaises (follow A task_id task (if live then Some items else None)
                  (map_option rr_status (get_run (fq_store s1) r)) (status_or_completed s0 r))) (\<lambda>us.
                Inr (task, us))))"

definition resubscribe_results ::
  "a2a_lib \<Rightarrow> run_id \<Rightarrow> a2a_task \<times> run_row \<times> bool \<Rightarrow> event list \<Rightarrow> 'p facade \<Rightarrow> (a2a_error, a2a_task \<times> a2a_update list) res" where
  "resubscribe_results A task_id opened items s1 =
     (case opened of (task, tail, live) \<Rightarrow>
        rbind (raised_by A2aRaises (follow A task_id task (if live then Some items else None)
            (map_option rr_status (get_run (fq_store s1) (rr_run_id tail))) (rr_status tail))) (\<lambda>us.
          Inr (task, us)))"

definition get_task ::
  "a2a_lib \<Rightarrow> agent_ref \<Rightarrow> run_id \<Rightarrow> int option \<Rightarrow> 'p facade \<Rightarrow> (a2a_error, a2a_task option) res" where
  "get_task A agent task_id history_length s = a2a_task_of A agent task_id history_length False s"

section \<open>The request handler\<close>

record 'x request_handler =
  rh_agent :: agent_ref
  rh_presenter_key_of :: "('x \<Rightarrow> key option) option"

definition rh_presenter_key :: "'x request_handler \<Rightarrow> 'x \<Rightarrow> key option" where
  "rh_presenter_key h context = (case rh_presenter_key_of h of None \<Rightarrow> None | Some f \<Rightarrow> f context)"

text \<open>A field of \<^verbatim>\<open>MessageToDict(params)\<close> that is a message is an object there, and absent when it is not set.\<close>

definition wire_dict :: "event \<Rightarrow> string \<Rightarrow> event" where
  "wire_dict wire k = (case dget wire k of Some (JObj d) \<Rightarrow> d | _ \<Rightarrow> [])"

record send_request =
  sq_wire :: event
  sq_return_immediately :: bool
  sq_history_length :: "int option"

record task_request =
  tq_wire :: event
  tq_id :: string
  tq_history_length :: "int option"

record list_request =
  lq_context_id :: string
  lq_status :: "task_state option"
  lq_page_size :: "int option"
  lq_page_token :: string
  lq_history_length :: "int option"
  lq_status_timestamp_after :: "time option"
  lq_include_artifacts :: "bool option"

definition validated ::
  "('r \<Rightarrow> a2a_error option) \<Rightarrow> 'r \<Rightarrow> ('s \<Rightarrow> (a2a_error, 'a) res \<times> 's) \<Rightarrow> 's \<Rightarrow> (a2a_error, 'a) res \<times> 's" where
  "validated V params body s = (case V params of Some e \<Rightarrow> (Inl e, s) | None \<Rightarrow> body s)"

definition on_message_send ::
  "(send_request \<Rightarrow> a2a_error option) \<Rightarrow> a2a_lib \<Rightarrow> 'p door_env \<Rightarrow> ('p facade \<Rightarrow> 'p facade) \<Rightarrow> thread_id \<Rightarrow> run_id \<Rightarrow>
   'x request_handler \<Rightarrow> send_request \<Rightarrow> 'x \<Rightarrow> 'p facade \<Rightarrow> (a2a_error, a2a_task option) res \<times> 'p facade" where
  "on_message_send V A E wait minted run_id h params context = validated V params (\<lambda>s.
     send_task A E wait minted run_id (rh_agent h) (wire_dict (sq_wire params) ''message'') None
       (wire_dict (sq_wire params) ''metadata'') (rh_presenter_key h context) (sq_return_immediately params)
       (sq_history_length params) s)"

definition on_message_send_stream ::
  "(send_request \<Rightarrow> a2a_error option) \<Rightarrow> a2a_lib \<Rightarrow> 'p door_env \<Rightarrow> thread_id \<Rightarrow> run_id \<Rightarrow>
   'x request_handler \<Rightarrow> send_request \<Rightarrow> 'x \<Rightarrow> 'p facade \<Rightarrow> (a2a_error, run_id \<times> run_id \<times> bool) res \<times> 'p facade" where
  "on_message_send_stream V A E minted run_id h params context = validated V params (\<lambda>s.
     send_task_streaming A E minted run_id (rh_agent h) (wire_dict (sq_wire params) ''message'') None
       (wire_dict (sq_wire params) ''metadata'') (rh_presenter_key h context) s)"

definition on_get_task ::
  "(task_request \<Rightarrow> a2a_error option) \<Rightarrow> a2a_lib \<Rightarrow> 'x request_handler \<Rightarrow> task_request \<Rightarrow> 'p facade \<Rightarrow>
   (a2a_error, a2a_task option) res \<times> 'p facade" where
  "on_get_task V A h params = validated V params (\<lambda>s.
     (get_task A (rh_agent h) (tq_id params) (tq_history_length params) s, s))"

definition on_cancel_task ::
  "(task_request \<Rightarrow> a2a_error option) \<Rightarrow> a2a_lib \<Rightarrow> 'p door_env \<Rightarrow> 'x request_handler \<Rightarrow> task_request \<Rightarrow> 'p facade \<Rightarrow>
   (a2a_error, a2a_task option) res \<times> 'p facade" where
  "on_cancel_task V A E h params = validated V params (\<lambda>s.
     cancel_task A E (rh_agent h) (tq_id params) (wire_dict (tq_wire params) ''metadata'') s)"

definition on_subscribe_to_task ::
  "(task_request \<Rightarrow> a2a_error option) \<Rightarrow> a2a_lib \<Rightarrow> 'x request_handler \<Rightarrow> task_request \<Rightarrow> 'p facade \<Rightarrow>
   (a2a_error, a2a_task \<times> run_row \<times> bool) res \<times> 'p facade" where
  "on_subscribe_to_task V A h params = validated V params (\<lambda>s. resubscribe_task A (rh_agent h) (tq_id params) s)"

definition on_list_tasks :: "a2a_lib \<Rightarrow> 'x request_handler \<Rightarrow> list_request \<Rightarrow> 'p facade \<Rightarrow> (a2a_error, task_page) res" where
  "on_list_tasks A h params s =
     list_tasks A (rh_agent h) (if lq_context_id params = [] then None else Some (lq_context_id params)) (lq_status params)
       (lq_page_size params) (if lq_page_token params = [] then None else Some (lq_page_token params))
       (lq_history_length params) (lq_status_timestamp_after params)
       (case lq_include_artifacts params of None \<Rightarrow> False | Some b \<Rightarrow> b) s"

text \<open>The four operations on push notifications, and the extended card, are refused whatever is asked.\<close>

definition on_push_notification_config :: "'r \<Rightarrow> (a2a_error, unit) res" where
  "on_push_notification_config params = Inl PushNotificationNotSupported"

definition on_get_extended_agent_card :: "'r \<Rightarrow> (a2a_error, unit) res" where
  "on_get_extended_agent_card params = Inl UnsupportedOperation"

section \<open>What a card declares\<close>

lemma mmap_out: "mmap f xs = Inr ys \<Longrightarrow> x \<in> set xs \<Longrightarrow> \<exists>y \<in> set ys. f x = Inr y"
  by (induction xs arbitrary: ys) (auto simp: rbind_Inr_iff)

lemma raised_by_Inr_iff [simp]: "raised_by f m = Inr x \<longleftrightarrow> m = Inr x"
  by (cases m) (simp_all add: raised_by_def)

text \<open>An agent registered with an interjection hook has the extension on its A2A card, whatever else its author put there.\<close>

lemma hook_is_on_the_card:
  assumes row: "get_agent (fq_store s) agent = Some r" "agent_card_of a = Inr (ag_agent_card r)" "rg_takes_interjections a"
    and built: "a2a_agent_card C agent is s = Inr built"
    and strings: "\<And>x. cl_string C (JStr x) = Inr x"
  shows "INTERJECTION_EXTENSION_URI \<in> set (ac_extensions built)"
proof -
  have "\<exists>declared. dget c ''extensions'' = Some (JArr declared) \<and> JStr INTERJECTION_EXTENSION_URI \<in> set declared"
    if "agent_card_of a = Inr c" for c
    using that row(3) by (auto simp: agent_card_of_def Let_def split: sum.splits if_splits)
  from this [OF row(2)] obtain declared where d: "dget (ag_agent_card r) ''extensions'' = Some (JArr declared)"
    "JStr INTERJECTION_EXTENSION_URI \<in> set declared" by blast
  then have "mmap (cl_string C) declared = Inr (ac_extensions built)"
    using built row(1) by (auto simp: a2a_agent_card_def Let_def rbind_Inr_iff card_get_def)
  from mmap_out [OF this d(2)] show ?thesis by (simp add: strings)
qed

text \<open>A skill that is no A2A skill is left out of the card and never fails it.\<close>

lemma skills_are_the_parsed_ones:
  assumes "\<And>raw. raw \<in> set raws \<Longrightarrow> cl_parse_skill C raw = Inr (f raw)"
  shows "skills_of C raws = Inr (List.map_filter f raws)"
  using assms by (induction raws) (auto simp: map_filter_simps split: option.splits)

section \<open>A handler keeps to its agent\<close>

definition agents_task :: "'p facade \<Rightarrow> agent_ref \<Rightarrow> run_id \<Rightarrow> bool" where
  "agents_task s agent i \<longleftrightarrow> (case get_run (fq_store s) i of None \<Rightarrow> False | Some r \<Rightarrow> rr_agent r = agent)"

lemma lineage_from_head: "lineage_from s out r = Some rows \<Longrightarrow> \<exists>rs. rows = out @ r # rs"
  by (erule lineage_from.raw_induct [where P = "\<lambda>s out r rows. \<exists>rs. rows = out @ r # rs", rotated])
     (fastforce split: option.splits)

lemma mmap_in: "mmap f xs = Inr ys \<Longrightarrow> y \<in> set ys \<Longrightarrow> \<exists>x \<in> set xs. f x = Inr y"
  by (induction xs arbitrary: ys) (auto simp: rbind_Inr_iff)

lemma lineage_head:
  assumes "lineage s i = Some rows" "rows \<noteq> []"
  shows "get_run s i = Some (hd rows)"
  using assms lineage_from_head by (fastforce simp: lineage_def split: option.splits)

lemma a2a_task_of_agent:
  assumes "a2a_task_of A agent i n c s = Inr (Some t)"
  shows "agents_task s agent i \<and> tk_id t = i"
proof -
  from assms obtain rows where rows: "lineage (fq_store s) i = Some rows" "rows \<noteq> []" "rr_agent (hd rows) = agent"
    by (auto simp: a2a_task_of_def Let_def rbind_Inr_iff returning_Inr_iff split: if_splits)
  have "tk_id t = i"
    using assms by (auto simp: a2a_task_of_def Let_def rbind_Inr_iff build_task_def split: if_splits)
  then show ?thesis using lineage_head [OF rows(1,2)] rows(3) by (simp add: agents_task_def)
qed

lemma addressed_task_agent:
  assumes "ap_task_id params = JStr i" "i \<noteq> []" "\<not> agents_task fq_s agent i"
  shows "addressed_task (fq_store fq_s) agent params = Inl TaskNotFound"
  using assms by (auto simp: addressed_task_def agents_task_def id_of_def split: option.splits)

lemma start_run_foreign_task:
  assumes "ap_task_id params = JStr i" "i \<noteq> []" "\<not> agents_task s agent i"
  shows "\<exists>e. a2a_start_run A E minted r agent params presenter_key s = (Inl e, s)"
  using addressed_task_agent [OF assms] by (auto simp: a2a_start_run_def Let_def rbind_def split: sum.splits)

lemma tasks_of_context_agent:
  assumes "tasks_of_context A agent c st n after s = Inr tasks" "t \<in> set tasks"
  shows "agents_task s agent (tk_id t) \<and> (\<exists>r \<in> set (root_runs c s). rr_run_id r = tk_id t)"
proof -
  from assms obtain found where f: "mmap (\<lambda>r. a2a_task_of A agent (rr_run_id r) n False s)
      (filter (\<lambda>r. rr_agent r = agent) (root_runs c s)) = Inr found" "Some t \<in> set found"
    by (auto simp: tasks_of_context_def rbind_Inr_iff)
  then obtain r where "r \<in> set (root_runs c s)" "a2a_task_of A agent (rr_run_id r) n False s = Inr (Some t)"
    by (auto dest!: mmap_in)
  then show ?thesis using a2a_task_of_agent by fastforce
qed

lemma page_tasks:
  assumes "t \<in> set (tp_tasks (page_of tasks offset n include_artifacts))"
  shows "\<exists>t' \<in> set tasks. tk_id t = tk_id t'"
proof -
  have "set (py_slice lo hi xs) \<subseteq> set xs" for lo hi and xs :: "a2a_task list"
    by (auto simp: py_slice_def Let_def dest: in_set_dropD in_set_takeD)
  then show ?thesis using assms by (fastforce simp: page_of_def Let_def split: if_splits)
qed

lemma list_tasks_agent:
  assumes "list_tasks A agent c st ps token n after ia s = Inr page" "t \<in> set (tp_tasks page)"
  shows "agents_task s agent (tk_id t) \<and> (\<exists>c' r. c = Some c' \<and> r \<in> set (root_runs c' s) \<and> rr_run_id r = tk_id t)"
proof -
  have "\<exists>c' tasks offset. c = Some c' \<and> tasks_of_context A agent c' st n after s = Inr tasks \<and>
      page = page_of tasks offset (per_page ps) ia"
  proof (cases c)
    case None
    then show ?thesis using assms by (auto simp: list_tasks_def)
  next
    case (Some c')
    then show ?thesis using assms
      by (cases "tasks_of_context A agent c' st n after s") (auto simp: list_tasks_def split: option.splits if_splits)
  qed
  then obtain c' tasks offset where c': "c = Some c'" "tasks_of_context A agent c' st n after s = Inr tasks"
    "page = page_of tasks offset (per_page ps) ia" by blast
  then obtain t' where t': "t' \<in> set tasks" "tk_id t = tk_id t'" using assms(2) page_tasks by blast
  show ?thesis using tasks_of_context_agent [OF c'(2) t'(1)] c'(1) by (auto simp: t'(2))
qed

lemma send_foreign_task:
  assumes "dget message ''taskId'' = Some (JStr i)" "i \<noteq> []" "\<not> agents_task s agent i"
  shows "\<exists>e. send_task A E wait minted r agent message chain metadata k now n s = (Inl e, s)"
    and "\<exists>e. send_task_streaming A E minted r agent message chain metadata k s = (Inl e, s)"
proof -
  have "ap_task_id (a2a_params_of message chain metadata) = JStr i" using assms(1) by (simp add: a2a_params_of_def dget_j_def)
  from start_run_foreign_task [OF this assms(2,3)]
  obtain e where "a2a_start_run A E minted r agent (a2a_params_of message chain metadata) k s = (Inl e, s)" by blast
  then show "\<exists>e. send_task A E wait minted r agent message chain metadata k now n s = (Inl e, s)"
    and "\<exists>e. send_task_streaming A E minted r agent message chain metadata k s = (Inl e, s)"
    by (simp_all add: send_task_def send_task_streaming_def)
qed

lemma cancel_foreign_task: "\<not> agents_task s agent i \<Longrightarrow> cancel_task A E agent i metadata s = (Inr None, s)"
  by (cases "get_run (fq_store s) i") (simp_all add: cancel_task_def agents_task_def Let_def)

text \<open>
  C22. A request handler bound to an agent keeps to that agent's tasks. Naming any other task changes nothing: reading
  and cancelling it find no task, subscribing to it and answering it raise. And every task a
  listing shows is the agent's own, of the context asked about.
\<close>

theorem handler_keeps_to_its_agent:
  fixes h :: "'x request_handler" and s :: "'p facade"
  shows "(\<not> agents_task s (rh_agent h) (tq_id tq) \<longrightarrow>
      (\<forall>t. fst (on_get_task V A h tq s) \<noteq> Inr (Some t)) \<and>
      (\<exists>e. on_cancel_task V A E h tq s \<in> {(Inl e, s), (Inr None, s)}) \<and>
      (\<exists>e. on_subscribe_to_task V A h tq s = (Inl e, s))) \<and>
    (\<forall>i. dget (wire_dict (sq_wire sq) ''message'') ''taskId'' = Some (JStr i) \<and> i \<noteq> [] \<and> \<not> agents_task s (rh_agent h) i \<longrightarrow>
      (\<exists>e. on_message_send W A E wait minted r h sq x s = (Inl e, s)) \<and>
      (\<exists>e. on_message_send_stream W A E minted r h sq x s = (Inl e, s))) \<and>
    (\<forall>page t. on_list_tasks A h lq s = Inr page \<and> t \<in> set (tp_tasks page) \<longrightarrow>
      agents_task s (rh_agent h) (tk_id t) \<and> (\<exists>row \<in> set (root_runs (lq_context_id lq) s). rr_run_id row = tk_id t))"
proof (intro conjI impI allI)
  assume no: "\<not> agents_task s (rh_agent h) (tq_id tq)"
  then have none: "a2a_task_of A (rh_agent h) (tq_id tq) n c s \<noteq> Inr (Some t)" for n c t
    using a2a_task_of_agent by blast
  show "fst (on_get_task V A h tq s) \<noteq> Inr (Some t)" for t
    using none by (simp add: on_get_task_def get_task_def validated_def split: option.splits)
  show "\<exists>e. on_cancel_task V A E h tq s \<in> {(Inl e, s), (Inr None, s)}"
    using cancel_foreign_task [OF no] by (simp add: on_cancel_task_def validated_def split: option.splits)
  show "\<exists>e. on_subscribe_to_task V A h tq s = (Inl e, s)"
    using none by (auto simp: on_subscribe_to_task_def validated_def resubscribe_task_def split: option.splits sum.splits)
next
  fix i
  assume i: "dget (wire_dict (sq_wire sq) ''message'') ''taskId'' = Some (JStr i) \<and> i \<noteq> [] \<and> \<not> agents_task s (rh_agent h) i"
  show "\<exists>e. on_message_send W A E wait minted r h sq x s = (Inl e, s)"
    using send_foreign_task(1) i by (fastforce simp: on_message_send_def validated_def split: option.splits)
  show "\<exists>e. on_message_send_stream W A E minted r h sq x s = (Inl e, s)"
    using send_foreign_task(2) i by (fastforce simp: on_message_send_stream_def validated_def split: option.splits)
next
  fix page t
  assume "on_list_tasks A h lq s = Inr page \<and> t \<in> set (tp_tasks page)"
  then show "agents_task s (rh_agent h) (tk_id t)" "\<exists>row \<in> set (root_runs (lq_context_id lq) s). rr_run_id row = tk_id t"
    using list_tasks_agent unfolding on_list_tasks_def by (fastforce split: if_splits)+
qed

definition demo_other_handler :: "unit request_handler" where
  "demo_other_handler = \<lparr>rh_agent = \<lparr>ar_provider_key = ''cc'', ar_name = ''other''\<rparr>, rh_presenter_key_of = None\<rparr>"

definition demo_handler :: "unit request_handler" where
  "demo_handler = \<lparr>rh_agent = Thread_Store.demo_agent, rh_presenter_key_of = None\<rparr>"

definition demo_task_request :: task_request where
  "demo_task_request = \<lparr>tq_wire = [], tq_id = ''r1'', tq_history_length = None\<rparr>"

definition demo_send_request :: send_request where
  "demo_send_request = \<lparr>sq_wire = [(''message'', JObj [(''taskId'', JStr ''r1'')])], sq_return_immediately = True,
     sq_history_length = None\<rparr>"

definition demo_list_request :: list_request where
  "demo_list_request = \<lparr>lq_context_id = ''t1'', lq_status = None, lq_page_size = None, lq_page_token = [], lq_history_length = None,
     lq_status_timestamp_after = None, lq_include_artifacts = None\<rparr>"

lemma demo_own_request: "map_sum (\<lambda>_. ()) (\<lambda>p. map tk_id (tp_tasks p)) (on_list_tasks demo_a2a demo_handler demo_list_request demo_context) = Inr [''r1'']"
  by code_simp

lemma handler_keeps_to_its_agent_witness:
  "(\<exists>e. on_subscribe_to_task (\<lambda>_. None) demo_a2a demo_other_handler demo_task_request demo_context = (Inl e, demo_context)) \<and>
   (\<exists>e. on_message_send (\<lambda>_. None) demo_a2a demo_door_env id ''t'' ''r9'' demo_other_handler demo_send_request () demo_context = (Inl e, demo_context)) \<and>
   agents_task demo_context Thread_Store.demo_agent ''r1''"
proof -
  have no: "\<not> agents_task demo_context (rh_agent demo_other_handler) (tq_id demo_task_request)"
    "\<not> agents_task demo_context (rh_agent demo_other_handler) ''r1''" by code_simp+
  have msg: "dget (wire_dict (sq_wire demo_send_request) ''message'') ''taskId'' = Some (JStr ''r1'')" by code_simp
  obtain page where page: "on_list_tasks demo_a2a demo_handler demo_list_request demo_context = Inr page" "map tk_id (tp_tasks page) = [''r1'']"
    using demo_own_request by (cases "on_list_tasks demo_a2a demo_handler demo_list_request demo_context") auto
  then obtain t where t: "t \<in> set (tp_tasks page)" "tk_id t = ''r1''" by (metis list.set_intros(1) list.set_map imageE)
  note p = handler_keeps_to_its_agent [of demo_context _ demo_task_request "\<lambda>_. None" demo_a2a demo_door_env demo_send_request
      "\<lambda>_. None" id "''t''" "''r9''" "()" demo_list_request]
  have "agents_task demo_context (rh_agent demo_handler) (tk_id t)" using p [of demo_handler] page(1) t(1) by blast
  then have "agents_task demo_context Thread_Store.demo_agent ''r1''" by (simp add: t(2) demo_handler_def)
  then show ?thesis using p [of demo_other_handler] no msg by blast
qed

end
