(* ===== verification/Spec2Isabelle.thy ===== *)
theory Spec2Isabelle
  imports Payloads Chain Pause System Surface Schema Migrations Runtime_Props Kyok_Adapter Sdk_Link A2A_Server
begin

text \<open>
  A verification development of funduq, the broker that stands between callers who ask agents to do something and
  the providers that run those agents.

  \<^bold>\<open>The program.\<close> A caller comes in through a door (AG-UI or A2A, \<^verbatim>\<open>src/funduq/funduq/protocols\<close>, and
  \<^verbatim>\<open>doors.py\<close>), which decides whose request it is, opens a row in the database (\<^verbatim>\<open>repo.py\<close>, \<^verbatim>\<open>schema.py\<close>)
  and hands the run to the dispatcher (\<^verbatim>\<open>broker.py\<close>). A provider opened a link and registered its agents
  (\<^verbatim>\<open>core.py\<close>); on its side the SDK (\<^verbatim>\<open>src/funduq-provider-sdk\<close>) runs them. The dispatcher keeps one handler per
  thread, which offers one run at a time, hears the verdict and the events through its inbox, has every step written down
  (\<^verbatim>\<open>handlers.py\<close>) and feeds the caller's stream. An agent may call a language model on the caller's
  account through funduq (KYOK, \<^verbatim>\<open>kyok.py\<close>). Who may do what is decided by signatures and responsibility
  chains (\<^verbatim>\<open>src/funduq-contract\<close>).

  \<^bold>\<open>The theories.\<close>

  \<^item> \<open>Fq_Prelude\<close>: JSON values, insertion-ordered dictionaries, results \<open>('e, 'a) res\<close> of code that may raise, and
    the lemmas on them. Python's \<^verbatim>\<open>None\<close>, truth values and exceptions of ill-typed data are written out.
  \<^item> \<open>Payloads\<close>, \<open>Chain\<close>, \<open>Identity\<close>: \<^verbatim>\<open>funduq_contract/payloads.py\<close>, \<^verbatim>\<open>signatures.py\<close>, \<^verbatim>\<open>chain.py\<close> and
    \<^verbatim>\<open>funduq/identity.py\<close>. A signed payload commits to one act, the accepted chains are exactly those that are what they claim to be, and a proof is
    accepted exactly from an allowed key over the right bytes.
  \<^item> \<open>Run_Store\<close>, \<open>Registry\<close>, \<open>Thread_Store\<close>, \<open>Schema\<close>: \<^verbatim>\<open>schema.py\<close>, \<^verbatim>\<open>models.py\<close> and \<^verbatim>\<open>repo.py\<close>, the tables as lists of
    rows. The constraints are the database's and stand apart from the functions that write (\<open>insert_thread\<close>, \<open>insert_run\<close>, \<open>insert_message\<close>,
    \<open>insert_run_event\<close>, \<open>delete_agent_rows\<close>). The status machine, registration and lookup (one locale \<open>registry\<close> for agents and for
    model offerings), threads and who may write to them, conversations, that lineages end; \<open>Schema\<close>
    states the constraints as an invariant.
  \<^item> \<open>Migrations\<close>: the declared tables of \<^verbatim>\<open>schema.py\<close>, \<^verbatim>\<open>migrate.py\<close> and the revisions under \<^verbatim>\<open>alembic/versions\<close>, as scripts with their SQL meaning. The
    scripts build the declared schema, and what they do to rows.
  \<^item> \<open>Pause\<close>, \<open>Reduce\<close>, \<open>Props\<close>: \<^verbatim>\<open>pause.py\<close>, \<^verbatim>\<open>agui_reduce.py\<close>, \<^verbatim>\<open>props.py\<close>: what a run's events leave open, the messages they
    stand for, and what funduq adds to the props it forwards.
  \<^item> \<open>Broker\<close>: \<^verbatim>\<open>broker.py\<close>, with \<open>Broker_Inv\<close>, \<open>Broker_Steps\<close>, \<open>Broker_Reach\<close> (the invariant, kept by every operation; the step
    relation and its reachable states), \<open>Broker_Relation\<close> (relations between states, once for all operations, in a hierarchy of locales
    from \<open>small_relation\<close> to \<open>door_relation\<close>), \<open>Handlers\<close> (\<^verbatim>\<open>handlers.py\<close>, an interpretation of the locale \<open>record_handlers\<close>
    the dispatcher relies on), \<open>Broker_Props\<close> (capacity, turns, who is heard, streams), \<open>Coupling\<close> (the
    database's status column is the dispatcher's phase) and \<open>Channel\<close> (in any execution, a run's stream is what its holder said, in order).
  \<^item> \<open>Rosters\<close>: links, tickets and the two rosters of \<^verbatim>\<open>core.py\<close>, over the locale \<open>live_table\<close>. Registrations and deletes are cut at
    their waits for the database and interleave: what is served is served on an open link, save one that closed during its own registration.
  \<^item> \<open>Kyok\<close>, \<open>Kyok_Adapter\<close>: \<^verbatim>\<open>live_roster.py\<close>, \<^verbatim>\<open>kyok.py\<close>, \<^verbatim>\<open>protocols/kyok.py\<close>. A completion is relayed for
    the run, the provider and the offering it was granted for.
  \<^item> \<open>Doors\<close>, \<open>Doors_Props\<close>, \<open>Facade\<close>, \<open>Surface\<close>: \<^verbatim>\<open>doors.py\<close>, \<^verbatim>\<open>protocols/agui.py\<close>, the rest of \<^verbatim>\<open>core.py\<close>: entering, resuming,
    cancelling, start and recovery, health, reads and change subscribers. Authority for answers and cancels, the stored row
    as the delivered input, and that a start accounts for every run a previous process left.
  \<^item> \<open>A2A_Translate\<close>, \<open>A2A\<close>, \<open>A2A_Server\<close>: \<^verbatim>\<open>protocols/a2a_translate.py\<close>, \<^verbatim>\<open>protocols/a2a.py\<close>. A stream continues the task
    as read, pages are the tasks, and a handler keeps to its agent.
  \<^item> \<open>Runtime\<close>, \<open>Runtime_Inv\<close>, \<open>Runtime_Props\<close>, \<open>Sdk_Link\<close>: the provider SDK: \<^verbatim>\<open>runtime.py\<close>, and \<^verbatim>\<open>identity.py\<close>, \<^verbatim>\<open>provider.py\<close>,
    \<^verbatim>\<open>inprocess.py\<close>, \<^verbatim>\<open>llm/inprocess.py\<close>. Lanes and slots, the fate of every accepted run, and the SDK joined to
    funduq: the link opens on the funduq it pinned and the verdict reaches a run's owner first.
  \<^item> \<open>System\<close>: runtime, link and dispatcher moving together in any order: an agent's words reach the caller, in order, through the
    three queues between them.

  \<^bold>\<open>How code became definitions.\<close> State is passed explicitly: a \<open>store\<close> (the database), a \<open>'w broker\<close>, a \<open>'p facade\<close> around both, a \<open>runtime\<close>. An
  asyncio task runs from one await to the next without another in between, so each such stretch is one
  definition or one step of a relation, and interleaving is the order of steps. Code
  that holds one database session across awaits on nothing else is one definition, unless it touches the rosters in between. Time, minted ids and
  random nonces are arguments.

  \<^bold>\<open>Parameters.\<close> Code outside the repository is an argument, with what is relied on as a hypothesis and a
  concrete instance in a witness: ed25519 and key objects (\<open>ed25519\<close>, \<open>key_lib\<close>), JWT and SHA-256 (\<open>chain_crypto\<close>), HMAC and base64
  (\<open>token_codec\<close>), AG-UI validation (the event library of \<open>Handlers\<close>), pydantic defaults of a validated input (\<open>de_field\<close>),
  Python's \<^verbatim>\<open>str()\<close> of a non-string and the AG-UI dump (\<open>a2a_lib\<close>), protobuf (\<open>card_lib\<close>), request validation of the A2A package,
  an agent's streams and a model's chunks.

  \<^bold>\<open>Bounds.\<close> Walks along parent and child links of stored rows are \<open>partial_function (option)\<close>, so a walk that does not return is
  \<^term>\<open>None\<close>; \<open>lineages_end\<close> shows they return on every store the operations reach. The thread tree is built with the fuel \<open>1 + number
  of threads\<close>, which \<open>get_thread_tree_returns\<close> shows to be enough. A caller walking pages is given as many
  requests as there are tasks, plus one (\<open>pages_are_the_tasks\<close>). Every other recursion is structural or has a measure.

  \<^bold>\<open>Not modelled.\<close> The engine, sessions, Alembic's environment file and schema inspection (database input and output); a database that fails: the
  record handlers' writes are taken to succeed, so what \<^verbatim>\<open>_record\<close> of \<^verbatim>\<open>broker.py\<close> does with an exception is left out; settings
  (arguments of the definitions that use them); key files and key generation; what change subscribers do (a parameter);
  logging; declarative shapes no modelled code reads; scripts and probes, which drive
  a running system and are no part of it.
\<close>

end
